(* ===== verification/Prelude.thy ===== *)
theory Prelude
  imports Main "HOL-Library.Word" "HOL-Library.Sublist"
begin

text \<open>
  Shared vocabulary of the development: the C++ integer types as words, the standard
  exceptions the sources throw as values, results as sums, and the generic lemmas on
  results, lists and words that the component theories share.
\<close>

unbundle bit_operations_syntax

named_theorems res_simps \<open>rewriting of results and of checked standard-library calls\<close>
named_theorems inv_intros \<open>preservation of the component invariants\<close>

type_synonym u8 = "8 word"
type_synonym u32 = "32 word"
type_synonym u64 = "64 word"

section \<open>Exceptions and results\<close>

text \<open>
  The standard exceptions thrown by the sources. \<open>InvalidArgument\<close>, \<open>OutOfRange\<close> and
  \<open>LengthError\<close> derive from \<open>std::logic_error\<close>, not from \<open>std::runtime_error\<close>.
\<close>

datatype exn =
    RuntimeError string
  | InvalidArgument string
  | OutOfRange string
  | LengthError string
  | LogicError string

type_synonym 'a res = "exn + 'a"

definition rbind :: "'a res \<Rightarrow> ('a \<Rightarrow> 'b res) \<Rightarrow> 'b res" where
  "rbind r f = (case r of Inl e \<Rightarrow> Inl e | Inr a \<Rightarrow> f a)"

lemma rbind_simps [simp, res_simps]:
  "rbind (Inl e) f = Inl e"
  "rbind (Inr a) f = f a"
  by (simp_all add: rbind_def)

lemma rbind_eq_Inr [simp, res_simps]:
  "rbind r f = Inr b \<longleftrightarrow> (\<exists>a. r = Inr a \<and> f a = Inr b)"
  by (cases r) (auto simp: rbind_def)

lemma rbind_eq_Inl [simp, res_simps]:
  "rbind r f = Inl e \<longleftrightarrow> r = Inl e \<or> (\<exists>a. r = Inr a \<and> f a = Inl e)"
  by (cases r) (auto simp: rbind_def)

definition throw_if :: "bool \<Rightarrow> exn \<Rightarrow> unit res" where
  "throw_if b e = (if b then Inl e else Inr ())"

lemma throw_if_simps [simp, res_simps]:
  "throw_if True e = Inl e"
  "throw_if False e = Inr ()"
  "throw_if b e = Inr u \<longleftrightarrow> \<not> b"
  "throw_if b e = Inl e' \<longleftrightarrow> b \<and> e' = e"
  by (auto simp: throw_if_def)

section \<open>Strings as byte sequences\<close>

text \<open>
  A \<open>std::string\<close> is a byte sequence; a HOL \<^typ>\<open>char\<close> is one byte. \<open>sv_substr\<close> is
  \<open>std::string_view::substr\<close>: it throws when the position is past the end and clips the
  count.
\<close>

definition byte_of :: "u64 \<Rightarrow> char" where
  "byte_of w = char_of (unat w)"

definition sv_substr :: "string \<Rightarrow> u64 \<Rightarrow> u64 \<Rightarrow> string res" where
  "sv_substr s pos count =
     (if length s < unat pos then Inl (OutOfRange ''string_view::substr'')
      else Inr (take (unat count) (drop (unat pos) s)))"

lemma sv_substr_ok [res_simps]:
  "unat pos \<le> length s \<Longrightarrow> sv_substr s pos count = Inr (take (unat count) (drop (unat pos) s))"
  by (simp add: sv_substr_def)

text \<open>\<open>s.size()\<close>, as the 64-bit value the code computes with.\<close>

definition sz :: "'a list \<Rightarrow> u64" where
  "sz s = of_nat (length s)"

lemma unat_sz: "length s < 2 ^ 64 \<Longrightarrow> unat (sz s) = length s"
  by (simp add: sz_def unat_of_nat)

text \<open>\<open>byte_of\<close> is the narrowing \<open>static_cast<char>\<close>, and \<^const>\<open>of_char\<close> widens back.\<close>

lemma of_char_eq_of_nat: "(of_char c :: u64) = of_nat (of_char c)"
  by (simp add: of_nat_of_char)

lemma of_char_byte_of: "(of_char (byte_of w) :: u64) = take_bit 8 w"
proof -
  have "(of_char (byte_of w) :: u64) = of_nat (unat w mod 256)"
    by (simp add: of_char_eq_of_nat byte_of_def)
  also have "\<dots> = of_nat (take_bit 8 (unat w))"
    by (simp add: take_bit_eq_mod)
  also have "\<dots> = take_bit 8 (of_nat (unat w))"
    by (simp only: take_bit_of_nat)
  finally show ?thesis by simp
qed

lemma unat_of_char: "unat (of_char c :: u64) = of_char c"
proof -
  have "(of_char c :: nat) mod 2 ^ 64 = of_char c"
    by (rule mod_less, rule less_trans [OF nat_of_char_less_256]) simp
  then show ?thesis by (simp add: of_char_eq_of_nat unat_of_nat)
qed

lemma byte_of_of_char [simp]: "byte_of (of_char c) = c"
  by (simp add: byte_of_def unat_of_char)

lemma byte_of_cong: "take_bit 8 v = take_bit 8 w \<Longrightarrow> byte_of v = byte_of w"
  by (metis of_char_byte_of byte_of_of_char)

section \<open>Numbers as text\<close>

text \<open>
  Numbers as the formatting library prints them: \<open>hex_nat\<close> is the format \<open>{:x}\<close>, \<open>pad_hex w\<close> is
  \<open>{:0wx}\<close> and \<open>dec_nat\<close> is \<open>{}\<close> of an unsigned value.
\<close>

definition hex_digit :: "nat \<Rightarrow> char" where
  "hex_digit d = ''0123456789abcdef'' ! d"

fun hex_nat :: "nat \<Rightarrow> string" where
  "hex_nat n = (if n < 16 then [hex_digit n] else hex_nat (n div 16) @ [hex_digit (n mod 16)])"

declare hex_nat.simps [simp del]

definition pad_hex :: "nat \<Rightarrow> nat \<Rightarrow> string" where
  "pad_hex w n = replicate (w - length (hex_nat n)) (CHR ''0'') @ hex_nat n"

definition dec_digit :: "nat \<Rightarrow> char" where
  "dec_digit d = ''0123456789'' ! d"

fun dec_nat :: "nat \<Rightarrow> string" where
  "dec_nat n = (if n < 10 then [dec_digit n] else dec_nat (n div 10) @ [dec_digit (n mod 10)])"

declare dec_nat.simps [simp del]

lemma hex_digit_inj: "a < 16 \<Longrightarrow> b < 16 \<Longrightarrow> hex_digit a = hex_digit b \<longleftrightarrow> a = b"
  unfolding hex_digit_def by (subst nth_eq_iff_index_eq) simp_all

lemma hex_nat_nonempty [simp]: "hex_nat n \<noteq> []" "[] \<noteq> hex_nat n"
  by (subst hex_nat.simps, simp)+

lemma hex_nat_inj: "hex_nat n = hex_nat m \<Longrightarrow> n = m"
proof (induction n arbitrary: m rule: hex_nat.induct)
  case (1 n)
  consider "n < 16" "m < 16" | "n < 16" "16 \<le> m" | "16 \<le> n" "m < 16" | "16 \<le> n" "16 \<le> m"
    by linarith
  then show ?case
  proof cases
    case 1
    then show ?thesis using "1.prems" by (simp add: hex_nat.simps [of n] hex_nat.simps [of m] hex_digit_inj)
  next
    case 4
    then have eq: "hex_nat (n div 16) = hex_nat (m div 16)" "hex_digit (n mod 16) = hex_digit (m mod 16)"
      using "1.prems" by (simp_all add: hex_nat.simps [of n] hex_nat.simps [of m])
    have "n div 16 = m div 16" using "1.IH" [OF _ eq(1)] 4 by simp
    moreover have "n mod 16 = m mod 16" using eq(2) by (simp add: hex_digit_inj)
    ultimately show ?thesis by (metis div_mult_mod_eq)
  qed (use "1.prems" in \<open>simp_all add: hex_nat.simps [of n] hex_nat.simps [of m]\<close>)
qed

lemma hex_nat_chars: "set (hex_nat n) \<subseteq> set ''0123456789abcdef''"
proof (induction n rule: hex_nat.induct)
  case (1 n)
  have d: "hex_digit d \<in> set ''0123456789abcdef''" if "d < 16" for d
    unfolding hex_digit_def using that by (intro nth_mem) simp
  show ?case
  proof (cases "n < 16")
    case True
    then show ?thesis using d by (simp add: hex_nat.simps [of n])
  next
    case False
    then show ?thesis using 1 d [of "n mod 16"] by (simp add: hex_nat.simps [of n])
  qed
qed

lemma hex_nat_length: "n < 16 ^ Suc k \<Longrightarrow> length (hex_nat n) \<le> Suc k"
proof (induction k arbitrary: n)
  case 0
  then show ?case by (simp add: hex_nat.simps [of n])
next
  case (Suc k)
  then have "n div 16 < 16 ^ Suc k" by (simp add: div_less_iff_less_mult)
  from Suc.IH [OF this] show ?case by (simp add: hex_nat.simps [of n])
qed

lemma length_pad_hex: "n < 16 ^ w \<Longrightarrow> 0 < w \<Longrightarrow> length (pad_hex w n) = w"
  using hex_nat_length [of n "w - 1"] by (cases w) (simp_all add: pad_hex_def)

lemma dec_nat_nonempty [simp]: "dec_nat n \<noteq> []" "[] \<noteq> dec_nat n"
  by (subst dec_nat.simps, simp)+

lemma dec_nat_chars: "set (dec_nat n) \<subseteq> set ''0123456789''"
proof (induction n rule: dec_nat.induct)
  case (1 n)
  have d: "dec_digit d \<in> set ''0123456789''" if "d < 10" for d
    unfolding dec_digit_def using that by (intro nth_mem) simp
  show ?case
  proof (cases "n < 10")
    case True
    then show ?thesis using d by (simp add: dec_nat.simps [of n])
  next
    case False
    then show ?thesis using 1 d [of "n mod 10"] by (simp add: dec_nat.simps [of n])
  qed
qed

end
