(* ===== verification/Codec.thy ===== *)
theory Codec
  imports Prelude
begin

text \<open>
  The two-part frame codec of \<^verbatim>\<open>transports/codec.{h,cpp}\<close> and the frame layer on top of it:
  \<^verbatim>\<open>Socket::read_frame\<close>/\<^verbatim>\<open>write_frame\<close> of \<^verbatim>\<open>transports/socket.cpp\<close>. A connection's
  inbound direction is the byte sequence still to be received; a read that needs more
  bytes than are left sees end of file.
\<close>

section \<open>Messages and the prelude\<close>

record TwoPartMessage =
  header :: string
  data :: string

definition from_header :: "string \<Rightarrow> TwoPartMessage" where
  "from_header h = \<lparr>header = h, data = []\<rparr>"

definition from_data :: "string \<Rightarrow> TwoPartMessage" where
  "from_data d = \<lparr>header = [], data = d\<rparr>"

definition from_parts :: "string \<Rightarrow> string \<Rightarrow> TwoPartMessage" where
  "from_parts h d = \<lparr>header = h, data = d\<rparr>"

definition has_header :: "TwoPartMessage \<Rightarrow> bool" where
  "has_header m \<longleftrightarrow> header m \<noteq> []"

definition has_data :: "TwoPartMessage \<Rightarrow> bool" where
  "has_data m \<longleftrightarrow> data m \<noteq> []"

definition kPreludeSize :: u64 where
  "kPreludeSize = 24"

definition put_u64 :: "string \<Rightarrow> u64 \<Rightarrow> string" where
  "put_u64 out v =
     fold (\<lambda>i out. out @ [byte_of (drop_bit (i * 8) v AND 255)]) (rev [0..<8]) out"

definition get_u64 :: "string \<Rightarrow> u64" where
  "get_u64 p = fold (\<lambda>c v. push_bit 8 v OR of_char c) (take 8 p) 0"

definition mix :: "string \<Rightarrow> u64 \<Rightarrow> u64" where
  "mix s h = fold (\<lambda>c h. (h XOR of_char c) * 0x100000001b3) s h"

definition checksum :: "string \<Rightarrow> string \<Rightarrow> u64" where
  "checksum hdr dat = mix dat (mix hdr 0xcbf29ce484222325)"

definition encode :: "u64 option \<Rightarrow> TwoPartMessage \<Rightarrow> string res" where
  "encode max_message_size msg =
     (let total = kPreludeSize + sz (header msg) + sz (data msg) in
      rbind (throw_if (case max_message_size of None \<Rightarrow> False | Some lim \<Rightarrow> total > lim)
               (LengthError ''two-part message exceeds max size''))
        (\<lambda>_. let out = put_u64 [] (sz (header msg));
                 out = put_u64 out (sz (data msg));
                 out = put_u64 out (checksum (header msg) (data msg))
             in Inr (out @ header msg @ data msg)))"

definition decode :: "string \<Rightarrow> TwoPartMessage res" where
  "decode buffer =
     rbind (throw_if (sz buffer < kPreludeSize) (RuntimeError ''two-part message truncated prelude''))
       (\<lambda>_. let header_len = get_u64 buffer;
                body_len = get_u64 (drop 8 buffer);
                expected = get_u64 (drop 16 buffer)
            in rbind (throw_if (sz buffer \<noteq> kPreludeSize + header_len + body_len)
                        (RuntimeError ''two-part message length mismatch''))
              (\<lambda>_. rbind (sv_substr buffer kPreludeSize header_len)
                (\<lambda>h. rbind (sv_substr buffer (kPreludeSize + header_len) body_len)
                  (\<lambda>d. rbind (throw_if (checksum h d \<noteq> expected)
                          (RuntimeError ''two-part message checksum mismatch''))
                    (\<lambda>_. Inr \<lparr>header = h, data = d\<rparr>)))))"

section \<open>Frames on a connection\<close>

text \<open>
  \<open>read_exact n inp\<close> consumes \<open>n\<close> bytes or fails at end of file. The result of
  \<open>read_frame\<close> is an exception, or \<open>None\<close> at a closed connection, or a frame with the
  bytes left to receive.
\<close>

definition read_exact :: "nat \<Rightarrow> string \<Rightarrow> (string \<times> string) option" where
  "read_exact n inp = (if n \<le> length inp then Some (take n inp, drop n inp) else None)"

definition read_frame :: "u64 \<Rightarrow> string \<Rightarrow> (TwoPartMessage \<times> string) option res" where
  "read_frame max_frame_bytes inp =
     (case read_exact (unat kPreludeSize) inp of
        None \<Rightarrow> Inr None
      | Some (prelude, inp) \<Rightarrow>
          let header_len = get_u64 prelude;
              body_len = get_u64 (drop 8 prelude)
          in if header_len + body_len > max_frame_bytes then Inl (RuntimeError ''frame too large'')
             else case read_exact (unat (header_len + body_len)) inp of
                    None \<Rightarrow> Inl (RuntimeError ''connection closed mid-frame'')
                  | Some (rest, inp) \<Rightarrow>
                      rbind (decode (prelude @ rest)) (\<lambda>m. Inr (Some (m, inp))))"

definition write_frame :: "TwoPartMessage \<Rightarrow> string \<Rightarrow> string res" where
  "write_frame msg out = rbind (encode None msg) (\<lambda>b. Inr (out @ b))"

section \<open>The big-endian length fields\<close>

text \<open>\<open>be k v\<close>: the low \<open>k\<close> bytes of \<open>v\<close>, most significant first.\<close>

definition be :: "nat \<Rightarrow> u64 \<Rightarrow> string" where
  "be k v = map (\<lambda>i. byte_of (drop_bit (i * 8) v)) (rev [0..<k])"

definition shift_in :: "char \<Rightarrow> u64 \<Rightarrow> u64" where
  "shift_in c v = push_bit 8 v OR of_char c"

lemma length_be [simp]: "length (be k v) = k"
  by (simp add: be_def)

lemma be_Suc: "be (Suc k) v = byte_of (drop_bit (k * 8) v) # be k v"
  by (simp add: be_def)

lemma byte_of_mask: "byte_of (w AND 255) = byte_of w"
proof (rule byte_of_cong)
  have "(255 :: u64) = mask 8" by (simp add: mask_eq_exp_minus_1)
  then have "w AND 255 = take_bit 8 w" by (simp only: take_bit_eq_mask)
  then show "take_bit 8 (w AND 255) = take_bit 8 w" by simp
qed

lemma put_u64_be: "put_u64 out v = out @ be 8 v"
proof -
  have "fold (\<lambda>i out. out @ [f i]) is out = out @ map f is" for f :: "nat \<Rightarrow> char" and "is" out
    by (induction "is" arbitrary: out) auto
  then show ?thesis by (simp add: put_u64_def be_def byte_of_mask del: upt_rec_numeral)
qed

lemma get_u64_shift: "get_u64 p = fold shift_in (take 8 p) 0"
  by (simp add: get_u64_def shift_in_def [abs_def])

lemma fold_shift_be:
  "fold shift_in (be k v) acc = push_bit (8 * k) acc OR take_bit (8 * k) v"
proof (induction k arbitrary: acc)
  case 0
  show ?case by (simp add: be_def)
next
  case (Suc k)
  have "fold shift_in (be (Suc k) v) acc
      = push_bit (8 * k) (push_bit 8 acc OR take_bit 8 (drop_bit (k * 8) v)) OR take_bit (8 * k) v"
    by (simp add: be_Suc Suc.IH shift_in_def of_char_byte_of)
  also have "\<dots> = push_bit (8 * Suc k) acc OR take_bit (8 * Suc k) v"
    by (rule bit_word_eqI) (auto simp: bit_simps algebra_simps)
  finally show ?case .
qed

lemma get_put_u64 [simp]: "get_u64 (be 8 v @ rest) = v"
proof -
  have "take_bit 64 v = v" by (rule bit_word_eqI) (simp add: bit_simps)
  then show ?thesis by (simp add: get_u64_shift fold_shift_be)
qed

lemma be_low:
  assumes "take_bit (8 * k) v = take_bit (8 * k) w"
  shows "be k v = be k w"
proof -
  have "byte_of (drop_bit (i * 8) v) = byte_of (drop_bit (i * 8) w)" if "i < k" for i
  proof (rule byte_of_cong, rule bit_word_eqI)
    fix n assume "n < LENGTH(64)"
    have "bit v m = bit w m" if "m < 8 * k" for m
      using arg_cong [OF assms, of "\<lambda>x. bit x m"] that by (auto simp: bit_simps)
    then show "bit (take_bit 8 (drop_bit (i * 8) v)) n = bit (take_bit 8 (drop_bit (i * 8) w)) n"
      using \<open>i < k\<close> by (auto simp: bit_simps)
  qed
  then show ?thesis by (simp add: be_def)
qed

lemma be_shift_in:
  assumes "k < 8"
  shows "be (Suc k) (shift_in c v) = be k v @ [c]"
proof -
  have c_bits: "bit (of_char c :: u64) n \<Longrightarrow> n < 8" for n
    by (metis bit_take_bit_iff byte_of_of_char of_char_byte_of)
  have low: "byte_of (shift_in c v) = c"
  proof -
    have "take_bit 8 (shift_in c v) = take_bit 8 (of_char c)"
      by (rule bit_word_eqI) (auto simp: shift_in_def bit_simps)
    then show ?thesis using byte_of_cong byte_of_of_char by metis
  qed
  have high: "byte_of (drop_bit (Suc i * 8) (shift_in c v)) = byte_of (drop_bit (i * 8) v)"
    if "i < k" for i
  proof (rule byte_of_cong, rule bit_word_eqI)
    fix n assume n: "n < LENGTH(64)"
    show "bit (take_bit 8 (drop_bit (Suc i * 8) (shift_in c v))) n
        = bit (take_bit 8 (drop_bit (i * 8) v)) n"
      using that assms c_bits [of "n + (8 + i * 8)"]
      by (auto simp: shift_in_def bit_simps add.commute dest: bit_imp_le_length)
  qed
  have "rev [0..<Suc k] = map Suc (rev [0..<k]) @ [0]"
    by (simp only: rev_map [symmetric] map_Suc_upt upt_rec [of 0 "Suc k"]) simp
  then show ?thesis using high low by (auto simp: be_def)
qed

lemma be_fold_shift: "length cs \<le> 8 \<Longrightarrow> be (length cs) (fold shift_in cs v) = cs"
proof (induction cs arbitrary: v rule: rev_induct)
  case Nil
  show ?case by (simp add: be_def)
next
  case (snoc c cs)
  then show ?case by (simp add: be_shift_in)
qed

lemma put_get_u64: "8 \<le> length p \<Longrightarrow> be 8 (get_u64 p) = take 8 p"
  using be_fold_shift [of "take 8 p"] by (simp add: get_u64_shift)

section \<open>Round trips of the codec\<close>

lemma kPrelude_nat [simp]: "unat kPreludeSize = 24"
  by (simp add: kPreludeSize_def)

lemma prelude_size_ok: "24 \<le> length b \<Longrightarrow> length b < 2 ^ 64 \<Longrightarrow> \<not> sz b < kPreludeSize"
  by (simp add: word_less_nat_alt unat_sz)

text \<open>The bytes \<open>encode\<close> emits when it does not throw.\<close>

definition wire :: "TwoPartMessage \<Rightarrow> string" where
  "wire m = be 8 (sz (header m)) @ be 8 (sz (data m)) @ be 8 (checksum (header m) (data m))
     @ header m @ data m"

lemma length_wire [simp]: "length (wire m) = 24 + length (header m) + length (data m)"
  by (simp add: wire_def)

lemma encode_wire: "encode lim m = Inr b \<Longrightarrow> b = wire m"
  by (auto simp: encode_def Let_def put_u64_be wire_def)

lemma encode_None [simp]: "encode None m = Inr (wire m)"
  by (simp add: encode_def Let_def put_u64_be wire_def)

lemma wire_fields:
  "get_u64 (wire m @ r) = sz (header m)"
  "get_u64 (drop 8 (wire m @ r)) = sz (data m)"
  "get_u64 (drop 16 (wire m @ r)) = checksum (header m) (data m)"
  by (simp_all add: wire_def)

lemma sz_add: "sz xs + sz ys = sz (xs @ ys)"
  by (simp add: sz_def)

lemma unat_prelude_header:
  assumes "length (wire m) < 2 ^ 64"
  shows "unat (kPreludeSize + sz (header m)) = 24 + length (header m)"
proof -
  have "kPreludeSize + sz (header m) = of_nat (24 + length (header m))"
    by (simp add: kPreludeSize_def sz_def)
  then show ?thesis using assms by (simp add: unat_of_nat del: of_nat_add)
qed

lemma decode_wire:
  assumes "length (wire m) < 2 ^ 64"
  shows "decode (wire m) = Inr m"
proof -
  have lens: "unat (sz (header m)) = length (header m)" "unat (sz (data m)) = length (data m)"
    using assms by (simp_all add: unat_sz)
  have total: "sz (wire m) = kPreludeSize + sz (header m) + sz (data m)"
    by (simp add: sz_def kPreludeSize_def)
  have ok: "\<not> sz (wire m) < kPreludeSize"
    using assms by (simp only: prelude_size_ok length_wire) simp
  have parts: "drop 24 (wire m) = header m @ data m"
    "drop (24 + length (header m)) (wire m) = data m"
    by (simp_all add: wire_def)
  show ?thesis
    using assms wire_fields [of m "[]"]
    by (simp add: decode_def Let_def ok [unfolded total] total sv_substr_def lens parts
        unat_prelude_header)
qed

text \<open>C1. Encoding then decoding is the identity: for every message (that fits the 64-bit size
  type) that \<open>encode\<close> accepts under any size limit, \<open>decode\<close> of the bytes it produced
  returns exactly that message.
\<close>

theorem decode_encode:
  assumes "encode lim m = Inr b"
    and "24 + length (header m) + length (data m) < 2 ^ 64"
  shows "decode b = Inr m"
  using decode_wire [of m] encode_wire [OF assms(1)] assms(2) by simp

theorem decode_encode_witness:
  "decode (wire (from_parts ''hd'' ''body'')) = Inr (from_parts ''hd'' ''body'')"
  by (rule decode_encode [where lim = None]) (simp_all add: from_parts_def)

text \<open>
  The prelude of a buffer is canonical when its two length fields do not overflow the
  64-bit sum that \<open>decode\<close> compares with the buffer's size.
\<close>

definition no_wrap :: "string \<Rightarrow> bool" where
  "no_wrap b \<longleftrightarrow> 24 + unat (get_u64 b) + unat (get_u64 (drop 8 b)) < 2 ^ 64"

lemma decode_elim:
  assumes "decode b = Inr m"
  obtains "\<not> sz b < kPreludeSize"
    and "sz b = kPreludeSize + get_u64 b + get_u64 (drop 8 b)"
    and "sv_substr b kPreludeSize (get_u64 b) = Inr (header m)"
    and "sv_substr b (kPreludeSize + get_u64 b) (get_u64 (drop 8 b)) = Inr (data m)"
    and "get_u64 (drop 16 b) = checksum (header m) (data m)"
  using assms by (auto simp: decode_def Let_def)

lemma no_wrap_unat:
  assumes "no_wrap b"
  shows "unat (kPreludeSize + get_u64 b) = 24 + unat (get_u64 b)"
    and "unat (kPreludeSize + get_u64 b + get_u64 (drop 8 b))
       = 24 + unat (get_u64 b) + unat (get_u64 (drop 8 b))"
proof -
  have "kPreludeSize + get_u64 b = of_nat (24 + unat (get_u64 b))"
    and "kPreludeSize + get_u64 b + get_u64 (drop 8 b)
       = of_nat (24 + unat (get_u64 b) + unat (get_u64 (drop 8 b)))"
    by (simp_all add: kPreludeSize_def)
  with assms show "unat (kPreludeSize + get_u64 b) = 24 + unat (get_u64 b)"
    and "unat (kPreludeSize + get_u64 b + get_u64 (drop 8 b))
       = 24 + unat (get_u64 b) + unat (get_u64 (drop 8 b))"
    by (simp_all add: no_wrap_def unat_of_nat del: of_nat_add)
qed

lemma drop_split: "take k (drop n b) @ drop (n + k) b = drop n b"
  by (metis append_take_drop_id drop_drop add.commute)

lemma prelude_split:
  assumes "24 \<le> length b"
  shows "be 8 (get_u64 b) @ be 8 (get_u64 (drop 8 b)) @ be 8 (get_u64 (drop 16 b)) @ drop 24 b = b"
proof -
  have "take 8 b @ take 8 (drop 8 b) @ take 8 (drop 16 b) @ drop 24 b = b"
    using drop_split [of 8 0 b] drop_split [of 8 8 b] drop_split [of 8 16 b] by simp
  then show ?thesis using assms by (simp add: put_get_u64)
qed

text \<open>C2. Decoding accepts only what \<open>encode\<close> writes: when the length fields of the buffer do
  not overflow, a successful \<open>decode\<close> means that the buffer is, byte for byte, the encoding
  of the returned message; nothing is accepted with surplus, missing or reordered bytes.
\<close>

theorem decode_canonical:
  assumes dec: "decode b = Inr m"
    and size: "length b < 2 ^ 64" and nw: "no_wrap b"
  shows "encode None m = Inr b"
proof -
  let ?h = "get_u64 b" and ?d = "get_u64 (drop 8 b)"
  from dec obtain
        pre: "\<not> sz b < kPreludeSize"
    and tot: "sz b = kPreludeSize + ?h + ?d"
    and hd: "sv_substr b kPreludeSize ?h = Inr (header m)"
    and dt: "sv_substr b (kPreludeSize + ?h) ?d = Inr (data m)"
    and ck: "get_u64 (drop 16 b) = checksum (header m) (data m)"
    by (rule decode_elim)
  have "unat (sz b) = 24 + unat ?h + unat ?d"
    by (simp only: tot no_wrap_unat(2) [OF nw])
  then have len: "length b = 24 + unat ?h + unat ?d"
    by (simp only: unat_sz [OF size])
  have "unat kPreludeSize \<le> length b" "unat (kPreludeSize + ?h) \<le> length b"
    unfolding no_wrap_unat(1) [OF nw] kPrelude_nat using len by linarith+
  from sv_substr_ok [OF this(1), of ?h] sv_substr_ok [OF this(2), of ?d]
  have h: "header m = take (unat ?h) (drop 24 b)"
    and d: "data m = take (unat ?d) (drop (24 + unat ?h) b)"
    unfolding hd dt no_wrap_unat(1) [OF nw] kPrelude_nat by (simp_all only: sum.inject)
  have "length (drop (24 + unat ?h) b) \<le> unat ?d"
    unfolding length_drop using len by linarith
  then have "data m = drop (24 + unat ?h) b"
    unfolding d by (rule take_all)
  then have body: "header m @ data m = drop 24 b"
    by (simp only: h drop_split)
  have "length (header m) = unat ?h" "length (data m) = unat ?d"
    unfolding h d length_take length_drop using len by linarith+
  then have "sz (header m) = ?h" "sz (data m) = ?d"
    by (simp_all add: sz_def)
  then have "wire m = be 8 ?h @ be 8 ?d @ be 8 (get_u64 (drop 16 b)) @ drop 24 b"
    by (simp only: wire_def body ck)
  also have "\<dots> = b"
    by (rule prelude_split) (use len in linarith)
  finally show ?thesis by simp
qed

theorem decode_canonical_witness:
  "decode (wire (from_parts ''a'' ''bc'')) = Inr (from_parts ''a'' ''bc'')
   \<and> encode None (from_parts ''a'' ''bc'') = Inr (wire (from_parts ''a'' ''bc''))"
proof -
  have dec: "decode (wire (from_parts ''a'' ''bc'')) = Inr (from_parts ''a'' ''bc'')"
    by (rule decode_wire) (simp add: from_parts_def)
  have nw: "no_wrap (wire (from_parts ''a'' ''bc''))"
    using wire_fields [of "from_parts ''a'' ''bc''" "[]"]
    by (simp add: no_wrap_def from_parts_def sz_def)
  show ?thesis
    using dec decode_canonical [OF dec _ nw] by (simp add: from_parts_def)
qed

text \<open>
  Without \<^const>\<open>no_wrap\<close> the check of the lengths is too weak: the sum
  \<open>kPreludeSize + header_len + body_len\<close> wraps around. The 25-byte frame below claims a
  header of \<open>2\<^sup>6\<^sup>4 - 2\<close> bytes and a body of 3, passes the length and checksum checks, and
  decodes to a message whose encoding is another, longer frame; with other lengths the
  second \<open>substr\<close> throws \<open>std::out_of_range\<close> where a \<open>std::runtime_error\<close> is promised.
\<close>

definition wrapping_frame :: string where
  "wrapping_frame = be 8 (- 2) @ be 8 3 @ be 8 0x160a717dcb885ff0 @ [CHR 0x00]"

lemma nat_25_28: "(25 :: nat) \<noteq> 28"
  by simp

lemma wrapping_frame_fields:
  "length wrapping_frame = 25"
  "get_u64 wrapping_frame = - 2"
  "get_u64 (drop 8 wrapping_frame) = 3"
  "get_u64 (drop 16 wrapping_frame) = 0x160a717dcb885ff0"
  "drop 24 wrapping_frame = [CHR 0x00]"
  by (simp_all add: wrapping_frame_def)

lemma be_low_bytes: "drop 6 (be 8 v) = [byte_of (drop_bit 8 v), byte_of v]"
  by (simp add: be_def upt_rec)

lemma wrapping_frame_tail: "drop 22 wrapping_frame = [CHR 0x5F, CHR 0xF0, CHR 0x00]"
proof -
  have "drop 22 wrapping_frame = drop 6 (be 8 0x160a717dcb885ff0) @ [CHR 0x00]"
    by (simp add: wrapping_frame_def)
  also have "\<dots> = [CHR 0x5F, CHR 0xF0, CHR 0x00]"
    by (simp add: be_low_bytes byte_of_def char_of_def)
  finally show ?thesis .
qed

text \<open>The length check of \<open>decode\<close> is not a check of the lengths: the sum of the length
  fields wraps at 64 bits, so the 25 byte buffer \<open>wrapping_frame\<close> is accepted although it is
  not the encoding of the message it decodes to.\<close>

lemma decode_length_wraps:
  "decode wrapping_frame
     = Inr \<lparr>header = [CHR 0x00], data = [CHR 0x5F, CHR 0xF0, CHR 0x00]\<rparr> \<and>
   encode None \<lparr>header = [CHR 0x00], data = [CHR 0x5F, CHR 0xF0, CHR 0x00]\<rparr>
     \<noteq> Inr wrapping_frame"
proof
  have "sv_substr wrapping_frame kPreludeSize (- 2) = Inr [CHR 0x00]"
    by (simp add: sv_substr_def wrapping_frame_fields)
  moreover have "sv_substr wrapping_frame (kPreludeSize + - 2) 3
      = Inr [CHR 0x5F, CHR 0xF0, CHR 0x00]"
    by (simp add: sv_substr_def wrapping_frame_fields wrapping_frame_tail kPreludeSize_def)
  moreover have "checksum [CHR 0x00] [CHR 0x5F, CHR 0xF0, CHR 0x00] = 0x160a717dcb885ff0"
    by (simp add: checksum_def mix_def)
  moreover have "sz wrapping_frame = 25"
    by (simp add: sz_def wrapping_frame_fields)
  ultimately show "decode wrapping_frame
      = Inr \<lparr>header = [CHR 0x00], data = [CHR 0x5F, CHR 0xF0, CHR 0x00]\<rparr>"
    by (simp add: decode_def Let_def wrapping_frame_fields kPreludeSize_def)
  have "length (wire \<lparr>header = [CHR 0x00], data = [CHR 0x5F, CHR 0xF0, CHR 0x00]\<rparr>) = 28"
    by simp
  then show "encode None \<lparr>header = [CHR 0x00], data = [CHR 0x5F, CHR 0xF0, CHR 0x00]\<rparr>
      \<noteq> Inr wrapping_frame"
    using wrapping_frame_fields(1) by (metis encode_None nat_25_28 sum.inject(2))
qed

section \<open>Frames on a connection, continued\<close>

lemma read_exact_append: "length p = n \<Longrightarrow> read_exact n (p @ r) = Some (p, r)"
  by (simp add: read_exact_def)

definition frame_fits :: "u64 \<Rightarrow> TwoPartMessage \<Rightarrow> bool" where
  "frame_fits lim m \<longleftrightarrow>
     24 + length (header m) + length (data m) < 2 ^ 64 \<and>
     length (header m) + length (data m) \<le> unat lim"

lemma read_frame_wire:
  assumes "frame_fits lim m"
  shows "read_frame lim (wire m @ r) = Inr (Some (m, r))"
proof -
  let ?p = "be 8 (sz (header m)) @ be 8 (sz (data m)) @ be 8 (checksum (header m) (data m))"
  have w: "wire m = ?p @ header m @ data m" by (simp add: wire_def)
  have n: "unat (sz (header m) + sz (data m)) = length (header m @ data m)"
    using assms unat_sz [of "header m @ data m"] by (simp add: sz_add frame_fits_def)
  have small: "\<not> sz (header m) + sz (data m) > lim"
    using assms n by (simp add: word_less_nat_alt frame_fits_def)
  have dec: "decode (?p @ header m @ data m) = Inr m"
    using decode_wire [of m] assms w by (simp add: frame_fits_def)
  have r1: "read_exact (unat kPreludeSize) (wire m @ r) = Some (?p, (header m @ data m) @ r)"
    by (simp add: w read_exact_def)
  have r2: "read_exact (length (header m @ data m)) ((header m @ data m) @ r)
      = Some (header m @ data m, r)"
    by (rule read_exact_append) simp
  have f: "get_u64 ?p = sz (header m)" "get_u64 (drop 8 ?p) = sz (data m)"
    using get_put_u64 by (simp_all add: get_put_u64 [of _ "[]", simplified])
  show ?thesis
    unfolding read_frame_def r1 by (simp add: f small n r2 dec del: length_append append_assoc)
qed

section \<open>Reading a stream of frames\<close>

text \<open>A connection carries one frame after another.  The interface a frame format promises is
  that the reader takes exactly one emitted message off the front of the stream.  Every
  self-delimiting format gives the loop over the stream: reading frames until the peer closes
  returns the messages that were written, in order, and consumes the stream.\<close>

fun read_all :: "(string \<Rightarrow> ('m \<times> string) option res) \<Rightarrow> nat \<Rightarrow> string \<Rightarrow> 'm list res" where
  "read_all rd 0 s = Inr []"
| "read_all rd (Suc n) s =
     rbind (rd s) (\<lambda>r. case r of
        None \<Rightarrow> Inr []
      | Some (m, rest) \<Rightarrow> rbind (read_all rd n rest) (\<lambda>ms. Inr (m # ms)))"

locale framing =
  fixes emit :: "'m \<Rightarrow> string"
    and rd :: "string \<Rightarrow> ('m \<times> string) option res"
    and fits :: "'m \<Rightarrow> bool"
  assumes rd_emit: "fits m \<Longrightarrow> rd (emit m @ rest) = Inr (Some (m, rest))"
    and rd_nil: "rd [] = Inr None"
begin

lemma read_all_prefix:
  "\<forall>m \<in> set ms. fits m \<Longrightarrow>
     read_all rd (length ms + n) (concat (map emit ms) @ rest)
       = rbind (read_all rd n rest) (\<lambda>ms'. Inr (ms @ ms'))"
  by (cases "read_all rd n rest"; induction ms) (simp_all add: rd_emit)

lemma read_all_stream:
  assumes "\<forall>m \<in> set ms. fits m" and "length ms \<le> n"
  shows "read_all rd n (concat (map emit ms)) = Inr ms"
proof -
  obtain k where n: "n = length ms + k" using assms(2) le_Suc_ex by blast
  have "read_all rd k [] = Inr []" by (cases k) (simp_all add: rd_nil)
  then show ?thesis using read_all_prefix [OF assms(1), of k "[]"] by (simp add: n)
qed

lemma emit_inject:
  assumes "fits a" "fits b" "emit a @ r = emit b @ r'"
  shows "a = b \<and> r = r'"
proof -
  have "Inr (Some (a, r)) = rd (emit a @ r)" by (rule rd_emit [OF assms(1), symmetric])
  also have "\<dots> = Inr (Some (b, r'))" unfolding assms(3) by (rule rd_emit [OF assms(2)])
  finally show ?thesis by simp
qed

end

lemma read_frame_Nil: "read_frame lim [] = Inr None"
  by (simp add: read_frame_def read_exact_def kPreludeSize_def)

interpretation frames: framing wire "read_frame lim" "frame_fits lim" for lim
  by unfold_locales (simp_all add: read_frame_wire read_frame_Nil)

fun write_frames :: "TwoPartMessage list \<Rightarrow> string \<Rightarrow> string res" where
  "write_frames [] out = Inr out"
| "write_frames (m # ms) out = rbind (write_frame m out) (write_frames ms)"

lemma write_frames_wire: "write_frames ms out = Inr (out @ concat (map wire ms))"
  by (induction ms arbitrary: out) (simp_all add: write_frame_def)

text \<open>C3.  Whatever sequence of messages one side of a connection writes with
  \<^const>\<open>write_frame\<close>, the loop over \<^const>\<open>read_frame\<close> on the other side returns exactly that
  sequence and then sees the end of the stream, provided every message is within the reader's
  frame limit.\<close>

theorem read_frames_write_frames:
  assumes "\<forall>m \<in> set ms. frame_fits lim m" and "length ms \<le> n"
  shows "rbind (write_frames ms []) (read_all (read_frame lim) n) = Inr ms"
  using frames.read_all_stream [OF assms] by (simp add: write_frames_wire)

theorem read_frames_write_frames_witness:
  "rbind (write_frames [from_parts ''h'' ''d'', from_header ''x'', from_data ''yz''] [])
     (read_all (read_frame 0x10000000) 4)
   = Inr [from_parts ''h'' ''d'', from_header ''x'', from_data ''yz'']"
  by (rule read_frames_write_frames)
     (simp_all add: frame_fits_def from_parts_def from_header_def from_data_def)

text \<open>The limit is enforced before the body is awaited: whatever bytes arrive, an accepted frame
  takes its 24 byte prelude and at most \<open>lim\<close> further bytes off the connection.  So each
  iteration of the loop makes progress, and as much fuel as there are bytes always suffices.\<close>

lemma read_exact_Some: "read_exact n s = Some (p, r) \<Longrightarrow> s = p @ r \<and> length p = n"
  by (auto simp: read_exact_def split: if_splits)

lemma read_frame_consumes:
  assumes "read_frame lim inp = Inr (Some (m, rest))"
  shows "\<exists>used. inp = used @ rest \<and> 24 \<le> length used \<and> length used \<le> 24 + unat lim"
proof -
  obtain p r1 b where a: "read_exact 24 inp = Some (p, r1)"
      and b: "read_exact (unat (get_u64 p + get_u64 (drop 8 p))) r1 = Some (b, rest)"
      and c: "get_u64 p + get_u64 (drop 8 p) \<le> lim"
    using assms
    by (auto simp: read_frame_def kPreludeSize_def Let_def not_less rbind_eq_Inr
        split: option.splits if_splits)
  have "inp = (p @ b) @ rest" "length (p @ b) = 24 + unat (get_u64 p + get_u64 (drop 8 p))"
    using read_exact_Some [OF a] read_exact_Some [OF b] by simp_all
  moreover have "unat (get_u64 p + get_u64 (drop 8 p)) \<le> unat lim"
    using c by (simp add: word_le_nat_alt)
  ultimately show ?thesis by (metis le_add1 nat_add_left_cancel_le)
qed

lemma read_all_fuel:
  assumes "length inp \<le> n" "length inp \<le> k"
  shows "read_all (read_frame lim) (Suc n) inp = read_all (read_frame lim) (Suc k) inp"
  using assms
proof (induction n arbitrary: inp k)
  case 0
  then show ?case by (simp add: read_frame_Nil)
next
  case (Suc n)
  show ?case
  proof (cases "\<exists>m rest. read_frame lim inp = Inr (Some (m, rest))")
    case False
    then show ?thesis by (auto simp: rbind_def split: sum.splits option.splits)
  next
    case True
    then obtain m rest where r: "read_frame lim inp = Inr (Some (m, rest))" by blast
    then have l: "length rest + 24 \<le> length inp" using read_frame_consumes by fastforce
    then obtain k' where k: "k = Suc k'" using Suc.prems by (cases k) auto
    show ?thesis using Suc.IH [of rest k'] Suc.prems l
      by (simp add: r k del: read_all.simps) (simp add: r)
  qed
qed

end
