(* ===== verification/Tokens.thy ===== *)
theory Tokens
  imports Prelude
begin

text \<open>
  Token sequences and block hashing: \<^verbatim>\<open>src/llm/tokens.h\<close>, \<^verbatim>\<open>src/llm/tokens.cpp\<close> and
  \<open>compute_block_hashes_for_seq\<close> of \<^verbatim>\<open>src/llm/kv_router/protocols.h\<close>.  The hash function is
  the third-party XXH3; it is the parameter \<open>xxh3\<close> (input bytes and seed), and nothing is assumed
  about it.  The lemmas show that a sequence always partitions its tokens into full blocks and
  a shorter tail, that growing a sequence token by token agrees with splitting the whole token
  list, that the blocks form a hash chain, and that the hashes the router computes for a
  request are the block hashes of the sequence and respect prefixes.
\<close>

section \<open>Hashes\<close>

type_synonym Token = u32
type_synonym BlockHash = u64
type_synonym SequenceHash = u64
type_synonym xxh3 = "string \<Rightarrow> u64 \<Rightarrow> u64"

definition kXxh3Seed :: u64 where
  "kXxh3Seed = 1337"

definition compute_hash :: "xxh3 \<Rightarrow> string \<Rightarrow> u64" where
  "compute_hash xxh3 bytes = xxh3 bytes kXxh3Seed"

text \<open>The in-memory (little-endian) bytes of an array of 32 bit or 64 bit words.\<close>

definition le_bytes :: "nat \<Rightarrow> 'a::len word \<Rightarrow> string" where
  "le_bytes k w = map (\<lambda>i. byte_of (ucast (drop_bit (8 * i) w) :: u64)) [0..<k]"

definition token_bytes :: "Token list \<Rightarrow> string" where
  "token_bytes ts = concat (map (le_bytes 4) ts)"

definition compute_block_hash :: "xxh3 \<Rightarrow> Token list \<Rightarrow> BlockHash" where
  "compute_block_hash xxh3 ts = compute_hash xxh3 (token_bytes ts)"

definition chain_hash :: "xxh3 \<Rightarrow> SequenceHash \<Rightarrow> BlockHash \<Rightarrow> SequenceHash" where
  "chain_hash xxh3 parent bh = compute_hash xxh3 (le_bytes 8 parent @ le_bytes 8 bh)"

section \<open>Blocks and sequences\<close>

record TokenBlock =
  tb_tokens :: "Token list"
  tb_block_hash :: BlockHash
  tb_sequence_hash :: SequenceHash
  tb_parent_sequence_hash :: "SequenceHash option"

record PartialTokenBlock =
  pt_tokens :: "Token list"
  pt_block_size :: nat
  pt_parent_sequence_hash :: "SequenceHash option"

definition partial_push_token ::
  "xxh3 \<Rightarrow> Token \<Rightarrow> PartialTokenBlock \<Rightarrow> TokenBlock option \<times> PartialTokenBlock" where
  "partial_push_token xxh3 token p =
     (let toks = pt_tokens p @ [token] in
      if length toks \<noteq> pt_block_size p then (None, p\<lparr>pt_tokens := toks\<rparr>)
      else
        let bh = compute_block_hash xxh3 toks;
            sh = chain_hash xxh3
                   (case pt_parent_sequence_hash p of None \<Rightarrow> 0 | Some h \<Rightarrow> h) bh
        in (Some \<lparr>tb_tokens = toks, tb_block_hash = bh, tb_sequence_hash = sh,
                  tb_parent_sequence_hash = pt_parent_sequence_hash p\<rparr>,
            p\<lparr>pt_tokens := [], pt_parent_sequence_hash := Some sh\<rparr>))"

text \<open>One iteration of the loop of \<open>split_tokens\<close>.\<close>

definition split_step ::
  "xxh3 \<Rightarrow> Token list \<Rightarrow> nat \<Rightarrow> nat \<Rightarrow> TokenBlock list \<Rightarrow> TokenBlock list" where
  "split_step xxh3 toks block_size i blocks =
     (let bt = take block_size (drop (i * block_size) toks);
          bh = compute_block_hash xxh3 bt
      in blocks @
         [if i = 0
          then \<lparr>tb_tokens = bt, tb_block_hash = bh, tb_sequence_hash = bh,
                tb_parent_sequence_hash = None\<rparr>
          else let ph = tb_sequence_hash (last blocks)
               in \<lparr>tb_tokens = bt, tb_block_hash = bh,
                   tb_sequence_hash = chain_hash xxh3 ph bh,
                   tb_parent_sequence_hash = Some ph\<rparr>])"

definition split_tokens ::
  "xxh3 \<Rightarrow> Token list \<Rightarrow> nat \<Rightarrow> TokenBlock list \<times> PartialTokenBlock" where
  "split_tokens xxh3 toks block_size =
     (let full = (if block_size = 0 then 0 else length toks div block_size);
          blocks = fold (split_step xxh3 toks block_size) [0..<full] [];
          parent = (if blocks \<noteq> [] then Some (tb_sequence_hash (last blocks)) else None)
      in (blocks, \<lparr>pt_tokens = drop (full * block_size) toks, pt_block_size = block_size,
                   pt_parent_sequence_hash = parent\<rparr>))"

record TokenSequence =
  ts_blocks :: "TokenBlock list"
  ts_current :: PartialTokenBlock

definition TokenSequence_new :: "xxh3 \<Rightarrow> Token list \<Rightarrow> nat \<Rightarrow> TokenSequence" where
  "TokenSequence_new xxh3 toks block_size =
     (let (blocks, current) = split_tokens xxh3 toks block_size
      in \<lparr>ts_blocks = blocks, ts_current = current\<rparr>)"

definition seq_push_token ::
  "xxh3 \<Rightarrow> Token \<Rightarrow> TokenSequence \<Rightarrow> TokenBlock option \<times> TokenSequence" where
  "seq_push_token xxh3 token s =
     (case partial_push_token xxh3 token (ts_current s) of
        (Some block, cur) \<Rightarrow>
          (Some block, s\<lparr>ts_blocks := ts_blocks s @ [block], ts_current := cur\<rparr>)
      | (None, cur) \<Rightarrow> (None, s\<lparr>ts_current := cur\<rparr>))"

definition into_parts :: "TokenSequence \<Rightarrow> TokenBlock list \<times> PartialTokenBlock" where
  "into_parts s = (ts_blocks s, ts_current s)"

text \<open>The hashes the router computes for a request.\<close>

definition compute_block_hashes_for_seq :: "xxh3 \<Rightarrow> Token list \<Rightarrow> nat \<Rightarrow> u64 list" where
  "compute_block_hashes_for_seq xxh3 toks kv_block_size =
     (if kv_block_size = 0 then []
      else map (\<lambda>i. compute_hash xxh3
                  (token_bytes (take kv_block_size (drop (i * kv_block_size) toks))))
             [0..<length toks div kv_block_size])"

section \<open>The well-formed sequence\<close>

text \<open>\<open>chained xxh3 prev bs\<close>: each block's hash is that of its tokens, and its sequence hash
  extends that of the block before it.  The first block of a chain has no parent; its sequence
  hash is its block hash when the sequence was split, and chains on zero when it was pushed.\<close>

definition block_ok :: "xxh3 \<Rightarrow> nat \<Rightarrow> TokenBlock \<Rightarrow> bool" where
  "block_ok xxh3 n b \<longleftrightarrow>
     length (tb_tokens b) = n \<and> tb_block_hash b = compute_block_hash xxh3 (tb_tokens b)"

fun chained :: "xxh3 \<Rightarrow> SequenceHash option \<Rightarrow> TokenBlock list \<Rightarrow> bool" where
  "chained xxh3 prev [] \<longleftrightarrow> True"
| "chained xxh3 None (b # bs) \<longleftrightarrow>
     tb_parent_sequence_hash b = None \<and>
     tb_sequence_hash b \<in> {tb_block_hash b, chain_hash xxh3 0 (tb_block_hash b)} \<and>
     chained xxh3 (Some (tb_sequence_hash b)) bs"
| "chained xxh3 (Some h) (b # bs) \<longleftrightarrow>
     tb_parent_sequence_hash b = Some h \<and>
     tb_sequence_hash b = chain_hash xxh3 h (tb_block_hash b) \<and>
     chained xxh3 (Some (tb_sequence_hash b)) bs"

definition last_hash :: "SequenceHash option \<Rightarrow> TokenBlock list \<Rightarrow> SequenceHash option" where
  "last_hash prev bs = (if bs = [] then prev else Some (tb_sequence_hash (last bs)))"

definition seq_tokens :: "TokenSequence \<Rightarrow> Token list" where
  "seq_tokens s = concat (map tb_tokens (ts_blocks s)) @ pt_tokens (ts_current s)"

definition seq_ok :: "xxh3 \<Rightarrow> nat \<Rightarrow> TokenSequence \<Rightarrow> bool" where
  "seq_ok xxh3 n s \<longleftrightarrow>
     list_all (block_ok xxh3 n) (ts_blocks s) \<and>
     chained xxh3 None (ts_blocks s) \<and>
     pt_block_size (ts_current s) = n \<and>
     length (pt_tokens (ts_current s)) < n \<and>
     pt_parent_sequence_hash (ts_current s) = last_hash None (ts_blocks s)"

lemma last_hash_simps [simp]:
  "last_hash prev [] = prev"
  "last_hash prev (bs @ [b]) = Some (tb_sequence_hash b)"
  "bs \<noteq> [] \<Longrightarrow> last_hash prev bs = Some (tb_sequence_hash (last bs))"
  "last_hash prev (b # bs) = last_hash (Some (tb_sequence_hash b)) bs"
  by (simp_all add: last_hash_def)

lemma chained_append:
  "chained xxh3 prev (bs @ cs) \<longleftrightarrow>
     chained xxh3 prev bs \<and> chained xxh3 (last_hash prev bs) cs"
  by (induction xxh3 prev bs rule: chained.induct) (simp_all del: last_hash_simps(3))

lemma seq_push_ok:
  assumes "seq_ok xxh3 n s"
  shows "seq_ok xxh3 n (snd (seq_push_token xxh3 t s))"
proof -
  consider "ts_blocks s = []" | "ts_blocks s \<noteq> []" by blast
  then show ?thesis using assms
    by cases (auto simp: seq_ok_def seq_push_token_def partial_push_token_def Let_def
        block_ok_def chained_append)
qed

lemma seq_push_tokens:
  "seq_tokens (snd (seq_push_token xxh3 t s)) = seq_tokens s @ [t]"
  by (simp add: seq_tokens_def seq_push_token_def partial_push_token_def Let_def)

section \<open>Splitting\<close>

definition split_blocks :: "xxh3 \<Rightarrow> Token list \<Rightarrow> nat \<Rightarrow> nat \<Rightarrow> TokenBlock list" where
  "split_blocks xxh3 ts n k = fold (split_step xxh3 ts n) [0..<k] []"

lemma split_blocks_simps [simp]:
  "split_blocks xxh3 ts n 0 = []"
  "split_blocks xxh3 ts n (Suc k) = split_step xxh3 ts n k (split_blocks xxh3 ts n k)"
  by (simp_all add: split_blocks_def)

abbreviation nth_block :: "nat \<Rightarrow> Token list \<Rightarrow> nat \<Rightarrow> Token list" where
  "nth_block n ts i \<equiv> take n (drop (i * n) ts)"

lemma split_blocks_tokens:
  "map tb_tokens (split_blocks xxh3 ts n k) = map (nth_block n ts) [0..<k]"
  by (induction k) (simp_all add: split_step_def Let_def)

lemma split_blocks_hashes:
  "map tb_block_hash (split_blocks xxh3 ts n k)
     = map (\<lambda>i. compute_block_hash xxh3 (nth_block n ts i)) [0..<k]"
  by (induction k) (simp_all add: split_step_def Let_def)

lemma split_blocks_Nil_iff [simp]: "split_blocks xxh3 ts n k = [] \<longleftrightarrow> k = 0"
  by (induction k) (simp_all add: split_step_def Let_def)

lemma split_blocks_chained: "chained xxh3 None (split_blocks xxh3 ts n k)"
  by (induction k) (auto simp: split_step_def Let_def chained_append)

lemma nth_block_append:
  assumes "Suc i * n \<le> length ts"
  shows "nth_block n (ts @ us) i = nth_block n ts i"
  using assms by simp

lemma split_blocks_append:
  "k * n \<le> length ts \<Longrightarrow> split_blocks xxh3 (ts @ us) n k = split_blocks xxh3 ts n k"
proof (induction k)
  case (Suc k)
  then show ?case using nth_block_append [of k n ts us] by (simp add: split_step_def)
qed simp

lemma concat_nth_blocks: "concat (map (nth_block n ts) [0..<k]) = take (k * n) ts"
  by (induction k) (simp_all add: take_add [symmetric] add.commute)

lemma split_blocks_ok:
  assumes "k * n \<le> length ts"
  shows "list_all (block_ok xxh3 n) (split_blocks xxh3 ts n k)"
  using assms
proof (induction k)
  case (Suc k)
  then have "length (nth_block n ts k) = n" by simp
  with Suc show ?case by (simp add: split_step_def Let_def block_ok_def)
qed simp

lemma TokenSequence_new_parts:
  "0 < n \<Longrightarrow> TokenSequence_new xxh3 ts n =
     \<lparr>ts_blocks = split_blocks xxh3 ts n (length ts div n),
      ts_current = \<lparr>pt_tokens = drop (length ts div n * n) ts, pt_block_size = n,
        pt_parent_sequence_hash = last_hash None (split_blocks xxh3 ts n (length ts div n))\<rparr>\<rparr>"
  by (simp add: TokenSequence_new_def split_tokens_def Let_def split_blocks_def [symmetric])

lemma TokenSequence_new_ok:
  assumes "0 < n"
  shows "seq_ok xxh3 n (TokenSequence_new xxh3 ts n)" "seq_tokens (TokenSequence_new xxh3 ts n) = ts"
proof -
  have "length ts div n * n \<le> length ts" by simp
  moreover have "length ts - length ts div n * n < n"
    using assms by (simp add: minus_div_mult_eq_mod)
  ultimately show "seq_ok xxh3 n (TokenSequence_new xxh3 ts n)"
    using assms
    by (simp add: TokenSequence_new_parts seq_ok_def split_blocks_ok split_blocks_chained
        del: last_hash_simps(3))
  show "seq_tokens (TokenSequence_new xxh3 ts n) = ts"
    using assms
    by (simp add: TokenSequence_new_parts seq_tokens_def split_blocks_tokens concat_nth_blocks)
qed

text \<open>The effect of appending a list of tokens one at a time.\<close>

definition push_all :: "xxh3 \<Rightarrow> Token list \<Rightarrow> TokenSequence \<Rightarrow> TokenSequence" where
  "push_all xxh3 us s = fold (\<lambda>t s. snd (seq_push_token xxh3 t s)) us s"

text \<open>C4.  Whatever tokens a sequence is built from and whatever tokens are pushed onto it, it is
  a partition of the whole token list into full blocks of \<open>block_size\<close> tokens and a strictly
  shorter tail, each block carries the hash of its tokens, the sequence hashes form a chain in
  which every block is parented on the one before, and the tail is parented on the last block.\<close>

theorem sequence_partition:
  assumes "0 < n"
  shows "seq_ok xxh3 n (push_all xxh3 us (TokenSequence_new xxh3 ts n)) \<and>
         seq_tokens (push_all xxh3 us (TokenSequence_new xxh3 ts n)) = ts @ us"
proof (induction us rule: rev_induct)
  case Nil
  then show ?case using TokenSequence_new_ok [OF assms] by (simp add: push_all_def)
next
  case (snoc u us)
  then show ?case
    by (simp add: push_all_def seq_push_ok seq_push_tokens)
qed

theorem sequence_partition_witness:
  "seq_ok (\<lambda>b s. of_nat (length b) + s) 2
     (push_all (\<lambda>b s. of_nat (length b) + s) [4, 5]
        (TokenSequence_new (\<lambda>b s. of_nat (length b) + s) [1, 2, 3] 2)) \<and>
   seq_tokens (push_all (\<lambda>b s. of_nat (length b) + s) [4, 5]
        (TokenSequence_new (\<lambda>b s. of_nat (length b) + s) [1, 2, 3] 2)) = [1, 2, 3] @ [4, 5]"
  by (rule sequence_partition) simp

lemma push_new:
  assumes n: "0 < n" and full: "n \<le> length ts"
  shows "snd (seq_push_token xxh3 t (TokenSequence_new xxh3 ts n))
       = TokenSequence_new xxh3 (ts @ [t]) n"
proof -
  define k where "k = length ts div n"
  have k: "0 < k" "k * n \<le> length ts" "length ts - k * n < n"
    using n full by (simp_all add: k_def div_greater_zero_iff minus_div_mult_eq_mod)
  have same: "split_blocks xxh3 (ts @ [t]) n k = split_blocks xxh3 ts n k"
    using k by (rule_tac split_blocks_append)
  show ?thesis
  proof (cases "Suc (length ts - k * n) = n")
    case False
    then have "length (ts @ [t]) div n = k"
      using k by (intro div_nat_eqI) (simp_all add: algebra_simps)
    then show ?thesis using False n k same
      by (simp add: TokenSequence_new_parts k_def [symmetric] seq_push_token_def
          partial_push_token_def Let_def)
  next
    case True
    then have k': "Suc (length ts) div n = Suc k"
      using k n by (intro div_nat_eqI) (simp_all add: algebra_simps)
    have "nth_block n (ts @ [t]) k = drop (k * n) ts @ [t]" "n + k * n = Suc (length ts)"
      using True k by simp_all
    then show ?thesis using True n k same
      by (simp add: TokenSequence_new_parts k_def [symmetric] k' seq_push_token_def
          partial_push_token_def split_step_def Let_def)
  qed
qed

text \<open>Growing a sequence token by token is equivalent to splitting the whole token list at
  once, once the sequence holds a full block: the same blocks, the same hashes, the same tail.\<close>

lemma push_all_eq_split:
  assumes "0 < n" and "n \<le> length ts"
  shows "into_parts (push_all xxh3 us (TokenSequence_new xxh3 ts n)) = split_tokens xxh3 (ts @ us) n"
proof -
  have "push_all xxh3 us (TokenSequence_new xxh3 ts n) = TokenSequence_new xxh3 (ts @ us) n"
  proof (induction us rule: rev_induct)
    case (snoc u us)
    then show ?case using push_new [of n "ts @ us" xxh3 u] assms by (simp add: push_all_def)
  qed (simp add: push_all_def)
  then show ?thesis by (simp add: into_parts_def TokenSequence_new_def split: prod.split)
qed

lemma push_all_eq_split_witness:
  "into_parts (push_all (\<lambda>b s. of_nat (length b) * 3 + s) [7, 8, 9]
      (TokenSequence_new (\<lambda>b s. of_nat (length b) * 3 + s) [1, 2, 3] 2))
   = split_tokens (\<lambda>b s. of_nat (length b) * 3 + s) ([1, 2, 3] @ [7, 8, 9]) 2"
  by (rule push_all_eq_split) simp_all

text \<open>A sequence grown from nothing has the same block hashes, but its first sequence hash chains
  on zero instead of being the block hash.\<close>

lemma push_first_block:
  assumes "length ts = n" "0 < n"
  shows "ts_blocks (push_all xxh3 ts (TokenSequence_new xxh3 [] n)) =
      [\<lparr>tb_tokens = ts, tb_block_hash = compute_block_hash xxh3 ts,
        tb_sequence_hash = chain_hash xxh3 0 (compute_block_hash xxh3 ts),
        tb_parent_sequence_hash = None\<rparr>]"
proof -
  have grow: "length us < n \<Longrightarrow> push_all xxh3 us (TokenSequence_new xxh3 [] n) =
      \<lparr>ts_blocks = [], ts_current = \<lparr>pt_tokens = us, pt_block_size = n,
         pt_parent_sequence_hash = None\<rparr>\<rparr>" for us
    by (induction us rule: rev_induct)
       (simp_all add: push_all_def TokenSequence_new_parts \<open>0 < n\<close> seq_push_token_def
          partial_push_token_def Let_def)
  obtain us t where ts: "ts = us @ [t]" using assms by (cases ts rule: rev_exhaust) auto
  then show ?thesis using grow [of us] assms
    by (simp add: push_all_def seq_push_token_def partial_push_token_def Let_def)
qed

section \<open>Request hashes\<close>

lemma request_hashes_split:
  "compute_block_hashes_for_seq xxh3 ts n = map tb_block_hash (fst (split_tokens xxh3 ts n))"
  by (simp add: compute_block_hashes_for_seq_def split_tokens_def Let_def split_blocks_hashes
      compute_block_hash_def split_blocks_def [symmetric])

lemma request_hashes_append:
  "take (length ts div n) (compute_block_hashes_for_seq xxh3 (ts @ us) n)
     = compute_block_hashes_for_seq xxh3 ts n"
proof (cases "n = 0")
  case False
  have le: "length ts div n \<le> length (ts @ us) div n" by (simp add: div_le_mono)
  have eq: "nth_block n (ts @ us) i = nth_block n ts i" if "i < length ts div n" for i
    using that by (intro nth_block_append) (metis Suc_leI div_le_mono less_eq_div_iff_mult_less_eq
        False bot_nat_0.not_eq_extremum)
  have tu: "take (length ts div n) [0..<length (ts @ us) div n] = [0..<length ts div n]"
    using le by (subst take_upt) simp_all
  show ?thesis using False
    unfolding compute_block_hashes_for_seq_def
    by (simp only: if_False take_map tu) (intro map_cong refl, simp only: set_upt atLeastLessThan_iff eq)
qed (simp add: compute_block_hashes_for_seq_def)

text \<open>The hashes the router computes for a request are the block hashes of the token sequence,
  and they respect prefixes: extending a prompt by any tokens only appends hashes, so two
  prompts that share a prefix share the hashes of every block inside it.\<close>

lemma request_hashes_prefix:
  "compute_block_hashes_for_seq xxh3 ts n = map tb_block_hash (fst (split_tokens xxh3 ts n)) \<and>
   prefix (compute_block_hashes_for_seq xxh3 ts n)
     (compute_block_hashes_for_seq xxh3 (ts @ us) n) \<and>
   take (length ts div n) (compute_block_hashes_for_seq xxh3 (ts @ us) n)
     = take (length ts div n) (compute_block_hashes_for_seq xxh3 (ts @ vs) n)"
  using request_hashes_append [of ts n xxh3] request_hashes_split take_is_prefix by metis

end
