(* ===== verification/Radix.thy ===== *)
theory Radix
  imports Tokens
begin

text \<open>
  The radix indexer of the KV router: \<open>OverlapScores\<close>, \<open>RadixTree\<close> and \<open>KvIndexer\<close> of
  \<^verbatim>\<open>src/llm/kv_router/indexer.h\<close> and \<^verbatim>\<open>indexer.cpp\<close>, with the event types of
  \<^verbatim>\<open>protocols.h\<close>.  Blocks are shared objects: the tree is an explicit heap from addresses to
  blocks, so that the re-parenting of a block under a second edge, and the sharing between the tree
  and the per-worker jump tables, are modelled as they are.  The mutex of \<open>KvIndexer\<close> makes each
  operation atomic, so the operations are functions on the state.  Scores are 32-bit words.  The lemmas show what a query
  scores, that storing never lowers a score and makes the stored sequence match in full, and
  when dropping a worker really drops it.
\<close>

section \<open>Events\<close>

type_synonym WorkerId = int
type_synonym LocalBlockHash = u64
type_synonym ExternalSequenceBlockHash = u64

record KvCacheStoredBlockData =
  sb_block_hash :: ExternalSequenceBlockHash
  sb_tokens_hash :: LocalBlockHash

record KvCacheStoreData =
  st_parent_hash :: "ExternalSequenceBlockHash option"
  st_blocks :: "KvCacheStoredBlockData list"

record KvCacheRemoveData =
  rm_block_hashes :: "ExternalSequenceBlockHash list"

datatype KvCacheEventData = stored KvCacheStoreData | removed KvCacheRemoveData

record KvCacheEvent =
  ev_event_id :: u64
  ev_data :: KvCacheEventData

record RouterEvent =
  re_worker_id :: WorkerId
  re_event :: KvCacheEvent

section \<open>The tree\<close>

record OverlapScores =
  scores :: "WorkerId \<Rightarrow> u32 option"
  frequencies :: "nat list"

definition score :: "OverlapScores \<Rightarrow> WorkerId \<Rightarrow> u32" where
  "score s worker = (case scores s worker of None \<Rightarrow> 0 | Some n \<Rightarrow> n)"

type_synonym addr = nat
type_synonym time = int

record Block =
  children :: "LocalBlockHash \<Rightarrow> addr option"
  workers :: "WorkerId set"
  recent_uses :: "time list"

definition Block_new :: Block where
  "Block_new = \<lparr>children = (\<lambda>_. None), workers = {}, recent_uses = []\<rparr>"

text \<open>The root lives at address 0; \<open>next_addr\<close> is the address of the next allocation.\<close>

record RadixTree =
  heap :: "addr \<Rightarrow> Block"
  next_addr :: addr
  lookup :: "WorkerId \<Rightarrow> (ExternalSequenceBlockHash \<Rightarrow> addr option) option"
  expiration_duration :: "time option"

definition RadixTree_new :: "time option \<Rightarrow> RadixTree" where
  "RadixTree_new e = \<lparr>heap = (\<lambda>_. Block_new), next_addr = 1, lookup = (\<lambda>_. None),
     expiration_duration = e\<rparr>"

definition bump :: "WorkerId set \<Rightarrow> (WorkerId \<Rightarrow> u32 option) \<Rightarrow> WorkerId \<Rightarrow> u32 option" where
  "bump ws sc = (\<lambda>w. if w \<in> ws then Some (case sc w of None \<Rightarrow> 1 | Some n \<Rightarrow> n + 1) else sc w)"

text \<open>Frequency tracking of one visited block: expired uses leave at the front, the remaining
  count is reported when it is not zero, and the new use is appended.\<close>

definition touch :: "time \<Rightarrow> time option \<Rightarrow> Block \<Rightarrow> nat list \<Rightarrow> Block \<times> nat list" where
  "touch now expiration b freqs =
     (case expiration of
        None \<Rightarrow> (b, freqs)
      | Some e \<Rightarrow>
          let uses = dropWhile (\<lambda>t. now - t > e) (recent_uses b)
          in (b\<lparr>recent_uses := uses @ [now]\<rparr>,
              if uses \<noteq> [] then freqs @ [length uses] else freqs))"

fun find_loop ::
  "time \<Rightarrow> bool \<Rightarrow> LocalBlockHash list \<Rightarrow> addr \<Rightarrow> RadixTree \<Rightarrow> OverlapScores
     \<Rightarrow> OverlapScores \<times> RadixTree" where
  "find_loop now early_exit [] current t sc = (sc, t)"
| "find_loop now early_exit (h # hs) current t sc =
     (case children (heap t current) h of
        None \<Rightarrow> (sc, t)
      | Some block \<Rightarrow>
          let sc = sc\<lparr>scores := bump (workers (heap t block)) (scores sc)\<rparr>;
              (b, freqs) = touch now (expiration_duration t) (heap t block) (frequencies sc);
              sc = sc\<lparr>frequencies := freqs\<rparr>;
              t = t\<lparr>heap := (heap t)(block := b)\<rparr>
          in if early_exit \<and> card (workers (heap t block)) = 1 then (sc, t)
             else find_loop now early_exit hs block t sc)"

definition find_matches ::
  "time \<Rightarrow> LocalBlockHash list \<Rightarrow> bool \<Rightarrow> RadixTree \<Rightarrow> OverlapScores \<times> RadixTree" where
  "find_matches now seq early_exit t =
     find_loop now early_exit seq 0 t \<lparr>scores = (\<lambda>_. None), frequencies = []\<rparr>"

text \<open>\<open>worker_lookup\<close> is a reference into \<open>lookup_\<close>; the loops below carry it beside the tree and
  \<open>apply_event\<close> writes it back.\<close>

type_synonym jump = "ExternalSequenceBlockHash \<Rightarrow> addr option"

definition alloc :: "RadixTree \<Rightarrow> addr \<times> RadixTree" where
  "alloc t = (next_addr t,
     t\<lparr>heap := (heap t)(next_addr t := Block_new), next_addr := next_addr t + 1\<rparr>)"

definition link :: "addr \<Rightarrow> LocalBlockHash \<Rightarrow> addr \<Rightarrow> RadixTree \<Rightarrow> RadixTree" where
  "link current h b t =
     t\<lparr>heap := (heap t)(current :=
         (heap t current)\<lparr>children := (children (heap t current))(h \<mapsto> b)\<rparr>)\<rparr>"

definition attribute :: "WorkerId \<Rightarrow> addr \<Rightarrow> RadixTree \<Rightarrow> RadixTree" where
  "attribute worker b t =
     t\<lparr>heap := (heap t)(b := (heap t b)\<lparr>workers := insert worker (workers (heap t b))\<rparr>)\<rparr>"

text \<open>One iteration of the loop of a stored event: the block reached or created under \<open>current\<close>.\<close>

definition store_step ::
  "WorkerId \<Rightarrow> KvCacheStoredBlockData \<Rightarrow> addr \<Rightarrow> RadixTree \<times> jump \<Rightarrow> addr \<times> RadixTree \<times> jump" where
  "store_step worker bd current = (\<lambda>(t, lk).
     let (block, t) =
       (case children (heap t current) (sb_tokens_hash bd) of
          Some b \<Rightarrow> (b, t)
        | None \<Rightarrow>
            let (b, t) = (case lk (sb_block_hash bd) of Some b \<Rightarrow> (b, t) | None \<Rightarrow> alloc t)
            in (b, link current (sb_tokens_hash bd) b t))
     in (block, attribute worker block t, lk(sb_block_hash bd \<mapsto> block)))"

fun store_loop ::
  "WorkerId \<Rightarrow> KvCacheStoredBlockData list \<Rightarrow> addr \<Rightarrow> RadixTree \<times> jump \<Rightarrow> RadixTree \<times> jump" where
  "store_loop worker [] current s = s"
| "store_loop worker (bd # bds) current s =
     (let (block, s') = store_step worker bd current s in store_loop worker bds block s')"

fun remove_loop ::
  "WorkerId \<Rightarrow> ExternalSequenceBlockHash list \<Rightarrow> RadixTree \<times> jump \<Rightarrow> RadixTree \<times> jump" where
  "remove_loop worker [] (t, lk) = (t, lk)"
| "remove_loop worker (h # hs) (t, lk) =
     (case lk h of
        None \<Rightarrow> remove_loop worker hs (t, lk)
      | Some block \<Rightarrow>
          let b = heap t block;
              b = b\<lparr>workers := workers b - {worker}\<rparr>;
              b = (if workers b = {} then b\<lparr>children := (\<lambda>_. None)\<rparr> else b)
          in remove_loop worker hs (t\<lparr>heap := (heap t)(block := b)\<rparr>, lk(h := None)))"

definition worker_lookup :: "RadixTree \<Rightarrow> WorkerId \<Rightarrow> jump" where
  "worker_lookup t w = (case lookup t w of None \<Rightarrow> (\<lambda>_. None) | Some lk \<Rightarrow> lk)"

definition apply_event :: "RouterEvent \<Rightarrow> RadixTree \<Rightarrow> RadixTree" where
  "apply_event event t =
     (let worker = re_worker_id event;
          lk = worker_lookup t worker;
          (t', lk') =
            (case ev_data (re_event event) of
               stored op \<Rightarrow>
                 (case st_parent_hash op of
                    Some ph \<Rightarrow>
                      (case lk ph of
                         None \<Rightarrow> (t, lk)
                       | Some current \<Rightarrow> store_loop worker (st_blocks op) current (t, lk))
                  | None \<Rightarrow> store_loop worker (st_blocks op) 0 (t, lk))
             | removed op \<Rightarrow> remove_loop worker (rm_block_hashes op) (t, lk))
      in t'\<lparr>lookup := (lookup t')(worker \<mapsto> lk')\<rparr>)"

definition remove_worker :: "WorkerId \<Rightarrow> RadixTree \<Rightarrow> RadixTree" where
  "remove_worker worker t =
     (case lookup t worker of
        None \<Rightarrow> t
      | Some lk \<Rightarrow>
          t\<lparr>heap := (\<lambda>a. if a \<in> ran lk
                        then (heap t a)\<lparr>workers := workers (heap t a) - {worker}\<rparr>
                        else heap t a),
            lookup := (lookup t)(worker := None)\<rparr>)"

section \<open>The indexer\<close>

record KvIndexer =
  ix_tree :: RadixTree
  ix_block_size :: nat

definition KvIndexer_new :: "nat \<Rightarrow> KvIndexer" where
  "KvIndexer_new n = \<lparr>ix_tree = RadixTree_new None, ix_block_size = n\<rparr>"

definition indexer_apply_event :: "RouterEvent \<Rightarrow> KvIndexer \<Rightarrow> KvIndexer" where
  "indexer_apply_event e ix = ix\<lparr>ix_tree := apply_event e (ix_tree ix)\<rparr>"

definition indexer_remove_worker :: "WorkerId \<Rightarrow> KvIndexer \<Rightarrow> KvIndexer" where
  "indexer_remove_worker w ix = ix\<lparr>ix_tree := remove_worker w (ix_tree ix)\<rparr>"

definition indexer_find_matches ::
  "time \<Rightarrow> LocalBlockHash list \<Rightarrow> KvIndexer \<Rightarrow> OverlapScores \<times> KvIndexer" where
  "indexer_find_matches now seq ix =
     (let (sc, t) = find_matches now seq False (ix_tree ix) in (sc, ix\<lparr>ix_tree := t\<rparr>))"

definition find_matches_for_request ::
  "xxh3 \<Rightarrow> time \<Rightarrow> Token list \<Rightarrow> KvIndexer \<Rightarrow> OverlapScores \<times> KvIndexer" where
  "find_matches_for_request xxh3 now toks ix =
     indexer_find_matches now (compute_block_hashes_for_seq xxh3 toks (ix_block_size ix)) ix"

section \<open>What a query scores\<close>

text \<open>The blocks a query visits from a block on.\<close>

fun walk :: "RadixTree \<Rightarrow> addr \<Rightarrow> LocalBlockHash list \<Rightarrow> addr list" where
  "walk t a [] = []"
| "walk t a (h # hs) =
     (case children (heap t a) h of None \<Rightarrow> [] | Some b \<Rightarrow> b # walk t b hs)"

definition same_shape :: "RadixTree \<Rightarrow> RadixTree \<Rightarrow> bool" where
  "same_shape t t' \<longleftrightarrow>
     (\<forall>a. children (heap t' a) = children (heap t a) \<and> workers (heap t' a) = workers (heap t a)) \<and>
     next_addr t' = next_addr t \<and> lookup t' = lookup t"

lemma same_shape_refl [simp]: "same_shape t t"
  by (simp add: same_shape_def)

lemma same_shape_trans: "same_shape t u \<Longrightarrow> same_shape u v \<Longrightarrow> same_shape t v"
  by (simp add: same_shape_def)

lemma walk_same_shape: "same_shape t t' \<Longrightarrow> walk t' a hs = walk t a hs"
  by (induction hs arbitrary: a) (simp_all add: same_shape_def split: option.split)

lemma touch_shape:
  "children (fst (touch now e b fs)) = children b" "workers (fst (touch now e b fs)) = workers b"
  by (simp_all add: touch_def Let_def split: option.split)

lemma touch_same_shape:
  "same_shape t (t\<lparr>heap := (heap t)(a := fst (touch now e (heap t a) fs))\<rparr>)"
  by (simp add: same_shape_def touch_shape)

lemma find_loop_Some:
  assumes "children (heap t cur) h = Some b"
  shows "find_loop now ee (h # hs) cur t sc =
    (let tc = touch now (expiration_duration t) (heap t b) (frequencies sc);
         sc' = sc\<lparr>scores := bump (workers (heap t b)) (scores sc), frequencies := snd tc\<rparr>;
         t' = t\<lparr>heap := (heap t)(b := fst tc)\<rparr>
     in if ee \<and> card (workers (heap t b)) = 1 then (sc', t') else find_loop now ee hs b t' sc')"
  using assms by (simp add: Let_def touch_shape case_prod_unfold)

lemma find_loop_shape: "same_shape t (snd (find_loop now ee hs cur t sc))"
proof (induction hs arbitrary: cur t sc)
  case (Cons h hs)
  show ?case
  proof (cases "children (heap t cur) h")
    case (Some b)
    show ?thesis
      by (simp add: find_loop_Some [OF Some] Let_def touch_same_shape
          same_shape_trans [OF touch_same_shape Cons.IH] del: find_loop.simps)
  qed simp
qed simp

lemma find_loop_scores:
  "scores (fst (find_loop now False hs cur t sc))
     = fold bump (map (\<lambda>b. workers (heap t b)) (walk t cur hs)) (scores sc)"
proof (induction hs arbitrary: cur t sc)
  case (Cons h hs)
  show ?case
  proof (cases "children (heap t cur) h")
    case (Some b)
    let ?t = "t\<lparr>heap := (heap t)(b := fst (touch now (expiration_duration t) (heap t b)
                (frequencies sc)))\<rparr>"
    have "same_shape t ?t" by (rule touch_same_shape)
    then have "walk ?t b hs = walk t b hs" "\<And>a. workers (heap ?t a) = workers (heap t a)"
      using walk_same_shape by (simp_all add: same_shape_def)
    then show ?thesis
      by (simp add: find_loop_Some [OF Some] Let_def Cons.IH Some del: find_loop.simps)
  qed simp
qed simp

abbreviation count :: "u32 option \<Rightarrow> u32" where
  "count c \<equiv> (case c of None \<Rightarrow> 0 | Some n \<Rightarrow> n)"

lemma count_fold_bump:
  "count (fold bump ss sc w) = count (sc w) + of_nat (length (filter (\<lambda>s. w \<in> s) ss))"
  by (induction ss arbitrary: sc) (simp_all add: bump_def split: option.split)

text \<open>The score of a worker is the number of visited blocks it is on, modulo the 32 bits of a score.\<close>

definition hits :: "RadixTree \<Rightarrow> addr \<Rightarrow> LocalBlockHash list \<Rightarrow> WorkerId \<Rightarrow> nat" where
  "hits t a seq w = length (filter (\<lambda>b. w \<in> workers (heap t b)) (walk t a seq))"

lemma score_find_matches: "score (fst (find_matches now seq False t)) w = of_nat (hits t 0 seq w)"
  by (simp add: score_def find_matches_def find_loop_scores count_fold_bump hits_def filter_map comp_def)

lemma hits_same_shape: "same_shape t t' \<Longrightarrow> hits t' a seq w = hits t a seq w"
  by (simp add: hits_def walk_same_shape) (simp add: same_shape_def)

lemma length_walk: "length (walk t a seq) \<le> length seq"
  by (induction seq arbitrary: a) (simp_all split: option.split)

lemma hits_le: "hits t a seq w \<le> length seq"
  unfolding hits_def using length_filter_le length_walk le_trans by blast

lemma unat_score:
  assumes "length seq < 2 ^ 32"
  shows "unat (score (fst (find_matches now seq False t)) w) = hits t 0 seq w"
  using le_less_trans [OF hits_le assms, of t 0 w] by (simp add: score_find_matches unat_of_nat)

lemma find_matches_shape: "same_shape t (snd (find_matches now seq ee t))"
  by (simp add: find_matches_def find_loop_shape)

section \<open>Storing\<close>

definition wf_heap :: "RadixTree \<Rightarrow> bool" where
  "wf_heap t \<longleftrightarrow> 0 < next_addr t \<and>
     (\<forall>a h b. children (heap t a) h = Some b \<longrightarrow> b < next_addr t) \<and>
     (\<forall>a. next_addr t \<le> a \<longrightarrow> children (heap t a) = (\<lambda>_. None) \<and> workers (heap t a) = {})"

definition refs :: "RadixTree \<Rightarrow> jump \<Rightarrow> bool" where
  "refs t lk \<longleftrightarrow> (\<forall>h b. lk h = Some b \<longrightarrow> b < next_addr t)"

text \<open>\<open>extends t t'\<close>: every edge and every attribution of \<open>t\<close> is still there in \<open>t'\<close>.\<close>

definition extends :: "RadixTree \<Rightarrow> RadixTree \<Rightarrow> bool" where
  "extends t t' \<longleftrightarrow>
     (\<forall>a. children (heap t a) \<subseteq>\<^sub>m children (heap t' a) \<and> workers (heap t a) \<subseteq> workers (heap t' a))"

lemma extends_refl [simp]: "extends t t"
  by (simp add: extends_def)

lemma extends_trans: "extends t u \<Longrightarrow> extends u v \<Longrightarrow> extends t v"
  unfolding extends_def by (meson map_le_trans order_trans)

lemma extends_child:
  "extends t t' \<Longrightarrow> children (heap t a) h = Some b \<Longrightarrow> children (heap t' a) h = Some b"
  unfolding extends_def map_le_def by (metis domI)

lemma extends_walk: "extends t t' \<Longrightarrow> prefix (walk t a hs) (walk t' a hs)"
  by (induction hs arbitrary: a) (auto simp: extends_child split: option.splits)

lemma extends_hits:
  assumes "extends t t'"
  shows "hits t a hs w \<le> hits t' a hs w"
proof -
  obtain zs where "walk t' a hs = walk t a hs @ zs"
    using extends_walk [OF assms] unfolding prefix_def by blast
  moreover have "length (filter (\<lambda>b. w \<in> workers (heap t b)) bs)
      \<le> length (filter (\<lambda>b. w \<in> workers (heap t' b)) bs)" for bs
    using assms by (induction bs) (auto simp: extends_def)
  ultimately show ?thesis by (simp add: hits_def trans_le_add1)
qed

lemma alloc_simps [simp]:
  "fst (alloc t) = next_addr t" "next_addr (snd (alloc t)) = Suc (next_addr t)"
  "lookup (snd (alloc t)) = lookup t"
  by (simp_all add: alloc_def)

lemma alloc_shape:
  assumes "wf_heap t"
  shows "children (heap (snd (alloc t)) a) = children (heap t a)"
        "workers (heap (snd (alloc t)) a) = workers (heap t a)"
  using assms by (simp_all add: alloc_def wf_heap_def Block_new_def)

lemma wf_alloc: "wf_heap t \<Longrightarrow> wf_heap (snd (alloc t))"
  by (auto simp: wf_heap_def alloc_shape less_Suc_eq Suc_le_eq)

lemma link_simps [simp]:
  "next_addr (link c h b t) = next_addr t" "lookup (link c h b t) = lookup t"
  "workers (heap (link c h b t) a) = workers (heap t a)"
  "children (heap (link c h b t) a)
     = (if a = c then (children (heap t c))(h \<mapsto> b) else children (heap t a))"
  by (simp_all add: link_def)

lemma attribute_simps [simp]:
  "next_addr (attribute w b t) = next_addr t" "lookup (attribute w b t) = lookup t"
  "workers (heap (attribute w b t) a)
     = (if a = b then insert w (workers (heap t b)) else workers (heap t a))"
  "children (heap (attribute w b t) a) = children (heap t a)"
  by (simp_all add: attribute_def)

lemma wf_link:
  "wf_heap t \<Longrightarrow> c < next_addr t \<Longrightarrow> b < next_addr t \<Longrightarrow> wf_heap (link c h b t)"
  by (simp add: wf_heap_def)

lemma wf_attribute: "wf_heap t \<Longrightarrow> b < next_addr t \<Longrightarrow> wf_heap (attribute w b t)"
  by (simp add: wf_heap_def)

lemma extends_alloc: "wf_heap t \<Longrightarrow> extends t (snd (alloc t))"
  by (simp add: extends_def alloc_shape)

lemma extends_link: "children (heap t c) h = None \<Longrightarrow> extends t (link c h b t)"
  by (auto simp: extends_def map_le_def)

lemma extends_attribute: "extends t (attribute w b t)"
  by (auto simp: extends_def)

lemma store_step_cases:
  assumes "wf_heap t" "refs t lk" "cur < next_addr t"
  obtains b t1 where
    "store_step w bd cur (t, lk) = (b, attribute w b t1, lk(sb_block_hash bd \<mapsto> b))"
    "wf_heap t1" "b < next_addr t1" "extends t t1" "next_addr t \<le> next_addr t1"
    "children (heap t1 cur) (sb_tokens_hash bd) = Some b"
    "\<And>a. workers (heap t1 a) = workers (heap t a)" "lookup t1 = lookup t"
proof (cases "children (heap t cur) (sb_tokens_hash bd)")
  case (Some c)
  then show ?thesis using assms that [of c t] by (simp add: store_step_def wf_heap_def)
next
  case None
  show ?thesis
  proof (cases "lk (sb_block_hash bd)")
    case (Some c)
    then have "c < next_addr t" using assms by (simp add: refs_def)
    then show ?thesis using assms None Some that [of c "link cur (sb_tokens_hash bd) c t"]
      by (simp add: store_step_def wf_link extends_link)
  next
    case fresh: None
    let ?a = "snd (alloc t)" and ?n = "next_addr t"
    have "extends t (link cur (sb_tokens_hash bd) ?n ?a)"
      using assms None by (intro extends_trans [OF extends_alloc extends_link])
        (simp_all add: alloc_shape)
    then show ?thesis
      using assms None fresh that [of ?n "link cur (sb_tokens_hash bd) ?n ?a"]
      by (simp add: store_step_def wf_link wf_alloc alloc_shape case_prod_unfold)
  qed
qed

lemma hits_Cons:
  "children (heap t a) h = Some b \<Longrightarrow>
     hits t a (h # hs) w = (if w \<in> workers (heap t b) then 1 else 0) + hits t b hs w"
  by (simp add: hits_def)

lemma store_loop_props:
  "wf_heap t \<Longrightarrow> refs t lk \<Longrightarrow> cur < next_addr t \<Longrightarrow>
   store_loop w bds cur (t, lk) = (t', lk') \<Longrightarrow>
     wf_heap t' \<and> refs t' lk' \<and> extends t t' \<and> next_addr t \<le> next_addr t' \<and>
     lookup t' = lookup t \<and> hits t' cur (map sb_tokens_hash bds) w = length bds"
proof (induction bds arbitrary: cur t lk)
  case Nil
  then show ?case by (simp add: hits_def)
next
  case (Cons bd bds)
  obtain b t1 where st:
      "store_step w bd cur (t, lk) = (b, attribute w b t1, lk(sb_block_hash bd \<mapsto> b))"
      "wf_heap t1" "b < next_addr t1" "extends t t1" "next_addr t \<le> next_addr t1"
      "children (heap t1 cur) (sb_tokens_hash bd) = Some b" "lookup t1 = lookup t"
    using store_step_cases [OF Cons.prems(1-3)] by metis
  let ?t = "attribute w b t1"
  have "refs ?t (lk(sb_block_hash bd \<mapsto> b))"
    using Cons.prems(2) st(3,5) by (simp add: refs_def) (meson less_le_trans)
  then have ih: "wf_heap t' \<and> refs t' lk' \<and> extends ?t t' \<and> next_addr ?t \<le> next_addr t' \<and>
      lookup t' = lookup ?t \<and> hits t' b (map sb_tokens_hash bds) w = length bds"
    using Cons.IH [of ?t _ b] Cons.prems(4) st wf_attribute by simp
  have ext: "extends t t'"
    using ih st(4) extends_attribute extends_trans by blast
  have child: "children (heap t' cur) (sb_tokens_hash bd) = Some b"
    using ih st(6) extends_child [of ?t t' cur] by simp
  have "w \<in> workers (heap ?t b)" by simp
  then have "w \<in> workers (heap t' b)" using ih unfolding extends_def by blast
  then show ?case using ih st ext child by (simp add: hits_Cons)
qed

section \<open>The invariant of the indexer\<close>

text \<open>A worker is \<open>covered\<close> when its jump table reaches every block it is attributed to: that is
  what dropping the worker relies on.  A worker that announces a block under an engine hash
  that its table still maps to another block would lose the old entry; \<open>announces_new\<close> excludes it.\<close>

definition covered :: "RadixTree \<Rightarrow> WorkerId \<Rightarrow> jump \<Rightarrow> bool" where
  "covered t w lk \<longleftrightarrow> (\<forall>a. w \<in> workers (heap t a) \<longrightarrow> a \<in> ran lk)"

definition index_inv :: "RadixTree \<Rightarrow> bool" where
  "index_inv t \<longleftrightarrow> wf_heap t \<and>
     (\<forall>w. refs t (worker_lookup t w) \<and> covered t w (worker_lookup t w))"

definition announces_new :: "RouterEvent \<Rightarrow> RadixTree \<Rightarrow> bool" where
  "announces_new e t =
     (case ev_data (re_event e) of
        stored op \<Rightarrow> distinct (map sb_block_hash (st_blocks op)) \<and>
          list_all (\<lambda>b. worker_lookup t (re_worker_id e) (sb_block_hash b) = None) (st_blocks op)
      | removed op \<Rightarrow> True)"

inductive reachable :: "RadixTree \<Rightarrow> bool" where
  init: "reachable (RadixTree_new e)"
| event: "reachable t \<Longrightarrow> announces_new ev t \<Longrightarrow> reachable (apply_event ev t)"
| query: "reachable t \<Longrightarrow> reachable (snd (find_matches now seq ee t))"
| drop: "reachable t \<Longrightarrow> reachable (remove_worker w t)"

lemma ran_upd_fresh: "lk h = None \<Longrightarrow> ran (lk(h \<mapsto> b)) = insert b (ran lk)"
  by (rule ran_map_upd)

lemma store_loop_covered:
  assumes "wf_heap t" "refs t lk" "cur < next_addr t"
    and "store_loop w bds cur (t, lk) = (t', lk')"
  shows "(\<forall>a v. v \<noteq> w \<longrightarrow> (v \<in> workers (heap t' a) \<longleftrightarrow> v \<in> workers (heap t a))) \<and>
     (covered t w lk \<longrightarrow> distinct (map sb_block_hash bds) \<longrightarrow>
      list_all (\<lambda>b. lk (sb_block_hash b) = None) bds \<longrightarrow> covered t' w lk')"
  using assms
proof (induction bds arbitrary: cur t lk)
  case (Cons bd bds)
  obtain b t1 where st:
      "store_step w bd cur (t, lk) = (b, attribute w b t1, lk(sb_block_hash bd \<mapsto> b))"
      "wf_heap t1" "b < next_addr t1" "next_addr t \<le> next_addr t1"
      "\<And>a. workers (heap t1 a) = workers (heap t a)"
    using store_step_cases [OF Cons.prems(1-3)] by metis
  let ?t = "attribute w b t1" and ?lk = "lk(sb_block_hash bd \<mapsto> b)"
  have "refs ?t ?lk"
    using Cons.prems(2) st(3,4) by (simp add: refs_def) (meson less_le_trans)
  moreover have "wf_heap ?t" "b < next_addr ?t" using st wf_attribute by simp_all
  moreover have "store_loop w bds b (?t, ?lk) = (t', lk')" using Cons.prems(4) st(1) by simp
  ultimately have ih: "(\<forall>a v. v \<noteq> w \<longrightarrow> (v \<in> workers (heap t' a) \<longleftrightarrow> v \<in> workers (heap ?t a))) \<and>
     (covered ?t w ?lk \<longrightarrow> distinct (map sb_block_hash bds) \<longrightarrow>
      list_all (\<lambda>b. ?lk (sb_block_hash b) = None) bds \<longrightarrow> covered t' w lk')"
    by (intro Cons.IH)
  moreover have "covered ?t w ?lk" if "covered t w lk" "lk (sb_block_hash bd) = None"
    using that by (auto simp: covered_def st(5) ran_upd_fresh)
  moreover have "list_all (\<lambda>b. ?lk (sb_block_hash b) = None) bds"
    if "list_all (\<lambda>b. lk (sb_block_hash b) = None) bds" "sb_block_hash bd \<notin> sb_block_hash ` set bds"
    using that by (simp add: list_all_iff) (metis image_eqI)
  ultimately show ?case by (auto simp: st(5))
qed simp

lemma remove_loop_props:
  assumes "wf_heap t" "refs t lk" "covered t w lk" "remove_loop w hs (t, lk) = (t', lk')"
  shows "wf_heap t' \<and> refs t' lk' \<and> covered t' w lk' \<and> next_addr t' = next_addr t \<and>
     lookup t' = lookup t \<and> dom lk' = dom lk - set hs \<and>
     (\<forall>a v. v \<noteq> w \<longrightarrow> (v \<in> workers (heap t' a) \<longleftrightarrow> v \<in> workers (heap t a)))"
  using assms
proof (induction hs arbitrary: t lk)
  case (Cons h hs)
  show ?case
  proof (cases "lk h")
    case None
    then show ?thesis using Cons by auto
  next
    case (Some blk)
    let ?b = "(heap t blk)\<lparr>workers := workers (heap t blk) - {w}\<rparr>"
    let ?c = "if workers ?b = {} then ?b\<lparr>children := (\<lambda>_. None)\<rparr> else ?b"
    let ?t = "t\<lparr>heap := (heap t)(blk := ?c)\<rparr>" and ?lk = "lk(h := None)"
    have wf: "wf_heap ?t" using Cons.prems(1) by (auto simp: wf_heap_def)
    have rf: "refs ?t ?lk" using Cons.prems(2) by (simp add: refs_def)
    have cv: "covered ?t w ?lk"
      using Cons.prems(3) Some by (auto simp: covered_def ran_def) (metis option.inject)
    have "remove_loop w hs (?t, ?lk) = (t', lk')"
      using Cons.prems(4) Some by (simp add: Let_def)
    note ih = Cons.IH [OF wf rf cv this]
    have other: "v \<noteq> w \<Longrightarrow> (v \<in> workers (heap ?t a) \<longleftrightarrow> v \<in> workers (heap t a))" for a v
      by simp
    have "dom lk' = dom lk - set (h # hs)" using ih by (auto simp: dom_def split: if_splits)
    moreover have "next_addr ?t = next_addr t" "lookup ?t = lookup t" by simp_all
    ultimately show ?thesis using ih other by simp
  qed
qed simp

lemma worker_lookup_upd [simp]:
  "worker_lookup (t\<lparr>lookup := (lookup t)(w \<mapsto> lk)\<rparr>) v = (if v = w then lk else worker_lookup t v)"
  by (simp add: worker_lookup_def)

lemma heap_lookup_upd [simp]:
  "wf_heap (t\<lparr>lookup := l\<rparr>) = wf_heap t" "refs (t\<lparr>lookup := l\<rparr>) lk = refs t lk"
  "covered (t\<lparr>lookup := l\<rparr>) w lk = covered t w lk" "hits (t\<lparr>lookup := l\<rparr>) a seq w = hits t a seq w"
  "extends t (t'\<lparr>lookup := l\<rparr>) = extends t t'"
proof -
  show "hits (t\<lparr>lookup := l\<rparr>) a seq w = hits t a seq w"
    unfolding hits_def by (induction seq arbitrary: a) (simp_all split: option.split)
qed (simp_all add: wf_heap_def refs_def covered_def extends_def)

text \<open>The state and jump table an event leaves, before they are written back.\<close>

definition event_result :: "RouterEvent \<Rightarrow> RadixTree \<Rightarrow> RadixTree \<times> jump" where
  "event_result e t =
     (let w = re_worker_id e; lk = worker_lookup t w in
      case ev_data (re_event e) of
        stored op \<Rightarrow>
          (case st_parent_hash op of
             None \<Rightarrow> store_loop w (st_blocks op) 0 (t, lk)
           | Some ph \<Rightarrow> (case lk ph of None \<Rightarrow> (t, lk)
               | Some cur \<Rightarrow> store_loop w (st_blocks op) cur (t, lk)))
      | removed op \<Rightarrow> remove_loop w (rm_block_hashes op) (t, lk))"

lemma apply_event_result:
  "apply_event e t = (let (t', lk') = event_result e t
                      in t'\<lparr>lookup := (lookup t')(re_worker_id e \<mapsto> lk')\<rparr>)"
  by (simp add: apply_event_def event_result_def Let_def split: KvCacheEventData.split option.split)

lemma store_start:
  assumes "wf_heap t" "refs t lk"
  shows "0 < next_addr t" "lk ph = Some cur \<Longrightarrow> cur < next_addr t"
  using assms by (simp_all add: wf_heap_def refs_def)

lemma event_result_inv:
  assumes "index_inv t" "announces_new e t" "event_result e t = (t', lk')"
  shows "wf_heap t' \<and> refs t' lk' \<and> covered t' (re_worker_id e) lk' \<and>
     next_addr t \<le> next_addr t' \<and> lookup t' = lookup t \<and>
     (\<forall>a v. v \<noteq> re_worker_id e \<longrightarrow> (v \<in> workers (heap t' a) \<longleftrightarrow> v \<in> workers (heap t a)))"
proof -
  let ?w = "re_worker_id e"
  let ?lk = "worker_lookup t ?w"
  have inv: "wf_heap t" "refs t ?lk" "covered t ?w ?lk"
    using assms(1) by (simp_all add: index_inv_def)
  show ?thesis
  proof (cases "ev_data (re_event e)")
    case (stored op)
    have store: ?thesis
      if "cur < next_addr t" "store_loop ?w (st_blocks op) cur (t, ?lk) = (t', lk')" for cur
      using store_loop_props [OF inv(1,2) that] store_loop_covered [OF inv(1,2) that] inv(3)
        assms(2) stored by (simp add: announces_new_def)
    show ?thesis
    proof (cases "st_parent_hash op")
      case None
      then show ?thesis using store [of 0] assms(3) stored store_start [OF inv(1,2)]
        by (simp add: event_result_def Let_def)
    next
      case (Some ph)
      show ?thesis
      proof (cases "?lk ph")
        case None
        then have "t' = t" "lk' = ?lk"
          using assms(3) stored Some by (auto simp: event_result_def Let_def)
        then show ?thesis using inv by simp
      next
        case (Some cur)
        then have "store_loop ?w (st_blocks op) cur (t, ?lk) = (t', lk')"
          using assms(3) stored \<open>st_parent_hash op = Some ph\<close>
          by (simp add: event_result_def Let_def)
        with store_start(2) [OF inv(1,2) Some] show ?thesis by (rule store)
      qed
    qed
  next
    case (removed op)
    then show ?thesis
      using remove_loop_props [OF inv, of "rm_block_hashes op" t' lk'] assms(3)
      by (simp add: event_result_def Let_def)
  qed
qed

lemma index_inv_event [inv_intros]:
  assumes "index_inv t" "announces_new e t"
  shows "index_inv (apply_event e t)"
proof -
  obtain t' lk' where r: "event_result e t = (t', lk')" by fastforce
  note p = event_result_inv [OF assms r]
  have a: "apply_event e t = t'\<lparr>lookup := (lookup t')(re_worker_id e \<mapsto> lk')\<rparr>"
    by (simp add: apply_event_result r)
  have "worker_lookup (apply_event e t) v
      = (if v = re_worker_id e then lk' else worker_lookup t v)" for v
    using p by (simp add: a worker_lookup_def)
  moreover have "refs t' (worker_lookup t v)" for v
    using p assms(1) by (simp add: index_inv_def refs_def) (meson less_le_trans)
  moreover have "v \<noteq> re_worker_id e \<Longrightarrow> covered t' v (worker_lookup t v)" for v
    using p assms(1) by (simp add: index_inv_def covered_def)
  ultimately show ?thesis using p by (simp add: index_inv_def) (simp add: a)
qed

lemma index_inv_shape [inv_intros]: "index_inv t \<Longrightarrow> same_shape t t' \<Longrightarrow> index_inv t'"
  by (simp add: index_inv_def same_shape_def wf_heap_def refs_def covered_def worker_lookup_def)

lemma index_inv_new [inv_intros]: "index_inv (RadixTree_new e)"
  by (simp add: index_inv_def RadixTree_new_def wf_heap_def refs_def covered_def
      worker_lookup_def Block_new_def)

lemma remove_worker_shape:
  assumes "covered t w (worker_lookup t w)"
  shows "workers (heap (remove_worker w t) a) = workers (heap t a) - {w}"
        "children (heap (remove_worker w t) a) = children (heap t a)"
        "next_addr (remove_worker w t) = next_addr t"
        "worker_lookup (remove_worker w t) v = (if v = w then (\<lambda>_. None) else worker_lookup t v)"
  using assms
  by (auto simp: remove_worker_def covered_def worker_lookup_def split: option.splits)

lemma index_inv_drop [inv_intros]:
  assumes "index_inv t"
  shows "index_inv (remove_worker w t)"
proof -
  have "covered t w (worker_lookup t w)" using assms by (simp add: index_inv_def)
  note sh = remove_worker_shape [OF this]
  show ?thesis using assms
    by (simp add: index_inv_def wf_heap_def refs_def covered_def sh)
qed

lemma reachable_inv: "reachable t \<Longrightarrow> index_inv t"
  by (induction rule: reachable.induct) (auto intro: inv_intros find_matches_shape)

text \<open>Without any condition on the events the heap stays well formed and the jump tables stay
  within it; that is all storing relies on.\<close>

definition tree_inv :: "RadixTree \<Rightarrow> bool" where
  "tree_inv t \<longleftrightarrow> wf_heap t \<and> (\<forall>w. refs t (worker_lookup t w))"

inductive indexed :: "RadixTree \<Rightarrow> bool" where
  init: "indexed (RadixTree_new e)"
| event: "indexed t \<Longrightarrow> indexed (apply_event ev t)"
| query: "indexed t \<Longrightarrow> indexed (snd (find_matches now seq ee t))"
| drop: "indexed t \<Longrightarrow> indexed (remove_worker w t)"

lemma remove_loop_wf:
  "wf_heap t \<Longrightarrow> refs t lk \<Longrightarrow> remove_loop w hs (t, lk) = (t', lk') \<Longrightarrow>
     wf_heap t' \<and> refs t' lk' \<and> next_addr t' = next_addr t \<and> lookup t' = lookup t"
proof (induction hs arbitrary: t lk)
  case (Cons h hs)
  show ?case
  proof (cases "lk h")
    case (Some blk)
    let ?b = "(heap t blk)\<lparr>workers := workers (heap t blk) - {w}\<rparr>"
    let ?t = "t\<lparr>heap := (heap t)(blk := if workers ?b = {} then ?b\<lparr>children := (\<lambda>_. None)\<rparr> else ?b)\<rparr>"
    have "wf_heap ?t" using Cons.prems(1) by (auto simp: wf_heap_def)
    moreover have "refs ?t (lk(h := None))" using Cons.prems(2) by (simp add: refs_def)
    moreover have "remove_loop w hs (?t, lk(h := None)) = (t', lk')"
      using Cons.prems(3) Some by (simp add: Let_def)
    ultimately have "wf_heap t' \<and> refs t' lk' \<and> next_addr t' = next_addr ?t \<and> lookup t' = lookup ?t"
      by (rule Cons.IH)
    then show ?thesis by simp
  qed (use Cons in simp)
qed simp

lemma event_result_wf:
  assumes "tree_inv t" "event_result e t = (t', lk')"
  shows "wf_heap t' \<and> refs t' lk' \<and> next_addr t \<le> next_addr t' \<and> lookup t' = lookup t"
proof -
  let ?lk = "worker_lookup t (re_worker_id e)"
  have inv: "wf_heap t" "refs t ?lk" using assms(1) by (simp_all add: tree_inv_def)
  note start = store_start [OF inv]
  have store: ?thesis if "cur < next_addr t" "store_loop (re_worker_id e) bds cur (t, ?lk) = (t', lk')" for cur bds
    using store_loop_props [OF inv that] by blast
  show ?thesis
    using assms(2) store [OF start(1)] store [OF start(2)] remove_loop_wf [OF inv, of "re_worker_id e" _ t' lk'] inv
    by (simp add: event_result_def Let_def split: KvCacheEventData.splits option.splits) blast+
qed

lemma tree_inv_event [inv_intros]:
  assumes "tree_inv t"
  shows "tree_inv (apply_event e t)"
proof -
  obtain t' lk' where r: "event_result e t = (t', lk')" by fastforce
  note p = event_result_wf [OF assms r]
  have a: "apply_event e t = t'\<lparr>lookup := (lookup t')(re_worker_id e \<mapsto> lk')\<rparr>"
    by (simp add: apply_event_result r)
  have "worker_lookup (apply_event e t) v
      = (if v = re_worker_id e then lk' else worker_lookup t v)" for v
    using p by (simp add: a worker_lookup_def)
  moreover have "refs t' (worker_lookup t v)" for v
    using p assms by (simp add: tree_inv_def refs_def) (meson less_le_trans)
  ultimately show ?thesis using p by (simp add: tree_inv_def) (simp add: a)
qed

lemma tree_inv_shape [inv_intros]: "tree_inv t \<Longrightarrow> same_shape t t' \<Longrightarrow> tree_inv t'"
  by (simp add: tree_inv_def same_shape_def wf_heap_def refs_def worker_lookup_def)

lemma tree_inv_drop [inv_intros]: "tree_inv t \<Longrightarrow> tree_inv (remove_worker w t)"
  by (auto simp: tree_inv_def wf_heap_def refs_def remove_worker_def worker_lookup_def split: option.splits if_splits)

lemma index_tree_inv: "index_inv t \<Longrightarrow> tree_inv t"
  by (simp add: index_inv_def tree_inv_def)

lemma indexed_inv: "indexed t \<Longrightarrow> tree_inv t"
  by (induction rule: indexed.induct)
    (auto intro: tree_inv_event tree_inv_shape tree_inv_drop index_tree_inv index_inv_new find_matches_shape)

section \<open>Properties\<close>

definition store_event ::
  "WorkerId \<Rightarrow> u64 option \<Rightarrow> (ExternalSequenceBlockHash \<times> LocalBlockHash) list \<Rightarrow> RouterEvent" where
  "store_event w ph bs = \<lparr>re_worker_id = w, re_event = \<lparr>ev_event_id = 0,
     ev_data = stored \<lparr>st_parent_hash = ph,
       st_blocks = map (\<lambda>(b, t). \<lparr>sb_block_hash = b, sb_tokens_hash = t\<rparr>) bs\<rparr>\<rparr>\<rparr>"

definition remove_event :: "WorkerId \<Rightarrow> ExternalSequenceBlockHash list \<Rightarrow> RouterEvent" where
  "remove_event w hs = \<lparr>re_worker_id = w, re_event = \<lparr>ev_event_id = 0,
     ev_data = removed \<lparr>rm_block_hashes = hs\<rparr>\<rparr>\<rparr>"

lemmas radix_eval =
  store_event_def remove_event_def apply_event_def worker_lookup_def RadixTree_new_def
  Block_new_def store_step_def alloc_def link_def attribute_def Let_def announces_new_def
  score_def find_matches_def bump_def touch_def

text \<open>The block a sequence of token hashes leads to, when every hash has an edge.\<close>

fun reached :: "RadixTree \<Rightarrow> addr \<Rightarrow> LocalBlockHash list \<Rightarrow> addr option" where
  "reached t a [] = Some a"
| "reached t a (h # hs) = (case children (heap t a) h of None \<Rightarrow> None | Some b \<Rightarrow> reached t b hs)"

lemma hits_append:
  "reached t a p = Some c \<Longrightarrow> hits t a (p @ q) w = hits t a p w + hits t c q w"
proof (induction p arbitrary: a)
  case (Cons h p)
  then show ?case by (cases "children (heap t a) h") (simp_all add: hits_Cons)
qed (simp add: hits_def)

lemma extends_reached: "extends t t' \<Longrightarrow> reached t a p = Some c \<Longrightarrow> reached t' a p = Some c"
proof (induction p arbitrary: a)
  case (Cons h p)
  then show ?case
    by (cases "children (heap t a) h") (simp_all add: extends_child)
qed simp

lemma apply_stored:
  assumes "tree_inv t" "ev_data (re_event e) = stored op"
    and "case st_parent_hash op of None \<Rightarrow> cur = 0
         | Some ph \<Rightarrow> worker_lookup t (re_worker_id e) ph = Some cur"
  shows "extends t (apply_event e t)"
    and "hits (apply_event e t) cur (map sb_tokens_hash (st_blocks op)) (re_worker_id e)
         = length (st_blocks op)"
proof -
  let ?w = "re_worker_id e"
  have inv: "wf_heap t" "refs t (worker_lookup t ?w)" using assms(1) by (simp_all add: tree_inv_def)
  have cur: "cur < next_addr t"
    using store_start [OF inv] assms(3) by (auto split: option.splits)
  obtain t' lk' where r: "store_loop ?w (st_blocks op) cur (t, worker_lookup t ?w) = (t', lk')"
    by fastforce
  have "event_result e t = (t', lk')"
    using assms r by (auto simp: event_result_def Let_def split: option.splits)
  then have "apply_event e t = t'\<lparr>lookup := (lookup t')(?w \<mapsto> lk')\<rparr>"
    by (simp add: apply_event_result)
  with store_loop_props [OF inv cur r]
  show "extends t (apply_event e t)"
    and "hits (apply_event e t) cur (map sb_tokens_hash (st_blocks op)) ?w = length (st_blocks op)"
    by simp_all
qed

text \<open>The number of leading blocks of a sequence that a worker has: what a score is documented
  to be.\<close>

definition leading :: "RadixTree \<Rightarrow> WorkerId \<Rightarrow> LocalBlockHash list \<Rightarrow> nat" where
  "leading t w seq = length (takeWhile (\<lambda>b. w \<in> workers (heap t b)) (walk t 0 seq))"

lemma leading_le_hits: "leading t w seq \<le> hits t 0 seq w"
proof -
  have "length (takeWhile P xs) \<le> length (filter P xs)" for P and xs :: "addr list"
    by (induction xs) auto
  then show ?thesis by (simp add: leading_def hits_def)
qed

text \<open>A worker that has every block of a sequence scores its length, and conversely.\<close>

lemma leading_full_iff: "leading t w seq = length seq \<longleftrightarrow> hits t 0 seq w = length seq"
proof
  assume "leading t w seq = length seq"
  then show "hits t 0 seq w = length seq"
    using leading_le_hits [of t w seq] hits_le [of t 0 seq w] by simp
next
  assume h: "hits t 0 seq w = length seq"
  then have "length (walk t 0 seq) = length seq"
    using length_walk [of t 0 seq] length_filter_le [of "\<lambda>b. w \<in> workers (heap t b)" "walk t 0 seq"]
    by (simp add: hits_def)
  moreover have "filter (\<lambda>b. w \<in> workers (heap t b)) (walk t 0 seq) = walk t 0 seq"
    using h calculation by (simp add: hits_def filter_id_conv)
      (metis length_filter_less linorder_neq_iff)
  then have "takeWhile (\<lambda>b. w \<in> workers (heap t b)) (walk t 0 seq) = walk t 0 seq"
    by (simp only: filter_id_conv takeWhile_eq_all_conv)
  ultimately show "leading t w seq = length seq" by (simp only: leading_def)
qed

text \<open>C5.  A worker that has every block of a path, the empty one included, announces that it has
  stored a run of blocks below the end of that path.  Then, after any events before, it has every
  block of the path continued by the run's token hashes, and the query for it scores exactly that
  number of leading blocks for the worker; and the announcement never lowers the score of any
  worker for any query.  Sequences have fewer than 2 to the 32 blocks, the range of a score.\<close>

theorem stored_blocks_match:
  assumes "indexed t" and "ev_data (re_event e) = stored op"
    and "case st_parent_hash op of None \<Rightarrow> p = []
         | Some ph \<Rightarrow> worker_lookup t (re_worker_id e) ph \<noteq> None \<and>
                     reached t 0 p = worker_lookup t (re_worker_id e) ph"
    and "leading t (re_worker_id e) p = length p"
    and "seq = p @ map sb_tokens_hash (st_blocks op)" "length seq < 2 ^ 32"
  shows "unat (score (fst (find_matches now seq False (apply_event e t))) (re_worker_id e)) = length seq \<and>
         leading (apply_event e t) (re_worker_id e) seq = length seq \<and>
         (\<forall>q w. length q < 2 ^ 32 \<longrightarrow>
            score (fst (find_matches now q False t)) w
              \<le> score (fst (find_matches now q False (apply_event e t))) w)"
proof -
  obtain cur where cur: "reached t 0 p = Some cur"
      "case st_parent_hash op of None \<Rightarrow> cur = 0
       | Some ph \<Rightarrow> worker_lookup t (re_worker_id e) ph = Some cur"
    using assms(3) by (cases "st_parent_hash op") auto
  note st = apply_stored [OF indexed_inv [OF assms(1)] assms(2) cur(2)]
  have "hits (apply_event e t) 0 p (re_worker_id e) = length p"
    using assms(4) extends_hits [OF st(1), of 0 p "re_worker_id e"] hits_le
    by (simp add: leading_full_iff) (metis le_antisym)
  then have full: "hits (apply_event e t) 0 seq (re_worker_id e) = length seq"
    using hits_append [OF extends_reached [OF st(1) cur(1)]] st(2) by (simp add: assms(5))
  have "score (fst (find_matches now q False t)) w
      \<le> score (fst (find_matches now q False (apply_event e t))) w" if "length q < 2 ^ 32" for q w
    using extends_hits [OF st(1)] by (simp add: word_le_nat_alt unat_score [OF that])
  then show ?thesis using full by (simp add: leading_full_iff unat_score [OF assms(6)])
qed

theorem stored_blocks_match_witness:
  "let t = apply_event (store_event 1 None [(10, 100), (11, 101)]) (RadixTree_new None);
       e = store_event 1 (Some 11) [(12, 102)]
   in unat (score (fst (find_matches 0 [100, 101, 102] False (apply_event e t))) 1) = 3 \<and>
      leading (apply_event e t) 1 [100, 101, 102] = 3"
proof -
  let ?t = "apply_event (store_event 1 None [(10, 100), (11, 101)]) (RadixTree_new None)"
  have r: "indexed ?t" by (intro indexed.intros)
  have d: "ev_data (re_event (store_event 1 (Some 11) [(12, 102)])) = stored
      \<lparr>st_parent_hash = Some 11, st_blocks = [\<lparr>sb_block_hash = 12, sb_tokens_hash = 102\<rparr>]\<rparr>"
    by (simp add: store_event_def)
  have l: "leading ?t 1 [100, 101] = 2" by (simp add: radix_eval leading_def)
  have p: "worker_lookup ?t 1 11 \<noteq> None \<and> reached ?t 0 [100, 101] = worker_lookup ?t 1 11"
    by (simp add: radix_eval)
  show ?thesis
    using stored_blocks_match [OF r d, of "[100, 101]" "[100, 101, 102]" 0] l p
    by (simp add: Let_def) (simp add: store_event_def)
qed



text \<open>A worker that removes every block it announced scores nothing any more.\<close>

lemma removed_event_clears:
  assumes "reachable t" and "ev_data (re_event e) = removed op"
    and "dom (worker_lookup t (re_worker_id e)) \<subseteq> set (rm_block_hashes op)"
  shows "score (fst (find_matches now seq False (apply_event e t))) (re_worker_id e) = 0"
proof -
  let ?w = "re_worker_id e"
  have inv: "wf_heap t" "refs t (worker_lookup t ?w)" "covered t ?w (worker_lookup t ?w)"
    using reachable_inv [OF assms(1)] by (simp_all add: index_inv_def)
  obtain t' lk' where r: "remove_loop ?w (rm_block_hashes op) (t, worker_lookup t ?w) = (t', lk')"
    by fastforce
  have a: "apply_event e t = t'\<lparr>lookup := (lookup t')(?w \<mapsto> lk')\<rparr>"
    using assms(2) r by (simp add: apply_event_result event_result_def Let_def)
  have "dom lk' = {}" "covered t' ?w lk'"
    using remove_loop_props [OF inv r] assms(3) by auto
  then have "?w \<notin> workers (heap t' b)" for b by (simp add: covered_def)
  then show ?thesis by (simp add: score_find_matches a) (simp add: hits_def)
qed

lemma removed_event_clears_witness:
  "score (fst (find_matches 0 [100, 101] False
      (apply_event (remove_event 1 [11, 10])
        (apply_event (store_event 1 None [(10, 100), (11, 101)]) (RadixTree_new None))))) 1 = 0"
proof -
  let ?t = "apply_event (store_event 1 None [(10, 100), (11, 101)]) (RadixTree_new None)"
  have r: "reachable ?t"
    by (rule reachable.event [OF reachable.init]) (simp add: radix_eval)
  have "dom (worker_lookup ?t 1) \<subseteq> {11, 10}"
    by (auto simp: radix_eval split: if_splits)
  then show ?thesis
    using removed_event_clears [OF r, of "remove_event 1 [11, 10]" _ 0 "[100, 101]"]
    by (simp add: remove_event_def)
qed

text \<open>A score is not the number of leading blocks a worker has: a worker that has evicted the
  first block of a sequence and kept the second still scores one for the sequence as long as
  another worker keeps the path alive, although it scores nothing for the first block alone.\<close>

lemma score_counts_across_gap:
  "let t = apply_event (remove_event 1 [10])
        (apply_event (store_event 2 None [(10, 100), (11, 101)])
          (apply_event (store_event 1 None [(10, 100), (11, 101)]) (RadixTree_new None)))
   in score (fst (find_matches 0 [100] False t)) 1 = 0 \<and>
      score (fst (find_matches 0 [100, 101] False t)) 1 = 1"
  by (simp add: radix_eval)

text \<open>Without \<^const>\<open>announces_new\<close> a dropped worker can stay: when a worker re-announces an
  engine hash along a path another worker created, its jump table forgets the old block, and
  \<open>remove_worker\<close> leaves the worker on it.\<close>

lemma remove_worker_misses_forgotten_block:
  "let t = apply_event (store_event 1 None [(10, 101)])
        (apply_event (store_event 2 None [(20, 101)])
          (apply_event (store_event 1 None [(10, 100)]) (RadixTree_new None)))
   in score (fst (find_matches 0 [100] False (remove_worker 1 t))) 1 = 1"
  by (simp add: radix_eval remove_worker_def)

end
