(* ===== verification/Scheduler.thy ===== *)
theory Scheduler
  imports Complex_Main Radix
begin

text \<open>
  The KV scheduler and router: \<^verbatim>\<open>src/llm/kv_router/scheduler.h\<close>, \<^verbatim>\<open>scheduler.cpp\<close>,
  \<^verbatim>\<open>router.cpp\<close>, and the metrics and hit-rate types of \<^verbatim>\<open>protocols.h\<close>.  Slot and block counters
  keep their 64 bits; costs and load ratios, which the code computes in double precision, are
  real numbers here, so statements about which cost is smaller hold up to rounding.  Parsing of
  event and stats payloads is a parameter (it is the JSON library's).  The lemmas show when a
  worker is chosen, that it is the cheapest one with capacity, that predicted load never passes
  capacity, and that a snapshot serves exactly as many requests as it has free slots.
\<close>

section \<open>Metrics and endpoints\<close>

record ForwardPassMetrics =
  request_active_slots :: u64
  request_total_slots :: u64
  kv_active_blocks :: u64
  kv_total_blocks :: u64
  num_requests_waiting :: u64
  gpu_cache_usage_perc :: real
  gpu_prefix_cache_hit_rate :: real

record KVHitRateEvent =
  hr_worker_id :: WorkerId
  hr_isl_blocks :: nat
  hr_overlap_blocks :: nat

record Endpoint =
  ep_name :: string
  ep_subject :: string
  ep_worker_id :: WorkerId
  ep_data :: ForwardPassMetrics

record ProcessedEndpoints =
  endpoints :: "Endpoint list"
  load_avg :: real
  load_std :: real

datatype SchedulerError = NoEndpointsError | AllWorkersBusyError

definition kv_ratio :: "Endpoint \<Rightarrow> real" where
  "kv_ratio e =
     (if kv_total_blocks (ep_data e) = 0 then 0
      else real (unat (kv_active_blocks (ep_data e))) / real (unat (kv_total_blocks (ep_data e))))"

definition ProcessedEndpoints_new :: "Endpoint list \<Rightarrow> ProcessedEndpoints" where
  "ProcessedEndpoints_new eps =
     (if eps = [] then \<lparr>endpoints = eps, load_avg = 0, load_std = 0\<rparr>
      else
        let ratios = map kv_ratio eps;
            avg = sum_list ratios / real (length ratios);
            variance = sum_list (map (\<lambda>r. (r - avg) * (r - avg)) ratios) / real (length ratios)
        in \<lparr>endpoints = eps, load_avg = avg, load_std = sqrt variance\<rparr>)"

section \<open>Selection\<close>

definition at_capacity :: "Endpoint \<Rightarrow> bool" where
  "at_capacity w \<longleftrightarrow>
     request_active_slots (ep_data w) \<ge> request_total_slots (ep_data w) \<or>
     kv_active_blocks (ep_data w) \<ge> kv_total_blocks (ep_data w)"

definition alpha_of :: "ProcessedEndpoints \<Rightarrow> real" where
  "alpha_of ws = (if load_std ws > 0.1 * load_avg ws then 0.7 else 0.3)"

text \<open>The product of the overlap and the block size is a \<open>size_t\<close>.\<close>

definition new_tokens :: "OverlapScores \<Rightarrow> nat \<Rightarrow> nat \<Rightarrow> Endpoint \<Rightarrow> nat" where
  "new_tokens overlap isl_tokens kv_block_size w =
     (let overlap_tokens = unat (score overlap (ep_worker_id w)) * kv_block_size mod 2 ^ 64
      in if isl_tokens > overlap_tokens then isl_tokens - overlap_tokens else 0)"

definition cost_of :: "real \<Rightarrow> real \<Rightarrow> OverlapScores \<Rightarrow> nat \<Rightarrow> nat \<Rightarrow> Endpoint \<Rightarrow> real" where
  "cost_of alpha avg overlap isl_tokens kv_block_size w =
     (let d = ep_data w;
          kv_load_ratio = real (unat (kv_active_blocks d)) / real (unat (kv_total_blocks d));
          load_deviation = kv_load_ratio - avg;
          normalized_new_tokens =
            (if isl_tokens = 0 then 0
             else real (new_tokens overlap isl_tokens kv_block_size w) / real isl_tokens);
          request_load_ratio =
            real (unat (request_active_slots d)) / real (unat (request_total_slots d))
      in alpha * load_deviation + (1 - alpha) * normalized_new_tokens + 0.1 * request_load_ratio)"

text \<open>The scan of \<open>select_worker\<close>: the best index with its cost so far; no best index is an
  infinite best cost.\<close>

fun select_loop ::
  "(Endpoint \<Rightarrow> real) \<Rightarrow> Endpoint list \<Rightarrow> nat \<Rightarrow> (nat \<times> real) option \<Rightarrow> (nat \<times> real) option" where
  "select_loop cost [] i best = best"
| "select_loop cost (w # ws) i best =
     select_loop cost ws (i + 1)
       (if at_capacity w then best
        else if (case best of None \<Rightarrow> True | Some (_, bc) \<Rightarrow> cost w < bc) then Some (i, cost w)
        else best)"

definition bump_load :: "nat \<Rightarrow> Endpoint \<Rightarrow> Endpoint" where
  "bump_load isl_blocks e =
     e\<lparr>ep_data := (ep_data e)\<lparr>
         request_active_slots := request_active_slots (ep_data e) + 1,
         kv_active_blocks := kv_active_blocks (ep_data e) + of_nat (min isl_blocks 1)\<rparr>\<rparr>"

definition select_worker ::
  "ProcessedEndpoints \<Rightarrow> OverlapScores \<Rightarrow> nat \<Rightarrow> nat
     \<Rightarrow> SchedulerError + (WorkerId \<times> KVHitRateEvent \<times> ProcessedEndpoints)" where
  "select_worker ws overlap isl_tokens kv_block_size =
     (if endpoints ws = [] then Inl NoEndpointsError
      else
        case select_loop (cost_of (alpha_of ws) (load_avg ws) overlap isl_tokens kv_block_size)
               (endpoints ws) 0 None of
          None \<Rightarrow> Inl AllWorkersBusyError
        | Some (best, _) \<Rightarrow>
            let isl_blocks = (if kv_block_size = 0 then 0 else isl_tokens div kv_block_size);
                chosen = bump_load isl_blocks (endpoints ws ! best)
            in Inr (ep_worker_id chosen,
                    \<lparr>hr_worker_id = ep_worker_id chosen, hr_isl_blocks = isl_blocks,
                     hr_overlap_blocks = unat (score overlap (ep_worker_id chosen))\<rparr>,
                    ws\<lparr>endpoints := (endpoints ws)[best := chosen]\<rparr>))"

section \<open>The scheduler object\<close>

text \<open>The sink is a callback; \<open>sink_log\<close> is what it has been called with.\<close>

record KvScheduler =
  sch_endpoints :: ProcessedEndpoints
  sch_block_size :: nat
  sink_set :: bool
  sink_log :: "KVHitRateEvent list"

definition KvScheduler_new :: "nat \<Rightarrow> KvScheduler" where
  "KvScheduler_new n =
     \<lparr>sch_endpoints = \<lparr>endpoints = [], load_avg = 0, load_std = 0\<rparr>,
      sch_block_size = n, sink_set = False, sink_log = []\<rparr>"

definition update_endpoints :: "ProcessedEndpoints \<Rightarrow> KvScheduler \<Rightarrow> KvScheduler" where
  "update_endpoints eps s = s\<lparr>sch_endpoints := eps\<rparr>"

definition has_endpoints :: "KvScheduler \<Rightarrow> bool" where
  "has_endpoints s \<longleftrightarrow> endpoints (sch_endpoints s) \<noteq> []"

definition set_hit_rate_sink :: "bool \<Rightarrow> KvScheduler \<Rightarrow> KvScheduler" where
  "set_hit_rate_sink b s = s\<lparr>sink_set := b\<rparr>"

definition schedule ::
  "OverlapScores \<Rightarrow> nat \<Rightarrow> KvScheduler
     \<Rightarrow> SchedulerError + (WorkerId \<times> KVHitRateEvent \<times> KvScheduler)" where
  "schedule overlap isl_tokens s =
     (case select_worker (sch_endpoints s) overlap isl_tokens (sch_block_size s) of
        Inl err \<Rightarrow> Inl err
      | Inr (w, ev, eps) \<Rightarrow>
          Inr (w, ev, s\<lparr>sch_endpoints := eps,
                        sink_log := (if sink_set s then sink_log s @ [ev] else sink_log s)\<rparr>))"

section \<open>The router\<close>

record KvRouter =
  rt_indexer :: KvIndexer
  rt_scheduler :: KvScheduler
  rt_published :: "KVHitRateEvent list"

definition KvRouter_new :: "nat \<Rightarrow> KvRouter" where
  "KvRouter_new kv_block_size =
     \<lparr>rt_indexer = KvIndexer_new kv_block_size, rt_scheduler = KvScheduler_new kv_block_size,
      rt_published = []\<rparr>"

text \<open>One round of \<open>event_consumer\<close>: a payload that does not parse is dropped.\<close>

definition event_consumer :: "(string \<Rightarrow> RouterEvent option) \<Rightarrow> string \<Rightarrow> KvRouter \<Rightarrow> KvRouter" where
  "event_consumer parse payload r =
     (case parse payload of
        None \<Rightarrow> r
      | Some e \<Rightarrow> r\<lparr>rt_indexer := indexer_apply_event e (rt_indexer r)\<rparr>)"

record 'j StatsEntry =
  se_ok :: bool
  se_endpoint :: string
  se_subject :: string
  se_instance_id :: int
  se_stats :: 'j

definition kKvMetricsEndpoint :: string where
  "kKvMetricsEndpoint = ''load_metrics''"

text \<open>One round of \<open>metrics_aggregator\<close> after a scrape that succeeded (\<open>Some\<close>) or failed
  (\<open>None\<close>, where the old snapshot stays).  \<open>custom\<close> looks up the field of that name in a stats
  object, and \<open>parse\<close> reads the metrics.\<close>

definition scraped_endpoint ::
  "('j \<Rightarrow> 'j option) \<Rightarrow> ('j \<Rightarrow> ForwardPassMetrics option) \<Rightarrow> 'j StatsEntry \<Rightarrow> Endpoint option" where
  "scraped_endpoint custom parse entry =
     (if \<not> se_ok entry \<or> se_endpoint entry \<noteq> kKvMetricsEndpoint then None
      else
        let j = (case custom (se_stats entry) of Some c \<Rightarrow> c | None \<Rightarrow> se_stats entry)
        in case parse j of
             None \<Rightarrow> None
           | Some m \<Rightarrow> Some \<lparr>ep_name = se_endpoint entry, ep_subject = se_subject entry,
                            ep_worker_id = se_instance_id entry, ep_data = m\<rparr>)"

definition metrics_aggregator ::
  "('j \<Rightarrow> 'j option) \<Rightarrow> ('j \<Rightarrow> ForwardPassMetrics option) \<Rightarrow> 'j StatsEntry list option
     \<Rightarrow> KvRouter \<Rightarrow> KvRouter" where
  "metrics_aggregator custom parse scraped r =
     (case scraped of
        None \<Rightarrow> r
      | Some entries \<Rightarrow>
          r\<lparr>rt_scheduler := update_endpoints
               (ProcessedEndpoints_new (List.map_filter (scraped_endpoint custom parse) entries))
               (rt_scheduler r)\<rparr>)"

text \<open>\<open>publish_ok\<close>: whether publishing the hit-rate event succeeds; a failure is only logged.\<close>

definition schedule_impl ::
  "xxh3 \<Rightarrow> time \<Rightarrow> bool \<Rightarrow> Token list \<Rightarrow> KvRouter \<Rightarrow> SchedulerError + (WorkerId \<times> KvRouter)" where
  "schedule_impl xxh3 now publish_ok token_ids r =
     (let (overlap, ix) = find_matches_for_request xxh3 now token_ids (rt_indexer r) in
      case schedule overlap (length token_ids) (rt_scheduler r) of
        Inl err \<Rightarrow> Inl err
      | Inr (w, ev, s) \<Rightarrow>
          Inr (w, r\<lparr>rt_indexer := ix, rt_scheduler := s,
                   rt_published := (if publish_ok then rt_published r @ [ev]
                                    else rt_published r)\<rparr>))"

section \<open>The scan\<close>

definition best_of :: "(Endpoint \<Rightarrow> real) \<Rightarrow> Endpoint list \<Rightarrow> nat \<Rightarrow> real \<Rightarrow> bool" where
  "best_of cost ws i c \<longleftrightarrow> i < length ws \<and> \<not> at_capacity (ws ! i) \<and> c = cost (ws ! i) \<and>
     (\<forall>j < length ws. \<not> at_capacity (ws ! j) \<longrightarrow>
        c \<le> cost (ws ! j) \<and> (j < i \<longrightarrow> c < cost (ws ! j)))"

definition best_ok :: "(Endpoint \<Rightarrow> real) \<Rightarrow> Endpoint list \<Rightarrow> (nat \<times> real) option \<Rightarrow> bool" where
  "best_ok cost ws best =
     (case best of None \<Rightarrow> list_all at_capacity ws | Some (i, c) \<Rightarrow> best_of cost ws i c)"

lemma best_of_le:
  "best_of cost ws i c \<Longrightarrow> f \<in> set ws \<Longrightarrow> \<not> at_capacity f \<Longrightarrow> c \<le> cost f"
  by (auto simp: best_of_def in_set_conv_nth)

lemma best_ok_snoc:
  assumes "best_ok cost ws best"
  shows "best_ok cost (ws @ [w])
     (if at_capacity w then best
      else if (case best of None \<Rightarrow> True | Some (_, bc) \<Rightarrow> cost w < bc) then Some (length ws, cost w)
      else best)"
proof (cases best)
  case None
  then show ?thesis using assms
    by (auto simp: best_ok_def best_of_def list_all_length nth_append less_Suc_eq)
next
  case (Some ic)
  then show ?thesis using assms
    by (auto simp: best_ok_def best_of_def nth_append less_Suc_eq split: prod.splits)
qed

lemma select_loop_best:
  "best_ok cost us best \<Longrightarrow> best_ok cost (us @ ws) (select_loop cost ws (length us) best)"
proof (induction ws arbitrary: us best)
  case (Cons w ws)
  show ?case using Cons.IH [OF best_ok_snoc [OF Cons.prems, of w]] by simp
qed simp

lemma select_loop_None: "best_ok cost ws (select_loop cost ws 0 None)"
  using select_loop_best [of cost "[]" None ws] by (simp add: best_ok_def)

text \<open>The cost function of one call, and the case distinction every property uses.\<close>

abbreviation call_cost :: "ProcessedEndpoints \<Rightarrow> OverlapScores \<Rightarrow> nat \<Rightarrow> nat \<Rightarrow> Endpoint \<Rightarrow> real" where
  "call_cost ws ov ntok n \<equiv> cost_of (alpha_of ws) (load_avg ws) ov ntok n"

abbreviation isl_blocks_of :: "nat \<Rightarrow> nat \<Rightarrow> nat" where
  "isl_blocks_of ntok n \<equiv> (if n = 0 then 0 else ntok div n)"

lemma select_worker_cases:
  obtains (none) "endpoints ws = []" "select_worker ws ov ntok n = Inl NoEndpointsError"
  | (busy) "endpoints ws \<noteq> []" "list_all at_capacity (endpoints ws)"
      "select_worker ws ov ntok n = Inl AllWorkersBusyError"
  | (chosen) i e where "e = endpoints ws ! i"
      "best_of (call_cost ws ov ntok n) (endpoints ws) i (call_cost ws ov ntok n e)"
      "select_worker ws ov ntok n = Inr (ep_worker_id e,
         \<lparr>hr_worker_id = ep_worker_id e, hr_isl_blocks = isl_blocks_of ntok n,
          hr_overlap_blocks = unat (score ov (ep_worker_id e))\<rparr>,
         ws\<lparr>endpoints := (endpoints ws)[i := bump_load (isl_blocks_of ntok n) e]\<rparr>)"
proof (cases "endpoints ws = []")
  case True
  then show ?thesis using none by (simp add: select_worker_def)
next
  case False
  note ok = select_loop_None [of "call_cost ws ov ntok n" "endpoints ws"]
  show ?thesis
  proof (cases "select_loop (call_cost ws ov ntok n) (endpoints ws) 0 None")
    case None
    then show ?thesis using False ok busy by (simp add: select_worker_def best_ok_def)
  next
    case (Some ic)
    obtain i c where ic: "ic = (i, c)" by fastforce
    then have b: "best_of (call_cost ws ov ntok n) (endpoints ws) i c"
      using ok Some by (simp add: best_ok_def)
    moreover have "c = call_cost ws ov ntok n (endpoints ws ! i)"
      using b by (simp add: best_of_def)
    ultimately show ?thesis
      using False Some ic by (intro chosen [of "endpoints ws ! i" i])
        (simp_all add: select_worker_def bump_load_def Let_def)
  qed
qed

lemma select_worker_Inr:
  assumes "select_worker ws ov ntok n = Inr (w, ev, ws')"
  obtains i where "i < length (endpoints ws)" "\<not> at_capacity (endpoints ws ! i)"
    "best_of (call_cost ws ov ntok n) (endpoints ws) i (call_cost ws ov ntok n (endpoints ws ! i))"
    "w = ep_worker_id (endpoints ws ! i)" "hr_isl_blocks ev = isl_blocks_of ntok n"
    "hr_worker_id ev = w" "hr_overlap_blocks ev = unat (score ov w)"
    "ws' = ws\<lparr>endpoints := (endpoints ws)[i := bump_load (isl_blocks_of ntok n) (endpoints ws ! i)]\<rparr>"
proof (cases rule: select_worker_cases [of ws ov ntok n])
  case (chosen i e)
  then have "i < length (endpoints ws)" "\<not> at_capacity (endpoints ws ! i)"
    by (simp_all add: best_of_def)
  with chosen assms show ?thesis by (intro that [of i]) auto
qed (use assms in auto)

text \<open>C7.  The choice: the scheduler fails with \<open>NoEndpointsError\<close> exactly on an empty snapshot,
  with \<open>AllWorkersBusyError\<close> exactly when every worker is at capacity, and otherwise returns the
  first worker of least cost among those with capacity, with the hit-rate event of that worker.\<close>

theorem select_worker_spec:
  "case select_worker ws ov ntok n of
     Inl NoEndpointsError \<Rightarrow> endpoints ws = []
   | Inl AllWorkersBusyError \<Rightarrow> endpoints ws \<noteq> [] \<and> list_all at_capacity (endpoints ws)
   | Inr (w, ev, ws') \<Rightarrow>
       (\<exists>i. best_of (call_cost ws ov ntok n) (endpoints ws) i
              (call_cost ws ov ntok n (endpoints ws ! i)) \<and>
            w = ep_worker_id (endpoints ws ! i) \<and> hr_worker_id ev = w \<and>
            hr_overlap_blocks ev = unat (score ov w) \<and>
            endpoints ws' = (endpoints ws)[i := bump_load (hr_isl_blocks ev) (endpoints ws ! i)])"
  by (cases rule: select_worker_cases [of ws ov ntok n]) (simp_all, blast)

section \<open>Capacity\<close>

definition within_capacity :: "Endpoint \<Rightarrow> bool" where
  "within_capacity e \<longleftrightarrow>
     request_active_slots (ep_data e) \<le> request_total_slots (ep_data e) \<and>
     kv_active_blocks (ep_data e) \<le> kv_total_blocks (ep_data e)"

definition free_slots :: "Endpoint \<Rightarrow> nat" where
  "free_slots e = unat (request_total_slots (ep_data e)) - unat (request_active_slots (ep_data e))"

definition total_free :: "ProcessedEndpoints \<Rightarrow> nat" where
  "total_free ws = sum_list (map free_slots (endpoints ws))"

lemma word_less_Suc:
  fixes a b :: u64
  assumes "a < b"
  shows "unat (a + 1) = Suc (unat a)" "a + 1 \<le> b"
proof -
  have "unat a < unat b" using assms by (simp add: word_less_nat_alt)
  moreover have "unat b < 2 ^ 64" using unsigned_less [of b] by simp
  ultimately show 1: "unat (a + 1) = Suc (unat a)" by (simp add: unat_word_ariths)
  then show "a + 1 \<le> b" using \<open>unat a < unat b\<close> by (simp add: word_le_nat_alt)
qed

lemma bump_load_capacity:
  assumes "\<not> at_capacity e"
  shows "within_capacity (bump_load k e)" "Suc (free_slots (bump_load k e)) = free_slots e"
proof -
  have a: "request_active_slots (ep_data e) < request_total_slots (ep_data e)"
      "kv_active_blocks (ep_data e) < kv_total_blocks (ep_data e)"
    using assms by (simp_all add: at_capacity_def not_le)
  show "within_capacity (bump_load k e)"
    using word_less_Suc(2) [OF a(1)] word_less_Suc(2) [OF a(2)] less_imp_le [OF a(2)]
    by (cases k) (simp_all add: within_capacity_def bump_load_def)
  show "Suc (free_slots (bump_load k e)) = free_slots e"
    using word_less_Suc(1) [OF a(1)] a(1)
    by (simp add: free_slots_def bump_load_def word_less_nat_alt)
qed

lemma sum_list_upd_Suc:
  "i < length xs \<Longrightarrow> Suc y = (xs ! i :: nat) \<Longrightarrow> Suc (sum_list (xs[i := y])) = sum_list xs"
proof (induction xs arbitrary: i)
  case (Cons x xs)
  then show ?case by (cases i) auto
qed simp

lemma select_worker_capacity:
  assumes "select_worker ws ov ntok n = Inr (w, ev, ws')"
  shows "Suc (total_free ws') = total_free ws"
    and "list_all within_capacity (endpoints ws) \<Longrightarrow> list_all within_capacity (endpoints ws')"
    and "map ep_worker_id (endpoints ws') = map ep_worker_id (endpoints ws)"
    and "w \<in> set (map ep_worker_id (endpoints ws))"
proof -
  obtain i e where c: "e = endpoints ws ! i" "i < length (endpoints ws)" "\<not> at_capacity e"
      "w = ep_worker_id e" "ws' = ws\<lparr>endpoints := (endpoints ws)[i := bump_load (isl_blocks_of ntok n) e]\<rparr>"
    using select_worker_Inr [OF assms] by metis
  show "Suc (total_free ws') = total_free ws"
    using sum_list_upd_Suc [of i "map free_slots (endpoints ws)"] bump_load_capacity(2) [OF c(3)] c
    by (simp add: total_free_def map_update)
  show "list_all within_capacity (endpoints ws')" if "list_all within_capacity (endpoints ws)"
    using that bump_load_capacity(1) [OF c(3)] c
    by (auto simp: list_all_length nth_list_update)
  show "map ep_worker_id (endpoints ws') = map ep_worker_id (endpoints ws)"
    using c by (simp add: map_update bump_load_def) (metis list_update_id nth_map)
  show "w \<in> set (map ep_worker_id (endpoints ws))" using c by simp
qed

text \<open>A batch of requests against one snapshot.\<close>

fun schedule_all ::
  "(OverlapScores \<times> nat) list \<Rightarrow> KvScheduler \<Rightarrow> SchedulerError + (WorkerId list \<times> KvScheduler)" where
  "schedule_all [] s = Inr ([], s)"
| "schedule_all ((ov, ntok) # rs) s =
     (case schedule ov ntok s of
        Inl err \<Rightarrow> Inl err
      | Inr (w, ev, s') \<Rightarrow>
          (case schedule_all rs s' of Inl err \<Rightarrow> Inl err | Inr (ws, s'') \<Rightarrow> Inr (w # ws, s'')))"

lemma schedule_cases:
  assumes "schedule ov ntok s = Inr (w, ev, s')"
  shows "select_worker (sch_endpoints s) ov ntok (sch_block_size s) = Inr (w, ev, sch_endpoints s')"
  using assms by (auto simp: schedule_def split: sum.splits)

text \<open>Between two scrapes the predicted load never passes capacity: every request that is
  scheduled uses up exactly one free slot of the snapshot, so no more requests are placed than
  there were free slots, and every endpoint stays within its slot and block totals (the 64 bit
  counters do not wrap).\<close>

lemma schedule_all_capacity:
  assumes "schedule_all rs s = Inr (ids, s')"
  shows "length rs + total_free (sch_endpoints s') = total_free (sch_endpoints s) \<and>
         (list_all within_capacity (endpoints (sch_endpoints s)) \<longrightarrow>
          list_all within_capacity (endpoints (sch_endpoints s'))) \<and>
         set ids \<subseteq> set (map ep_worker_id (endpoints (sch_endpoints s)))"
  using assms
proof (induction rs s arbitrary: ids rule: schedule_all.induct)
  case (2 ov ntok rs s)
  obtain w ev s1 where s1: "schedule ov ntok s = Inr (w, ev, s1)"
    using "2.prems" by (auto split: sum.splits)
  obtain ids' where ids: "schedule_all rs s1 = Inr (ids', s')" "ids = w # ids'"
    using "2.prems" s1 by (auto split: sum.splits)
  note ih = "2.IH" [OF s1 refl refl ids(1)]
  note c = select_worker_capacity [OF schedule_cases [OF s1]]
  show ?case using ih c ids(2) by auto
qed simp

definition idle_endpoint :: "int \<Rightarrow> u64 \<Rightarrow> Endpoint" where
  "idle_endpoint w slots = \<lparr>ep_name = ''load_metrics'', ep_subject = ''s'', ep_worker_id = w,
     ep_data = \<lparr>request_active_slots = 0, request_total_slots = slots, kv_active_blocks = 0,
       kv_total_blocks = 100, num_requests_waiting = 0, gpu_cache_usage_perc = 0,
       gpu_prefix_cache_hit_rate = 0\<rparr>\<rparr>"

definition no_overlap :: OverlapScores where
  "no_overlap = \<lparr>scores = (\<lambda>_. None), frequencies = []\<rparr>"

lemmas sched_eval =
  schedule_def select_worker_def KvScheduler_new_def update_endpoints_def idle_endpoint_def
  cost_of_def alpha_of_def new_tokens_def at_capacity_def bump_load_def no_overlap_def Let_def

lemma schedule_all_capacity_witness:
  "\<exists>ids s'. schedule_all [(no_overlap, 4), (no_overlap, 4)]
      (update_endpoints (ProcessedEndpoints_new [idle_endpoint 1 1, idle_endpoint 2 1])
         (KvScheduler_new 2)) = Inr (ids, s') \<and> ids = [1, 2] \<and>
    2 + total_free (sch_endpoints s') = 2"
proof -
  let ?s = "update_endpoints (ProcessedEndpoints_new [idle_endpoint 1 1, idle_endpoint 2 1])
         (KvScheduler_new 2)"
  obtain s' where r: "schedule_all [(no_overlap, 4), (no_overlap, 4)] ?s = Inr ([1, 2], s')"
    by (simp add: sched_eval ProcessedEndpoints_new_def kv_ratio_def score_def)
  have "total_free (sch_endpoints ?s) = 2"
    by (simp add: sched_eval ProcessedEndpoints_new_def total_free_def free_slots_def)
  with schedule_all_capacity [OF r] r show ?thesis by auto
qed

section \<open>Overlap decides between equally loaded workers\<close>

lemma alpha_bounds: "0 < 1 - alpha_of ws"
  by (simp add: alpha_of_def)

lemma cost_le_iff:
  assumes "ep_data e = ep_data f" "0 < ntok"
  shows "call_cost ws ov ntok n e \<le> call_cost ws ov ntok n f \<longleftrightarrow>
         new_tokens ov ntok n e \<le> new_tokens ov ntok n f"
proof -
  have "(1 - alpha_of ws) * (x / real ntok) \<le> (1 - alpha_of ws) * (y / real ntok) \<longleftrightarrow> x \<le> y"
    for x y :: real
    using alpha_bounds [of ws] assms(2) by (simp add: divide_le_cancel)
  then show ?thesis using assms by (simp add: cost_of_def Let_def)
qed

text \<open>Between workers with equal load the prefix cache decides: no worker that has capacity
  and the same metrics as the chosen one would have to compute fewer new tokens.\<close>

lemma equal_load_prefers_overlap:
  assumes "select_worker ws ov ntok n = Inr (w, ev, ws')" and "0 < ntok"
  shows "\<exists>e \<in> set (endpoints ws). ep_worker_id e = w \<and> \<not> at_capacity e \<and>
           (\<forall>f \<in> set (endpoints ws). \<not> at_capacity f \<longrightarrow> ep_data f = ep_data e \<longrightarrow>
              new_tokens ov ntok n e \<le> new_tokens ov ntok n f)"
proof -
  obtain i where i: "i < length (endpoints ws)" "\<not> at_capacity (endpoints ws ! i)"
      "best_of (call_cost ws ov ntok n) (endpoints ws) i (call_cost ws ov ntok n (endpoints ws ! i))"
      "w = ep_worker_id (endpoints ws ! i)"
    by (rule select_worker_Inr [OF assms(1)])
  define e where "e = endpoints ws ! i"
  note c = i [folded e_def]
  have "new_tokens ov ntok n e \<le> new_tokens ov ntok n f"
    if "f \<in> set (endpoints ws)" "\<not> at_capacity f" "ep_data f = ep_data e" for f
  proof -
    have "call_cost ws ov ntok n e \<le> call_cost ws ov ntok n f"
      by (rule best_of_le [OF c(3) that(1,2)])
    then show ?thesis using cost_le_iff [OF that(3) [symmetric] assms(2)] by blast
  qed
  moreover have "e \<in> set (endpoints ws)" using i(1) by (simp add: e_def)
  ultimately show ?thesis using c(2,4) by blast
qed

lemma equal_load_prefers_overlap_witness:
  "let ov = \<lparr>scores = [2 \<mapsto> 1], frequencies = []\<rparr>;
       ws = ProcessedEndpoints_new [idle_endpoint 1 4, idle_endpoint 2 4]
   in (\<exists>ev ws'. select_worker ws ov 4 2 = Inr (2, ev, ws')) \<and>
      (\<exists>e \<in> set (endpoints ws). ep_worker_id e = 2 \<and> \<not> at_capacity e \<and>
           (\<forall>f \<in> set (endpoints ws). \<not> at_capacity f \<longrightarrow> ep_data f = ep_data e \<longrightarrow>
              new_tokens ov 4 2 e \<le> new_tokens ov 4 2 f))"
proof -
  let ?ov = "\<lparr>scores = [2 \<mapsto> 1], frequencies = []\<rparr>"
  let ?ws = "ProcessedEndpoints_new [idle_endpoint 1 4, idle_endpoint 2 4]"
  obtain ev ws' where r: "select_worker ?ws ?ov 4 2 = Inr (2, ev, ws')"
    by (simp add: sched_eval ProcessedEndpoints_new_def kv_ratio_def score_def)
  then show ?thesis using equal_load_prefers_overlap [OF r] by simp
qed

section \<open>The index the scheduler relies on\<close>

text \<open>What the scheduler needs of an index is that a query for \<open>n\<close> blocks never scores more than
  \<open>n\<close>.  Then the overlap fits in the request: the subtraction of overlapping tokens is exact.\<close>

lemma most_overlap:
  assumes "a * n \<le> ntok" "b * n \<le> ntok" "(0 :: nat) < n" "ntok - a * n \<le> ntok - b * n"
  shows "b \<le> a"
proof -
  have "b * n \<le> a * n" using assms by linarith
  then show ?thesis using assms(3) by simp
qed

locale overlap_index =
  fixes query :: "LocalBlockHash list \<Rightarrow> 'ix \<Rightarrow> OverlapScores \<times> 'ix"
  assumes query_bounded: "unat (score (fst (query hs ix)) w) \<le> length hs"
begin

lemma overlap_tokens_fit:
  assumes "length hs * n \<le> ntok"
  shows "unat (score (fst (query hs ix)) w) * n \<le> ntok"
  using query_bounded [of hs ix w] assms by (meson le_trans mult_le_mono1)

lemma new_tokens_exact:
  assumes "length hs * n \<le> ntok" "ntok < 2 ^ 64"
  shows "new_tokens (fst (query hs ix)) ntok n e
         = ntok - unat (score (fst (query hs ix)) (ep_worker_id e)) * n"
  using overlap_tokens_fit [OF assms(1), of ix "ep_worker_id e"] assms(2) by (simp add: new_tokens_def Let_def)

lemma hit_event_bounded:
  assumes "select_worker ws (fst (query hs ix)) ntok n = Inr (w, ev, ws')"
    and "length hs = isl_blocks_of ntok n"
  shows "hr_overlap_blocks ev \<le> hr_isl_blocks ev"
proof -
  have "hr_overlap_blocks ev = unat (score (fst (query hs ix)) w)" "hr_isl_blocks ev = isl_blocks_of ntok n"
    using select_worker_Inr [OF assms(1)] by metis+
  then show ?thesis using assms(2) query_bounded [of hs ix w] by simp
qed

lemma equal_load_full_overlap:
  assumes "f \<in> set (endpoints ws)" "unat (score (fst (query hs ix)) (ep_worker_id f)) = length hs"
    and "\<forall>g \<in> set (endpoints ws). ep_data g = ep_data f \<and> \<not> at_capacity g"
    and "length hs = ntok div n" "0 < n" "0 < ntok" "ntok < 2 ^ 64"
  shows "\<exists>w ws'. select_worker ws (fst (query hs ix)) ntok n =
       Inr (w, \<lparr>hr_worker_id = w, hr_isl_blocks = length hs, hr_overlap_blocks = length hs\<rparr>, ws') \<and>
     w \<in> ep_worker_id ` set (endpoints ws) \<and> unat (score (fst (query hs ix)) w) = length hs"
proof -
  define ov where "ov = fst (query hs ix)"
  have fit: "length hs * n \<le> ntok" using assms(4) by simp
  have ne: "endpoints ws \<noteq> []" "\<not> list_all at_capacity (endpoints ws)"
    using assms(1,3) by (auto simp: list_all_iff)
  obtain w ev ws' where sel: "select_worker ws ov ntok n = Inr (w, ev, ws')"
    by (cases rule: select_worker_cases [of ws ov ntok n]) (use ne in blast)+
  obtain i where i: "i < length (endpoints ws)" "\<not> at_capacity (endpoints ws ! i)"
      "best_of (call_cost ws ov ntok n) (endpoints ws) i (call_cost ws ov ntok n (endpoints ws ! i))"
      "w = ep_worker_id (endpoints ws ! i)" "hr_isl_blocks ev = isl_blocks_of ntok n"
      "hr_overlap_blocks ev = unat (score ov w)" "hr_worker_id ev = w"
    by (rule select_worker_Inr [OF sel])
  have f: "\<not> at_capacity f" "ep_data (endpoints ws ! i) = ep_data f"
    using assms(1,3) nth_mem [OF i(1)] by blast+
  have "new_tokens ov ntok n (endpoints ws ! i) \<le> new_tokens ov ntok n f"
    by (rule iffD1 [OF cost_le_iff [OF f(2) assms(6)]], rule best_of_le [OF i(3) assms(1) f(1)])
  then have "ntok - unat (score ov w) * n \<le> ntok - length hs * n"
    unfolding ov_def new_tokens_exact [OF fit assms(7)] i(4) assms(2) .
  moreover have "unat (score ov w) * n \<le> ntok" unfolding ov_def by (rule overlap_tokens_fit [OF fit])
  ultimately have "length hs \<le> unat (score ov w)"
    using fit assms(5) by (intro most_overlap [of "unat (score ov w)" n ntok "length hs"])
  moreover have "unat (score ov w) \<le> length hs" unfolding ov_def by (rule query_bounded)
  ultimately have s: "unat (score ov w) = length hs" by simp
  then have "ev = \<lparr>hr_worker_id = w, hr_isl_blocks = length hs, hr_overlap_blocks = length hs\<rparr>"
    using i(5-7) assms(4,5) by (intro KVHitRateEvent.equality) simp_all
  moreover have "w \<in> ep_worker_id ` set (endpoints ws)" using i(1,4) by simp
  ultimately show ?thesis using sel s unfolding ov_def by blast
qed

end

lemma indexer_score:
  "score (fst (indexer_find_matches now hs ix)) w = of_nat (hits (ix_tree ix) 0 hs w)"
  by (simp add: indexer_find_matches_def Let_def case_prod_unfold score_find_matches)

interpretation kv_index: overlap_index "indexer_find_matches now" for now
  by unfold_locales (simp add: indexer_score unat_of_nat le_trans [OF mod_less_eq_dividend hits_le])

lemma length_request_hashes:
  "length (compute_block_hashes_for_seq xxh3 ts n) = isl_blocks_of (length ts) n"
  by (simp add: compute_block_hashes_for_seq_def)

definition router_ok :: "KvRouter \<Rightarrow> bool" where
  "router_ok r \<longleftrightarrow> ix_block_size (rt_indexer r) = sch_block_size (rt_scheduler r) \<and>
     0 < sch_block_size (rt_scheduler r) \<and> indexed (ix_tree (rt_indexer r))"

lemma schedule_impl_unfold:
  assumes "ix_block_size (rt_indexer r) = sch_block_size (rt_scheduler r)"
    and "select_worker (sch_endpoints (rt_scheduler r))
       (fst (indexer_find_matches now
          (compute_block_hashes_for_seq xxh3 ts (sch_block_size (rt_scheduler r))) (rt_indexer r)))
       (length ts) (sch_block_size (rt_scheduler r)) = Inr (w, ev, eps)"
  shows "\<exists>r'. schedule_impl xxh3 now True ts r = Inr (w, r') \<and> rt_published r' = rt_published r @ [ev]"
  using assms
  by (auto simp: schedule_impl_def find_matches_for_request_def schedule_def
      split: prod.splits)

text \<open>C8.  Prefix-cache-aware routing, end to end.  Once the router has consumed the event by which
  a worker announces the blocks of a prompt, a request with that prompt, while the workers all have
  the same load and capacity left, is sent to a worker of the snapshot that has every full block of
  the prompt in the index; the index scores it so, and the published hit-rate event names that
  worker, with all blocks of the prompt as overlap.  Prompts have fewer than 2 to the 32 tokens.\<close>

theorem router_finds_cached_prompt:
  assumes "router_ok r" and "parse payload = Some e"
    and "ev_data (re_event e) = stored \<lparr>st_parent_hash = None, st_blocks = blocks\<rparr>"
    and "map sb_tokens_hash blocks
           = compute_block_hashes_for_seq xxh3 ts (sch_block_size (rt_scheduler r))"
    and "f \<in> set (endpoints (sch_endpoints (rt_scheduler r)))" "ep_worker_id f = re_worker_id e"
    and "\<forall>g \<in> set (endpoints (sch_endpoints (rt_scheduler r))).
           ep_data g = ep_data f \<and> \<not> at_capacity g"
    and "ts \<noteq> []" "length ts < 2 ^ 32" and "r1 = event_consumer parse payload r"
  shows "\<exists>w r'. schedule_impl xxh3 now True ts r1 = Inr (w, r') \<and>
     w \<in> ep_worker_id ` set (endpoints (sch_endpoints (rt_scheduler r))) \<and>
     leading (ix_tree (rt_indexer r1)) w (map sb_tokens_hash blocks) = length blocks \<and>
     unat (score (fst (find_matches_for_request xxh3 now ts (rt_indexer r1))) w) = length blocks \<and>
     rt_published r' = rt_published r @
       [\<lparr>hr_worker_id = w, hr_isl_blocks = length blocks, hr_overlap_blocks = length blocks\<rparr>]"
proof -
  define n where "n = sch_block_size (rt_scheduler r)"
  let ?hs = "compute_block_hashes_for_seq xxh3 ts n"
  have r1: "rt_indexer r1 = indexer_apply_event e (rt_indexer r)" "rt_scheduler r1 = rt_scheduler r"
      "rt_published r1 = rt_published r"
    using assms(2) by (simp_all add: assms(10) event_consumer_def)
  have n: "0 < n" "ix_block_size (rt_indexer r1) = sch_block_size (rt_scheduler r1)"
    using assms(1) by (simp_all add: router_ok_def n_def r1 indexer_apply_event_def)
  have hs: "?hs = map sb_tokens_hash blocks" using assms(4) by (simp add: n_def)
  have inv: "tree_inv (ix_tree (rt_indexer r))"
    using assms(1) by (simp add: router_ok_def indexed_inv)
  have len: "length ?hs = length ts div n" using n(1) by (simp add: length_request_hashes)
  then have small: "length ?hs < 2 ^ 32" using assms(9) by (simp add: le_less_trans [OF div_le_dividend])
  then have sc: "unat (score (fst (indexer_find_matches now ?hs ix)) w) = hits (ix_tree ix) 0 ?hs w" for ix w
    using le_less_trans [OF hits_le small, of "ix_tree ix" 0 w] by (simp add: indexer_score unat_of_nat)
  have "unat (score (fst (indexer_find_matches now ?hs (rt_indexer r1))) (ep_worker_id f)) = length ?hs"
    using apply_stored(2) [OF inv assms(3), of 0] assms(6) unfolding sc
    by (simp add: r1 indexer_apply_event_def hs)
  moreover have "length ts < 2 ^ 64" using assms(9) by simp
  ultimately obtain w eps where sel:
      "select_worker (sch_endpoints (rt_scheduler r))
         (fst (indexer_find_matches now ?hs (rt_indexer r1))) (length ts) n = Inr (w,
           \<lparr>hr_worker_id = w, hr_isl_blocks = length ?hs, hr_overlap_blocks = length ?hs\<rparr>, eps)"
      and w: "w \<in> ep_worker_id ` set (endpoints (sch_endpoints (rt_scheduler r)))"
      and full: "unat (score (fst (indexer_find_matches now ?hs (rt_indexer r1))) w) = length ?hs"
    using kv_index.equal_load_full_overlap [OF assms(5) _ assms(7) len n(1)] assms(8) by blast
  have "leading (ix_tree (rt_indexer r1)) w ?hs = length ?hs"
    using full unfolding sc leading_full_iff .
  moreover have "ix_block_size (rt_indexer r1) = n" using n(2) by (simp add: r1(2) n_def)
  moreover obtain r' where "schedule_impl xxh3 now True ts r1 = Inr (w, r')"
      "rt_published r' = rt_published r @
         [\<lparr>hr_worker_id = w, hr_isl_blocks = length ?hs, hr_overlap_blocks = length ?hs\<rparr>]"
    using schedule_impl_unfold [OF n(2), of now xxh3 ts w _ eps] sel unfolding r1(2,3) n_def by blast
  ultimately show ?thesis
    using w full by (auto simp: find_matches_for_request_def hs)
qed

theorem router_finds_cached_prompt_witness:
  "let r = (KvRouter_new 2)\<lparr>rt_scheduler :=
         update_endpoints (ProcessedEndpoints_new [idle_endpoint 1 4, idle_endpoint 2 4])
           (KvScheduler_new 2)\<rparr>
   in \<exists>w r'. schedule_impl (\<lambda>b s. of_nat (length b) + s) 0 True [1, 2, 3]
        (event_consumer (\<lambda>_. Some (store_event 2 None [(10, 1345)])) [] r) = Inr (w, r') \<and>
      w \<in> {1, 2} \<and>
      rt_published r' = rt_published r @ [\<lparr>hr_worker_id = w, hr_isl_blocks = 1, hr_overlap_blocks = 1\<rparr>]"
proof -
  let ?r = "(KvRouter_new 2)\<lparr>rt_scheduler :=
         update_endpoints (ProcessedEndpoints_new [idle_endpoint 1 4, idle_endpoint 2 4])
           (KvScheduler_new 2)\<rparr>"
  let ?h = "\<lambda>b s :: u64. of_nat (length b) + s"
  have ok: "router_ok ?r"
    by (simp add: router_ok_def KvRouter_new_def KvIndexer_new_def update_endpoints_def
        KvScheduler_new_def indexed.init)
  have eps: "endpoints (sch_endpoints (rt_scheduler ?r)) = [idle_endpoint 1 4, idle_endpoint 2 4]"
    and bs: "sch_block_size (rt_scheduler ?r) = 2"
    by (simp_all add: update_endpoints_def ProcessedEndpoints_new_def KvScheduler_new_def Let_def)
  have hash: "[1345] = compute_block_hashes_for_seq ?h [1, 2, 3] 2"
    by (simp add: compute_block_hashes_for_seq_def compute_hash_def token_bytes_def le_bytes_def
        kXxh3Seed_def)
  show ?thesis
    using router_finds_cached_prompt [OF ok, of "\<lambda>_. Some (store_event 2 None [(10, 1345)])" "[]"
        "store_event 2 None [(10, 1345)]" "[\<lparr>sb_block_hash = 10, sb_tokens_hash = 1345\<rparr>]"
        ?h "[1, 2, 3]" "idle_endpoint 2 4" _ 0, OF _ _ _ _ _ _ _ _ refl]
    unfolding eps bs hash [symmetric]
    by (auto simp: Let_def store_event_def idle_endpoint_def at_capacity_def)
qed

end
