(* ===== verification/Reuse.thy ===== *)
theory Reuse
  imports Tokens "HOL-Library.Multiset"
begin

text \<open>
  The pool of idle KV blocks: \<^verbatim>\<open>src/llm/kv/reuse.h\<close> and \<^verbatim>\<open>reuse.cpp\<close>.  The state is the struct
  the mutex guards, so each operation is a function on it; a \<open>UniqueBlock\<close> handle is the block
  itself, in the hands of the caller, and its destructor is \<open>return_block\<close>.  The ordered map of
  the eviction order is a sorted association list over \<open>PriorityKey\<close>, whose order is the
  comparison of the code.  The lemmas show that the two indexes of the pool always agree, so that
  the internal error is never raised, that no block is lost or duplicated by any operation, what
  matching and eviction return, and that the counters count.
\<close>

section \<open>Blocks and their order\<close>

record KvBlock =
  token_block :: TokenBlock
  priority :: u32
  kb_return_tick :: u64

definition TokenBlock_default :: TokenBlock where
  "TokenBlock_default = \<lparr>tb_tokens = [], tb_block_hash = 0, tb_sequence_hash = 0,
     tb_parent_sequence_hash = None\<rparr>"

definition KvBlock_new :: "TokenBlock \<Rightarrow> KvBlock" where
  "KvBlock_new tb = \<lparr>token_block = tb, priority = 0, kb_return_tick = 0\<rparr>"

definition KvBlock_reset :: "KvBlock \<Rightarrow> KvBlock" where
  "KvBlock_reset b = b\<lparr>token_block := TokenBlock_default, priority := 0, kb_return_tick := 0\<rparr>"

abbreviation hash_of :: "KvBlock \<Rightarrow> SequenceHash" where
  "hash_of b \<equiv> tb_sequence_hash (token_block b)"

datatype PriorityKey = PriorityKey (pk_priority: u32) (pk_return_tick: u64) (pk_sequence_hash: u64)

definition key_of :: "KvBlock \<Rightarrow> PriorityKey" where
  "key_of b = PriorityKey (priority b) (kb_return_tick b) (hash_of b)"

instantiation PriorityKey :: linorder
begin

definition less_PriorityKey :: "PriorityKey \<Rightarrow> PriorityKey \<Rightarrow> bool" where
  "less_PriorityKey a b =
     (if pk_priority a \<noteq> pk_priority b then pk_priority a < pk_priority b
      else if pk_return_tick a \<noteq> pk_return_tick b then pk_return_tick a < pk_return_tick b
      else pk_sequence_hash a < pk_sequence_hash b)"

definition less_eq_PriorityKey :: "PriorityKey \<Rightarrow> PriorityKey \<Rightarrow> bool" where
  "less_eq_PriorityKey a b = (a < b \<or> a = b)"

instance
proof
  fix x y z :: PriorityKey
  show "x < y \<longleftrightarrow> x \<le> y \<and> \<not> y \<le> x"
    by (cases x; cases y) (auto simp: less_PriorityKey_def less_eq_PriorityKey_def split: if_splits)
  show "x \<le> x" by (simp add: less_eq_PriorityKey_def)
  show "x \<le> y \<Longrightarrow> y \<le> z \<Longrightarrow> x \<le> z"
    by (cases x; cases y; cases z)
       (auto simp: less_PriorityKey_def less_eq_PriorityKey_def split: if_splits)
  show "x \<le> y \<Longrightarrow> y \<le> x \<Longrightarrow> x = y"
    by (cases x; cases y) (auto simp: less_PriorityKey_def less_eq_PriorityKey_def split: if_splits)
  show "x \<le> y \<or> y \<le> x"
    by (cases x; cases y) (auto simp: less_PriorityKey_def less_eq_PriorityKey_def)
qed

end

section \<open>The state of the pool\<close>

record AvailableBlocksState =
  lookup_map :: "SequenceHash \<Rightarrow> KvBlock option"
  priority_set :: "(PriorityKey \<times> SequenceHash) list"
  uninitialized_set :: "KvBlock list"
  return_tick :: u64
  total_blocks :: u64
  available_blocks :: u64

definition AvailableBlocks_new :: AvailableBlocksState where
  "AvailableBlocks_new = \<lparr>lookup_map = (\<lambda>_. None), priority_set = [], uninitialized_set = [],
     return_tick = 0, total_blocks = 0, available_blocks = 0\<rparr>"

text \<open>\<open>emplace\<close> of an ordered map: an existing key keeps its value.\<close>

definition map_emplace ::
  "PriorityKey \<Rightarrow> SequenceHash \<Rightarrow> (PriorityKey \<times> SequenceHash) list
     \<Rightarrow> (PriorityKey \<times> SequenceHash) list" where
  "map_emplace k v m = (if k \<in> set (map fst m) then m else insort_key fst (k, v) m)"

definition map_erase ::
  "PriorityKey \<Rightarrow> (PriorityKey \<times> SequenceHash) list \<Rightarrow> (PriorityKey \<times> SequenceHash) list" where
  "map_erase k m = filter (\<lambda>e. fst e \<noteq> k) m"

definition insert_locked :: "KvBlock \<Rightarrow> AvailableBlocksState \<Rightarrow> AvailableBlocksState" where
  "insert_locked b s =
     (let hash = hash_of b in
      if hash = 0 \<or> lookup_map s hash \<noteq> None
      then s\<lparr>uninitialized_set := uninitialized_set s @ [b]\<rparr>
      else s\<lparr>priority_set := map_emplace (key_of b) hash (priority_set s),
             lookup_map := (lookup_map s)(hash \<mapsto> b)\<rparr>)"

definition take_with_hash_locked ::
  "SequenceHash \<Rightarrow> AvailableBlocksState \<Rightarrow> KvBlock option \<times> AvailableBlocksState" where
  "take_with_hash_locked hash s =
     (case lookup_map s hash of
        None \<Rightarrow> (None, s)
      | Some b \<Rightarrow> (Some b, s\<lparr>lookup_map := (lookup_map s)(hash := None),
                           priority_set := map_erase (key_of b) (priority_set s)\<rparr>))"

definition missing_entry :: exn where
  "missing_entry = LogicError ''kv reuse pool: priority entry missing from lookup map''"

definition take_any_locked ::
  "AvailableBlocksState \<Rightarrow> (KvBlock option \<times> AvailableBlocksState) res" where
  "take_any_locked s =
     (case uninitialized_set s of
        b # rest \<Rightarrow> Inr (Some b, s\<lparr>uninitialized_set := rest\<rparr>)
      | [] \<Rightarrow>
          (case priority_set s of
             [] \<Rightarrow> Inr (None, s)
           | (_, hash) # rest \<Rightarrow>
               (case lookup_map s hash of
                  None \<Rightarrow> Inl missing_entry
                | Some b \<Rightarrow> Inr (Some b, s\<lparr>priority_set := rest,
                                          lookup_map := (lookup_map s)(hash := None)\<rparr>))))"

definition stamp :: "KvBlock \<Rightarrow> AvailableBlocksState \<Rightarrow> AvailableBlocksState" where
  "stamp b s =
     (let tick = return_tick s + 1
      in insert_locked (b\<lparr>kb_return_tick := tick\<rparr>) (s\<lparr>return_tick := tick\<rparr>))"

definition return_block :: "KvBlock \<Rightarrow> AvailableBlocksState \<Rightarrow> AvailableBlocksState" where
  "return_block b s = stamp b (s\<lparr>available_blocks := available_blocks s + 1\<rparr>)"

section \<open>Operations of the pool\<close>

fun match_loop ::
  "SequenceHash list \<Rightarrow> AvailableBlocksState \<Rightarrow> KvBlock list \<times> AvailableBlocksState" where
  "match_loop [] s = ([], s)"
| "match_loop (h # hs) s =
     (case take_with_hash_locked h s of
        (None, s) \<Rightarrow> ([], s)
      | (Some b, s) \<Rightarrow> (let (bs, s) = match_loop hs s in (b # bs, s)))"

definition match_blocks ::
  "SequenceHash list \<Rightarrow> AvailableBlocksState \<Rightarrow> KvBlock list \<times> AvailableBlocksState" where
  "match_blocks hashes s =
     (let (matched, s) = match_loop hashes s
      in (matched, s\<lparr>available_blocks := available_blocks s - of_nat (length matched)\<rparr>))"

definition match_token_blocks ::
  "TokenBlock list \<Rightarrow> AvailableBlocksState \<Rightarrow> KvBlock list \<times> AvailableBlocksState" where
  "match_token_blocks tbs s = match_blocks (map tb_sequence_hash tbs) s"

fun take_loop :: "nat \<Rightarrow> AvailableBlocksState \<Rightarrow> (KvBlock list \<times> AvailableBlocksState) res" where
  "take_loop 0 s = Inr ([], s)"
| "take_loop (Suc n) s =
     rbind (take_any_locked s) (\<lambda>(r, s).
       case r of
         None \<Rightarrow> Inr ([], s)
       | Some b \<Rightarrow> rbind (take_loop n s) (\<lambda>(bs, s). Inr (b # bs, s)))"

definition take_blocks ::
  "u32 \<Rightarrow> AvailableBlocksState \<Rightarrow> (KvBlock list \<times> AvailableBlocksState) res" where
  "take_blocks cnt s =
     rbind (take_loop (unat cnt) s) (\<lambda>(taken, s).
       Inr (taken, s\<lparr>available_blocks := available_blocks s - of_nat (length taken)\<rparr>))"

definition pool_insert :: "KvBlock \<Rightarrow> AvailableBlocksState \<Rightarrow> AvailableBlocksState" where
  "pool_insert b s =
     stamp b (s\<lparr>available_blocks := available_blocks s + 1, total_blocks := total_blocks s + 1\<rparr>)"

definition update_priorities ::
  "(SequenceHash \<times> u32) list \<Rightarrow> AvailableBlocksState \<Rightarrow> AvailableBlocksState" where
  "update_priorities updates s =
     fold (\<lambda>(hash, prio) s.
       case take_with_hash_locked hash s of
         (None, s) \<Rightarrow> s
       | (Some b, s) \<Rightarrow> insert_locked (b\<lparr>priority := prio\<rparr>) s) updates s"

definition update_priority ::
  "SequenceHash \<Rightarrow> u32 \<Rightarrow> AvailableBlocksState \<Rightarrow> AvailableBlocksState" where
  "update_priority hash prio s = update_priorities [(hash, prio)] s"

definition pool_reset :: "SequenceHash list \<Rightarrow> AvailableBlocksState \<Rightarrow> AvailableBlocksState" where
  "pool_reset hashes s =
     fold (\<lambda>hash s.
       case take_with_hash_locked hash s of
         (None, s) \<Rightarrow> s
       | (Some b, s) \<Rightarrow> insert_locked (KvBlock_reset b) s) hashes s"

text \<open>The loop of \<open>reset_all\<close> ends because a block that was reset has hash zero and never goes back
  into the eviction order.\<close>

lemma insert_reset:
  "insert_locked (KvBlock_reset b) s
     = s\<lparr>uninitialized_set := uninitialized_set s @ [KvBlock_reset b]\<rparr>"
  by (simp add: insert_locked_def KvBlock_reset_def TokenBlock_default_def)

function reset_all :: "AvailableBlocksState \<Rightarrow> AvailableBlocksState res" where
  "reset_all s =
     (case priority_set s of
        [] \<Rightarrow> Inr s
      | (_, hash) # rest \<Rightarrow>
          (case lookup_map s hash of
             None \<Rightarrow> Inl missing_entry
           | Some b \<Rightarrow> reset_all (insert_locked (KvBlock_reset b)
               (s\<lparr>priority_set := rest, lookup_map := (lookup_map s)(hash := None)\<rparr>))))"
  by pat_completeness auto

termination
  by (relation "measure (\<lambda>s. length (priority_set s))") (simp_all add: insert_reset)

declare reset_all.simps [simp del]

section \<open>The invariant\<close>

definition index_ok :: "AvailableBlocksState \<Rightarrow> bool" where
  "index_ok s \<longleftrightarrow>
     finite (dom (lookup_map s)) \<and>
     (\<forall>h b. lookup_map s h = Some b \<longrightarrow> h \<noteq> 0 \<and> hash_of b = h) \<and>
     (\<forall>k h. (k, h) \<in> set (priority_set s) \<longleftrightarrow> (\<exists>b. lookup_map s h = Some b \<and> k = key_of b)) \<and>
     sorted (map fst (priority_set s)) \<and> distinct (map fst (priority_set s))"

text \<open>The blocks the pool holds, with their contents.\<close>

definition mapped :: "(SequenceHash \<Rightarrow> KvBlock option) \<Rightarrow> KvBlock multiset" where
  "mapped m = image_mset (\<lambda>h. the (m h)) (mset_set (dom m))"

definition parked :: "AvailableBlocksState \<Rightarrow> KvBlock multiset" where
  "parked s = mapped (lookup_map s) + mset (uninitialized_set s)"

definition counted :: "AvailableBlocksState \<Rightarrow> bool" where
  "counted s \<longleftrightarrow> available_blocks s = of_nat (size (parked s))"

definition pool_inv :: "AvailableBlocksState \<Rightarrow> bool" where
  "pool_inv s \<longleftrightarrow> index_ok s \<and> counted s"

lemma mapped_upd:
  assumes "finite (dom m)" "m h = None"
  shows "mapped (m(h \<mapsto> b)) = add_mset b (mapped m)"
proof -
  have "h \<notin> dom m" using assms by auto
  then have "image_mset (\<lambda>k. the ((m(h \<mapsto> b)) k)) (mset_set (dom m)) = mapped m"
    unfolding mapped_def by (intro image_mset_cong) (auto simp: assms(1))
  then show ?thesis using assms \<open>h \<notin> dom m\<close> by (simp add: mapped_def)
qed

lemma mapped_del:
  assumes "finite (dom m)" "m h = Some b"
  shows "mapped m = add_mset b (mapped (m(h := None)))"
proof -
  have "m = (m(h := None))(h \<mapsto> b)" using assms(2) by auto
  then show ?thesis using mapped_upd [of "m(h := None)" h b] assms(1) by simp
qed

lemma index_okD:
  assumes "index_ok s"
  shows "finite (dom (lookup_map s))" "lookup_map s h = Some b \<Longrightarrow> h \<noteq> 0"
    "lookup_map s h = Some b \<Longrightarrow> hash_of b = h"
    "(k, h) \<in> set (priority_set s) \<longleftrightarrow> (\<exists>b. lookup_map s h = Some b \<and> k = key_of b)"
    "sorted (map fst (priority_set s))" "distinct (map fst (priority_set s))"
  using assms unfolding index_ok_def by blast+

lemma index_okI:
  assumes "finite (dom (lookup_map s))"
    and "\<And>h b. lookup_map s h = Some b \<Longrightarrow> h \<noteq> 0 \<and> hash_of b = h"
    and "\<And>k h. (k, h) \<in> set (priority_set s) \<longleftrightarrow> (\<exists>b. lookup_map s h = Some b \<and> k = key_of b)"
    and "sorted (map fst (priority_set s))" "distinct (map fst (priority_set s))"
  shows "index_ok s"
  using assms unfolding index_ok_def by blast

lemma index_key_inj:
  assumes "index_ok s" "lookup_map s h = Some b" "lookup_map s k = Some c"
  shows "key_of b = key_of c \<longleftrightarrow> h = k"
proof
  assume "key_of b = key_of c"
  then have "hash_of b = hash_of c" unfolding key_of_def by simp
  then show "h = k" unfolding index_okD(3) [OF assms(1,2)] index_okD(3) [OF assms(1,3)] .
next
  assume "h = k"
  then have "b = c" using assms(2,3) by simp
  then show "key_of b = key_of c" by simp
qed

lemma key_fresh:
  assumes "index_ok s" "lookup_map s (hash_of b) = None"
  shows "key_of b \<notin> set (map fst (priority_set s))"
proof
  assume "key_of b \<in> set (map fst (priority_set s))"
  then obtain h where "(key_of b, h) \<in> set (priority_set s)" by auto
  then obtain c where c: "lookup_map s h = Some c" "key_of b = key_of c"
    using index_okD(4) [OF assms(1)] by blast
  then have "h = hash_of b" using index_okD(3) [OF assms(1) c(1)] by (simp add: key_of_def)
  then show False using c assms(2) by simp
qed

lemma insort_fresh:
  assumes "sorted (map fst m)" "distinct (map fst m)" "k \<notin> set (map fst m)"
  shows "sorted (map fst (insort_key fst (k, v) m))" "distinct (map fst (insort_key fst (k, v) m))"
    "set (insort_key fst (k, v) m) = insert (k, v) (set m)"
proof -
  have "mset (map fst (insort_key fst (k, v) m)) = mset (k # map fst m)" by simp
  then show "distinct (map fst (insort_key fst (k, v) m))"
    using assms mset_eq_imp_distinct_iff by (metis distinct.simps(2))
qed (use assms in \<open>simp_all add: sorted_insort_key set_insort_key\<close>)

lemma insert_locked_inv:
  assumes "index_ok s"
  shows "index_ok (insert_locked b s)" "parked (insert_locked b s) = add_mset b (parked s)"
proof -
  have *: "index_ok (insert_locked b s) \<and> parked (insert_locked b s) = add_mset b (parked s)"
  proof (cases "hash_of b = 0 \<or> lookup_map s (hash_of b) \<noteq> None")
    case True
    then show ?thesis using assms by (simp add: insert_locked_def index_ok_def parked_def)
  next
    case False
    let ?h = "hash_of b" and ?k = "key_of b"
    let ?m = "insort_key fst (?k, ?h) (priority_set s)"
    have none: "lookup_map s ?h = None" using False by simp
    note fresh = key_fresh [OF assms none]
    note m = insort_fresh [OF index_okD(5,6) [OF assms] fresh, of ?h]
    have ins: "insert_locked b s
        = s\<lparr>priority_set := ?m, lookup_map := (lookup_map s)(?h \<mapsto> b)\<rparr>"
      using False fresh by (simp add: insert_locked_def map_emplace_def Let_def)
    have "index_ok (insert_locked b s)"
    proof (rule index_okI)
      show "(k, h) \<in> set (priority_set (insert_locked b s)) \<longleftrightarrow>
          (\<exists>c. lookup_map (insert_locked b s) h = Some c \<and> k = key_of c)" for k h
        using index_okD(4) [OF assms, of k h] none by (auto simp: ins m(3))
    qed (use index_okD [OF assms] False m in \<open>auto simp: ins split: if_splits\<close>)
    moreover have "parked (insert_locked b s) = add_mset b (parked s)"
      using index_okD(1) [OF assms] none by (simp add: ins parked_def mapped_upd)
    ultimately show ?thesis by simp
  qed
  then show "index_ok (insert_locked b s)" "parked (insert_locked b s) = add_mset b (parked s)"
    by simp_all
qed

lemma take_with_hash_inv:
  assumes "index_ok s" "take_with_hash_locked h s = (r, s')"
  shows "index_ok s'" "r = lookup_map s h" "r = None \<Longrightarrow> s' = s"
    "r = Some b \<Longrightarrow> hash_of b = h \<and> parked s = add_mset b (parked s') \<and>
       lookup_map s' = (lookup_map s)(h := None) \<and> uninitialized_set s' = uninitialized_set s"
proof -
  show r: "r = lookup_map s h" and "r = None \<Longrightarrow> s' = s"
    using assms(2) by (auto simp: take_with_hash_locked_def split: option.splits)
  have some: "index_ok s' \<and> hash_of b = h \<and> parked s = add_mset b (parked s') \<and>
       lookup_map s' = (lookup_map s)(h := None) \<and> uninitialized_set s' = uninitialized_set s"
    if "lookup_map s h = Some b" for b
  proof -
    have s': "s' = s\<lparr>lookup_map := (lookup_map s)(h := None),
        priority_set := map_erase (key_of b) (priority_set s)\<rparr>"
      using assms(2) that by (simp add: take_with_hash_locked_def)
    have "index_ok s'"
    proof (rule index_okI)
      show "(k, j) \<in> set (priority_set s') \<longleftrightarrow> (\<exists>c. lookup_map s' j = Some c \<and> k = key_of c)" for k j
      proof -
        have mem: "(k, j) \<in> set (priority_set s') \<longleftrightarrow>
            (\<exists>c. lookup_map s j = Some c \<and> k = key_of c) \<and> k \<noteq> key_of b"
          using index_okD(4) [OF assms(1), of k j] by (simp add: s' map_erase_def)
        show ?thesis
        proof (cases "j = h")
          case True
          then show ?thesis using mem that by (simp add: s')
        next
          case False
          then show ?thesis using mem index_key_inj [OF assms(1) that] by (simp add: s') metis
        qed
      qed
      show "sorted (map fst (priority_set s'))" "distinct (map fst (priority_set s'))"
        using index_okD(5,6) [OF assms(1)]
        by (simp_all add: s' map_erase_def sorted_filter distinct_map_filter)
      show "finite (dom (lookup_map s'))" using index_okD(1) [OF assms(1)] by (simp add: s')
      show "k \<noteq> 0 \<and> hash_of c = k" if "lookup_map s' k = Some c" for k c
      proof -
        have "lookup_map s k = Some c" using that by (simp add: s' split: if_splits)
        then show ?thesis using index_okD(2,3) [OF assms(1)] by blast
      qed
    qed
    then show ?thesis
      using index_okD(3) [OF assms(1) that] mapped_del [OF index_okD(1) [OF assms(1)] that]
      by (simp add: s' parked_def)
  qed
  show "index_ok s'"
    using some r \<open>r = None \<Longrightarrow> s' = s\<close> assms(1) by (cases r) auto
  show "r = Some b \<Longrightarrow> hash_of b = h \<and> parked s = add_mset b (parked s') \<and>
       lookup_map s' = (lookup_map s)(h := None) \<and> uninitialized_set s' = uninitialized_set s"
    using some [of b] r by simp
qed

lemma locked_counters [simp]:
  "available_blocks (insert_locked b s) = available_blocks s"
  "total_blocks (insert_locked b s) = total_blocks s"
  "available_blocks (snd (take_with_hash_locked h s)) = available_blocks s"
  "total_blocks (snd (take_with_hash_locked h s)) = total_blocks s"
  by (simp_all add: insert_locked_def take_with_hash_locked_def Let_def split: option.split)

section \<open>Eviction\<close>

text \<open>Which block \<open>take_any_locked\<close> hands out: the oldest block without reusable state, or else
  the least in the eviction order of all parked blocks.\<close>

definition evicts :: "AvailableBlocksState \<Rightarrow> KvBlock \<Rightarrow> bool" where
  "evicts s b \<longleftrightarrow>
     (case uninitialized_set s of
        u # _ \<Rightarrow> b = u
      | [] \<Rightarrow> lookup_map s (hash_of b) = Some b \<and>
             (\<forall>h c. lookup_map s h = Some c \<longrightarrow> key_of b \<le> key_of c))"

lemma index_empty:
  assumes "index_ok s" "priority_set s = []"
  shows "lookup_map s = (\<lambda>_. None)"
proof
  fix h
  show "lookup_map s h = None"
    using index_okD(4) [OF assms(1), of _ h] assms(2) by (cases "lookup_map s h") auto
qed

lemma index_first:
  assumes "index_ok s" "priority_set s = (k, h) # rest"
  obtains b where "lookup_map s h = Some b" "k = key_of b" "hash_of b = h"
    "\<forall>j c. lookup_map s j = Some c \<longrightarrow> key_of b \<le> key_of c"
    "take_with_hash_locked h s
      = (Some b, s\<lparr>priority_set := rest, lookup_map := (lookup_map s)(h := None)\<rparr>)"
proof -
  obtain b where b: "lookup_map s h = Some b" "k = key_of b"
    using index_okD(4) [OF assms(1), of k h] assms(2) by auto
  have "map_erase k (priority_set s) = rest"
    using index_okD(6) [OF assms(1)] assms(2) unfolding map_erase_def
    by (auto intro!: filter_True simp: image_iff)
  then have "take_with_hash_locked h s
      = (Some b, s\<lparr>priority_set := rest, lookup_map := (lookup_map s)(h := None)\<rparr>)"
    using b by (simp add: take_with_hash_locked_def)
  moreover have "key_of b \<le> key_of c" if "lookup_map s j = Some c" for j c
  proof -
    have "(key_of c, j) \<in> set ((k, h) # rest)"
      using index_okD(4) [OF assms(1), of "key_of c" j] that assms(2) by auto
    then show ?thesis using index_okD(5) [OF assms(1)] assms(2) b(2) by (auto simp: image_iff)
  qed
  ultimately show ?thesis using that b index_okD(3) [OF assms(1) b(1)] by blast
qed

lemma take_any_inv:
  assumes "index_ok s"
  obtains (empty) "take_any_locked s = Inr (None, s)" "parked s = {#}"
  | (took) b s' where "take_any_locked s = Inr (Some b, s')" "index_ok s'"
      "parked s = add_mset b (parked s')" "evicts s b"
      "available_blocks s' = available_blocks s" "total_blocks s' = total_blocks s"
proof (cases "uninitialized_set s")
  case (Cons u us)
  have "index_ok (s\<lparr>uninitialized_set := us\<rparr>)" using assms by (simp add: index_ok_def)
  then show ?thesis using Cons
    by (intro took [of u "s\<lparr>uninitialized_set := us\<rparr>"])
       (simp_all add: take_any_locked_def parked_def evicts_def)
next
  case Nil
  show ?thesis
  proof (cases "priority_set s")
    case none: Nil
    then show ?thesis using Nil index_empty [OF assms none]
      by (intro empty) (simp_all add: take_any_locked_def parked_def mapped_def)
  next
    case (Cons e rest)
    obtain k h where e: "priority_set s = (k, h) # rest" using Cons by (cases e) simp
    let ?s = "s\<lparr>priority_set := rest, lookup_map := (lookup_map s)(h := None)\<rparr>"
    obtain b where b: "lookup_map s h = Some b" "k = key_of b" "hash_of b = h"
        "\<forall>j c. lookup_map s j = Some c \<longrightarrow> key_of b \<le> key_of c"
        "take_with_hash_locked h s = (Some b, ?s)"
      by (rule index_first [OF assms e])
    note t = take_with_hash_inv [OF assms b(5)]
    have "take_any_locked s = Inr (Some b, ?s)"
      using Nil e b(1) by (simp add: take_any_locked_def)
    moreover have "evicts s b" unfolding evicts_def Nil list.case b(3) using b(1,4) by blast
    moreover have "parked s = add_mset b (parked ?s)" using t(4) by blast
    ultimately show ?thesis using t(1) by (intro took [of b ?s]) simp_all
  qed
qed

section \<open>Matching and taking\<close>

lemma match_loop_inv:
  assumes "index_ok s" "match_loop hs s = (bs, s')"
  shows "index_ok s' \<and> parked s = mset bs + parked s' \<and> map hash_of bs = take (length bs) hs \<and>
     map Some bs = map (lookup_map s) (take (length bs) hs) \<and>
     (length bs < length hs \<longrightarrow> lookup_map s' (hs ! length bs) = None) \<and>
     uninitialized_set s' = uninitialized_set s \<and>
     lookup_map s' = (\<lambda>h. if h \<in> set (take (length bs) hs) then None else lookup_map s h) \<and>
     available_blocks s' = available_blocks s \<and> total_blocks s' = total_blocks s"
  using assms
proof (induction hs arbitrary: s bs)
  case (Cons h hs)
  obtain r s1 where t: "take_with_hash_locked h s = (r, s1)" by fastforce
  note ti = take_with_hash_inv [OF Cons.prems(1) t]
  show ?case
  proof (cases r)
    case None
    then have "bs = []" "s' = s1" "s1 = s" "lookup_map s h = None"
      using Cons.prems(2) t ti(2,3) by auto
    then show ?thesis using Cons.prems(1) by simp
  next
    case (Some b)
    obtain cs where m: "match_loop hs s1 = (cs, s')" "bs = b # cs"
      using Cons.prems(2) t Some by (auto split: prod.splits)
    have c: "available_blocks s1 = available_blocks s" "total_blocks s1 = total_blocks s"
      using t locked_counters(3,4) [of h s] by simp_all
    have b: "hash_of b = h" "parked s = add_mset b (parked s1)"
        "lookup_map s1 = (\<lambda>k. if k = h then None else lookup_map s k)"
        "uninitialized_set s1 = uninitialized_set s" "lookup_map s h = Some b"
      using ti(2) ti(4) [OF Some] Some by (simp_all add: fun_upd_def)
    note ih = Cons.IH [OF ti(1) m(1)]
    have eq: "map Some cs = map (lookup_map s1) (take (length cs) hs)" using ih by blast
    have "lookup_map s1 k = lookup_map s k" if "k \<in> set (take (length cs) hs)" for k
    proof -
      have "lookup_map s1 k \<in> set (map Some cs)" unfolding eq using that by simp
      then show ?thesis unfolding b(3) by auto
    qed
    then have "map Some cs = map (lookup_map s) (take (length cs) hs)"
      unfolding eq by (intro map_cong) simp_all
    then have "map Some bs = map (lookup_map s) (take (length bs) (h # hs))"
      unfolding m(2) by (simp add: b(5))
    moreover have "lookup_map s' = (\<lambda>k. if k \<in> set (take (length bs) (h # hs)) then None
        else lookup_map s k)"
      using ih unfolding m(2) b(3) by (simp add: fun_eq_iff)
    moreover have "parked s = mset bs + parked s'" using ih unfolding m(2) b(2) by simp
    moreover have "map hash_of bs = take (length bs) (h # hs)" using ih unfolding m(2) by (simp add: b(1))
    moreover have "length cs < length hs \<longrightarrow> lookup_map s' (hs ! length cs) = None"
      using ih by blast
    then have "length bs < length (h # hs) \<longrightarrow> lookup_map s' ((h # hs) ! length bs) = None"
      unfolding m(2) by simp
    ultimately show ?thesis using ih unfolding b(4) c by blast
  qed
qed simp

lemma take_loop_inv:
  assumes "index_ok s"
  shows "\<exists>bs s'. take_loop n s = Inr (bs, s') \<and> index_ok s' \<and> parked s = mset bs + parked s' \<and>
     length bs = min n (size (parked s)) \<and>
     available_blocks s' = available_blocks s \<and> total_blocks s' = total_blocks s"
  using assms
proof (induction n arbitrary: s)
  case (Suc n)
  from Suc.prems show ?case
  proof (cases rule: take_any_inv)
    case empty
    then show ?thesis using Suc.prems by simp
  next
    case (took b s1)
    obtain bs s' where "take_loop n s1 = Inr (bs, s')" "index_ok s'" "parked s1 = mset bs + parked s'"
        "length bs = min n (size (parked s1))"
        "available_blocks s' = available_blocks s1" "total_blocks s' = total_blocks s1"
      using Suc.IH [OF took(2)] by blast
    then show ?thesis using took by simp
  qed
qed simp

lemma size_parked_split: "parked s = mset bs + parked s' \<Longrightarrow>
    of_nat (size (parked s)) - of_nat (length bs) = (of_nat (size (parked s')) :: u64)"
  by simp

section \<open>The invariant is preserved\<close>

lemma index_ok_counters [simp]:
  "index_ok (s\<lparr>available_blocks := a\<rparr>) = index_ok s"
  "index_ok (s\<lparr>return_tick := t\<rparr>) = index_ok s"
  "index_ok (s\<lparr>total_blocks := n\<rparr>) = index_ok s"
  "parked (s\<lparr>available_blocks := a\<rparr>) = parked s"
  "parked (s\<lparr>return_tick := t\<rparr>) = parked s"
  "parked (s\<lparr>total_blocks := n\<rparr>) = parked s"
  by (simp_all add: index_ok_def parked_def)

lemma stamp_inv:
  assumes "index_ok s"
  shows "index_ok (stamp b s)"
    "parked (stamp b s) = add_mset (b\<lparr>kb_return_tick := return_tick s + 1\<rparr>) (parked s)"
    "available_blocks (stamp b s) = available_blocks s" "total_blocks (stamp b s) = total_blocks s"
  using insert_locked_inv [of "s\<lparr>return_tick := return_tick s + 1\<rparr>"] assms
  by (simp_all add: stamp_def Let_def)

lemma return_block_inv [inv_intros]:
  assumes "pool_inv s"
  shows "pool_inv (return_block b s)" "size (parked (return_block b s)) = Suc (size (parked s))"
    "total_blocks (return_block b s) = total_blocks s"
  using stamp_inv [of "s\<lparr>available_blocks := available_blocks s + 1\<rparr>" b] assms
  by (simp_all add: return_block_def pool_inv_def counted_def)

lemma pool_insert_inv [inv_intros]:
  assumes "pool_inv s"
  shows "pool_inv (pool_insert b s)" "size (parked (pool_insert b s)) = Suc (size (parked s))"
    "total_blocks (pool_insert b s) = total_blocks s + 1"
  using stamp_inv [of "s\<lparr>available_blocks := available_blocks s + 1, total_blocks := total_blocks s + 1\<rparr>" b]
    assms
  by (simp_all add: pool_insert_def pool_inv_def counted_def)

lemma match_blocks_inv:
  assumes "pool_inv s" "match_blocks hs s = (bs, s')"
  shows "pool_inv s'" "parked s = mset bs + parked s'" "total_blocks s' = total_blocks s"
proof -
  obtain s1 where m: "match_loop hs s = (bs, s1)"
      "s' = s1\<lparr>available_blocks := available_blocks s1 - of_nat (length bs)\<rparr>"
    using assms(2) by (auto simp: match_blocks_def split: prod.splits)
  have i: "index_ok s1" "parked s = mset bs + parked s1" "available_blocks s1 = available_blocks s"
      "total_blocks s1 = total_blocks s"
    using match_loop_inv [OF _ m(1)] assms(1) unfolding pool_inv_def by blast+
  have "available_blocks s = of_nat (size (parked s))"
    using assms(1) by (simp add: pool_inv_def counted_def)
  then show "pool_inv s'" "parked s = mset bs + parked s'" "total_blocks s' = total_blocks s"
    using i size_parked_split [OF i(2)] by (simp_all add: m(2) pool_inv_def counted_def)
qed

lemma take_blocks_inv:
  assumes "pool_inv s"
  shows "\<exists>bs s'. take_blocks n s = Inr (bs, s') \<and> pool_inv s' \<and> parked s = mset bs + parked s' \<and>
     length bs = min (unat n) (size (parked s)) \<and> total_blocks s' = total_blocks s"
proof -
  have "index_ok s" using assms by (simp add: pool_inv_def)
  then obtain bs s1 where t: "take_loop (unat n) s = Inr (bs, s1)" "index_ok s1"
      "parked s = mset bs + parked s1" "length bs = min (unat n) (size (parked s))"
      "available_blocks s1 = available_blocks s" "total_blocks s1 = total_blocks s"
    using take_loop_inv by blast
  have "available_blocks s = of_nat (size (parked s))"
    using assms by (simp add: pool_inv_def counted_def)
  then have "pool_inv (s1\<lparr>available_blocks := available_blocks s1 - of_nat (length bs)\<rparr>)"
    using t(2) size_parked_split [OF t(3)] by (simp add: pool_inv_def counted_def t(5))
  moreover have "take_blocks n s
      = Inr (bs, s1\<lparr>available_blocks := available_blocks s1 - of_nat (length bs)\<rparr>)"
    by (simp add: take_blocks_def t(1))
  moreover have "parked s = mset bs +
      parked (s1\<lparr>available_blocks := available_blocks s1 - of_nat (length bs)\<rparr>)"
    by (simp add: t(3))
  moreover have "total_blocks (s1\<lparr>available_blocks := available_blocks s1 - of_nat (length bs)\<rparr>)
      = total_blocks s"
    by (simp add: t(6))
  ultimately show ?thesis using t(4) by blast
qed

text \<open>Taking a block out by hash and putting a changed copy back.\<close>

lemma change_inv:
  assumes "pool_inv s"
  shows "pool_inv (case take_with_hash_locked h s of (None, s) \<Rightarrow> s
           | (Some b, s) \<Rightarrow> insert_locked (f b) s)"
    and "size (parked (case take_with_hash_locked h s of (None, s) \<Rightarrow> s
           | (Some b, s) \<Rightarrow> insert_locked (f b) s)) = size (parked s)"
    and "total_blocks (case take_with_hash_locked h s of (None, s) \<Rightarrow> s
           | (Some b, s) \<Rightarrow> insert_locked (f b) s) = total_blocks s"
proof -
  obtain r s1 where t: "take_with_hash_locked h s = (r, s1)" by fastforce
  have ix: "index_ok s" using assms by (simp add: pool_inv_def)
  note ti = take_with_hash_inv [OF ix t]
  have c: "available_blocks s1 = available_blocks s" "total_blocks s1 = total_blocks s"
    using t locked_counters(3,4) [of h s] by simp_all
  have "pool_inv (case (r, s1) of (None, s) \<Rightarrow> s | (Some b, s) \<Rightarrow> insert_locked (f b) s) \<and>
    size (parked (case (r, s1) of (None, s) \<Rightarrow> s | (Some b, s) \<Rightarrow> insert_locked (f b) s))
      = size (parked s) \<and>
    total_blocks (case (r, s1) of (None, s) \<Rightarrow> s | (Some b, s) \<Rightarrow> insert_locked (f b) s)
      = total_blocks s"
  proof (cases r)
    case None
    then show ?thesis using ti(3) assms by simp
  next
    case (Some b)
    have "parked s = add_mset b (parked s1)" using ti(4) [OF Some] by blast
    then show ?thesis
      using insert_locked_inv [OF ti(1), of "f b"] assms c
      by (simp add: Some pool_inv_def counted_def)
  qed
  then show "pool_inv (case take_with_hash_locked h s of (None, s) \<Rightarrow> s
           | (Some b, s) \<Rightarrow> insert_locked (f b) s)"
    and "size (parked (case take_with_hash_locked h s of (None, s) \<Rightarrow> s
           | (Some b, s) \<Rightarrow> insert_locked (f b) s)) = size (parked s)"
    and "total_blocks (case take_with_hash_locked h s of (None, s) \<Rightarrow> s
           | (Some b, s) \<Rightarrow> insert_locked (f b) s) = total_blocks s"
    unfolding t by blast+
qed

definition same_count :: "AvailableBlocksState \<Rightarrow> AvailableBlocksState \<Rightarrow> bool" where
  "same_count s s' \<longleftrightarrow> pool_inv s' \<and> size (parked s') = size (parked s) \<and>
     total_blocks s' = total_blocks s"

lemma update_priorities_inv: "pool_inv s \<Longrightarrow> same_count s (update_priorities us s)"
  unfolding update_priorities_def
proof (induction us arbitrary: s)
  case (Cons u us)
  obtain h p where u: "u = (h, p)" by fastforce
  let ?s = "case take_with_hash_locked h s of (None, s) \<Rightarrow> s
     | (Some b, s) \<Rightarrow> insert_locked (b\<lparr>priority := p\<rparr>) s"
  note c = change_inv [where h = h and f = "\<lambda>b. b\<lparr>priority := p\<rparr>", OF Cons.prems]
  show ?case using Cons.IH [OF c(1)] c(2,3) by (simp add: u same_count_def)
qed (simp add: same_count_def)

lemma pool_reset_inv: "pool_inv s \<Longrightarrow> same_count s (pool_reset hs s)"
  unfolding pool_reset_def
proof (induction hs arbitrary: s)
  case (Cons h hs)
  note c = change_inv [where h = h and f = KvBlock_reset, OF Cons.prems]
  show ?case using Cons.IH [OF c(1)] c(2,3) by (simp add: same_count_def)
qed (simp add: same_count_def)

lemma reset_all_inv:
  assumes "pool_inv s"
  shows "\<exists>s'. reset_all s = Inr s' \<and> same_count s s' \<and> lookup_map s' = (\<lambda>_. None)"
  using assms
proof (induction s rule: reset_all.induct)
  case (1 s)
  have ix: "index_ok s" using "1.prems" by (simp add: pool_inv_def)
  show ?case
  proof (cases "priority_set s")
    case Nil
    then show ?thesis
      using "1.prems" index_empty [OF ix Nil] by (simp add: reset_all.simps same_count_def)
  next
    case (Cons e rest)
    obtain k h where e: "e = (k, h)" by fastforce
    let ?s = "s\<lparr>priority_set := rest, lookup_map := (lookup_map s)(h := None)\<rparr>"
    obtain b where b: "lookup_map s h = Some b" "k = key_of b" "hash_of b = h"
        "\<forall>j c. lookup_map s j = Some c \<longrightarrow> key_of b \<le> key_of c"
        "take_with_hash_locked h s = (Some b, ?s)"
      using Cons unfolding e by (rule index_first [OF ix])
    let ?s' = "insert_locked (KvBlock_reset b) ?s"
    have c: "pool_inv ?s'" "size (parked ?s') = size (parked s)" "total_blocks ?s' = total_blocks s"
      using change_inv [where h = h and f = KvBlock_reset, OF "1.prems"] unfolding b(5) by simp_all
    obtain s' where "reset_all ?s' = Inr s'" "same_count ?s' s'" "lookup_map s' = (\<lambda>_. None)"
      using "1.IH" [OF Cons e [symmetric] b(1) c(1)] by blast
    moreover then have "reset_all s = Inr s'"
      by (subst reset_all.simps) (simp add: Cons e b(1))
    ultimately show ?thesis using c(2,3) by (auto simp: same_count_def)
  qed
qed

section \<open>Runs of the pool\<close>

text \<open>\<open>pool_run s n\<close>: the pool is in state \<open>s\<close> after some sequence of operations, with \<open>n\<close> blocks
  outside: held by a handle, or detached from the pool for good.  A holder may have changed the
  block it returns.\<close>

inductive pool_run :: "AvailableBlocksState \<Rightarrow> nat \<Rightarrow> bool" where
  new: "pool_run AvailableBlocks_new 0"
| insert: "pool_run s n \<Longrightarrow> pool_run (pool_insert b s) n"
| match_: "pool_run s n \<Longrightarrow> match_blocks hs s = (bs, s') \<Longrightarrow> pool_run s' (n + length bs)"
| take_: "pool_run s n \<Longrightarrow> take_blocks k s = Inr (bs, s') \<Longrightarrow> pool_run s' (n + length bs)"
| return_: "pool_run s (Suc n) \<Longrightarrow> pool_run (return_block b s) n"
| priorities: "pool_run s n \<Longrightarrow> pool_run (update_priorities us s) n"
| reset: "pool_run s n \<Longrightarrow> pool_run (pool_reset hs s) n"
| reset_all: "pool_run s n \<Longrightarrow> reset_all s = Inr s' \<Longrightarrow> pool_run s' n"

definition conserved :: "AvailableBlocksState \<Rightarrow> nat \<Rightarrow> bool" where
  "conserved s n \<longleftrightarrow> pool_inv s \<and> total_blocks s = available_blocks s + of_nat n"

lemma conservedD:
  assumes "conserved s n"
  shows "pool_inv s" "total_blocks s = of_nat (size (parked s) + n)"
  using assms by (simp_all add: conserved_def pool_inv_def counted_def)

lemma conservedI:
  "pool_inv s \<Longrightarrow> total_blocks s = of_nat (size (parked s) + n) \<Longrightarrow> conserved s n"
  by (simp add: conserved_def pool_inv_def counted_def)

lemma conserved_same:
  assumes "conserved s n" "same_count s s'"
  shows "conserved s' n"
  using assms conservedD [OF assms(1)] by (auto simp: same_count_def intro: conservedI)

lemma conserved_split:
  assumes "conserved s n" "pool_inv s'" "parked s = mset bs + parked s'" "total_blocks s' = total_blocks s"
  shows "conserved s' (n + length bs)"
proof (rule conservedI [OF assms(2)])
  show "total_blocks s' = of_nat (size (parked s') + (n + length bs))"
    using conservedD(2) [OF assms(1)] unfolding assms(3,4) by (simp add: ac_simps)
qed

lemma pool_run_conserved: "pool_run s n \<Longrightarrow> conserved s n"
proof (induction rule: pool_run.induct)
  case new
  then show ?case
    by (simp add: conserved_def pool_inv_def index_ok_def counted_def parked_def mapped_def
        AvailableBlocks_new_def)
next
  case (insert s n b)
  note c = conservedD [OF insert.IH]
  show ?case using pool_insert_inv [OF c(1), of b] c(2) by (intro conservedI) simp_all
next
  case (match_ s n hs bs s')
  note c = conservedD(1) [OF match_.IH]
  show ?case by (rule conserved_split [OF match_.IH match_blocks_inv [OF c match_.hyps(2)]])
next
  case (take_ s n k bs s')
  note c = conservedD(1) [OF take_.IH]
  have "pool_inv s' \<and> parked s = mset bs + parked s' \<and> total_blocks s' = total_blocks s"
    using take_blocks_inv [OF c, of k] take_.hyps(2) by auto
  then show ?case using conserved_split [OF take_.IH] by blast
next
  case (return_ s n b)
  note c = conservedD [OF return_.IH]
  show ?case using return_block_inv [OF c(1), of b] c(2) by (intro conservedI) simp_all
next
  case (priorities s n us)
  then show ?case using conserved_same update_priorities_inv conservedD(1) by blast
next
  case (reset s n hs)
  then show ?case using conserved_same pool_reset_inv conservedD(1) by blast
next
  case (reset_all s n s')
  then show ?case using conserved_same reset_all_inv [OF conservedD(1) [OF reset_all.IH]] by auto
qed

text \<open>C9.  No sequence of operations loses or duplicates a block: the pool's counter of available
  blocks is the number of blocks it holds, the total is that number plus the blocks handed out,
  the two indexes agree, and so the internal error of \<open>take_any_locked\<close> and \<open>reset_all\<close> is
  never raised.\<close>

theorem pool_conservation:
  assumes "pool_run s n"
  shows "available_blocks s = of_nat (size (parked s)) \<and>
         total_blocks s = available_blocks s + of_nat n \<and> index_ok s \<and>
         (\<exists>bs s'. take_blocks k s = Inr (bs, s') \<and> length bs = min (unat k) (size (parked s))) \<and>
         (\<exists>s'. reset_all s = Inr s')"
proof -
  have c: "conserved s n" by (rule pool_run_conserved [OF assms])
  have inv: "pool_inv s" by (rule conservedD(1) [OF c])
  have "\<exists>bs s'. take_blocks k s = Inr (bs, s') \<and> length bs = min (unat k) (size (parked s))"
    using take_blocks_inv [OF inv, of k] by blast
  moreover have "\<exists>s'. reset_all s = Inr s'" using reset_all_inv [OF inv] by blast
  ultimately show ?thesis using c inv unfolding conserved_def pool_inv_def counted_def by blast
qed

definition sample_block :: "u64 \<Rightarrow> u32 \<Rightarrow> KvBlock" where
  "sample_block h p = \<lparr>token_block = \<lparr>tb_tokens = [], tb_block_hash = h, tb_sequence_hash = h,
     tb_parent_sequence_hash = None\<rparr>, priority = p, kb_return_tick = 0\<rparr>"

definition sample_pool :: AvailableBlocksState where
  "sample_pool = pool_insert (sample_block 7 1) (pool_insert (sample_block 9 0) AvailableBlocks_new)"

lemma sample_pool_run: "pool_run sample_pool 0"
  unfolding sample_pool_def by (intro pool_run.insert pool_run.new)

lemmas pool_eval =
  sample_pool_def sample_block_def pool_insert_def AvailableBlocks_new_def stamp_def
  insert_locked_def key_of_def map_emplace_def match_blocks_def take_with_hash_locked_def
  return_block_def map_erase_def Let_def

theorem pool_conservation_witness:
  "pool_run (snd (match_blocks [9] sample_pool)) 1 \<and>
   total_blocks (snd (match_blocks [9] sample_pool))
     = available_blocks (snd (match_blocks [9] sample_pool)) + 1"
proof -
  have "length (fst (match_blocks [9] sample_pool)) = 1" by (simp add: pool_eval)
  then have r: "pool_run (snd (match_blocks [9] sample_pool)) 1"
    using pool_run.match_ [OF sample_pool_run, of "[9]"] by (metis add_0 prod.collapse)
  then show ?thesis using pool_conservation [OF r, of 0] by simp
qed

section \<open>What matching returns\<close>

text \<open>C10.  Matching hands out exactly the parked blocks of the longest prefix of the requested
  hashes that is parked, each with the contents it was parked with, removes these from the pool
  and leaves every other block where it was.\<close>

theorem match_blocks_prefix:
  assumes "pool_run s n" and "match_blocks hs s = (bs, s')"
  shows "map Some bs = map (lookup_map s) (take (length bs) hs) \<and>
         map hash_of bs = take (length bs) hs \<and>
         (length bs < length hs \<longrightarrow> lookup_map s' (hs ! length bs) = None) \<and>
         (\<forall>h. lookup_map s' h = (if h \<in> set (take (length bs) hs) then None else lookup_map s h)) \<and>
         uninitialized_set s' = uninitialized_set s"
proof -
  obtain s1 where m: "match_loop hs s = (bs, s1)"
      "s' = s1\<lparr>available_blocks := available_blocks s1 - of_nat (length bs)\<rparr>"
    using assms(2) by (auto simp: match_blocks_def split: prod.splits)
  have "lookup_map s' = lookup_map s1" "uninitialized_set s' = uninitialized_set s1"
    by (simp_all add: m(2))
  moreover have "index_ok s"
    using conservedD(1) [OF pool_run_conserved [OF assms(1)]] by (simp add: pool_inv_def)
  ultimately show ?thesis using match_loop_inv [OF _ m(1)] by metis
qed

theorem match_blocks_prefix_witness:
  "let (bs, s') = match_blocks [9, 8, 7] sample_pool
   in map hash_of bs = [9] \<and> lookup_map s' 9 = None \<and> lookup_map s' 7 \<noteq> None"
proof -
  obtain bs s' where m: "match_blocks [9, 8, 7] sample_pool = (bs, s')" by fastforce
  have l: "length bs = 1" "lookup_map sample_pool 7 \<noteq> None"
    using m by (auto simp: pool_eval)
  show ?thesis
    using match_blocks_prefix [OF sample_pool_run m] l unfolding m by simp
qed

text \<open>A block that is returned can be matched again: once a block with a non-zero sequence
  hash that is not already parked goes back to the pool, a request for that hash gets the same
  block, with a new return tick.\<close>

lemma returned_block_matches:
  assumes "hash_of b \<noteq> 0" and "lookup_map s (hash_of b) = None"
  shows "fst (match_blocks [hash_of b] (return_block b s))
         = [b\<lparr>kb_return_tick := return_tick s + 1\<rparr>]"
  using assms
  by (simp add: return_block_def stamp_def insert_locked_def match_blocks_def
      take_with_hash_locked_def Let_def)

lemma returned_block_matches_witness:
  "fst (match_blocks [hash_of (sample_block 5 0)] (return_block (sample_block 5 0) sample_pool))
     = [(sample_block 5 0)\<lparr>kb_return_tick := return_tick sample_pool + 1\<rparr>]"
  by (rule returned_block_matches) (simp_all add: pool_eval)

section \<open>Eviction order\<close>

definition by_priority :: "AvailableBlocksState \<Rightarrow> KvBlock list" where
  "by_priority s = map (\<lambda>e. the (lookup_map s (snd e))) (priority_set s)"

lemma priority_keys:
  assumes "index_ok s"
  shows "map key_of (by_priority s) = map fst (priority_set s)"
  unfolding by_priority_def map_map
proof (rule map_cong [OF refl])
  fix e assume "e \<in> set (priority_set s)"
  then show "(key_of \<circ> (\<lambda>e. the (lookup_map s (snd e)))) e = fst e"
    using index_okD(4) [OF assms, of "fst e" "snd e"] by auto
qed

lemma priority_hashes:
  assumes "index_ok s"
  shows "distinct (map snd (priority_set s))" "set (map snd (priority_set s)) = dom (lookup_map s)"
proof -
  have inj: "inj_on snd (set (priority_set s))"
  proof (rule inj_onI)
    fix x y assume x: "x \<in> set (priority_set s)" "y \<in> set (priority_set s)" "snd x = snd y"
    obtain b c where "lookup_map s (snd x) = Some b" "fst x = key_of b"
        "lookup_map s (snd y) = Some c" "fst y = key_of c"
      using index_okD(4) [OF assms] x(1,2) by (metis prod.collapse)
    then show "x = y" using x(3) by (simp add: prod_eq_iff)
  qed
  then show "distinct (map snd (priority_set s))"
    using index_okD(6) [OF assms] by (simp add: distinct_map)
  show "set (map snd (priority_set s)) = dom (lookup_map s)"
    using index_okD(4) [OF assms] by force
qed

lemma mset_by_priority:
  assumes "index_ok s"
  shows "mset (by_priority s) = mapped (lookup_map s)"
proof -
  have "mset (by_priority s) = image_mset (\<lambda>h. the (lookup_map s h)) (mset (map snd (priority_set s)))"
    by (simp add: by_priority_def image_mset.compositionality comp_def)
  also have "mset (map snd (priority_set s)) = mset_set (dom (lookup_map s))"
    using priority_hashes [OF assms] by (metis mset_set_set)
  finally show ?thesis by (simp add: mapped_def)
qed

lemma by_priority_tail:
  assumes "index_ok s" "priority_set s = (k, h) # rest"
  shows "by_priority (s\<lparr>priority_set := rest, lookup_map := (lookup_map s)(h := None)\<rparr>)
         = tl (by_priority s)"
proof -
  have "h \<notin> set (map snd rest)" using priority_hashes(1) [OF assms(1)] assms(2) by simp
  then show ?thesis using assms(2) by (auto simp: by_priority_def)
qed

lemma take_loop_order:
  assumes "index_ok s" "take_loop n s = Inr (bs, s')"
  shows "bs = take n (uninitialized_set s @ by_priority s)"
  using assms
proof (induction n arbitrary: s bs)
  case (Suc n)
  show ?case
  proof (cases "uninitialized_set s")
    case (Cons u us)
    let ?s = "s\<lparr>uninitialized_set := us\<rparr>"
    have "index_ok ?s" using Suc.prems(1) by (simp add: index_ok_def)
    moreover obtain cs where "take_loop n ?s = Inr (cs, s')" "bs = u # cs"
      using Suc.prems(2) Cons by (auto simp: take_any_locked_def)
    ultimately show ?thesis using Suc.IH [of ?s cs] Cons by (simp add: by_priority_def)
  next
    case Nil
    show ?thesis
    proof (cases "priority_set s")
      case none: Nil
      then show ?thesis using Suc.prems(2) Nil by (simp add: take_any_locked_def by_priority_def)
    next
      case (Cons e rest)
      obtain k h where e: "priority_set s = (k, h) # rest" using Cons by (cases e) simp
      let ?s = "s\<lparr>priority_set := rest, lookup_map := (lookup_map s)(h := None)\<rparr>"
      obtain b where b: "lookup_map s h = Some b" "take_with_hash_locked h s = (Some b, ?s)"
        using index_first [OF Suc.prems(1) e] by metis
      have ix: "index_ok ?s" using take_with_hash_inv(1) [OF Suc.prems(1) b(2)] .
      obtain cs where cs: "take_loop n ?s = Inr (cs, s')" "bs = b # cs"
        using Suc.prems(2) Nil e b(1) by (auto simp: take_any_locked_def)
      have "by_priority s = b # by_priority ?s"
        unfolding by_priority_tail [OF Suc.prems(1) e] using e b(1) by (simp add: by_priority_def)
      then show ?thesis using Suc.IH [OF ix cs(1)] cs(2) Nil by simp
    qed
  qed
qed simp

text \<open>Eviction order: taking blocks hands out first the blocks without reusable state, in
  the order they came in, and then the parked blocks in ascending order of priority and, within
  a priority, of return time: the blocks taken are a prefix of that order.\<close>

lemma take_blocks_order:
  assumes "pool_run s n" and "take_blocks k s = Inr (bs, s')"
  shows "\<exists>ps. bs = take (unat k) (uninitialized_set s @ ps) \<and> mset ps = mapped (lookup_map s) \<and>
           sorted (map key_of ps)"
proof -
  have ix: "index_ok s"
    using conservedD(1) [OF pool_run_conserved [OF assms(1)]] by (simp add: pool_inv_def)
  obtain s1 where "take_loop (unat k) s = Inr (bs, s1)"
    using assms(2) by (auto simp: take_blocks_def)
  then have "bs = take (unat k) (uninitialized_set s @ by_priority s)"
    by (rule take_loop_order [OF ix])
  moreover have "sorted (map key_of (by_priority s))"
    using priority_keys [OF ix] index_okD(5) [OF ix] by simp
  ultimately show ?thesis using mset_by_priority [OF ix] by blast
qed

lemma take_blocks_order_witness:
  "\<exists>bs s' ps. take_blocks 1 sample_pool = Inr (bs, s') \<and> map hash_of bs = [9] \<and>
     bs = take 1 (uninitialized_set sample_pool @ ps) \<and>
     mset ps = mapped (lookup_map sample_pool) \<and> sorted (map key_of ps)"
proof -
  obtain bs s' where t: "take_blocks 1 sample_pool = Inr (bs, s')" "map hash_of bs = [9]"
    by (simp add: take_blocks_def take_any_locked_def pool_eval less_eq_PriorityKey_def
        less_PriorityKey_def)
  show ?thesis using take_blocks_order [OF sample_pool_run t(1)] t by auto
qed

end
