(* ===== verification/Manager.thy ===== *)
theory Manager
  imports Reuse
begin

text \<open>
  Inflight blocks and the storage manager: \<^verbatim>\<open>src/llm/kv/reserved.h\<close>, \<^verbatim>\<open>reserved.cpp\<close>,
  \<^verbatim>\<open>manager.h\<close>, \<^verbatim>\<open>manager.cpp\<close>.  An inflight block is a shared object with a use count: the
  state keeps the live objects by address, with the number of handles, and the registry of weak
  references by sequence hash.  A \<open>ReservedBlock\<close> handle is an address; dropping the last handle
  runs the destructor, which clears the registry entry and returns the block to the pool.
  Operations return a value or an exception together with the state they leave, so what an
  exception releases on the way out is part of the model.  The lemmas show that handles and
  counts always agree, that at most one live block has a given sequence hash, that no block is
  lost on any path, and what the two phases of prefill preparation return.
\<close>

section \<open>Reserved blocks\<close>

type_synonym handle = nat

record ReservedBlockInner =
  in_block :: KvBlock
  in_hash :: SequenceHash
  in_count :: nat

record KvStorageManager =
  pool :: AvailableBlocksState
  registry :: "SequenceHash \<Rightarrow> handle option"
  inners :: "handle \<Rightarrow> ReservedBlockInner option"
  next_handle :: handle
  block_size :: nat

definition KvStorageManager_new :: "nat \<Rightarrow> KvStorageManager" where
  "KvStorageManager_new n = \<lparr>pool = AvailableBlocks_new, registry = (\<lambda>_. None),
     inners = (\<lambda>_. None), next_handle = 0, block_size = n\<rparr>"

definition inflight_count :: "KvStorageManager \<Rightarrow> handle \<Rightarrow> nat" where
  "inflight_count m p = (case inners m p of None \<Rightarrow> 0 | Some i \<Rightarrow> in_count i)"

text \<open>\<open>weak_ptr::lock\<close>: one more handle, when the object is alive.\<close>

definition lock :: "handle \<Rightarrow> KvStorageManager \<Rightarrow> (handle \<times> KvStorageManager) option" where
  "lock p m =
     (case inners m p of
        None \<Rightarrow> None
      | Some i \<Rightarrow> Some (p, m\<lparr>inners := (inners m)(p \<mapsto> i\<lparr>in_count := in_count i + 1\<rparr>)\<rparr>))"

definition to_pool :: "KvBlock \<Rightarrow> KvStorageManager \<Rightarrow> KvStorageManager" where
  "to_pool b m = m\<lparr>pool := return_block b (pool m)\<rparr>"

text \<open>A handle goes out of scope.  At the last one the destructor of \<open>ReservedBlockInner\<close> erases
  the registry entry if it has expired, and its member returns the block to the pool.\<close>

definition drop_handle :: "handle \<Rightarrow> KvStorageManager \<Rightarrow> KvStorageManager" where
  "drop_handle p m =
     (case inners m p of
        None \<Rightarrow> m
      | Some i \<Rightarrow>
          if in_count i > 1 then m\<lparr>inners := (inners m)(p \<mapsto> i\<lparr>in_count := in_count i - 1\<rparr>)\<rparr>
          else
            let live = (inners m)(p := None);
                reg = (case registry m (in_hash i) of
                         Some q \<Rightarrow> (if live q = None then (registry m)(in_hash i := None)
                                  else registry m)
                       | None \<Rightarrow> registry m)
            in to_pool (in_block i) (m\<lparr>inners := live, registry := reg\<rparr>))"

fun match_sequence_hashes ::
  "SequenceHash list \<Rightarrow> KvStorageManager \<Rightarrow> handle list \<times> KvStorageManager" where
  "match_sequence_hashes [] m = ([], m)"
| "match_sequence_hashes (h # hs) m =
     (case registry m h of
        None \<Rightarrow> ([], m)
      | Some p \<Rightarrow>
          (case lock p m of
             None \<Rightarrow> ([], m)
           | Some (p, m) \<Rightarrow> (let (ps, m) = match_sequence_hashes hs m in (p # ps, m))))"

definition reserved_match_token_blocks ::
  "TokenBlock list \<Rightarrow> KvStorageManager \<Rightarrow> handle list \<times> KvStorageManager" where
  "reserved_match_token_blocks tbs m = match_sequence_hashes (map tb_sequence_hash tbs) m"

text \<open>The argument is \<open>None\<close> for an empty handle.  A block that is not kept is returned to the pool
  when the argument goes out of scope.\<close>

definition register_block ::
  "KvBlock option \<Rightarrow> KvStorageManager \<Rightarrow> handle res \<times> KvStorageManager" where
  "register_block ub m =
     (case ub of
        None \<Rightarrow> (Inl (InvalidArgument ''cannot register an empty block''), m)
      | Some b \<Rightarrow>
          if length (tb_tokens (token_block b)) \<noteq> block_size m
          then (Inl (RuntimeError ''block size mismatch''), to_pool b m)
          else
            let hash = hash_of b in
            case Option.bind (registry m hash) (\<lambda>p. lock p m) of
              Some (p, m) \<Rightarrow> (Inr p, to_pool b m)
            | None \<Rightarrow>
                let p = next_handle m in
                (Inr p,
                 m\<lparr>inners := (inners m)(p \<mapsto> \<lparr>in_block = b, in_hash = hash, in_count = 1\<rparr>),
                   registry := (registry m)(hash \<mapsto> p), next_handle := p + 1\<rparr>))"

section \<open>The storage manager\<close>

record PrefillMatched =
  inflight_blocks :: "handle list"
  remaining_blocks :: "TokenBlock list"
  tail_block :: PartialTokenBlock

record PrefillOffload =
  off_inflight_blocks :: "handle list"
  complete_prefill_blocks :: "KvBlock list"
  tail_token_block :: PartialTokenBlock
  tail_kv_block :: KvBlock

definition drop_all :: "handle list \<Rightarrow> KvStorageManager \<Rightarrow> KvStorageManager" where
  "drop_all ps m = fold drop_handle ps m"

definition return_all :: "KvBlock list \<Rightarrow> KvStorageManager \<Rightarrow> KvStorageManager" where
  "return_all bs m = fold to_pool bs m"

text \<open>The promotion loop.  If a registration throws, the blocks not yet promoted and the handles
  collected so far are released while the exception leaves the function.\<close>

fun promote ::
  "KvBlock list \<Rightarrow> handle list \<Rightarrow> KvStorageManager \<Rightarrow> handle list res \<times> KvStorageManager" where
  "promote [] ps m = (Inr ps, m)"
| "promote (b # bs) ps m =
     (case register_block (Some b) m of
        (Inr p, m) \<Rightarrow> promote bs (ps @ [p]) m
      | (Inl e, m) \<Rightarrow> (Inl e, drop_all ps (return_all bs m)))"

definition prepare_prefill_sequence ::
  "xxh3 \<Rightarrow> Token list \<Rightarrow> KvStorageManager \<Rightarrow> PrefillMatched res \<times> KvStorageManager" where
  "prepare_prefill_sequence xxh3 toks m =
     (let (blocks, tail) = split_tokens xxh3 toks (block_size m);
          (inflight, m) = reserved_match_token_blocks blocks m;
          unmatched = drop (length inflight) blocks;
          (reusable, pl) = match_token_blocks unmatched (pool m);
          m = m\<lparr>pool := pl\<rparr>
      in case promote reusable inflight m of
           (Inl e, m) \<Rightarrow> (Inl e, m)
         | (Inr inflight, m) \<Rightarrow>
             (Inr \<lparr>inflight_blocks = inflight, remaining_blocks = drop (length inflight) blocks,
                   tail_block = tail\<rparr>, m))"

text \<open>The pairing loop: token blocks in order, pool blocks from the back; what is left of the pool
  blocks is the second component.\<close>

fun pair_blocks :: "TokenBlock list \<Rightarrow> KvBlock list \<Rightarrow> KvBlock list \<times> KvBlock list" where
  "pair_blocks [] bs = ([], bs)"
| "pair_blocks (tb # tbs) bs =
     (let b = last bs; (done, rest) = pair_blocks tbs (butlast bs)
      in (b\<lparr>token_block := tb\<rparr> # done, rest))"

definition prepare_prefill_offload ::
  "PrefillMatched \<Rightarrow> KvStorageManager \<Rightarrow> PrefillOffload res \<times> KvStorageManager" where
  "prepare_prefill_offload matched m =
     (let n = length (remaining_blocks matched) in
      case take_blocks (of_nat n + 1) (pool m) of
        Inl e \<Rightarrow> (Inl e, drop_all (inflight_blocks matched) m)
      | Inr (reuse, pl) \<Rightarrow>
          let m = m\<lparr>pool := pl\<rparr> in
          if length reuse \<noteq> n + 1
          then (Inl (RuntimeError ''kv manager: expected blocks''),
                drop_all (inflight_blocks matched) (return_all reuse m))
          else
            let (done, rest) = pair_blocks (remaining_blocks matched) reuse in
            (Inr \<lparr>off_inflight_blocks = inflight_blocks matched, complete_prefill_blocks = done,
                  tail_token_block = tail_block matched, tail_kv_block = last rest\<rparr>, m))"

section \<open>Handles and counts\<close>

text \<open>\<open>live_ok m H\<close>: the live objects are exactly those with a handle in \<open>H\<close>, their use counts are
  the number of handles, and the registry is exactly the index of the live objects by hash.\<close>

definition live_ok :: "KvStorageManager \<Rightarrow> handle multiset \<Rightarrow> bool" where
  "live_ok m H \<longleftrightarrow>
     finite (dom (inners m)) \<and>
     (\<forall>p i. inners m p = Some i \<longrightarrow> in_count i = count H p \<and> 0 < count H p \<and>
        registry m (in_hash i) = Some p \<and> p < next_handle m) \<and>
     (\<forall>p. inners m p = None \<longrightarrow> count H p = 0) \<and>
     (\<forall>h p. registry m h = Some p \<longrightarrow> (\<exists>i. inners m p = Some i \<and> in_hash i = h))"

lemma live_okD:
  assumes "live_ok m H"
  shows "finite (dom (inners m))"
    "inners m p = Some i \<Longrightarrow> in_count i = count H p" "inners m p = Some i \<Longrightarrow> 0 < count H p"
    "inners m p = Some i \<Longrightarrow> registry m (in_hash i) = Some p"
    "inners m p = Some i \<Longrightarrow> p < next_handle m"
    "inners m p = None \<Longrightarrow> count H p = 0"
    "registry m h = Some p \<Longrightarrow> \<exists>i. inners m p = Some i \<and> in_hash i = h"
  using assms unfolding live_ok_def by blast+

lemma live_okI:
  assumes "finite (dom (inners m))"
    and "\<And>p i. inners m p = Some i \<Longrightarrow> in_count i = count H p \<and> 0 < count H p \<and>
          registry m (in_hash i) = Some p \<and> p < next_handle m"
    and "\<And>p. inners m p = None \<Longrightarrow> count H p = 0"
    and "\<And>h p. registry m h = Some p \<Longrightarrow> \<exists>i. inners m p = Some i \<and> in_hash i = h"
  shows "live_ok m H"
  using assms unfolding live_ok_def by blast

definition mgr_inv :: "KvStorageManager \<Rightarrow> handle multiset \<Rightarrow> nat \<Rightarrow> bool" where
  "mgr_inv m H u \<longleftrightarrow> live_ok m H \<and> conserved (pool m) (card (dom (inners m)) + u)"

text \<open>The sequence hash a handle refers to, and that an operation keeps it.\<close>

definition handle_hash :: "KvStorageManager \<Rightarrow> handle \<Rightarrow> SequenceHash option" where
  "handle_hash m p = map_option in_hash (inners m p)"

definition keeps :: "KvStorageManager \<Rightarrow> KvStorageManager \<Rightarrow> bool" where
  "keeps m m' \<longleftrightarrow> block_size m' = block_size m \<and>
     (\<forall>p h. handle_hash m p = Some h \<longrightarrow> handle_hash m' p = Some h)"

lemma keeps_refl [simp]: "keeps m m"
  by (simp add: keeps_def)

lemma keeps_trans: "keeps a b \<Longrightarrow> keeps b c \<Longrightarrow> keeps a c"
  by (simp add: keeps_def)

lemma to_pool_simps [simp]:
  "inners (to_pool b m) = inners m" "registry (to_pool b m) = registry m"
  "next_handle (to_pool b m) = next_handle m" "block_size (to_pool b m) = block_size m"
  "pool (to_pool b m) = return_block b (pool m)"
  by (simp_all add: to_pool_def)

lemma live_ok_cong:
  "inners m' = inners m \<Longrightarrow> registry m' = registry m \<Longrightarrow> next_handle m' = next_handle m \<Longrightarrow>
     live_ok m' H = live_ok m H"
  by (simp add: live_ok_def)

lemma conserved_return:
  assumes "conserved s (Suc n)"
  shows "conserved (return_block b s) n"
  using conservedD [OF assms] return_block_inv [of s b] by (intro conservedI) simp_all

lemma to_pool_inv:
  assumes "mgr_inv m H (Suc u)"
  shows "mgr_inv (to_pool b m) H u"
  using assms conserved_return [of "pool m" "card (dom (inners m)) + u" b]
    live_ok_cong [of "to_pool b m" m]
  by (simp add: mgr_inv_def)

lemma lock_inv:
  assumes "mgr_inv m H u" "lock p m = Some (q, m')"
  shows "q = p" "mgr_inv m' (add_mset p H) u" "keeps m m'" "registry m' = registry m"
    "handle_hash m' = handle_hash m"
proof -
  obtain i where i: "inners m p = Some i" "q = p"
      "m' = m\<lparr>inners := (inners m)(p \<mapsto> i\<lparr>in_count := in_count i + 1\<rparr>)\<rparr>"
    using assms(2) by (auto simp: lock_def split: option.splits)
  have ok: "live_ok m H" and c: "conserved (pool m) (card (dom (inners m)) + u)"
    using assms(1) by (simp_all add: mgr_inv_def)
  have "live_ok m' (add_mset p H)"
  proof (rule live_okI)
    show "finite (dom (inners m'))" using live_okD(1) [OF ok] by (simp add: i(3))
    show "in_count j = count (add_mset p H) r \<and> 0 < count (add_mset p H) r \<and>
        registry m' (in_hash j) = Some r \<and> r < next_handle m'" if "inners m' r = Some j" for r j
      using that live_okD(2-5) [OF ok, of r] live_okD(2-5) [OF ok i(1)]
      by (auto simp: i(3) split: if_splits)
    show "count (add_mset p H) r = 0" if "inners m' r = None" for r
      using that live_okD(6) [OF ok, of r] by (simp add: i(3) split: if_splits)
    show "\<exists>j. inners m' r = Some j \<and> in_hash j = h" if reg: "registry m' h = Some r" for h r
    proof -
      obtain j where "inners m r = Some j" "in_hash j = h"
        using live_okD(7) [OF ok, of h r] reg by (auto simp: i(3))
      then show ?thesis using i(1) by (auto simp: i(3))
    qed
  qed
  moreover have "dom (inners m') = dom (inners m)" using i(1) by (auto simp: i(3))
  ultimately show "mgr_inv m' (add_mset p H) u" using c by (simp add: mgr_inv_def i(3))
  show "handle_hash m' = handle_hash m" using i(1) by (auto simp: i(3) handle_hash_def fun_eq_iff)
  then show "keeps m m'" by (simp add: keeps_def i(3))
  show "registry m' = registry m" "q = p" by (simp_all add: i(3) i(2))
qed

lemma drop_handle_inv:
  assumes "mgr_inv m (add_mset p H) u"
  shows "mgr_inv (drop_handle p m) H u"
proof -
  have ok: "live_ok m (add_mset p H)" and c: "conserved (pool m) (card (dom (inners m)) + u)"
    using assms by (simp_all add: mgr_inv_def)
  obtain i where i: "inners m p = Some i"
    using live_okD(6) [OF ok, of p] by (cases "inners m p") auto
  have cnt: "in_count i = Suc (count H p)" using live_okD(2) [OF ok i] by simp
  show ?thesis
  proof (cases "count H p = 0")
    case False
    let ?m = "m\<lparr>inners := (inners m)(p \<mapsto> i\<lparr>in_count := in_count i - 1\<rparr>)\<rparr>"
    have m: "drop_handle p m = ?m" using False cnt by (simp add: drop_handle_def i)
    have "live_ok ?m H"
    proof (rule live_okI)
      show "finite (dom (inners ?m))" using live_okD(1) [OF ok] by simp
      show "in_count j = count H r \<and> 0 < count H r \<and>
          registry ?m (in_hash j) = Some r \<and> r < next_handle ?m" if "inners ?m r = Some j" for r j
        using that live_okD(2-5) [OF ok, of r] live_okD(4,5) [OF ok i] False cnt
        by (auto split: if_splits)
      show "count H r = 0" if "inners ?m r = None" for r
        using that live_okD(6) [OF ok, of r] by (simp split: if_splits)
      show "\<exists>j. inners ?m r = Some j \<and> in_hash j = h" if reg: "registry ?m h = Some r" for h r
      proof -
        obtain j where "inners m r = Some j" "in_hash j = h"
          using live_okD(7) [OF ok, of h r] reg by auto
        then show ?thesis using i by auto
      qed
    qed
    moreover have "dom (inners ?m) = dom (inners m)" using i by auto
    ultimately show ?thesis using c by (simp add: m mgr_inv_def)
  next
    case True
    let ?n = "m\<lparr>inners := (inners m)(p := None), registry := (registry m)(in_hash i := None)\<rparr>"
    have reg: "registry m (in_hash i) = Some p" by (rule live_okD(4) [OF ok i])
    have m: "drop_handle p m = to_pool (in_block i) ?n"
      using True cnt reg by (simp add: drop_handle_def i Let_def)
    have "live_ok ?n H"
    proof (rule live_okI)
      show "finite (dom (inners ?n))" using live_okD(1) [OF ok] by simp
      show "in_count j = count H r \<and> 0 < count H r \<and>
          registry ?n (in_hash j) = Some r \<and> r < next_handle ?n" if live: "inners ?n r = Some j" for r j
      proof -
        have r: "r \<noteq> p" "inners m r = Some j" using live by (auto split: if_splits)
        moreover have "in_hash j \<noteq> in_hash i" using live_okD(4) [OF ok r(2)] reg r(1) by auto
        ultimately show ?thesis using live_okD(2-5) [OF ok r(2)] by simp
      qed
      show "count H r = 0" if "inners ?n r = None" for r
        using that True live_okD(6) [OF ok, of r] by (auto split: if_splits)
      show "\<exists>j. inners ?n r = Some j \<and> in_hash j = h" if rg: "registry ?n h = Some r" for h r
      proof -
        have h: "h \<noteq> in_hash i" "registry m h = Some r" using rg by (auto split: if_splits)
        then obtain j where "inners m r = Some j" "in_hash j = h"
          using live_okD(7) [OF ok] by blast
        then show ?thesis using h(1) i by auto
      qed
    qed
    moreover have "card (dom (inners m)) = Suc (card (dom (inners ?n)))"
    proof -
      have "p \<in> dom (inners m)" "dom (inners ?n) = dom (inners m) - {p}" using i by auto
      then show ?thesis using card.remove [OF live_okD(1) [OF ok], of p] by simp
    qed
    ultimately have "mgr_inv ?n H (Suc u)" using c by (simp add: mgr_inv_def)
    then show ?thesis unfolding m by (rule to_pool_inv)
  qed
qed

lemma drop_all_inv: "mgr_inv m (mset ps + H) u \<Longrightarrow> mgr_inv (drop_all ps m) H u"
  unfolding drop_all_def by (induction ps arbitrary: m) (simp_all add: drop_handle_inv)

lemma return_all_inv: "mgr_inv m H (length bs + u) \<Longrightarrow> mgr_inv (return_all bs m) H u"
  unfolding return_all_def by (induction bs arbitrary: m) (simp_all add: to_pool_inv)

lemma register_block_inv:
  assumes "mgr_inv m H (Suc u)" "register_block (Some b) m = (r, m')"
  shows "case r of Inl e \<Rightarrow> mgr_inv m' H u
         | Inr p \<Rightarrow> mgr_inv m' (add_mset p H) u \<and> handle_hash m' p = Some (hash_of b) \<and> keeps m m'"
proof (cases "length (tb_tokens (token_block b)) = block_size m")
  case False
  then show ?thesis using assms to_pool_inv by (auto simp: register_block_def)
next
  case True
  have ok: "live_ok m H" and c: "conserved (pool m) (card (dom (inners m)) + Suc u)"
    using assms(1) by (simp_all add: mgr_inv_def)
  show ?thesis
  proof (cases "registry m (hash_of b)")
    case (Some p)
    obtain i where i: "inners m p = Some i" "in_hash i = hash_of b"
      using live_okD(7) [OF ok Some] by blast
    then obtain m1 where l: "lock p m = Some (p, m1)" by (simp add: lock_def)
    note li = lock_inv [OF assms(1) l]
    have "r = Inr p" "m' = to_pool b m1"
      using assms(2) True Some l by (simp_all add: register_block_def Let_def)
    moreover have "handle_hash (to_pool b m1) p = Some (hash_of b)"
      using li(5) i by (simp add: handle_hash_def fun_eq_iff)
    moreover have "keeps m (to_pool b m1)" using li(3) by (simp add: keeps_def handle_hash_def)
    ultimately show ?thesis using to_pool_inv [OF li(2)] by simp
  next
    case None
    let ?p = "next_handle m" and ?i = "\<lparr>in_block = b, in_hash = hash_of b, in_count = 1\<rparr>"
    have r: "r = Inr ?p" "m' = m\<lparr>inners := (inners m)(?p \<mapsto> ?i),
        registry := (registry m)(hash_of b \<mapsto> ?p), next_handle := ?p + 1\<rparr>"
      using assms(2) True None by (simp_all add: register_block_def Let_def)
    have new: "inners m ?p = None" using live_okD(5) [OF ok, of ?p] by (cases "inners m ?p") auto
    have "live_ok m' (add_mset ?p H)"
    proof (rule live_okI)
      show "finite (dom (inners m'))" using live_okD(1) [OF ok] by (simp add: r(2))
      show "in_count j = count (add_mset ?p H) q \<and> 0 < count (add_mset ?p H) q \<and>
          registry m' (in_hash j) = Some q \<and> q < next_handle m'" if live: "inners m' q = Some j" for q j
      proof (cases "q = ?p")
        case True
        then show ?thesis using live live_okD(6) [OF ok new] by (auto simp: r(2))
      next
        case False
        then have q: "inners m q = Some j" using live by (simp add: r(2))
        have "in_hash j \<noteq> hash_of b" using live_okD(4) [OF ok q] None by auto
        then show ?thesis using live_okD(2-5) [OF ok q] False by (simp add: r(2))
      qed
      show "count (add_mset ?p H) q = 0" if "inners m' q = None" for q
        using that live_okD(6) [OF ok, of q] by (auto simp: r(2) split: if_splits)
      show "\<exists>j. inners m' q = Some j \<and> in_hash j = h" if reg: "registry m' h = Some q" for h q
      proof (cases "h = hash_of b")
        case True
        then show ?thesis using reg by (simp add: r(2))
      next
        case False
        then obtain j where "inners m q = Some j" "in_hash j = h"
          using live_okD(7) [OF ok, of h q] reg by (auto simp: r(2))
        moreover then have "q \<noteq> ?p" using new by auto
        ultimately show ?thesis by (simp add: r(2))
      qed
    qed
    moreover have "card (dom (inners m')) = Suc (card (dom (inners m)))"
      using live_okD(1) [OF ok] new by (simp add: r(2) domIff)
    moreover have "keeps m m'" using new by (auto simp: keeps_def handle_hash_def r(2))
    ultimately show ?thesis using c by (simp add: r mgr_inv_def handle_hash_def)
  qed
qed

lemma match_sequence_inv:
  assumes "mgr_inv m H u" "match_sequence_hashes hs m = (ps, m')"
  shows "mgr_inv m' (mset ps + H) u \<and> keeps m m' \<and> pool m' = pool m \<and>
     map (handle_hash m') ps = map Some (take (length ps) hs) \<and> length ps \<le> length hs \<and>
     (length ps < length hs \<longrightarrow> registry m' (hs ! length ps) = None) \<and> registry m' = registry m"
  using assms
proof (induction hs arbitrary: m H ps)
  case (Cons h hs)
  have ok: "live_ok m H" using Cons.prems(1) by (simp add: mgr_inv_def)
  show ?case
  proof (cases "registry m h")
    case None
    then show ?thesis using Cons.prems by auto
  next
    case (Some p)
    obtain i where i: "inners m p = Some i" "in_hash i = h" using live_okD(7) [OF ok Some] by blast
    then obtain m1 where l: "lock p m = Some (p, m1)" by (simp add: lock_def)
    note li = lock_inv [OF Cons.prems(1) l]
    obtain qs where q: "match_sequence_hashes hs m1 = (qs, m')" "ps = p # qs"
      using Cons.prems(2) Some l by (auto split: prod.splits)
    note ih = Cons.IH [OF li(2) q(1)]
    have "handle_hash m1 p = Some h" using i li(5) by (simp add: handle_hash_def fun_eq_iff)
    then have "handle_hash m' p = Some h" using ih by (simp add: keeps_def)
    moreover have "keeps m m'" using ih li(3) keeps_trans by blast
    moreover have "pool m1 = pool m" using l i(1) by (auto simp: lock_def)
    ultimately show ?thesis using ih li(4) q(2) by auto
  qed
qed simp

lemma promote_inv:
  assumes "mgr_inv m (mset ps + H) (length bs + u)" "promote bs ps m = (r, m')"
  shows "case r of Inl e \<Rightarrow> mgr_inv m' H u
     | Inr qs \<Rightarrow> mgr_inv m' (mset qs + H) u \<and> keeps m m' \<and>
         (\<exists>rs. qs = ps @ rs \<and> map (handle_hash m') rs = map (Some \<circ> hash_of) bs)"
  using assms
proof (induction bs arbitrary: ps m)
  case (Cons b bs)
  obtain r1 m1 where reg: "register_block (Some b) m = (r1, m1)" by fastforce
  have "mgr_inv m (mset ps + H) (Suc (length bs + u))" using Cons.prems(1) by simp
  note ri = register_block_inv [OF this reg]
  show ?case
  proof (cases r1)
    case (Inl e)
    then have "mgr_inv (drop_all ps (return_all bs m1)) H u"
      using ri by (intro drop_all_inv return_all_inv) simp
    then show ?thesis using Cons.prems(2) reg Inl by auto
  next
    case (Inr p)
    have m1: "mgr_inv m1 (mset (ps @ [p]) + H) (length bs + u)" "handle_hash m1 p = Some (hash_of b)"
        "keeps m m1"
      using ri Inr by simp_all
    have "promote bs (ps @ [p]) m1 = (r, m')" using Cons.prems(2) reg Inr by simp
    note ih = Cons.IH [OF m1(1) this]
    show ?thesis
    proof (cases r)
      case (Inl e)
      then show ?thesis using ih by simp
    next
      case (Inr qs)
      then obtain rs where rs: "mgr_inv m' (mset qs + H) u" "keeps m1 m'" "qs = (ps @ [p]) @ rs"
          "map (handle_hash m') rs = map (Some \<circ> hash_of) bs"
        using ih by auto
      then have "handle_hash m' p = Some (hash_of b)" using m1(2) by (simp add: keeps_def)
      then have "qs = ps @ (p # rs)" "map (handle_hash m') (p # rs) = map (Some \<circ> hash_of) (b # bs)"
        using rs(3,4) by simp_all
      then show ?thesis using rs(1) keeps_trans [OF m1(3) rs(2)] Inr by auto
    qed
  qed
qed auto

lemma mgr_match_pool:
  assumes "mgr_inv m H u" "match_token_blocks tbs (pool m) = (bs, pl)"
  shows "mgr_inv (m\<lparr>pool := pl\<rparr>) H (length bs + u)"
    "map hash_of bs = take (length bs) (map tb_sequence_hash tbs)"
proof -
  have c: "conserved (pool m) (card (dom (inners m)) + u)" and ok: "live_ok m H"
    using assms(1) by (simp_all add: mgr_inv_def)
  have mb: "match_blocks (map tb_sequence_hash tbs) (pool m) = (bs, pl)"
    using assms(2) by (simp add: match_token_blocks_def)
  have "conserved pl (card (dom (inners m)) + u + length bs)"
    by (rule conserved_split [OF c match_blocks_inv [OF conservedD(1) [OF c] mb]])
  then show "mgr_inv (m\<lparr>pool := pl\<rparr>) H (length bs + u)"
    using ok live_ok_cong [of "m\<lparr>pool := pl\<rparr>" m] by (simp add: mgr_inv_def ac_simps)
  obtain s1 where "match_loop (map tb_sequence_hash tbs) (pool m) = (bs, s1)"
    using mb by (auto simp: match_blocks_def split: prod.splits)
  then show "map hash_of bs = take (length bs) (map tb_sequence_hash tbs)"
    using match_loop_inv conservedD(1) [OF c] unfolding pool_inv_def by blast
qed

lemma keeps_pool [simp]: "keeps (m\<lparr>pool := pl\<rparr>) m' = keeps m m'"
  by (simp add: keeps_def handle_hash_def)

section \<open>The two phases\<close>

lemma prepare_sequence_inv:
  assumes "mgr_inv m H u" "prepare_prefill_sequence xxh3 toks m = (r, m')"
  shows "case r of Inl e \<Rightarrow> mgr_inv m' H u
     | Inr pm \<Rightarrow> mgr_inv m' (mset (inflight_blocks pm) + H) u \<and> keeps m m' \<and>
         (let bs = fst (split_tokens xxh3 toks (block_size m)) in
          map (handle_hash m') (inflight_blocks pm) @ map (Some \<circ> tb_sequence_hash) (remaining_blocks pm)
            = map (Some \<circ> tb_sequence_hash) bs \<and>
          remaining_blocks pm = drop (length (inflight_blocks pm)) bs \<and>
          tail_block pm = snd (split_tokens xxh3 toks (block_size m)))"
proof -
  obtain blocks tail where sp: "split_tokens xxh3 toks (block_size m) = (blocks, tail)" by fastforce
  obtain ps m1 where ms: "match_sequence_hashes (map tb_sequence_hash blocks) m = (ps, m1)" by fastforce
  obtain bs pl where mb: "match_token_blocks (drop (length ps) blocks) (pool m1) = (bs, pl)" by fastforce
  obtain r2 m2 where pr: "promote bs ps (m1\<lparr>pool := pl\<rparr>) = (r2, m2)" by fastforce
  note i1 = match_sequence_inv [OF assms(1) ms]
  then have "mgr_inv m1 (mset ps + H) u" by blast
  note i2 = mgr_match_pool [OF this mb]
  note i3 = promote_inv [OF i2(1) pr]
  have res: "(r, m') = (case (r2, m2) of (Inl e, m) \<Rightarrow> (Inl e, m)
      | (Inr inflight, m) \<Rightarrow> (Inr \<lparr>inflight_blocks = inflight,
           remaining_blocks = drop (length inflight) blocks, tail_block = tail\<rparr>, m))"
    using assms(2) by (simp add: prepare_prefill_sequence_def sp reserved_match_token_blocks_def ms mb pr)
  show ?thesis
  proof (cases r2)
    case (Inl e)
    then show ?thesis using res i3 by simp
  next
    case (Inr qs)
    then obtain rs where rs: "mgr_inv m2 (mset qs + H) u" "keeps m1 m2" "qs = ps @ rs"
        "map (handle_hash m2) rs = map (Some \<circ> hash_of) bs"
      using i3 by auto
    have len: "length rs = length bs" using rs(4) by (metis length_map)
    have ps: "map (handle_hash m1) ps = map (Some \<circ> tb_sequence_hash) (take (length ps) blocks)"
      using i1 by (simp add: take_map)
    have "handle_hash m2 p = handle_hash m1 p" if "p \<in> set ps" for p
    proof -
      have "handle_hash m1 p \<in> set (map (Some \<circ> tb_sequence_hash) (take (length ps) blocks))"
        unfolding ps [symmetric] using that by simp
      then obtain h where "handle_hash m1 p = Some h" by auto
      then show ?thesis using rs(2) by (simp add: keeps_def)
    qed
    then have "map (handle_hash m2) ps = map (Some \<circ> tb_sequence_hash) (take (length ps) blocks)"
      unfolding ps [symmetric] by (intro map_cong) simp_all
    moreover have "map (handle_hash m2) rs
        = map (Some \<circ> tb_sequence_hash) (take (length rs) (drop (length ps) blocks))"
    proof -
      have "map (Some \<circ> hash_of) bs = map Some (map hash_of bs)" by simp
      then show ?thesis unfolding rs(4) i2(2) len by (simp add: take_map)
    qed
    ultimately have "map (handle_hash m2) qs = map (Some \<circ> tb_sequence_hash) (take (length qs) blocks)"
      by (simp add: rs(3) take_add)
    then have "map (handle_hash m2) qs @ map (Some \<circ> tb_sequence_hash) (drop (length qs) blocks)
        = map (Some \<circ> tb_sequence_hash) blocks"
      by (simp flip: map_append)
    moreover have "keeps m m2" using i1 rs(2) keeps_trans by blast
    ultimately show ?thesis using res Inr rs(1) sp by simp
  qed
qed

lemma pair_blocks_spec:
  "length tbs \<le> length bs \<Longrightarrow> pair_blocks tbs bs
     = (map2 (\<lambda>tb b. b\<lparr>token_block := tb\<rparr>) tbs (rev bs), take (length bs - length tbs) bs)"
proof (induction tbs arbitrary: bs)
  case (Cons tb tbs)
  obtain cs c where bs: "bs = cs @ [c]" using Cons.prems by (cases bs rule: rev_exhaust) auto
  then show ?case using Cons by simp
qed simp

lemma prepare_offload_inv:
  assumes "mgr_inv m (mset (inflight_blocks pm) + H) u"
    and "prepare_prefill_offload pm m = (r, m')" "length (remaining_blocks pm) + 1 < 2 ^ 32"
  shows "case r of
       Inl e \<Rightarrow> mgr_inv m' H u \<and> size (parked (pool m)) \<le> length (remaining_blocks pm)
     | Inr off \<Rightarrow> mgr_inv m' (mset (inflight_blocks pm) + H) (u + length (remaining_blocks pm) + 1) \<and>
         off_inflight_blocks off = inflight_blocks pm \<and>
         map token_block (complete_prefill_blocks off) = remaining_blocks pm \<and>
         tail_token_block off = tail_block pm"
proof -
  let ?n = "length (remaining_blocks pm)"
  have c: "conserved (pool m) (card (dom (inners m)) + u)" and ok: "live_ok m (mset (inflight_blocks pm) + H)"
    using assms(1) by (simp_all add: mgr_inv_def)
  have un: "unat (of_nat ?n + 1 :: u32) = ?n + 1"
  proof -
    have "of_nat ?n + 1 = (of_nat (?n + 1) :: u32)" by simp
    moreover have "unat (of_nat (?n + 1) :: u32) = ?n + 1"
      using assms(3) by (simp only: unat_of_nat) simp
    ultimately show ?thesis by metis
  qed
  obtain bs pl where t: "take_blocks (of_nat ?n + 1) (pool m) = Inr (bs, pl)" "pool_inv pl"
      "parked (pool m) = mset bs + parked pl" "length bs = min (?n + 1) (size (parked (pool m)))"
      "total_blocks pl = total_blocks (pool m)"
    using take_blocks_inv [OF conservedD(1) [OF c], of "of_nat ?n + 1"] unfolding un by blast
  have inv: "mgr_inv (m\<lparr>pool := pl\<rparr>) (mset (inflight_blocks pm) + H) (length bs + u)"
    using conserved_split [OF c t(2,3,5)] ok live_ok_cong [of "m\<lparr>pool := pl\<rparr>" m]
    by (simp add: mgr_inv_def ac_simps)
  show ?thesis
  proof (cases "length bs = ?n + 1")
    case False
    then have "r = Inl (RuntimeError ''kv manager: expected blocks'')"
        "m' = drop_all (inflight_blocks pm) (return_all bs (m\<lparr>pool := pl\<rparr>))"
      using assms(2) t(1) by (simp_all add: prepare_prefill_offload_def Let_def)
    moreover have "size (parked (pool m)) \<le> ?n" using False t(4) by linarith
    ultimately show ?thesis using drop_all_inv [OF return_all_inv [OF inv]] by simp
  next
    case True
    have "pair_blocks (remaining_blocks pm) bs
        = (map2 (\<lambda>tb b. b\<lparr>token_block := tb\<rparr>) (remaining_blocks pm) (rev bs), take 1 bs)"
      using True by (simp add: pair_blocks_spec)
    moreover have "map token_block (map2 (\<lambda>tb b. b\<lparr>token_block := tb\<rparr>) (remaining_blocks pm) (rev bs))
        = remaining_blocks pm"
      using True by (simp add: comp_def case_prod_unfold) (simp add: map_fst_zip_take)
    ultimately show ?thesis using assms(2) t(1) True inv
      by (auto simp: prepare_prefill_offload_def Let_def ac_simps)
  qed
qed

section \<open>Runs of the manager\<close>

text \<open>\<open>mgr_run m H u\<close>: the manager is in state \<open>m\<close> after some sequence of operations by its clients,
  who hold the handles \<open>H\<close> to inflight blocks and \<open>u\<close> exclusive blocks.\<close>

inductive mgr_run :: "KvStorageManager \<Rightarrow> handle multiset \<Rightarrow> nat \<Rightarrow> bool" where
  new: "mgr_run (KvStorageManager_new n) {#} 0"
| seed: "mgr_run m H u \<Longrightarrow> mgr_run (m\<lparr>pool := pool_insert b (pool m)\<rparr>) H u"
| prepared: "mgr_run m H u \<Longrightarrow> prepare_prefill_sequence xxh3 toks m = (Inr pm, m') \<Longrightarrow>
     mgr_run m' (mset (inflight_blocks pm) + H) u"
| prepare_failed: "mgr_run m H u \<Longrightarrow> prepare_prefill_sequence xxh3 toks m = (Inl e, m') \<Longrightarrow>
     mgr_run m' H u"
| offloaded: "mgr_run m (mset (inflight_blocks pm) + H) u \<Longrightarrow>
     length (remaining_blocks pm) + 1 < 2 ^ 32 \<Longrightarrow>
     prepare_prefill_offload pm m = (Inr off, m') \<Longrightarrow>
     mgr_run m' (mset (inflight_blocks pm) + H) (u + length (remaining_blocks pm) + 1)"
| offload_failed: "mgr_run m (mset (inflight_blocks pm) + H) u \<Longrightarrow>
     length (remaining_blocks pm) + 1 < 2 ^ 32 \<Longrightarrow>
     prepare_prefill_offload pm m = (Inl e, m') \<Longrightarrow> mgr_run m' H u"
| dropped: "mgr_run m (add_mset p H) u \<Longrightarrow> mgr_run (drop_handle p m) H u"
| released: "mgr_run m H (Suc u) \<Longrightarrow> mgr_run (to_pool b m) H u"
| registered: "mgr_run m H (Suc u) \<Longrightarrow> register_block (Some b) m = (Inr p, m') \<Longrightarrow>
     mgr_run m' (add_mset p H) u"

lemma mgr_run_inv: "mgr_run m H u \<Longrightarrow> mgr_inv m H u"
proof (induction rule: mgr_run.induct)
  case (new n)
  then show ?case
    using pool_run_conserved [OF pool_run.new]
    by (simp add: mgr_inv_def live_ok_def KvStorageManager_new_def)
next
  case (seed m H u b)
  note c = conservedD [of "pool m" "card (dom (inners m)) + u"]
  have "conserved (pool m) (card (dom (inners m)) + u)" using seed.IH by (simp add: mgr_inv_def)
  then have "conserved (pool_insert b (pool m)) (card (dom (inners m)) + u)"
    using pool_insert_inv [OF c(1), of b] c(2) by (intro conservedI) simp_all
  then show ?case
    using seed.IH live_ok_cong [of "m\<lparr>pool := pool_insert b (pool m)\<rparr>" m] by (simp add: mgr_inv_def)
next
  case (prepared m H u xxh3 toks pm m')
  then show ?case using prepare_sequence_inv [of m H u xxh3 toks "Inr pm" m'] by simp
next
  case (prepare_failed m H u xxh3 toks e m')
  then show ?case using prepare_sequence_inv [of m H u xxh3 toks "Inl e" m'] by simp
next
  case (offloaded m pm H u off m')
  then show ?case using prepare_offload_inv [of m pm H u "Inr off" m'] by simp
next
  case (offload_failed m pm H u e m')
  then show ?case using prepare_offload_inv [of m pm H u "Inl e" m'] by simp
next
  case (registered m H u b p m')
  then show ?case using register_block_inv [of m H u b "Inr p" m'] by simp
qed (simp_all add: drop_handle_inv to_pool_inv)

lemma inflight_count_eq:
  assumes "mgr_inv m H u"
  shows "inflight_count m p = count H p"
proof -
  have ok: "live_ok m H" using assms by (simp add: mgr_inv_def)
  show ?thesis
    using live_okD(2,6) [OF ok, of p] by (cases "inners m p") (simp_all add: inflight_count_def)
qed

text \<open>C11.  No path leaks a block or a handle: at every moment the total number of blocks is the
  number parked plus the live inflight blocks plus the exclusive blocks clients hold; each use
  count is the number of handles; and no two live inflight blocks have the same sequence hash.
  When the clients hold nothing any more, every block is back in the pool and the registry is
  empty.\<close>

theorem manager_no_leak:
  assumes "mgr_run m H u"
  shows "total_blocks (pool m) = available_blocks (pool m) + of_nat (card (dom (inners m)) + u) \<and>
         available_blocks (pool m) = of_nat (size (parked (pool m))) \<and>
         (\<forall>p. inflight_count m p = count H p) \<and>
         (\<forall>p q i j. inners m p = Some i \<longrightarrow> inners m q = Some j \<longrightarrow> in_hash i = in_hash j \<longrightarrow> p = q) \<and>
         (H = {#} \<and> u = 0 \<longrightarrow>
            available_blocks (pool m) = total_blocks (pool m) \<and> (\<forall>h. registry m h = None))"
proof -
  have ok: "live_ok m H" and c: "conserved (pool m) (card (dom (inners m)) + u)"
    using mgr_run_inv [OF assms] by (simp_all add: mgr_inv_def)
  have cnt: "inflight_count m p = count H p" for p
    by (rule inflight_count_eq [OF mgr_run_inv [OF assms]])
  have uniq: "p = q" if "inners m p = Some i" "inners m q = Some j" "in_hash i = in_hash j" for p q i j
    using live_okD(4) [OF ok that(1)] live_okD(4) [OF ok that(2)] that(3) by simp
  have "inners m = (\<lambda>_. None)" if "H = {#}"
    using live_okD(3) [OF ok] that by (auto simp: fun_eq_iff) (metis not_None_eq)
  then have "available_blocks (pool m) = total_blocks (pool m) \<and> (\<forall>h. registry m h = None)"
    if "H = {#}" "u = 0"
    using that c live_okD(7) [OF ok] by (auto simp: conserved_def) (metis not_None_eq option.simps(3))
  then show ?thesis
    using c cnt uniq unfolding conserved_def pool_inv_def counted_def by blast
qed

text \<open>The match phase splits the prompt exactly: the handles it returns are live and refer, in
  order, to the sequence hashes of the first blocks of the prompt; the remaining token blocks are
  the rest, in order; the tail is the partial block.\<close>

lemma prefill_sequence_partition:
  assumes "mgr_run m H u" and "prepare_prefill_sequence xxh3 toks m = (Inr pm, m')"
  shows "map (handle_hash m') (inflight_blocks pm) @ map (Some \<circ> tb_sequence_hash) (remaining_blocks pm)
           = map (Some \<circ> tb_sequence_hash) (fst (split_tokens xxh3 toks (block_size m))) \<and>
         remaining_blocks pm
           = drop (length (inflight_blocks pm)) (fst (split_tokens xxh3 toks (block_size m))) \<and>
         tail_block pm = snd (split_tokens xxh3 toks (block_size m)) \<and>
         (\<forall>p. inflight_count m' p = inflight_count m p + count_list (inflight_blocks pm) p)"
proof -
  note i = prepare_sequence_inv [OF mgr_run_inv [OF assms(1)] assms(2)]
  then have "mgr_inv m' (mset (inflight_blocks pm) + H) u" by simp
  then have "\<forall>p. inflight_count m' p = inflight_count m p + count_list (inflight_blocks pm) p"
    using inflight_count_eq [OF mgr_run_inv [OF assms(1)]]
    by (simp add: inflight_count_eq count_mset)
  then show ?thesis using i unfolding sum.case Let_def by blast
qed

text \<open>C12.  The allocation phase is all or nothing: it fails exactly when the pool has too few
  blocks for the remaining token blocks and the tail, and then the request's handles are
  released and every block taken is back in the pool; when it succeeds, every remaining token
  block has a pool block of its own, in order, and the tail has one more.\<close>

theorem prefill_offload_all_or_nothing:
  assumes "mgr_run m (mset (inflight_blocks pm) + H) u"
    and "prepare_prefill_offload pm m = (r, m')" and "length (remaining_blocks pm) + 1 < 2 ^ 32"
  shows "case r of
       Inl e \<Rightarrow> size (parked (pool m)) \<le> length (remaining_blocks pm) \<and>
               (\<forall>p. inflight_count m' p = count H p) \<and>
               total_blocks (pool m') = available_blocks (pool m') + of_nat (card (dom (inners m')) + u)
     | Inr off \<Rightarrow> map token_block (complete_prefill_blocks off) = remaining_blocks pm \<and>
               off_inflight_blocks off = inflight_blocks pm \<and> tail_token_block off = tail_block pm \<and>
               total_blocks (pool m') = available_blocks (pool m')
                 + of_nat (card (dom (inners m')) + u + length (remaining_blocks pm) + 1)"
proof -
  note i = prepare_offload_inv [OF mgr_run_inv [OF assms(1)] assms(2,3)]
  show ?thesis
  proof (cases r)
    case (Inl e)
    then have "mgr_inv m' H u" using i by simp
    then show ?thesis
      using i Inl inflight_count_eq [of m' H u] by (simp add: mgr_inv_def conserved_def)
  next
    case (Inr off)
    then show ?thesis using i by (simp add: mgr_inv_def conserved_def ac_simps)
  qed
qed

section \<open>A concrete run\<close>

definition toy_hash :: xxh3 where
  "toy_hash b s = of_nat (length b) + s"

definition seeded :: "nat \<Rightarrow> KvStorageManager" where
  "seeded k = ((\<lambda>m. m\<lparr>pool := pool_insert (KvBlock_new TokenBlock_default) (pool m)\<rparr>) ^^ k)
     (KvStorageManager_new 2)"

lemma seeded_run: "mgr_run (seeded k) {#} 0"
  unfolding seeded_def by (induction k) (auto intro: mgr_run.intros)

definition matched_sample :: PrefillMatched where
  "matched_sample = \<lparr>inflight_blocks = [],
     remaining_blocks = [\<lparr>tb_tokens = [1, 2], tb_block_hash = 1345, tb_sequence_hash = 1345,
       tb_parent_sequence_hash = None\<rparr>],
     tail_block = \<lparr>pt_tokens = [3], pt_block_size = 2, pt_parent_sequence_hash = Some 1345\<rparr>\<rparr>"

lemma prepare_sample:
  "prepare_prefill_sequence toy_hash [1, 2, 3] (seeded 3) = (Inr matched_sample, seeded 3)"
  by (simp add: prepare_prefill_sequence_def matched_sample_def split_tokens_def split_step_def
      compute_block_hash_def compute_hash_def token_bytes_def le_bytes_def kXxh3Seed_def
      toy_hash_def seeded_def numeral_3_eq_3 KvStorageManager_new_def pool_insert_def stamp_def
      insert_locked_def KvBlock_new_def TokenBlock_default_def AvailableBlocks_new_def
      reserved_match_token_blocks_def match_token_blocks_def match_blocks_def
      take_with_hash_locked_def Let_def)

lemma prefill_sequence_partition_witness:
  "map (handle_hash (seeded 3)) (inflight_blocks matched_sample)
     @ map (Some \<circ> tb_sequence_hash) (remaining_blocks matched_sample)
   = map (Some \<circ> tb_sequence_hash) (fst (split_tokens toy_hash [1, 2, 3] (block_size (seeded 3))))"
  using prefill_sequence_partition [OF seeded_run prepare_sample] by blast

theorem prefill_offload_all_or_nothing_witness:
  "\<exists>off m'. prepare_prefill_offload matched_sample (seeded 3) = (Inr off, m') \<and>
     map token_block (complete_prefill_blocks off) = remaining_blocks matched_sample \<and>
     total_blocks (pool m') = available_blocks (pool m') + of_nat (card (dom (inners m')) + 2)"
proof -
  have two: "take_loop 2 s = take_loop (Suc (Suc 0)) s" for s by (simp add: numeral_2_eq_2)
  obtain off m' where r: "prepare_prefill_offload matched_sample (seeded 3) = (Inr off, m')"
    by (simp add: two prepare_prefill_offload_def matched_sample_def take_blocks_def take_any_locked_def
        seeded_def numeral_3_eq_3 KvStorageManager_new_def pool_insert_def stamp_def
        insert_locked_def KvBlock_new_def TokenBlock_default_def AvailableBlocks_new_def Let_def)
  have run: "mgr_run (seeded 3) (mset (inflight_blocks matched_sample) + {#}) 0"
    using seeded_run by (simp add: matched_sample_def)
  have len: "length (remaining_blocks matched_sample) + 1 < 2 ^ 32"
    by (simp add: matched_sample_def)
  show ?thesis
    using prefill_offload_all_or_nothing [OF run r len] r
    by (simp add: matched_sample_def numeral_2_eq_2)
qed

theorem manager_no_leak_witness:
  "mgr_run (seeded 3) {#} 0 \<and>
   available_blocks (pool (seeded 3)) = total_blocks (pool (seeded 3)) \<and>
   total_blocks (pool (seeded 3)) = 3"
proof -
  have "total_blocks (pool (seeded 3)) = 3"
    by (simp add: seeded_def numeral_3_eq_3 KvStorageManager_new_def pool_insert_def stamp_def
        insert_locked_def KvBlock_new_def TokenBlock_default_def AvailableBlocks_new_def Let_def)
  then show ?thesis using manager_no_leak [OF seeded_run, of 3] seeded_run by blast
qed

end
