(* ===== verification/Kvmap.thy ===== *)
theory Kvmap
  imports Prelude "HOL-Library.List_Lexorder" "HOL-Library.Char_ord"
begin

text \<open>
  Ordered maps, as \<open>std::map\<close> keeps them: an association list sorted by key; strings are ordered
  by the lexicographic order of bytes.  \<open>om_put\<close> is assignment through \<open>operator[]\<close>, \<open>om_del\<close> is
  \<open>erase\<close>, \<open>om_scan\<close> is the loop over a prefix that starts at \<open>lower_bound\<close> and stops at the
  first key without the prefix.  The main lemma is that this loop visits exactly the keys with the
  prefix.  The second half is the vocabulary of watches: events, the view a consumer builds by
  replaying them, and the interface of a store that emits an event for every change.
\<close>

section \<open>Ordered maps\<close>

fun om_put :: "'k::linorder \<Rightarrow> 'v \<Rightarrow> ('k \<times> 'v) list \<Rightarrow> ('k \<times> 'v) list" where
  "om_put k v [] = [(k, v)]"
| "om_put k v ((k', v') # m) =
     (if k < k' then (k, v) # (k', v') # m
      else if k = k' then (k, v) # m
      else (k', v') # om_put k v m)"

definition om_del :: "'k \<Rightarrow> ('k \<times> 'v) list \<Rightarrow> ('k \<times> 'v) list" where
  "om_del k m = filter (\<lambda>e. fst e \<noteq> k) m"

definition om_scan :: "string \<Rightarrow> (string \<times> 'v) list \<Rightarrow> (string \<times> 'v) list" where
  "om_scan p m = takeWhile (\<lambda>e. prefix p (fst e)) (dropWhile (\<lambda>e. fst e < p) m)"

definition om_ok :: "('k::linorder \<times> 'v) list \<Rightarrow> bool" where
  "om_ok m \<longleftrightarrow> sorted (map fst m) \<and> distinct (map fst m)"

lemma om_ok_Nil [simp]: "om_ok []"
  by (simp add: om_ok_def)

lemma om_ok_Cons [simp]: "om_ok (e # m) \<longleftrightarrow> (\<forall>x \<in> fst ` set m. fst e < x) \<and> om_ok m"
  by (auto simp: om_ok_def less_le)

lemma set_om_put: "fst ` set (om_put k v m) = insert k (fst ` set m)"
  by (induction k v m rule: om_put.induct) auto

lemma om_ok_put [simp]: "om_ok m \<Longrightarrow> om_ok (om_put k v m)"
proof (induction k v m rule: om_put.induct)
  case (2 k v k' v' m)
  then show ?case by (auto simp: set_om_put simp del: image_iff)
qed simp

lemma om_ok_del [simp]: "om_ok m \<Longrightarrow> om_ok (om_del k m)"
  by (simp add: om_ok_def om_del_def sorted_filter distinct_map_filter)

lemma map_of_put: "om_ok m \<Longrightarrow> map_of (om_put k v m) = (map_of m)(k \<mapsto> v)"
proof (induction k v m rule: om_put.induct)
  case (2 k v k' v' m)
  show ?case
  proof (cases "k < k'")
    case True
    then show ?thesis by (simp add: fun_eq_iff)
  next
    case False
    then show ?thesis using 2 by (cases "k = k'") (auto simp: fun_eq_iff)
  qed
qed simp

lemma map_of_del: "map_of (om_del k m) = (map_of m)(k := None)"
  by (induction m) (auto simp: om_del_def fun_eq_iff)

text \<open>Keys with a common prefix are contiguous in the order.\<close>

lemma prefix_le: "prefix p k \<Longrightarrow> p \<le> (k :: string)"
proof (induction p arbitrary: k)
  case (Cons c p)
  then show ?case by (cases k) auto
qed simp

lemma prefix_interval: "p \<le> k \<Longrightarrow> k \<le> k' \<Longrightarrow> prefix p k' \<Longrightarrow> prefix p (k :: string)"
proof (induction p arbitrary: k k')
  case (Cons c p)
  obtain k'' where k': "k' = c # k''" "prefix p k''" using Cons.prems(3) by (cases k') auto
  obtain d ks where k: "k = d # ks" using Cons.prems(1) by (cases k) auto
  have "c = d" "p \<le> ks" "ks \<le> k''" using Cons.prems(1,2) k k' by auto
  then show ?case using Cons.IH k k' by auto
qed simp

lemma takeWhile_prefix:
  fixes m :: "(string \<times> 'v) list"
  assumes "om_ok m" "\<forall>e \<in> set m. p \<le> fst e"
  shows "takeWhile (\<lambda>e. prefix p (fst e)) m = filter (\<lambda>e. prefix p (fst e)) m"
  using assms
proof (induction m)
  case (Cons e m)
  show ?case
  proof (cases "prefix p (fst e)")
    case False
    have "\<not> prefix p (fst x)" if "x \<in> set m" for x
    proof -
      have "fst e \<le> fst x" using Cons.prems(1) that by (auto intro: less_imp_le)
      then show ?thesis using prefix_interval [of p "fst e" "fst x"] Cons.prems(2) False by auto
    qed
    then show ?thesis using False by simp
  qed (use Cons in simp)
qed simp

lemma om_scan_filter:
  assumes "om_ok m"
  shows "om_scan p m = filter (\<lambda>e. prefix p (fst e)) m"
  using assms
proof (induction m)
  case (Cons e m)
  show ?case
  proof (cases "fst e < p")
    case True
    then have "\<not> prefix p (fst e)" using prefix_le [of p "fst e"] by auto
    then show ?thesis using Cons True by (simp add: om_scan_def)
  next
    case False
    have "\<forall>x \<in> set (e # m). p \<le> fst x"
      using Cons.prems False by (auto simp: not_less)
    then have "takeWhile (\<lambda>e. prefix p (fst e)) (e # m) = filter (\<lambda>e. prefix p (fst e)) (e # m)"
      by (rule takeWhile_prefix [OF Cons.prems])
    then show ?thesis using False by (simp add: om_scan_def)
  qed
qed (simp add: om_scan_def)

lemma map_of_scan:
  assumes "om_ok m"
  shows "map_of (om_scan p m) k = (if prefix p k then map_of m k else None)"
  unfolding om_scan_filter [OF assms] by (induction m) auto

section \<open>Events and views\<close>

text \<open>The types of \<^verbatim>\<open>src/discovery/discovery.h\<close>.\<close>

record KeyValue =
  kv_key :: string
  kv_value :: string
  kv_lease_id :: int
  kv_mod_revision :: int

datatype WatchEvent = Put KeyValue | Delete KeyValue

fun ev_kv :: "WatchEvent \<Rightarrow> KeyValue" where
  "ev_kv (Put kv) = kv"
| "ev_kv (Delete kv) = kv"

abbreviation ev_key :: "WatchEvent \<Rightarrow> string" where
  "ev_key e \<equiv> kv_key (ev_kv e)"

type_synonym view = "string \<Rightarrow> KeyValue option"

text \<open>What a consumer believes after an event, and after a list of events.\<close>

fun apply_ev :: "WatchEvent \<Rightarrow> view \<Rightarrow> view" where
  "apply_ev (Put kv) v = v(kv_key kv \<mapsto> kv)"
| "apply_ev (Delete kv) v = v(kv_key kv := None)"

definition replay :: "WatchEvent list \<Rightarrow> view \<Rightarrow> view" where
  "replay es v = fold apply_ev es v"

definition under :: "string \<Rightarrow> view \<Rightarrow> view" where
  "under p v = (\<lambda>k. if prefix p k then v k else None)"

lemma replay_simps [simp]:
  "replay [] v = v"
  "replay (e # es) v = replay es (apply_ev e v)"
  "replay (es @ es') v = replay es' (replay es v)"
  by (simp_all add: replay_def)

lemma under_apply:
  "under p (apply_ev e v) = (if prefix p (ev_key e) then apply_ev e (under p v) else under p v)"
  by (cases e) (auto simp: under_def fun_eq_iff)

lemma under_replay:
  "under p (replay es v) = replay (filter (\<lambda>e. prefix p (ev_key e)) es) (under p v)"
  by (induction es arbitrary: v) (simp_all add: under_apply)

lemma under_idem [simp]: "under p (under p v) = under p v"
  by (auto simp: under_def fun_eq_iff)

text \<open>Every entry of a store names its own key.\<close>

definition keyed :: "(string \<times> KeyValue) list \<Rightarrow> bool" where
  "keyed m \<longleftrightarrow> (\<forall>e \<in> set m. kv_key (snd e) = fst e)"

lemma keyed_put [simp]: "keyed m \<Longrightarrow> kv_key v = k \<Longrightarrow> keyed (om_put k v m)"
  unfolding keyed_def by (induction k v m rule: om_put.induct) auto

lemma keyed_del [simp]: "keyed m \<Longrightarrow> keyed (om_del k m)"
  by (auto simp: keyed_def om_del_def)

lemma keyed_lookup: "keyed m \<Longrightarrow> map_of m k = Some kv \<Longrightarrow> kv_key kv = k"
  unfolding keyed_def by (metis fst_conv map_of_SomeD snd_conv)

text \<open>The snapshot a watch starts with: one put per key under the prefix, in key order.\<close>

definition snapshot :: "string \<Rightarrow> (string \<times> KeyValue) list \<Rightarrow> WatchEvent list" where
  "snapshot p m = map (\<lambda>e. Put (snd e)) (om_scan p m)"

lemma replay_puts:
  assumes "keyed m" "distinct (map fst m)"
  shows "replay (map (\<lambda>e. Put (snd e)) m) v k = (case map_of m k of None \<Rightarrow> v k | Some kv \<Rightarrow> Some kv)"
  using assms
proof (induction m arbitrary: v)
  case (Cons e m)
  then have k: "kv_key (snd e) = fst e" "keyed m" by (simp_all add: keyed_def)
  show ?case
  proof (cases "k = fst e")
    case True
    then have "map_of m k = None" using Cons.prems(2) by (simp add: map_of_eq_None_iff)
    then show ?thesis using Cons.IH [OF k(2)] Cons.prems(2) k(1) True by simp
  next
    case False
    then show ?thesis using Cons.IH [OF k(2)] Cons.prems(2) k(1) by (simp split: option.split)
  qed
qed simp

lemma replay_snapshot:
  assumes "om_ok m" "keyed m"
  shows "replay (snapshot p m) (\<lambda>_. None) = under p (map_of m)"
proof -
  have "keyed (om_scan p m)" "distinct (map fst (om_scan p m))"
    using assms by (auto simp: om_scan_filter keyed_def om_ok_def distinct_map_filter)
  then show ?thesis
    by (auto simp: snapshot_def replay_puts map_of_scan [OF assms(1)] under_def fun_eq_iff
        split: option.split)
qed

section \<open>Sinks\<close>

text \<open>The sending half of a channel: what was sent, and whether the receiver is still there.\<close>

record 'e Sink =
  sk_open :: bool
  sk_sent :: "'e list"

definition sink_new :: "'e Sink" where
  "sink_new = \<lparr>sk_open = True, sk_sent = []\<rparr>"

definition sink_send :: "'e \<Rightarrow> 'e Sink \<Rightarrow> bool \<times> 'e Sink" where
  "sink_send e s = (if sk_open s then (True, s\<lparr>sk_sent := sk_sent s @ [e]\<rparr>) else (False, s))"

record Event =
  ev_subject :: string
  ev_payload :: string

section \<open>Leases and their keys\<close>

text \<open>The book-keeping both stores do: \<open>z\<close> gives the lease of every key (0 for none), \<open>L\<close> the keys of
  every lease.  \<open>rebind_key\<close> is what a write of a key does to \<open>L\<close>.\<close>

definition unbind_key :: "string \<Rightarrow> int \<Rightarrow> (int \<Rightarrow> string list option) \<Rightarrow> int \<Rightarrow> string list option" where
  "unbind_key k i L =
     (if i = 0 then L
      else case L i of None \<Rightarrow> L | Some ks \<Rightarrow> L(i \<mapsto> filter (\<lambda>k'. k' \<noteq> k) ks))"

definition bind_key :: "string \<Rightarrow> int \<Rightarrow> (int \<Rightarrow> string list option) \<Rightarrow> int \<Rightarrow> string list option" where
  "bind_key k i L =
     (if i = 0 then L else L(i \<mapsto> (case L i of None \<Rightarrow> [] | Some ks \<Rightarrow> ks) @ [k]))"

definition rebind_key ::
  "string \<Rightarrow> int option \<Rightarrow> int \<Rightarrow> (int \<Rightarrow> string list option) \<Rightarrow> int \<Rightarrow> string list option" where
  "rebind_key k old new L =
     (case old of
        None \<Rightarrow> bind_key k new L
      | Some i \<Rightarrow> if i \<noteq> new then bind_key k new (unbind_key k i L) else L)"

definition lease_inv :: "(string \<Rightarrow> int option) \<Rightarrow> (int \<Rightarrow> string list option) \<Rightarrow> bool" where
  "lease_inv z L \<longleftrightarrow>
     (\<forall>k i. z k = Some i \<longrightarrow> i \<noteq> 0 \<longrightarrow> (\<exists>ks. L i = Some ks \<and> k \<in> set ks)) \<and>
     (\<forall>i ks. L i = Some ks \<longrightarrow> i \<noteq> 0 \<and> distinct ks \<and> (\<forall>k\<in>set ks. z k = Some i))"

lemma lease_invD:
  assumes "lease_inv z L"
  shows "z k = Some i \<Longrightarrow> i \<noteq> 0 \<Longrightarrow> \<exists>ks. L i = Some ks \<and> k \<in> set ks"
    and "L i = Some ks \<Longrightarrow> i \<noteq> 0"
    and "L i = Some ks \<Longrightarrow> distinct ks"
    and "L i = Some ks \<Longrightarrow> k \<in> set ks \<Longrightarrow> z k = Some i"
  using assms unfolding lease_inv_def by blast+

lemma lease_inv_key_iff:
  assumes "lease_inv z L" "L i = Some ks"
  shows "k \<in> set ks \<longleftrightarrow> z k = Some i"
  using lease_invD [OF assms(1)] assms(2) by fastforce

lemma lease_inv_empty [simp]: "lease_inv (\<lambda>_. None) (\<lambda>_. None)"
  by (simp add: lease_inv_def)

lemma lease_inv_new:
  assumes "lease_inv z L" "L i = None" "i \<noteq> 0"
  shows "lease_inv z (L(i \<mapsto> []))"
  unfolding lease_inv_def
proof (intro conjI allI impI)
  fix k j assume "z k = Some j" "j \<noteq> 0"
  then obtain ks where "L j = Some ks" "k \<in> set ks" using lease_invD(1) [OF assms(1)] by blast
  then show "\<exists>ks. (L(i \<mapsto> [])) j = Some ks \<and> k \<in> set ks" using assms(2) by auto
next
  fix j ks assume "(L(i \<mapsto> [])) j = Some ks"
  then show "j \<noteq> 0" "distinct ks" "\<forall>k\<in>set ks. z k = Some j"
    using lease_invD(2,3,4) [OF assms(1)] assms(3) by (auto split: if_splits)
qed

lemma lease_inv_revoke:
  assumes "lease_inv z L" "L i = Some ks"
  shows "lease_inv (\<lambda>k. if k \<in> set ks then None else z k) (L(i := None))"
  unfolding lease_inv_def
proof (intro conjI allI impI)
  fix k j assume "(if k \<in> set ks then None else z k) = Some j" "j \<noteq> 0"
  then have k: "k \<notin> set ks" "z k = Some j" by (simp_all split: if_splits)
  obtain ks' where ks': "L j = Some ks'" "k \<in> set ks'"
    using lease_invD(1) [OF assms(1) k(2) \<open>j \<noteq> 0\<close>] by blast
  then have "j \<noteq> i" using k(1) assms(2) by auto
  with ks' show "\<exists>ks. (L(i := None)) j = Some ks \<and> k \<in> set ks" by simp
next
  fix j ks' assume "(L(i := None)) j = Some ks'"
  then have j: "j \<noteq> i" "L j = Some ks'" by (simp_all split: if_splits)
  show "j \<noteq> 0" "distinct ks'" using lease_invD(2,3) [OF assms(1) j(2)] by simp_all
  show "\<forall>k\<in>set ks'. (if k \<in> set ks then None else z k) = Some j"
    using lease_invD(4) [OF assms(1) j(2)] lease_invD(4) [OF assms] j(1) by fastforce
qed

lemma lease_inv_untracked:
  assumes "lease_inv z L" "\<And>j ks. L j = Some ks \<Longrightarrow> k \<notin> set ks" "v = None \<or> v = Some 0"
  shows "lease_inv (z(k := v)) L"
  unfolding lease_inv_def
proof (intro conjI allI impI)
  fix k' i assume "(z(k := v)) k' = Some i" "i \<noteq> 0"
  then have "z k' = Some i" using assms(3) by (auto split: if_splits)
  then show "\<exists>ks. L i = Some ks \<and> k' \<in> set ks" using lease_invD(1) [OF assms(1)] \<open>i \<noteq> 0\<close> by blast
next
  fix j ks assume j: "L j = Some ks"
  show "j \<noteq> 0" "distinct ks" using lease_invD(2,3) [OF assms(1) j] by simp_all
  show "\<forall>k'\<in>set ks. (z(k := v)) k' = Some j"
    using lease_invD(4) [OF assms(1) j] assms(2) [OF j] by auto
qed

lemma lease_inv_unbind:
  assumes "lease_inv z L" "z k = Some i"
  shows "lease_inv (z(k := None)) (unbind_key k i L)"
proof -
  note D = lease_invD [OF assms(1)]
  have k: "k \<notin> set ks" if "L j = Some ks" "j \<noteq> i" for j ks
    using D(4) [OF that(1), of k] that(2) assms(2) by auto
  show ?thesis
  proof (cases "i = 0 \<or> L i = None")
    case True
    then have "unbind_key k i L = L" by (auto simp: unbind_key_def)
    moreover have "k \<notin> set ks" if "L j = Some ks" for j ks
      using k [OF that] D(2) [OF that] True that by (cases "j = i") auto
    ultimately show ?thesis by (simp add: lease_inv_untracked [OF assms(1)])
  next
    case False
    then obtain ks where i: "i \<noteq> 0" "L i = Some ks" by auto
    have U: "unbind_key k i L = L(i \<mapsto> filter (\<lambda>k'. k' \<noteq> k) ks)"
      using i by (simp add: unbind_key_def)
    show ?thesis unfolding U lease_inv_def
    proof (intro conjI allI impI)
      fix k' j assume "(z(k := None)) k' = Some j" "j \<noteq> 0"
      then have "k' \<noteq> k" "z k' = Some j" by (simp_all split: if_splits)
      then show "\<exists>ks'. (L(i \<mapsto> filter (\<lambda>k'. k' \<noteq> k) ks)) j = Some ks' \<and> k' \<in> set ks'"
        using D(1) [OF _ \<open>j \<noteq> 0\<close>, of k'] i by (cases "j = i") auto
    next
      fix j ks' assume j: "(L(i \<mapsto> filter (\<lambda>k'. k' \<noteq> k) ks)) j = Some ks'"
      show "j \<noteq> 0" using j i D(2) by (cases "j = i") auto
      show "distinct ks'" using j D(3) i by (cases "j = i") auto
      show "\<forall>k'\<in>set ks'. (z(k := None)) k' = Some j"
        using j D(4) [OF i(2)] D(4) [of j ks'] k [of j ks'] by (cases "j = i") auto
    qed
  qed
qed

lemma lease_inv_bind:
  assumes "lease_inv z L" "z k = None" "i = 0 \<or> L i \<noteq> None"
  shows "lease_inv (z(k \<mapsto> i)) (bind_key k i L)"
proof -
  note D = lease_invD [OF assms(1)]
  have k: "k \<notin> set ks" if "L j = Some ks" for j ks
    using D(4) [OF that, of k] assms(2) by auto
  show ?thesis
  proof (cases "i = 0")
    case True
    then have "bind_key k i L = L" by (simp add: bind_key_def)
    then show ?thesis using True k by (simp add: lease_inv_untracked [OF assms(1)])
  next
    case False
    then obtain ks where i: "L i = Some ks" using assms(3) by auto
    have B: "bind_key k i L = L(i \<mapsto> ks @ [k])" using i False by (simp add: bind_key_def)
    show ?thesis unfolding B lease_inv_def
    proof (intro conjI allI impI)
      fix k' j assume "(z(k \<mapsto> i)) k' = Some j" "j \<noteq> 0"
      then show "\<exists>ks'. (L(i \<mapsto> ks @ [k])) j = Some ks' \<and> k' \<in> set ks'"
        using D(1) [OF _ \<open>j \<noteq> 0\<close>, of k'] i by (cases "j = i"; cases "k' = k") auto
    next
      fix j ks' assume j: "(L(i \<mapsto> ks @ [k])) j = Some ks'"
      show "j \<noteq> 0" using j False D(2) by (cases "j = i") auto
      show "distinct ks'" using j D(3) i k by (cases "j = i") auto
      show "\<forall>k'\<in>set ks'. (z(k \<mapsto> i)) k' = Some j"
        using j D(4) [OF i] D(4) [of j ks'] k [of j ks'] by (cases "j = i") auto
    qed
  qed
qed

lemma lease_inv_rebind:
  assumes "lease_inv z L" "i = 0 \<or> L i \<noteq> None"
  shows "lease_inv (z(k \<mapsto> i)) (rebind_key k (z k) i L)"
proof (cases "z k")
  case None
  then show ?thesis using lease_inv_bind [OF assms(1) None assms(2)] by (simp add: rebind_key_def)
next
  case (Some j)
  show ?thesis
  proof (cases "j = i")
    case True
    then have "z(k \<mapsto> i) = z" using Some by (simp add: fun_upd_idem)
    then show ?thesis using assms(1) Some True by (simp add: rebind_key_def)
  next
    case False
    have "i = 0 \<or> unbind_key k j L i \<noteq> None"
      using assms(2) by (auto simp: unbind_key_def split: option.split)
    from lease_inv_bind [OF lease_inv_unbind [OF assms(1) Some], of k i] this
    show ?thesis using False Some by (simp add: rebind_key_def fun_upd_upd)
  qed
qed

lemma rebind_key_dom:
  "i = 0 \<or> L i \<noteq> None \<Longrightarrow> rebind_key k old i L j = None \<longleftrightarrow> L j = None"
  by (auto simp: rebind_key_def bind_key_def unbind_key_def split: option.split)

section \<open>The interface of a watchable store\<close>

text \<open>A store is watchable when every operation tells, as a list of events, exactly how it changed
  the contents.  Then whoever starts from a snapshot of a prefix and afterwards gets, in order,
  the events under that prefix always sees the current contents.\<close>

fun history ::
  "('op \<Rightarrow> 's \<Rightarrow> 's) \<Rightarrow> ('op \<Rightarrow> 's \<Rightarrow> WatchEvent list) \<Rightarrow> 'op list \<Rightarrow> 's \<Rightarrow> WatchEvent list" where
  "history step emitted [] s = []"
| "history step emitted (op # ops) s = emitted op s @ history step emitted ops (step op s)"

locale watchable =
  fixes step :: "'op \<Rightarrow> 's \<Rightarrow> 's"
    and emitted :: "'op \<Rightarrow> 's \<Rightarrow> WatchEvent list"
    and contents :: "'s \<Rightarrow> (string \<times> KeyValue) list"
    and inv :: "'s \<Rightarrow> bool"
  assumes step_inv: "inv s \<Longrightarrow> inv (step op s)"
    and inv_map: "inv s \<Longrightarrow> om_ok (contents s) \<and> keyed (contents s)"
    and step_emits: "inv s \<Longrightarrow>
          map_of (contents (step op s)) = replay (emitted op s) (map_of (contents s))"
begin

lemma run_inv: "inv s \<Longrightarrow> inv (fold step ops s)"
  by (induction ops arbitrary: s) (simp_all add: step_inv)

lemma run_replay:
  "inv s \<Longrightarrow> map_of (contents (fold step ops s)) = replay (history step emitted ops s) (map_of (contents s))"
  by (induction ops arbitrary: s) (simp_all add: step_inv step_emits)

lemma watcher_in_sync:
  assumes "inv s"
  shows "replay (snapshot p (contents s)
            @ filter (\<lambda>e. prefix p (ev_key e)) (history step emitted ops s)) (\<lambda>_. None)
         = under p (map_of (contents (fold step ops s)))"
  using inv_map [OF assms]
  by (simp add: replay_snapshot run_replay [OF assms] under_replay)

end

end
