(* ===== verification/InProcess.thy ===== *)
theory InProcess
  imports Kvmap
begin

text \<open>
  The in-memory discovery backend: \<open>InProcessDiscovery\<close> and its \<open>Store\<close>, from
  \<^verbatim>\<open>src/discovery/in_process.cpp\<close>.  The store mutex makes every operation atomic.  A sink is the
  sending half of a channel: the model keeps what was sent and whether the receiver is still
  there (a full channel only delays the sender, so capacity does not appear).  Lease tokens belong to
  the runtime; cancelling one is the operation \<open>revoke_lease\<close>.  The lemmas show that keys live
  exactly as long as their lease, that every watcher always sees the current contents of its
  prefix, and that queue dispatch delivers to exactly one live subscriber, in turn.
\<close>

section \<open>The store\<close>

record Watcher =
  wt_prefix :: string
  wt_sink :: nat

record Subscriber =
  sb_subject :: string
  sb_sink :: nat

record Store =
  kvs :: "(string \<times> KeyValue) list"
  revision :: int
  next_lease_id :: int
  leases :: "int \<Rightarrow> string list option"
  watchers :: "Watcher list"
  subscribers :: "Subscriber list"
  queue_cursor :: "string \<Rightarrow> u64"
  watch_sinks :: "nat \<Rightarrow> WatchEvent Sink"
  event_sinks :: "nat \<Rightarrow> Event Sink"
  next_sink :: nat

definition new_store :: Store where
  "new_store = \<lparr>kvs = [], revision = 0, next_lease_id = 1, leases = (\<lambda>_. None), watchers = [],
     subscribers = [], queue_cursor = (\<lambda>_. 0), watch_sinks = (\<lambda>_. sink_new),
     event_sinks = (\<lambda>_. sink_new), next_sink = 0\<rparr>"

definition unbind_lease_locked :: "string \<Rightarrow> int \<Rightarrow> Store \<Rightarrow> Store" where
  "unbind_lease_locked key lease_id s =
     (if lease_id = 0 then s
      else case leases s lease_id of
             None \<Rightarrow> s
           | Some keys \<Rightarrow> s\<lparr>leases := (leases s)(lease_id \<mapsto> filter (\<lambda>k. k \<noteq> key) keys)\<rparr>)"

text \<open>The loop of \<open>notify_locked\<close>: a watcher whose receiver is gone is erased.\<close>

fun notify_loop ::
  "WatchEvent \<Rightarrow> Watcher list \<Rightarrow> (nat \<Rightarrow> WatchEvent Sink)
     \<Rightarrow> Watcher list \<times> (nat \<Rightarrow> WatchEvent Sink)" where
  "notify_loop e [] sinks = ([], sinks)"
| "notify_loop e (w # ws) sinks =
     (if prefix (wt_prefix w) (ev_key e) then
        (case sink_send e (sinks (wt_sink w)) of
           (True, sk) \<Rightarrow>
             (let (ws', sinks') = notify_loop e ws (sinks(wt_sink w := sk)) in (w # ws', sinks'))
         | (False, _) \<Rightarrow> notify_loop e ws sinks)
      else (let (ws', sinks') = notify_loop e ws sinks in (w # ws', sinks')))"

definition notify_locked :: "WatchEvent \<Rightarrow> Store \<Rightarrow> Store" where
  "notify_locked e s =
     (let (ws, sinks) = notify_loop e (watchers s) (watch_sinks s)
      in s\<lparr>watchers := ws, watch_sinks := sinks\<rparr>)"

text \<open>The first loop of \<open>revoke_lease\<close>: the delete events and the remaining contents.\<close>

fun revoke_loop ::
  "string list \<Rightarrow> (string \<times> KeyValue) list \<Rightarrow> WatchEvent list \<times> (string \<times> KeyValue) list" where
  "revoke_loop [] m = ([], m)"
| "revoke_loop (k # ks) m =
     (case map_of m k of
        None \<Rightarrow> revoke_loop ks m
      | Some kv \<Rightarrow> (let (es, m') = revoke_loop ks (om_del k m) in (Delete kv # es, m')))"

definition revoke_lease :: "int \<Rightarrow> Store \<Rightarrow> Store" where
  "revoke_lease lease_id s =
     (case leases s lease_id of
        None \<Rightarrow> s
      | Some keys \<Rightarrow>
          (let (events, m) = revoke_loop keys (kvs s)
           in fold notify_locked events
                (s\<lparr>kvs := m, leases := (leases s)(lease_id := None)\<rparr>)))"

section \<open>Operations\<close>

text \<open>\<open>cancelled\<close> says whether the token is already cancelled when the callback is registered; then
  the callback runs at once, before the lease is entered.\<close>

definition make_lease :: "bool \<Rightarrow> Store \<Rightarrow> int \<times> Store" where
  "make_lease cancelled s =
     (let i = next_lease_id s;
          s = s\<lparr>next_lease_id := i + 1\<rparr>;
          s = (if cancelled then revoke_lease i s else s)
      in (i, s\<lparr>leases := (leases s)(i \<mapsto> [])\<rparr>))"

text \<open>\<open>lease_id.value_or(0)\<close>.\<close>

definition lease_arg :: "int option \<Rightarrow> int" where
  "lease_arg l = (case l of None \<Rightarrow> 0 | Some i \<Rightarrow> i)"

definition kv_create :: "string \<Rightarrow> string \<Rightarrow> int option \<Rightarrow> Store \<Rightarrow> unit res \<times> Store" where
  "kv_create key val lease_id s =
     (if map_of (kvs s) key \<noteq> None
      then (Inl (RuntimeError (''kv_create: key already exists: '' @ key)), s)
      else
        let lid = lease_arg lease_id;
            s = s\<lparr>revision := revision s + 1\<rparr>;
            kv = \<lparr>kv_key = key, kv_value = val, kv_lease_id = lid, kv_mod_revision = revision s\<rparr>
        in if lid \<noteq> 0 \<and> leases s lid = None
           then (Inl (RuntimeError ''kv_create: unknown or expired lease''), s)
           else
             let s = (if lid \<noteq> 0
                      then s\<lparr>leases := (leases s)(lid \<mapsto> the (leases s lid) @ [key])\<rparr> else s)
             in (Inr (), notify_locked (Put kv) (s\<lparr>kvs := om_put key kv (kvs s)\<rparr>)))"

definition bind_lease :: "string \<Rightarrow> int \<Rightarrow> Store \<Rightarrow> Store" where
  "bind_lease key lid s =
     (if lid = 0 then s
      else s\<lparr>leases := (leases s)(lid \<mapsto>
             (case leases s lid of None \<Rightarrow> [] | Some ks \<Rightarrow> ks) @ [key])\<rparr>)"

definition kv_put :: "string \<Rightarrow> string \<Rightarrow> int option \<Rightarrow> Store \<Rightarrow> unit res \<times> Store" where
  "kv_put key val lease_id s =
     (let new_lease = lease_arg lease_id in
      if new_lease \<noteq> 0 \<and> leases s new_lease = None
      then (Inl (RuntimeError ''kv_put: unknown or expired lease''), s)
      else
        let s = (case map_of (kvs s) key of
                   Some old \<Rightarrow>
                     (if kv_lease_id old \<noteq> new_lease
                      then bind_lease key new_lease (unbind_lease_locked key (kv_lease_id old) s)
                      else s)
                 | None \<Rightarrow> bind_lease key new_lease s);
            s = s\<lparr>revision := revision s + 1\<rparr>;
            kv = \<lparr>kv_key = key, kv_value = val, kv_lease_id = new_lease,
                  kv_mod_revision = revision s\<rparr>
        in (Inr (), notify_locked (Put kv) (s\<lparr>kvs := om_put key kv (kvs s)\<rparr>)))"

definition kv_create_or_validate ::
  "string \<Rightarrow> string \<Rightarrow> int option \<Rightarrow> Store \<Rightarrow> unit res \<times> Store" where
  "kv_create_or_validate key val lease_id s =
     (case map_of (kvs s) key of
        Some old \<Rightarrow>
          (if kv_value old = val then (Inr (), s)
           else (Inl (RuntimeError
                   (''kv_create_or_validate: existing value differs for '' @ key)), s))
      | None \<Rightarrow> kv_create key val lease_id s)"

definition kv_get_prefix :: "string \<Rightarrow> Store \<Rightarrow> KeyValue list" where
  "kv_get_prefix p s = map snd (om_scan p (kvs s))"

definition kv_get_and_watch_prefix :: "string \<Rightarrow> Store \<Rightarrow> nat \<times> Store" where
  "kv_get_and_watch_prefix p s =
     (let i = next_sink s;
          sk = fold (\<lambda>kv sk. snd (sink_send (Put kv) sk)) (kv_get_prefix p s) sink_new
      in (i, s\<lparr>next_sink := i + 1, watch_sinks := (watch_sinks s)(i := sk),
               watchers := watchers s @ [\<lparr>wt_prefix = p, wt_sink = i\<rparr>]\<rparr>))"

text \<open>The consumer drops its receiver.\<close>

definition drop_watch :: "nat \<Rightarrow> Store \<Rightarrow> Store" where
  "drop_watch i s = s\<lparr>watch_sinks := (watch_sinks s)(i := (watch_sinks s i)\<lparr>sk_open := False\<rparr>)\<rparr>"

text \<open>\<open>primary_\<close> is read twice, each time under the client mutex, and the lease is made in between: \<open>p\<close>
  is the field at the first look and \<open>p'\<close> at the second.  The results are the lease, the field and
  the store.\<close>

definition primary_lease ::
  "bool \<Rightarrow> int option \<Rightarrow> int option \<Rightarrow> Store \<Rightarrow> int \<times> int option \<times> Store" where
  "primary_lease cancelled p p' s =
     (case p of
        Some l \<Rightarrow> (l, p, s)
      | None \<Rightarrow>
          (let (lease, s) = make_lease cancelled s;
               primary = (case p' of None \<Rightarrow> Some lease | Some _ \<Rightarrow> p')
           in (the primary, primary, s)))"

section \<open>Events and queues\<close>

fun publish_loop ::
  "Event \<Rightarrow> Subscriber list \<Rightarrow> (nat \<Rightarrow> Event Sink) \<Rightarrow> Subscriber list \<times> (nat \<Rightarrow> Event Sink)" where
  "publish_loop e [] sinks = ([], sinks)"
| "publish_loop e (w # ws) sinks =
     (if sb_subject w = ev_subject e then
        (case sink_send e (sinks (sb_sink w)) of
           (True, sk) \<Rightarrow>
             (let (ws', sinks') = publish_loop e ws (sinks(sb_sink w := sk)) in (w # ws', sinks'))
         | (False, _) \<Rightarrow> publish_loop e ws sinks)
      else (let (ws', sinks') = publish_loop e ws sinks in (w # ws', sinks')))"

definition publish :: "string \<Rightarrow> string \<Rightarrow> Store \<Rightarrow> Store" where
  "publish subject payload s =
     (let (ws, sinks) = publish_loop \<lparr>ev_subject = subject, ev_payload = payload\<rparr>
                          (subscribers s) (event_sinks s)
      in s\<lparr>subscribers := ws, event_sinks := sinks\<rparr>)"

definition subscribe :: "string \<Rightarrow> Store \<Rightarrow> nat \<times> Store" where
  "subscribe subject s =
     (let i = next_sink s
      in (i, s\<lparr>next_sink := i + 1, event_sinks := (event_sinks s)(i := sink_new),
               subscribers := subscribers s @ [\<lparr>sb_subject = subject, sb_sink = i\<rparr>]\<rparr>))"

definition drop_subscription :: "nat \<Rightarrow> Store \<Rightarrow> Store" where
  "drop_subscription i s =
     s\<lparr>event_sinks := (event_sinks s)(i := (event_sinks s i)\<lparr>sk_open := False\<rparr>)\<rparr>"

text \<open>The attempts of \<open>queue_dispatch\<close>: \<open>n\<close> more attempts over the members that matched when the
  call began; a member that is gone is erased from the list of subscribers.\<close>

fun dispatch_loop ::
  "Event \<Rightarrow> Subscriber list \<Rightarrow> nat \<Rightarrow> Store \<Rightarrow> bool \<times> Store" where
  "dispatch_loop e matching 0 s = (False, s)"
| "dispatch_loop e matching (Suc n) s =
     (let cursor = queue_cursor s (ev_subject e);
          w = matching ! (unat cursor mod length matching);
          s = s\<lparr>queue_cursor := (queue_cursor s)(ev_subject e := cursor + 1)\<rparr>
      in case sink_send e (event_sinks s (sb_sink w)) of
           (True, sk) \<Rightarrow> (True, s\<lparr>event_sinks := (event_sinks s)(sb_sink w := sk)\<rparr>)
         | (False, _) \<Rightarrow> dispatch_loop e matching n
             (s\<lparr>subscribers := filter (\<lambda>x. sb_sink x \<noteq> sb_sink w) (subscribers s)\<rparr>))"

definition queue_dispatch :: "string \<Rightarrow> string \<Rightarrow> Store \<Rightarrow> unit res \<times> Store" where
  "queue_dispatch subject payload s =
     (let matching = filter (\<lambda>w. sb_subject w = subject) (subscribers s);
          e = \<lparr>ev_subject = subject, ev_payload = payload\<rparr>
      in case dispatch_loop e matching (length matching) s of
           (True, s) \<Rightarrow> (Inr (), s)
         | (False, s) \<Rightarrow> (Inl (RuntimeError (''no responders for queue subject '' @ subject)), s))"

section \<open>Histories\<close>

datatype StoreOp =
    MakeLease bool
  | Revoke int
  | Create string string "int option"
  | Write string string "int option"
  | CreateOrValidate string string "int option"
  | Watch string
  | DropWatch nat
  | Publish string string
  | Subscribe string
  | DropSubscription nat
  | QueueDispatch string string

fun step :: "StoreOp \<Rightarrow> Store \<Rightarrow> Store" where
  "step (MakeLease c) s = snd (make_lease c s)"
| "step (Revoke i) s = revoke_lease i s"
| "step (Create k v l) s = snd (kv_create k v l s)"
| "step (Write k v l) s = snd (kv_put k v l s)"
| "step (CreateOrValidate k v l) s = snd (kv_create_or_validate k v l s)"
| "step (Watch p) s = snd (kv_get_and_watch_prefix p s)"
| "step (DropWatch i) s = drop_watch i s"
| "step (Publish a b) s = publish a b s"
| "step (Subscribe a) s = snd (subscribe a s)"
| "step (DropSubscription i) s = drop_subscription i s"
| "step (QueueDispatch a b) s = snd (queue_dispatch a b s)"

text \<open>The entry a successful write of \<open>key\<close> leaves, as the event the operation announces.\<close>

definition written :: "string \<Rightarrow> Store \<Rightarrow> WatchEvent list" where
  "written key s = map Put (case map_of (kvs s) key of None \<Rightarrow> [] | Some kv \<Rightarrow> [kv])"

fun emitted :: "StoreOp \<Rightarrow> Store \<Rightarrow> WatchEvent list" where
  "emitted (Revoke i) s =
     (case leases s i of None \<Rightarrow> [] | Some keys \<Rightarrow> fst (revoke_loop keys (kvs s)))"
| "emitted (Create k v l) s =
     (if isl (fst (kv_create k v l s)) then [] else written k (snd (kv_create k v l s)))"
| "emitted (Write k v l) s =
     (if isl (fst (kv_put k v l s)) then [] else written k (snd (kv_put k v l s)))"
| "emitted (CreateOrValidate k v l) s =
     (if isl (fst (kv_create_or_validate k v l s)) \<or> map_of (kvs s) k \<noteq> None then []
      else written k (snd (kv_create k v l s)))"
| "emitted _ s = []"

section \<open>The invariant\<close>

definition lease_of :: "(string \<times> KeyValue) list \<Rightarrow> string \<Rightarrow> int option" where
  "lease_of m k = map_option kv_lease_id (map_of m k)"

definition leases_ok :: "Store \<Rightarrow> bool" where
  "leases_ok s \<longleftrightarrow>
     lease_inv (lease_of (kvs s)) (leases s) \<and> (\<forall>i. leases s i \<noteq> None \<longrightarrow> i < next_lease_id s) \<and>
     0 < next_lease_id s"

definition sinks_ok :: "Store \<Rightarrow> bool" where
  "sinks_ok s \<longleftrightarrow>
     distinct (map wt_sink (watchers s)) \<and> distinct (map sb_sink (subscribers s)) \<and>
     (\<forall>w\<in>set (watchers s). wt_sink w < next_sink s) \<and>
     (\<forall>w\<in>set (subscribers s). sb_sink w < next_sink s)"

definition store_ok :: "Store \<Rightarrow> bool" where
  "store_ok s \<longleftrightarrow> om_ok (kvs s) \<and> keyed (kvs s) \<and> leases_ok s \<and> sinks_ok s"

lemma new_store_ok [simp]: "store_ok new_store"
  by (simp add: store_ok_def new_store_def leases_ok_def lease_of_def [abs_def] sinks_ok_def om_ok_def keyed_def)

lemma fresh_lease: "leases_ok s \<Longrightarrow> leases s (next_lease_id s) = None"
  unfolding leases_ok_def by force

lemma store_okD:
  "store_ok s \<Longrightarrow> om_ok (kvs s)" "store_ok s \<Longrightarrow> keyed (kvs s)"
  "store_ok s \<Longrightarrow> leases_ok s" "store_ok s \<Longrightarrow> sinks_ok s"
  by (simp_all add: store_ok_def)

subsection \<open>Notification\<close>

lemma notify_loop_other:
  "i \<notin> wt_sink ` set ws \<Longrightarrow> snd (notify_loop e ws sinks) i = sinks i"
  by (induction e ws sinks rule: notify_loop.induct)
     (auto simp: sink_send_def case_prod_unfold Let_def)

lemma notify_loop_watchers:
  "distinct (map wt_sink ws) \<Longrightarrow>
     fst (notify_loop e ws sinks)
     = filter (\<lambda>w. prefix (wt_prefix w) (ev_key e) \<longrightarrow> sk_open (sinks (wt_sink w))) ws"
proof (induction ws arbitrary: sinks)
  case (Cons w ws)
  have "filter (\<lambda>x. prefix (wt_prefix x) (ev_key e) \<longrightarrow> sk_open ((sinks(wt_sink w := sk)) (wt_sink x))) ws
      = filter (\<lambda>x. prefix (wt_prefix x) (ev_key e) \<longrightarrow> sk_open (sinks (wt_sink x))) ws" for sk
    using Cons.prems by (intro filter_cong) (auto simp: rev_image_eqI)
  with Cons show ?case by (auto simp: sink_send_def case_prod_unfold Let_def)
qed simp

lemma notify_loop_sink:
  "distinct (map wt_sink ws) \<Longrightarrow> w \<in> set ws \<Longrightarrow>
     snd (notify_loop e ws sinks) (wt_sink w)
     = (if prefix (wt_prefix w) (ev_key e) then snd (sink_send e (sinks (wt_sink w)))
        else sinks (wt_sink w))"
proof (induction ws arbitrary: sinks)
  case (Cons v ws)
  have v: "v \<noteq> w \<Longrightarrow> wt_sink v \<noteq> wt_sink w" using Cons.prems by (auto simp: image_iff)
  show ?case
  proof (cases "v = w")
    case True
    then show ?thesis using Cons.prems
      by (auto simp: sink_send_def case_prod_unfold Let_def notify_loop_other)
  next
    case False
    then show ?thesis using Cons v
      by (auto simp: sink_send_def case_prod_unfold Let_def)
  qed
qed simp

lemma notify_locked_simps [simp]:
  "kvs (notify_locked e s) = kvs s"
  "leases (notify_locked e s) = leases s"
  "next_lease_id (notify_locked e s) = next_lease_id s"
  "revision (notify_locked e s) = revision s"
  "subscribers (notify_locked e s) = subscribers s"
  "event_sinks (notify_locked e s) = event_sinks s"
  "queue_cursor (notify_locked e s) = queue_cursor s"
  "next_sink (notify_locked e s) = next_sink s"
  by (simp_all add: notify_locked_def case_prod_unfold Let_def)

lemma fold_notify_simps [simp]:
  "kvs (fold notify_locked es s) = kvs s"
  "leases (fold notify_locked es s) = leases s"
  "next_lease_id (fold notify_locked es s) = next_lease_id s"
  "revision (fold notify_locked es s) = revision s"
  by (induction es arbitrary: s) simp_all

lemma sinks_ok_notify [simp, intro]: "sinks_ok s \<Longrightarrow> sinks_ok (notify_locked e s)"
  unfolding sinks_ok_def
  by (simp add: notify_locked_def case_prod_unfold Let_def notify_loop_watchers
      distinct_map_filter)

lemma sinks_ok_fold_notify [simp, intro]: "sinks_ok s \<Longrightarrow> sinks_ok (fold notify_locked es s)"
  by (induction es arbitrary: s) simp_all

lemma sinks_ok_update [simp]:
  "sinks_ok (s\<lparr>kvs := m\<rparr>) = sinks_ok s"
  "sinks_ok (s\<lparr>leases := L\<rparr>) = sinks_ok s"
  "sinks_ok (s\<lparr>revision := r\<rparr>) = sinks_ok s"
  "sinks_ok (s\<lparr>next_lease_id := i\<rparr>) = sinks_ok s"
  "sinks_ok (s\<lparr>watch_sinks := f\<rparr>) = sinks_ok s"
  by (simp_all add: sinks_ok_def)

subsection \<open>Writes and revocation\<close>

lemma lease_of_put:
  "om_ok m \<Longrightarrow> lease_of (om_put k kv m) = (lease_of m)(k \<mapsto> kv_lease_id kv)"
  by (auto simp: lease_of_def map_of_put fun_eq_iff)

lemma unbind_lease_locked_eq:
  "unbind_lease_locked k i s = s\<lparr>leases := unbind_key k i (leases s)\<rparr>"
  by (simp add: unbind_lease_locked_def unbind_key_def split: option.split)

lemma bind_lease_eq: "bind_lease k i s = s\<lparr>leases := bind_key k i (leases s)\<rparr>"
  by (simp add: bind_lease_def bind_key_def)

text \<open>A write that is not refused, whichever operation it comes from.\<close>

definition commit_write :: "string \<Rightarrow> string \<Rightarrow> int \<Rightarrow> Store \<Rightarrow> Store" where
  "commit_write key val i s =
     (let kv = \<lparr>kv_key = key, kv_value = val, kv_lease_id = i, kv_mod_revision = revision s + 1\<rparr>
      in notify_locked (Put kv)
           (s\<lparr>leases := rebind_key key (lease_of (kvs s) key) i (leases s),
              revision := revision s + 1, kvs := om_put key kv (kvs s)\<rparr>))"

lemma kv_put_eq:
  "kv_put key val l s =
     (let i = lease_arg l in
      if i \<noteq> 0 \<and> leases s i = None
      then (Inl (RuntimeError ''kv_put: unknown or expired lease''), s)
      else (Inr (), commit_write key val i s))"
  by (auto simp: kv_put_def commit_write_def Let_def lease_of_def rebind_key_def
      unbind_lease_locked_eq bind_lease_eq split: option.split)

lemma kv_create_eq:
  "map_of (kvs s) key = None \<Longrightarrow>
   kv_create key val l s =
     (let i = lease_arg l in
      if i \<noteq> 0 \<and> leases s i = None
      then (Inl (RuntimeError ''kv_create: unknown or expired lease''),
            s\<lparr>revision := revision s + 1\<rparr>)
      else (Inr (), commit_write key val i s))"
  by (cases s) (auto simp: kv_create_def commit_write_def Let_def lease_of_def rebind_key_def
      bind_key_def split: option.split)

lemma commit_write_ok:
  assumes s: "store_ok s" and i: "i = 0 \<or> leases s i \<noteq> None"
  shows "store_ok (commit_write key val i s)"
proof -
  have "lease_inv ((lease_of (kvs s))(key \<mapsto> i))
          (rebind_key key (lease_of (kvs s) key) i (leases s))"
    using lease_inv_rebind [of _ "leases s", OF _ i] s by (simp add: store_ok_def leases_ok_def)
  then have "leases_ok (commit_write key val i s)"
    using s rebind_key_dom [of i "leases s", OF i]
    by (simp add: store_ok_def leases_ok_def commit_write_def Let_def lease_of_put)
  moreover have "sinks_ok (commit_write key val i s)"
    using s by (simp add: store_ok_def commit_write_def Let_def)
  ultimately show ?thesis
    using s by (simp add: store_ok_def commit_write_def Let_def)
qed

lemma revoke_loop_map:
  "map_of (snd (revoke_loop ks m)) k = (if k \<in> set ks then None else map_of m k)"
  by (induction ks m rule: revoke_loop.induct)
     (auto simp: case_prod_unfold Let_def map_of_del split: option.splits)

lemma revoke_loop_ok:
  "om_ok m \<Longrightarrow> om_ok (snd (revoke_loop ks m))"
  "keyed m \<Longrightarrow> keyed (snd (revoke_loop ks m))"
  by (induction ks m rule: revoke_loop.induct)
     (auto simp: case_prod_unfold Let_def split: option.splits)

lemma revoke_loop_replay:
  "keyed m \<Longrightarrow> replay (fst (revoke_loop ks m)) (map_of m) = map_of (snd (revoke_loop ks m))"
proof (induction ks m rule: revoke_loop.induct)
  case (2 k ks m)
  then show ?case
    by (auto simp: case_prod_unfold Let_def map_of_del keyed_lookup fun_upd_def split: option.split)
qed simp

lemma revoke_lease_ok:
  assumes s: "store_ok s"
  shows "store_ok (revoke_lease i s)"
proof (cases "leases s i")
  case (Some ks)
  let ?m = "snd (revoke_loop ks (kvs s))"
  have m: "lease_of ?m = (\<lambda>k. if k \<in> set ks then None else lease_of (kvs s) k)"
    by (auto simp: lease_of_def revoke_loop_map)
  have "lease_inv (lease_of ?m) ((leases s)(i := None))"
    unfolding m using lease_inv_revoke [of _ "leases s", OF _ Some] s by (simp add: store_ok_def leases_ok_def)
  moreover have "sinks_ok (s\<lparr>kvs := ?m, leases := (leases s)(i := None)\<rparr>)"
    using s by (simp add: store_ok_def sinks_ok_def)
  ultimately show ?thesis
    using s by (simp add: store_ok_def leases_ok_def revoke_lease_def Some case_prod_unfold Let_def
        revoke_loop_ok)
qed (simp add: revoke_lease_def s)

text \<open>\<open>watching p i log s\<close>: the watch of prefix \<open>p\<close> with sink \<open>i\<close> is registered, its consumer is there, and
  \<open>log\<close> is what it was sent so far.\<close>

definition watching :: "string \<Rightarrow> nat \<Rightarrow> WatchEvent list \<Rightarrow> Store \<Rightarrow> bool" where
  "watching p i log s \<longleftrightarrow>
     \<lparr>wt_prefix = p, wt_sink = i\<rparr> \<in> set (watchers s) \<and> sk_open (watch_sinks s i) \<and>
     sk_sent (watch_sinks s i) = log"

lemma watching_notify:
  assumes "sinks_ok s" "watching p i log s"
  shows "watching p i (log @ filter (\<lambda>e. prefix p (ev_key e)) [e]) (notify_locked e s)"
  using assms notify_loop_sink [of "watchers s" "\<lparr>wt_prefix = p, wt_sink = i\<rparr>" e "watch_sinks s"]
  by (auto simp: watching_def notify_locked_def case_prod_unfold Let_def sinks_ok_def
      notify_loop_watchers sink_send_def)

lemma watching_fold_notify:
  "sinks_ok s \<Longrightarrow> watching p i log s \<Longrightarrow>
     watching p i (log @ filter (\<lambda>e. prefix p (ev_key e)) es) (fold notify_locked es s)"
proof (induction es arbitrary: s log)
  case (Cons e es)
  show ?case
    using Cons.IH [OF sinks_ok_notify [OF Cons.prems(1)] watching_notify [OF Cons.prems], of e]
    by (cases "prefix p (ev_key e)") simp_all
qed simp

subsection \<open>Queue dispatch\<close>

text \<open>The member tried at attempt \<open>i\<close> of a dispatch that starts at cursor \<open>c\<close>.\<close>

definition candidate :: "Subscriber list \<Rightarrow> u64 \<Rightarrow> nat \<Rightarrow> Subscriber" where
  "candidate ms c i = ms ! ((unat c + i) mod length ms)"

definition live :: "Store \<Rightarrow> Subscriber \<Rightarrow> bool" where
  "live s w \<longleftrightarrow> sk_open (event_sinks s (sb_sink w))"

lemma unat_advance: "unat (c :: u64) + n < 2 ^ 64 \<Longrightarrow> unat (c + of_nat n) = unat c + n"
  by (simp add: unat_word_ariths unat_of_nat take_bit_nat_eq_self nat_less_le)

lemma candidate_step:
  "unat c + 1 < 2 ^ 64 \<Longrightarrow> candidate ms (c + 1) i = candidate ms c (Suc i)"
  using unat_advance [of c 1] by (simp add: candidate_def)

lemma dispatch_loop_hit:
  assumes "j < n" "unat (queue_cursor s (ev_subject e)) + j < 2 ^ 64 - 1"
    and "\<forall>i<j. \<not> live s (candidate ms (queue_cursor s (ev_subject e)) i)"
    and "live s (candidate ms (queue_cursor s (ev_subject e)) j)"
  shows "\<exists>t. dispatch_loop e ms n s = (True, t)
          \<and> event_sinks t = (let w = sb_sink (candidate ms (queue_cursor s (ev_subject e)) j) in
              (event_sinks s)(w := (event_sinks s w)\<lparr>sk_sent := sk_sent (event_sinks s w) @ [e]\<rparr>))
          \<and> queue_cursor t = (queue_cursor s)(ev_subject e :=
              queue_cursor s (ev_subject e) + of_nat (Suc j))
          \<and> subscribers t = filter (\<lambda>x. \<forall>i<j. sb_sink x \<noteq>
              sb_sink (candidate ms (queue_cursor s (ev_subject e)) i)) (subscribers s)
          \<and> kvs t = kvs s \<and> leases t = leases s \<and> watchers t = watchers s
          \<and> watch_sinks t = watch_sinks s"
  using assms
proof (induction j arbitrary: n s)
  case 0
  then show ?case
    by (cases n) (auto simp: candidate_def live_def sink_send_def Let_def)
next
  case (Suc j)
  obtain m where n: "n = Suc m" "j < m" using Suc.prems(1) by (cases n) auto
  let ?c = "queue_cursor s (ev_subject e)"
  let ?s = "s\<lparr>queue_cursor := (queue_cursor s)(ev_subject e := ?c + 1),
              subscribers := filter (\<lambda>x. sb_sink x \<noteq> sb_sink (candidate ms ?c 0)) (subscribers s)\<rparr>"
  have c: "candidate ms (?c + 1) i = candidate ms ?c (Suc i)" for i
    using Suc.prems(2) by (intro candidate_step) simp
  have u: "unat (?c + 1) = unat ?c + 1" using unat_advance [of ?c 1] Suc.prems(2) by simp
  have "\<not> live s (candidate ms ?c 0)" using Suc.prems(3) by blast
  then have step: "dispatch_loop e ms n s = dispatch_loop e ms m ?s"
    by (simp add: n(1) live_def candidate_def sink_send_def Let_def)
  have live: "live ?s w = live s w" for w by (simp add: live_def)
  have "unat (queue_cursor ?s (ev_subject e)) + j < 2 ^ 64 - 1"
    "\<forall>i<j. \<not> live ?s (candidate ms (queue_cursor ?s (ev_subject e)) i)"
    "live ?s (candidate ms (queue_cursor ?s (ev_subject e)) j)"
    using Suc.prems(2,3,4) by (simp_all add: c live u)
  note IH = Suc.IH [OF n(2) this]
  have "?c + 1 + of_nat (Suc j) = ?c + of_nat (Suc (Suc j))" by simp
  with IH show ?case
    unfolding step fun_eq_iff
    by (elim exE conjE, intro exI conjI) (auto simp: c All_less_Suc2 Let_def simp del: of_nat_Suc)
qed

lemma dispatch_loop_miss:
  assumes "unat (queue_cursor s (ev_subject e)) + n < 2 ^ 64 - 1"
    and "\<forall>i<n. \<not> live s (candidate ms (queue_cursor s (ev_subject e)) i)"
  shows "\<exists>t. dispatch_loop e ms n s = (False, t) \<and> event_sinks t = event_sinks s
          \<and> subscribers t = filter (\<lambda>x. \<forall>i<n. sb_sink x \<noteq>
              sb_sink (candidate ms (queue_cursor s (ev_subject e)) i)) (subscribers s)"
  using assms
proof (induction n arbitrary: s)
  case (Suc n)
  let ?c = "queue_cursor s (ev_subject e)"
  let ?s = "s\<lparr>queue_cursor := (queue_cursor s)(ev_subject e := ?c + 1),
              subscribers := filter (\<lambda>x. sb_sink x \<noteq> sb_sink (candidate ms ?c 0)) (subscribers s)\<rparr>"
  have c: "candidate ms (?c + 1) i = candidate ms ?c (Suc i)" for i
    using Suc.prems(1) by (intro candidate_step) simp
  have u: "unat (?c + 1) = unat ?c + 1" using unat_advance [of ?c 1] Suc.prems(1) by simp
  have "\<not> live s (candidate ms ?c 0)" using Suc.prems(2) by blast
  then have step: "dispatch_loop e ms (Suc n) s = dispatch_loop e ms n ?s"
    by (simp add: live_def candidate_def sink_send_def Let_def)
  have live: "live ?s w = live s w" for w by (simp add: live_def)
  have "\<exists>t. dispatch_loop e ms n ?s = (False, t) \<and> event_sinks t = event_sinks s
          \<and> subscribers t = filter (\<lambda>x. \<forall>i<n. sb_sink x \<noteq> sb_sink (candidate ms (?c + 1) i))
              (subscribers ?s)"
    using Suc.IH [of ?s] Suc.prems by (simp add: c live u)
  then show ?case
    unfolding step by (auto simp: c All_less_Suc2)
qed simp

text \<open>The subscribers of a subject, and the sinks after one delivery.\<close>

definition members :: "string \<Rightarrow> Store \<Rightarrow> Subscriber list" where
  "members a s = filter (\<lambda>w. sb_subject w = a) (subscribers s)"

definition delivered :: "Event \<Rightarrow> Subscriber \<Rightarrow> (nat \<Rightarrow> Event Sink) \<Rightarrow> nat \<Rightarrow> Event Sink" where
  "delivered e w f =
     f(sb_sink w := (f (sb_sink w))\<lparr>sk_sent := sk_sent (f (sb_sink w)) @ [e]\<rparr>)"

lemma first_index:
  assumes "\<exists>j<n. P (j :: nat)"
  obtains j where "j < n" "P j" "\<forall>i<j. \<not> P i"
proof -
  let ?j = "LEAST j. P j"
  obtain k where k: "k < n" "P k" using assms by blast
  have "P ?j" by (rule LeastI [of P, OF k(2)])
  moreover have "?j < n" using Least_le [of P, OF k(2)] k(1) by (rule le_less_trans)
  moreover have "\<forall>i<?j. \<not> P i" by (intro allI impI not_less_Least)
  ultimately show thesis by (intro that)
qed

lemma cover_mod: "k < n \<Longrightarrow> \<exists>j<n. (u + j) mod n = (k :: nat)"
proof -
  assume k: "k < n"
  let ?j = "(k + (n - u mod n)) mod n"
  have n: "0 < n" using k by simp
  have "(u + ?j) mod n = (u mod n + (k + (n - u mod n))) mod n"
    by (simp add: mod_add_left_eq mod_add_right_eq)
  also have "u mod n + (k + (n - u mod n)) = k + n"
    using mod_less_divisor [OF n, of u] by linarith
  also have "(k + n) mod n = k" using k by simp
  finally have "(u + ?j) mod n = k" .
  moreover have "?j < n" by (rule mod_less_divisor [OF n])
  ultimately show ?thesis by (intro exI [of _ ?j] conjI)
qed

lemma candidate_covers:
  assumes "w \<in> set ms"
  shows "\<exists>j<length ms. candidate ms c j = w"
proof -
  obtain k where k: "k < length ms" "w = ms ! k" using assms by (auto simp: in_set_conv_nth)
  obtain j where j: "j < length ms" "(unat c + j) mod length ms = k" using cover_mod [OF k(1)] by blast
  then show ?thesis using k(2) by (intro exI [of _ j]) (simp add: candidate_def)
qed

lemma queue_dispatch_hit:
  assumes "j < length (members a s)" "unat (queue_cursor s a) + j < 2 ^ 64 - 1"
    and "\<forall>i<j. \<not> live s (candidate (members a s) (queue_cursor s a) i)"
    and "live s (candidate (members a s) (queue_cursor s a) j)"
  shows "\<exists>t. queue_dispatch a b s = (Inr (), t)
          \<and> event_sinks t = delivered \<lparr>ev_subject = a, ev_payload = b\<rparr>
              (candidate (members a s) (queue_cursor s a) j) (event_sinks s)
          \<and> queue_cursor t = (queue_cursor s)(a := queue_cursor s a + of_nat (Suc j))
          \<and> subscribers t = filter (\<lambda>x. \<forall>i<j. sb_sink x \<noteq>
              sb_sink (candidate (members a s) (queue_cursor s a) i)) (subscribers s)"
  using dispatch_loop_hit [OF assms(1), of s "\<lparr>ev_subject = a, ev_payload = b\<rparr>" "members a s"] assms(2-4)
  by (auto simp: queue_dispatch_def members_def delivered_def Let_def)

lemma queue_dispatch_miss:
  assumes "unat (queue_cursor s a) + length (members a s) < 2 ^ 64 - 1"
    and "\<forall>i<length (members a s). \<not> live s (candidate (members a s) (queue_cursor s a) i)"
  shows "\<exists>t. queue_dispatch a b s = (Inl (RuntimeError (''no responders for queue subject '' @ a)), t)
          \<and> event_sinks t = event_sinks s"
  using dispatch_loop_miss [of s "\<lparr>ev_subject = a, ev_payload = b\<rparr>" "length (members a s)" "members a s"]
    assms
  by (auto simp: queue_dispatch_def members_def Let_def)

text \<open>Dispatches in a row.\<close>

definition dispatch_all :: "string \<Rightarrow> string list \<Rightarrow> Store \<Rightarrow> Store" where
  "dispatch_all a ps s = fold (\<lambda>p s. snd (queue_dispatch a p s)) ps s"

lemma queue_dispatch_live:
  assumes "members a s \<noteq> []" "\<forall>w\<in>set (members a s). live s w" "unat (queue_cursor s a) < 2 ^ 64 - 1"
  shows "\<exists>t. queue_dispatch a b s = (Inr (), t)
          \<and> event_sinks t = delivered \<lparr>ev_subject = a, ev_payload = b\<rparr>
              (candidate (members a s) (queue_cursor s a) 0) (event_sinks s)
          \<and> queue_cursor t = (queue_cursor s)(a := queue_cursor s a + 1)
          \<and> subscribers t = subscribers s"
  using queue_dispatch_hit [of 0 a s b] assms by (simp add: candidate_def)

lemma mod_shift_neq:
  assumes "i < n" "j < n" "i \<noteq> j"
  shows "(u + i) mod n \<noteq> (u + j) mod (n :: nat)"
proof
  assume eq: "(u + i) mod n = (u + j) mod n"
  then have "int n dvd int (u + i) - int (u + j)"
    by (metis mod_eq_dvd_iff of_nat_mod)
  then have "int n dvd int i - int j" by simp
  moreover have "\<bar>int i - int j\<bar> < int n" using assms(1,2) by linarith
  ultimately have "int i - int j = 0" using dvd_imp_le_int [of "int i - int j" "int n"] by fastforce
  with assms(3) show False by simp
qed

lemma candidate_inj:
  assumes "distinct (map sb_sink ms)" "i < length ms" "j < length ms" "i \<noteq> j"
  shows "sb_sink (candidate ms c i) \<noteq> sb_sink (candidate ms c j)"
proof -
  have "(unat c + i) mod length ms \<noteq> (unat c + j) mod length ms"
    using assms(2-4) by (rule mod_shift_neq)
  moreover have "(unat c + x) mod length ms < length ms" for x using assms(2) by (intro mod_less_divisor) linarith
  ultimately show ?thesis
    using assms(1) unfolding candidate_def by (simp add: distinct_conv_nth)
qed

lemma candidate_in: "i < length ms \<Longrightarrow> candidate ms c i \<in> set ms"
  unfolding candidate_def by (intro nth_mem mod_less_divisor) linarith

lemma dispatch_all_run:
  assumes d: "distinct (map sb_sink (members a s))" and l: "\<forall>w\<in>set (members a s). live s w"
  shows "length ps \<le> length (members a s) \<Longrightarrow> unat (queue_cursor s a) + length ps < 2 ^ 64 - 1 \<Longrightarrow>
     subscribers (dispatch_all a ps s) = subscribers s
     \<and> queue_cursor (dispatch_all a ps s) a = queue_cursor s a + of_nat (length ps)
     \<and> (\<forall>w. live (dispatch_all a ps s) w = live s w)
     \<and> (\<forall>i<length (members a s).
          sk_sent (event_sinks (dispatch_all a ps s)
            (sb_sink (candidate (members a s) (queue_cursor s a) i)))
          = sk_sent (event_sinks s (sb_sink (candidate (members a s) (queue_cursor s a) i)))
            @ (if i < length ps then [\<lparr>ev_subject = a, ev_payload = ps ! i\<rparr>] else []))"
proof (induction ps rule: rev_induct)
  case (snoc p ps)
  let ?c = "candidate (members a s) (queue_cursor s a)" and ?t = "dispatch_all a ps s"
  have IH: "subscribers ?t = subscribers s" "queue_cursor ?t a = queue_cursor s a + of_nat (length ps)"
    "\<And>w. live ?t w = live s w"
    "\<And>i. i < length (members a s) \<Longrightarrow> sk_sent (event_sinks ?t (sb_sink (?c i)))
          = sk_sent (event_sinks s (sb_sink (?c i)))
            @ (if i < length ps then [\<lparr>ev_subject = a, ev_payload = ps ! i\<rparr>] else [])"
    using snoc by simp_all
  have m: "members a ?t = members a s" by (simp add: members_def IH(1))
  have u: "unat (queue_cursor ?t a) = unat (queue_cursor s a) + length ps"
    unfolding IH(2) using snoc.prems(2) by (intro unat_advance) simp
  have c0: "candidate (members a s) (queue_cursor ?t a) 0 = ?c (length ps)"
    by (simp add: candidate_def u)
  have "members a ?t \<noteq> []" "\<forall>w\<in>set (members a ?t). live ?t w" "unat (queue_cursor ?t a) < 2 ^ 64 - 1"
    using snoc.prems l unfolding m IH(3) u by auto
  from queue_dispatch_live [OF this, of p] obtain t where
    t: "queue_dispatch a p ?t = (Inr (), t)"
    "event_sinks t = delivered \<lparr>ev_subject = a, ev_payload = p\<rparr> (?c (length ps)) (event_sinks ?t)"
    "queue_cursor t = (queue_cursor ?t)(a := queue_cursor ?t a + 1)" "subscribers t = subscribers ?t"
    unfolding m c0 by blast
  have "dispatch_all a (ps @ [p]) s = t" using t(1) by (simp add: dispatch_all_def)
  moreover have "sb_sink (?c i) \<noteq> sb_sink (?c (length ps))"
    if "i < length (members a s)" "i \<noteq> length ps" for i
    using candidate_inj [OF d] that snoc.prems(1) by simp
  ultimately show ?case
    using t(2-4) IH snoc.prems(1) by (simp add: delivered_def live_def nth_append less_Suc_eq)
qed (simp add: dispatch_all_def)

lemma dispatch_all_next:
  assumes "distinct (map sb_sink (members a s))" "\<forall>w\<in>set (members a s). live s w"
    and "length ps < length (members a s)" "unat (queue_cursor s a) + length ps < 2 ^ 64 - 1"
  shows "fst (queue_dispatch a p (dispatch_all a ps s)) = Inr ()"
proof -
  note r = dispatch_all_run [OF assms(1,2) less_imp_le [OF assms(3)] assms(4)]
  have m: "members a (dispatch_all a ps s) = members a s" using r by (simp add: members_def)
  have "unat (queue_cursor (dispatch_all a ps s) a) = unat (queue_cursor s a) + length ps"
    using r assms(4) by (simp add: unat_advance)
  then show ?thesis
    using queue_dispatch_live [of a "dispatch_all a ps s" p] r assms unfolding m by force
qed

section \<open>Every operation keeps the invariant\<close>

lemma subseq_sinks:
  assumes "subseq ws' ws" "distinct (map f ws)" "\<forall>w\<in>set ws. f w < (n::nat)"
  shows "distinct (map f ws')" "\<forall>w\<in>set ws'. f w < n"
proof -
  obtain N where "ws' = nths ws N" using assms(1) by (auto simp: subseq_conv_nths)
  then show "distinct (map f ws')" "\<forall>w\<in>set ws'. f w < n"
    using assms(2,3) by (auto simp: nths_map [symmetric] distinct_nthsI dest: in_set_nthsD)
qed

lemma publish_loop_subseq: "subseq (fst (publish_loop e ws sinks)) ws"
  by (induction ws arbitrary: sinks)
     (auto simp: case_prod_unfold Let_def sink_send_def)

lemma dispatch_loop_subseq: "subseq (subscribers (snd (dispatch_loop e ms n s))) (subscribers s)"
proof (induction n arbitrary: s)
  case (Suc n)
  have "subseq (subscribers (snd (dispatch_loop e ms n t))) (subscribers s)"
    if "subseq (subscribers t) (subscribers s)" for t
    using subseq_order.order_trans [OF Suc that] .
  then show ?case
    by (auto simp: Let_def sink_send_def)
qed simp

lemma dispatch_loop_frame [simp]:
  "kvs (snd (dispatch_loop e ms n s)) = kvs s"
  "leases (snd (dispatch_loop e ms n s)) = leases s"
  "next_lease_id (snd (dispatch_loop e ms n s)) = next_lease_id s"
  "watchers (snd (dispatch_loop e ms n s)) = watchers s"
  "watch_sinks (snd (dispatch_loop e ms n s)) = watch_sinks s"
  "next_sink (snd (dispatch_loop e ms n s)) = next_sink s"
  by (induction n arbitrary: s) (simp_all add: Let_def sink_send_def)

lemma queue_dispatch_state:
  "snd (queue_dispatch a b s) =
     snd (dispatch_loop \<lparr>ev_subject = a, ev_payload = b\<rparr> (filter (\<lambda>w. sb_subject w = a) (subscribers s))
       (length (filter (\<lambda>w. sb_subject w = a) (subscribers s))) s)"
  by (auto simp: queue_dispatch_def Let_def split: prod.split bool.split)

text \<open>Operations that leave the contents and the leases alone.\<close>

definition untouched :: "Store \<Rightarrow> Store \<Rightarrow> bool" where
  "untouched s t \<longleftrightarrow> kvs t = kvs s \<and> leases t = leases s \<and> next_lease_id t = next_lease_id s"

fun quiet :: "StoreOp \<Rightarrow> bool" where
  "quiet (MakeLease c) = False"
| "quiet (Revoke i) = False"
| "quiet (Create k v l) = False"
| "quiet (Write k v l) = False"
| "quiet (CreateOrValidate k v l) = False"
| "quiet _ = True"

lemma quiet_untouched: "quiet op \<Longrightarrow> untouched s (step op s)"
  by (cases op) (simp_all add: untouched_def kv_get_and_watch_prefix_def drop_watch_def publish_def
      subscribe_def drop_subscription_def queue_dispatch_state Let_def case_prod_unfold)

lemma subseq_sinks_ok:
  assumes "sinks_ok s" "subseq (subscribers t) (subscribers s)" "watchers t = watchers s"
    "next_sink t = next_sink s"
  shows "sinks_ok t"
proof -
  have d: "distinct (map sb_sink (subscribers s))" "\<forall>w\<in>set (subscribers s). sb_sink w < next_sink s"
    using assms(1) unfolding sinks_ok_def by blast+
  show ?thesis
    using subseq_sinks [OF assms(2) d] assms(1) unfolding sinks_ok_def assms(3,4) by blast
qed

lemma quiet_sinks_ok: "quiet op \<Longrightarrow> sinks_ok s \<Longrightarrow> sinks_ok (step op s)"
proof (cases op)
  case (Publish a b)
  assume "sinks_ok s"
  then show ?thesis
    by (rule subseq_sinks_ok)
      (simp_all add: Publish publish_def case_prod_unfold Let_def publish_loop_subseq)
next
  case (QueueDispatch a b)
  assume "sinks_ok s"
  then show ?thesis
    by (rule subseq_sinks_ok)
      (simp_all add: QueueDispatch queue_dispatch_state dispatch_loop_subseq)
qed (auto simp: sinks_ok_def kv_get_and_watch_prefix_def drop_watch_def subscribe_def
    drop_subscription_def Let_def)

lemma quiet_store_ok: "quiet op \<Longrightarrow> store_ok s \<Longrightarrow> store_ok (step op s)"
  using quiet_untouched [of op s] quiet_sinks_ok [of op s]
  by (simp add: store_ok_def leases_ok_def untouched_def)

lemma make_lease_state:
  "leases_ok s \<Longrightarrow> make_lease c s =
     (next_lease_id s, s\<lparr>next_lease_id := next_lease_id s + 1,
                        leases := (leases s)(next_lease_id s \<mapsto> [])\<rparr>)"
  by (simp add: make_lease_def revoke_lease_def fresh_lease Let_def)

lemma make_lease_ok:
  assumes "store_ok s"
  shows "store_ok (snd (make_lease c s))"
  using assms lease_inv_new [of _ "leases s" "next_lease_id s"] fresh_lease [of s]
  by (force simp: store_ok_def make_lease_state leases_ok_def)

lemma kv_create_cases:
  obtains (refused) e r where "kv_create k v l s = (Inl e, s\<lparr>revision := r\<rparr>)"
  | (committed) i where "map_of (kvs s) k = None" "i = 0 \<or> leases s i \<noteq> None"
      "i = lease_arg l" "kv_create k v l s = (Inr (), commit_write k v i s)"
proof (cases "map_of (kvs s) k")
  case None
  show thesis
  proof (cases "lease_arg l \<noteq> 0 \<and> leases s (lease_arg l) = None")
    case True
    then have "kv_create k v l s = (Inl (RuntimeError ''kv_create: unknown or expired lease''),
        s\<lparr>revision := revision s + 1\<rparr>)"
      using None by (simp add: kv_create_eq)
    then show thesis by (rule refused)
  next
    case False
    then show thesis using None by (intro committed [of "lease_arg l"]) (auto simp: kv_create_eq)
  qed
next
  case (Some kv)
  then have "kv_create k v l s = (Inl (RuntimeError (''kv_create: key already exists: '' @ k)),
      s\<lparr>revision := revision s\<rparr>)"
    by (simp add: kv_create_def)
  then show thesis by (rule refused)
qed

lemma kv_put_cases:
  obtains (refused) e where "kv_put k v l s = (Inl e, s)"
  | (committed) i where "i = 0 \<or> leases s i \<noteq> None" "i = lease_arg l"
      "kv_put k v l s = (Inr (), commit_write k v i s)"
proof (cases "lease_arg l \<noteq> 0 \<and> leases s (lease_arg l) = None")
  case True
  then have "kv_put k v l s = (Inl (RuntimeError ''kv_put: unknown or expired lease''), s)"
    by (simp add: kv_put_eq)
  then show thesis by (rule refused)
next
  case False
  then show thesis by (intro committed [of "lease_arg l"]) (auto simp: kv_put_eq)
qed

lemma store_ok_revision [simp]: "store_ok (s\<lparr>revision := r\<rparr>) = store_ok s"
  by (simp add: store_ok_def leases_ok_def)

lemma kv_create_ok: "store_ok s \<Longrightarrow> store_ok (snd (kv_create k v l s))"
  by (rule kv_create_cases [of k v l s]) (simp_all add: commit_write_ok)

lemma step_ok: "store_ok s \<Longrightarrow> store_ok (step op s)"
proof (cases "quiet op")
  case False
  assume s: "store_ok s"
  show ?thesis
  proof (cases op)
    case (Write k v l)
    then show ?thesis using s
      by (cases rule: kv_put_cases [of k v l s]) (simp_all add: commit_write_ok)
  qed (use s False in \<open>simp_all add: make_lease_ok revoke_lease_ok kv_create_ok
        kv_create_or_validate_def split: option.split\<close>)
qed (rule quiet_store_ok)

section \<open>Watchers see the store\<close>

lemma kvs_commit_write:
  "kvs (commit_write k v i s) = om_put k \<lparr>kv_key = k, kv_value = v, kv_lease_id = i,
     kv_mod_revision = revision s + 1\<rparr> (kvs s)"
  by (simp add: commit_write_def Let_def)

lemma written_commit:
  "om_ok (kvs s) \<Longrightarrow> written k (commit_write k v i s) =
     [Put \<lparr>kv_key = k, kv_value = v, kv_lease_id = i, kv_mod_revision = revision s + 1\<rparr>]"
  by (simp add: written_def kvs_commit_write map_of_put)

lemma emitted_kv_create:
  assumes "store_ok s"
  shows "map_of (kvs (snd (kv_create k v l s))) = replay (emitted (Create k v l) s) (map_of (kvs s))"
  using store_okD(1) [OF assms]
  by (cases rule: kv_create_cases [of k v l s]) (simp_all add: written_commit kvs_commit_write map_of_put)

lemma emitted_step:
  assumes s: "store_ok s"
  shows "map_of (kvs (step op s)) = replay (emitted op s) (map_of (kvs s))"
proof (cases "quiet op")
  case True
  then show ?thesis using quiet_untouched [OF True, of s] by (cases op) (simp_all add: untouched_def)
next
  case False
  show ?thesis
  proof (cases op)
    case (MakeLease c)
    then show ?thesis using store_okD(3) [OF s] by (simp add: make_lease_state)
  next
    case (Revoke i)
    then show ?thesis using store_okD(2) [OF s]
      by (simp add: revoke_lease_def revoke_loop_replay case_prod_unfold Let_def split: option.split)
  next
    case (Create k v l)
    then show ?thesis using emitted_kv_create [OF s, of k v l] by simp
  next
    case (Write k v l)
    then show ?thesis using store_okD(1) [OF s]
      by (cases rule: kv_put_cases [of k v l s]) (simp_all add: written_commit kvs_commit_write map_of_put)
  next
    case (CreateOrValidate k v l)
    then show ?thesis using emitted_kv_create [OF s, of k v l]
      by (simp add: kv_create_or_validate_def split: option.split)
  qed (use False in simp_all)
qed

interpretation kv_store: watchable step emitted kvs store_ok
  by unfold_locales (simp_all add: step_ok store_okD emitted_step)

lemma watching_update [simp]:
  "watching p i log (s\<lparr>kvs := m\<rparr>) = watching p i log s"
  "watching p i log (s\<lparr>leases := L\<rparr>) = watching p i log s"
  "watching p i log (s\<lparr>revision := r\<rparr>) = watching p i log s"
  "watching p i log (s\<lparr>next_lease_id := n\<rparr>) = watching p i log s"
  by (simp_all add: watching_def)

lemma watching_commit:
  assumes "store_ok s" "watching p i log s"
  shows "watching p i (log @ filter (\<lambda>e. prefix p (ev_key e)) (written k (commit_write k v j s)))
           (commit_write k v j s)"
  unfolding written_commit [OF store_okD(1) [OF assms(1)]] unfolding commit_write_def Let_def
  by (rule watching_notify) (simp_all add: assms store_okD)

lemma watching_quiet:
  assumes "sinks_ok s" "watching p i log s" "quiet op" "op \<noteq> DropWatch i"
  shows "watching p i log (step op s)"
proof -
  have "i < next_sink s" using assms(1,2) by (auto simp: watching_def sinks_ok_def)
  with assms(2-4) show ?thesis
    by (cases op) (auto simp: watching_def kv_get_and_watch_prefix_def drop_watch_def publish_def
        subscribe_def drop_subscription_def queue_dispatch_state Let_def case_prod_unfold)
qed

lemma watching_create:
  assumes "store_ok s" "watching p i log s"
  shows "watching p i (log @ filter (\<lambda>e. prefix p (ev_key e)) (emitted (Create k v l) s))
           (snd (kv_create k v l s))"
  using watching_commit [OF assms] assms(2)
  by (cases rule: kv_create_cases [of k v l s]) simp_all

lemma watching_step:
  assumes s: "store_ok s" "watching p i log s" and op: "op \<noteq> DropWatch i"
  shows "watching p i (log @ filter (\<lambda>e. prefix p (ev_key e)) (emitted op s)) (step op s)"
proof (cases "quiet op")
  case True
  have "emitted op s = []" using True by (cases op) simp_all
  then show ?thesis using watching_quiet [OF store_okD(4) [OF s(1)] s(2) True op] by simp
next
  case False
  show ?thesis
  proof (cases op)
    case (MakeLease c)
    then show ?thesis using s store_okD(3) [OF s(1)] by (simp add: make_lease_state)
  next
    case (Revoke j)
    then show ?thesis using s store_okD(4) [OF s(1)]
      by (auto simp: revoke_lease_def case_prod_unfold Let_def intro!: watching_fold_notify
          split: option.split)
  next
    case (Create k v l)
    then show ?thesis using watching_create [OF s] by simp
  next
    case (Write k v l)
    then show ?thesis using watching_commit [OF s] s(2)
      by (cases rule: kv_put_cases [of k v l s]) simp_all
  next
    case (CreateOrValidate k v l)
    then show ?thesis using watching_create [OF s, of k v l] s(2)
      by (cases "map_of (kvs s) k"; cases "isl (fst (kv_create k v l s))")
        (auto simp: kv_create_or_validate_def)
  qed (use False in simp_all)
qed

lemma watching_run:
  "store_ok s \<Longrightarrow> watching p i log s \<Longrightarrow> DropWatch i \<notin> set ops \<Longrightarrow>
     watching p i (log @ filter (\<lambda>e. prefix p (ev_key e)) (history step emitted ops s))
       (fold step ops s)"
proof (induction ops arbitrary: s log)
  case (Cons op ops)
  have "watching p i (log @ filter (\<lambda>e. prefix p (ev_key e)) (emitted op s)) (step op s)"
    using Cons.prems by (intro watching_step) auto
  from Cons.IH [OF step_ok [OF Cons.prems(1)] this] Cons.prems(3) show ?case by simp
qed simp

lemma fold_sink_send:
  "sk_open sk \<Longrightarrow> fold (\<lambda>kv sk. snd (sink_send (Put kv) sk)) xs sk =
     sk\<lparr>sk_sent := sk_sent sk @ map Put xs\<rparr>"
  by (induction xs arbitrary: sk) (simp_all add: sink_send_def)

lemma watching_start:
  "kv_get_and_watch_prefix p s = (i, t) \<Longrightarrow> watching p i (snapshot p (kvs s)) t \<and> kvs t = kvs s
     \<and> i = next_sink s"
  by (auto simp: kv_get_and_watch_prefix_def Let_def watching_def fold_sink_send sink_new_def
      snapshot_def kv_get_prefix_def comp_def)

lemma reachable_ok: "store_ok (fold step ops new_store)"
  by (rule kv_store.run_inv) simp

text \<open>The shared form of the property on watches, for the clients of a watch.\<close>

lemma watch_replay:
  assumes "kv_get_and_watch_prefix p (fold step ops new_store) = (i, s)"
    and "DropWatch i \<notin> set ops'"
  shows "replay (sk_sent (watch_sinks (fold step ops' s) i)) (\<lambda>_. None)
         = under p (map_of (kvs (fold step ops' s)))"
proof -
  let ?r = "fold step ops new_store"
  have s: "store_ok s" using step_ok [OF reachable_ok, of "Watch p" ops] assms(1) by simp
  have w: "watching p i (snapshot p (kvs ?r)) s" "kvs s = kvs ?r"
    using watching_start [OF assms(1)] by blast+
  have "sk_sent (watch_sinks (fold step ops' s) i)
        = snapshot p (kvs s) @ filter (\<lambda>e. prefix p (ev_key e)) (history step emitted ops' s)"
    using watching_run [OF s w(1) assms(2)] w(2) by (simp add: watching_def)
  then show ?thesis using kv_store.watcher_in_sync [OF s] by simp
qed

section \<open>Properties\<close>

text \<open>C13.  Start a watch of a prefix on any store that operations can lead to.  Whatever
  operations follow, as long as the watcher keeps its stream, the events it was sent rebuild
  exactly the keys the store now has under that prefix: nothing is missed, and nothing is seen
  that is no longer there.\<close>

theorem watch_in_sync:
  assumes "kv_get_and_watch_prefix p (fold step ops new_store) = (i, s)"
    and "DropWatch i \<notin> set ops'"
  shows "replay (sk_sent (watch_sinks (fold step ops' s) i)) (\<lambda>_. None)
         = under p (map_of (kvs (fold step ops' s)))"
  using assms by (rule watch_replay)

theorem watch_in_sync_witness:
  "kv_get_and_watch_prefix ''a'' (fold step [MakeLease False, Create ''ab'' ''1'' (Some 1)] new_store)
     = (0, snd (kv_get_and_watch_prefix ''a''
              (fold step [MakeLease False, Create ''ab'' ''1'' (Some 1)] new_store)))
   \<and> DropWatch 0 \<notin> set [Write ''ac'' ''2'' None, Revoke 1]
   \<and> replay (sk_sent (watch_sinks (fold step [Write ''ac'' ''2'' None, Revoke 1]
         (snd (kv_get_and_watch_prefix ''a''
            (fold step [MakeLease False, Create ''ab'' ''1'' (Some 1)] new_store)))) 0)) (\<lambda>_. None)
       = under ''a'' (map_of (kvs (fold step [Write ''ac'' ''2'' None, Revoke 1]
         (snd (kv_get_and_watch_prefix ''a''
            (fold step [MakeLease False, Create ''ab'' ''1'' (Some 1)] new_store))))))"
proof -
  let ?s = "fold step [MakeLease False, Create ''ab'' ''1'' (Some 1)] new_store"
  have 1: "kv_get_and_watch_prefix ''a'' ?s = (0, snd (kv_get_and_watch_prefix ''a'' ?s))"
    by (simp add: new_store_def make_lease_def kv_create_def lease_arg_def notify_locked_def
        kv_get_and_watch_prefix_def Let_def)
  have 2: "DropWatch 0 \<notin> set [Write ''ac'' ''2'' None, Revoke 1]" by simp
  show ?thesis using 1 2 watch_in_sync [OF 1 2] by blast
qed

text \<open>A lease that was handed out and is gone stays gone: identifiers are not used again.\<close>

definition dead_lease :: "int \<Rightarrow> Store \<Rightarrow> bool" where
  "dead_lease i s \<longleftrightarrow> i \<noteq> 0 \<and> i < next_lease_id s \<and> leases s i = None"

lemma dead_lease_commit:
  "dead_lease i s \<Longrightarrow> j = 0 \<or> leases s j \<noteq> None \<Longrightarrow> dead_lease i (commit_write k v j s)"
  using rebind_key_dom [of j "leases s" k "lease_of (kvs s) k"]
  by (auto simp: dead_lease_def commit_write_def Let_def dom_def)

lemma dead_lease_create: "dead_lease i s \<Longrightarrow> dead_lease i (snd (kv_create k v l s))"
  by (rule kv_create_cases [of k v l s]) (simp_all add: dead_lease_commit, simp add: dead_lease_def)

lemma dead_lease_step:
  assumes s: "store_ok s" and d: "dead_lease i s"
  shows "dead_lease i (step op s)"
proof (cases "quiet op")
  case True
  then show ?thesis using d quiet_untouched [OF True, of s] by (simp add: dead_lease_def untouched_def)
next
  case False
  show ?thesis
  proof (cases op)
    case (MakeLease c)
    then show ?thesis using d store_okD(3) [OF s] by (simp add: make_lease_state dead_lease_def)
  next
    case (Revoke j)
    then show ?thesis using d
      by (simp add: dead_lease_def revoke_lease_def case_prod_unfold Let_def split: option.split)
  next
    case (Write k v l)
    then show ?thesis using d
      by (cases rule: kv_put_cases [of k v l s]) (simp_all add: dead_lease_commit)
  qed (use d False in \<open>simp_all add: dead_lease_create kv_create_or_validate_def split: option.split\<close>)
qed

lemma dead_lease_run: "store_ok s \<Longrightarrow> dead_lease i s \<Longrightarrow> dead_lease i (fold step ops s)"
  by (induction ops arbitrary: s) (simp_all add: step_ok dead_lease_step)

lemma run_ok: "store_ok s \<Longrightarrow> store_ok (fold step ops s)"
  by (induction ops arbitrary: s) (simp_all add: step_ok)

lemma dead_lease_refused:
  assumes "store_ok s" "dead_lease i s"
  shows "\<exists>e. fst (kv_put key val (Some i) s) = Inl e" "\<exists>e. fst (kv_create key val (Some i) s) = Inl e"
    "kv_create_or_validate key val (Some i) s = (Inr (), t) \<Longrightarrow> t = s"
    "map_of (kvs s) key = Some kv \<Longrightarrow> kv_lease_id kv \<noteq> i"
proof -
  show "\<exists>e. fst (kv_put key val (Some i) s) = Inl e"
    using assms(2) by (simp add: kv_put_def lease_arg_def dead_lease_def)
  show c: "\<exists>e. fst (kv_create key val (Some i) s) = Inl e"
    using assms(2) by (simp add: kv_create_def lease_arg_def dead_lease_def Let_def)
  show "t = s" if "kv_create_or_validate key val (Some i) s = (Inr (), t)"
    using that c by (auto simp: kv_create_or_validate_def split: option.splits if_splits)
  have "lease_inv (lease_of (kvs s)) (leases s)"
    using store_okD(3) [OF assms(1)] unfolding leases_ok_def by blast
  from lease_invD(1) [OF this, of key i]
  show "kv_lease_id kv \<noteq> i" if "map_of (kvs s) key = Some kv"
    using that assms(2) by (auto simp: lease_of_def dead_lease_def)
qed

text \<open>C14.  Revoking a lease removes exactly the keys that are bound to it at that moment, wherever
  they came from and whichever leases they were bound to before; all other keys stay as they are.
  A lease that was handed out is gone for good: after any further operations of anybody, no key is
  bound to it, a put and a create under it fail, and a create-or-validate under it fails or finds
  the key there already and changes nothing.\<close>

theorem revoke_removes_exactly:
  assumes "s = fold step ops new_store" and "i \<noteq> 0"
  shows "map_of (kvs (revoke_lease i s))
           = (\<lambda>k. case map_of (kvs s) k of
                    None \<Rightarrow> None
                  | Some kv \<Rightarrow> if kv_lease_id kv = i then None else Some kv)
         \<and> leases (revoke_lease i s) i = None
         \<and> (i < next_lease_id s \<longrightarrow> (\<forall>later key val.
              let t = fold step later (revoke_lease i s) in
                leases t i = None
                \<and> (\<forall>k kv. map_of (kvs t) k = Some kv \<longrightarrow> kv_lease_id kv \<noteq> i)
                \<and> (\<exists>e. fst (kv_put key val (Some i) t) = Inl e)
                \<and> (\<exists>e. fst (kv_create key val (Some i) t) = Inl e)
                \<and> (\<forall>u. kv_create_or_validate key val (Some i) t = (Inr (), u) \<longrightarrow> u = t)))"
proof -
  have ok: "store_ok s" unfolding assms(1) by (rule reachable_ok)
  then have inv: "lease_inv (lease_of (kvs s)) (leases s)"
    using store_okD(3) unfolding leases_ok_def by blast
  have l: "leases (revoke_lease i s) i = None" "next_lease_id (revoke_lease i s) = next_lease_id s"
    by (simp_all add: revoke_lease_def case_prod_unfold Let_def split: option.split)
  have later: "store_ok (fold step later (revoke_lease i s)) \<and> dead_lease i (fold step later (revoke_lease i s))"
    if "i < next_lease_id s" for later
    using that l assms(2) revoke_lease_ok [OF ok, of i] run_ok dead_lease_run by (auto simp: dead_lease_def)
  have "map_of (kvs (revoke_lease i s))
         = (\<lambda>k. case map_of (kvs s) k of
                  None \<Rightarrow> None
                | Some kv \<Rightarrow> if kv_lease_id kv = i then None else Some kv)"
  proof (cases "leases s i")
    case None
    then have "lease_of (kvs s) k \<noteq> Some i" for k
      using lease_invD(1) [OF inv, of k i] assms(2) by auto
    then show ?thesis
      using None by (auto simp: revoke_lease_def lease_of_def fun_eq_iff split: option.split)
  next
    case (Some ks)
    then show ?thesis
      using lease_inv_key_iff [OF inv Some]
      by (auto simp: revoke_lease_def case_prod_unfold Let_def revoke_loop_map lease_of_def
          fun_eq_iff split: option.split)
  qed
  moreover have "leases t i = None \<and> (\<forall>k kv. map_of (kvs t) k = Some kv \<longrightarrow> kv_lease_id kv \<noteq> i)
      \<and> (\<exists>e. fst (kv_put key val (Some i) t) = Inl e) \<and> (\<exists>e. fst (kv_create key val (Some i) t) = Inl e)
      \<and> (\<forall>u. kv_create_or_validate key val (Some i) t = (Inr (), u) \<longrightarrow> u = t)"
    if "store_ok t \<and> dead_lease i t" for t key val
    using that dead_lease_refused(1-3) [of t i key val] dead_lease_refused(4) [of t i] by (auto simp: dead_lease_def)
  ultimately show ?thesis using l(1) later unfolding Let_def by (intro conjI impI allI) blast+
qed

theorem revoke_removes_exactly_witness:
  "\<exists>s. s = fold step [MakeLease False, MakeLease False, Create ''a'' ''x'' (Some 1),
              Create ''b'' ''y'' (Some 2), Write ''a'' ''z'' (Some 2), Create ''c'' ''w'' (Some 1)] new_store
      \<and> (1 :: int) \<noteq> 0
      \<and> map_of (kvs (revoke_lease 1 s)) ''c'' = None
      \<and> map_option kv_value (map_of (kvs (revoke_lease 1 s)) ''a'') = Some ''z''
      \<and> (\<exists>e. fst (kv_create ''d'' ''v'' (Some 1) (step (MakeLease False) (revoke_lease 1 s))) = Inl e)"
proof -
  let ?ops = "[MakeLease False, MakeLease False, Create ''a'' ''x'' (Some 1),
              Create ''b'' ''y'' (Some 2), Write ''a'' ''z'' (Some 2), Create ''c'' ''w'' (Some 1)]"
  note eval = new_store_def make_lease_def kv_create_def kv_put_def lease_arg_def
        notify_locked_def unbind_lease_locked_def bind_lease_def Let_def
  have kvs: "kvs (fold step ?ops new_store) =
      [(''a'', \<lparr>kv_key = ''a'', kv_value = ''z'', kv_lease_id = 2, kv_mod_revision = 3\<rparr>),
       (''b'', \<lparr>kv_key = ''b'', kv_value = ''y'', kv_lease_id = 2, kv_mod_revision = 2\<rparr>),
       (''c'', \<lparr>kv_key = ''c'', kv_value = ''w'', kv_lease_id = 1, kv_mod_revision = 4\<rparr>)]"
    by (simp add: eval)
  have one: "(1 :: int) \<noteq> 0" "1 < next_lease_id (fold step ?ops new_store)"
    by (simp_all add: eval)
  note r = revoke_removes_exactly [OF refl one(1), of ?ops]
  have "map_of (kvs (revoke_lease 1 (fold step ?ops new_store))) ''c'' = None"
    "map_option kv_value (map_of (kvs (revoke_lease 1 (fold step ?ops new_store))) ''a'') = Some ''z''"
    unfolding conjunct1 [OF r] kvs by simp_all
  moreover have "\<exists>e. fst (kv_create ''d'' ''v'' (Some 1)
      (fold step [MakeLease False] (revoke_lease 1 (fold step ?ops new_store)))) = Inl e"
    using conjunct2 [OF conjunct2 [OF r]] one(2) unfolding Let_def by blast
  ultimately show ?thesis using one(1) by auto
qed

text \<open>C15.  A dispatch to a queue goes to exactly one subscriber of the subject: to the first live
  one at or after the round-robin cursor.  Its log alone grows, by the event; the dead members
  tried before it are dropped, all others stay subscribed, and the cursor moves just past it.
  When every member is dead the caller gets the error and nothing was delivered.\<close>

theorem queue_dispatch_exactly_one:
  assumes "unat (queue_cursor s a) + length (members a s) < 2 ^ 64 - 1"
  shows "(\<exists>j < length (members a s). \<exists>t.
            (\<forall>i<j. \<not> live s (candidate (members a s) (queue_cursor s a) i))
            \<and> live s (candidate (members a s) (queue_cursor s a) j)
            \<and> queue_dispatch a b s = (Inr (), t)
            \<and> event_sinks t = delivered \<lparr>ev_subject = a, ev_payload = b\<rparr>
                (candidate (members a s) (queue_cursor s a) j) (event_sinks s)
            \<and> queue_cursor t = (queue_cursor s)(a := queue_cursor s a + of_nat (Suc j))
            \<and> subscribers t = filter (\<lambda>x. \<forall>i<j.
                sb_sink x \<noteq> sb_sink (candidate (members a s) (queue_cursor s a) i)) (subscribers s))
         \<or> (\<forall>w\<in>set (members a s). \<not> live s w)
            \<and> (\<exists>t. queue_dispatch a b s =
                   (Inl (RuntimeError (''no responders for queue subject '' @ a)), t)
                 \<and> event_sinks t = event_sinks s)"
proof (cases "\<exists>j<length (members a s). live s (candidate (members a s) (queue_cursor s a) j)")
  case True
  then obtain j where j: "j < length (members a s)"
    "live s (candidate (members a s) (queue_cursor s a) j)"
    "\<forall>i<j. \<not> live s (candidate (members a s) (queue_cursor s a) i)"
    by (rule first_index)
  have "unat (queue_cursor s a) + j < 2 ^ 64 - 1" using assms j(1) by linarith
  from queue_dispatch_hit [OF j(1) this j(3,2)] show ?thesis using j by blast
next
  case False
  then have "\<not> live s w" if "w \<in> set (members a s)" for w
    using candidate_covers [OF that, of "queue_cursor s a"] by metis
  moreover have "\<forall>i<length (members a s). \<not> live s (candidate (members a s) (queue_cursor s a) i)"
    using False by blast
  ultimately show ?thesis using queue_dispatch_miss [OF assms] by blast
qed

theorem queue_dispatch_exactly_one_witness:
  "\<exists>s. unat (queue_cursor s ''q'') + length (members ''q'' s) < 2 ^ 64 - 1
     \<and> s = fold step [Subscribe ''q'', Subscribe ''q'', DropSubscription 0] new_store
     \<and> (\<exists>t. queue_dispatch ''q'' ''job'' s = (Inr (), t))"
proof -
  let ?s = "fold step [Subscribe ''q'', Subscribe ''q'', DropSubscription 0] new_store"
  have m: "members ''q'' ?s = [\<lparr>sb_subject = ''q'', sb_sink = 0\<rparr>, \<lparr>sb_subject = ''q'', sb_sink = 1\<rparr>]"
    and c: "queue_cursor ?s ''q'' = 0" and l: "live ?s \<lparr>sb_subject = ''q'', sb_sink = 1\<rparr>"
    by (simp_all add: members_def new_store_def subscribe_def drop_subscription_def live_def
        sink_new_def Let_def)
  have 1: "unat (queue_cursor ?s ''q'') + length (members ''q'' ?s) < 2 ^ 64 - 1"
    unfolding m c by simp
  have "\<not> (\<forall>w\<in>set (members ''q'' ?s). \<not> live ?s w)" unfolding m using l by simp
  then show ?thesis using queue_dispatch_exactly_one [OF 1, of "''job''"] 1 by blast
qed

text \<open>C16.  No live subscriber of a queue is starved.  With \<open>n\<close> live subscribers, \<open>n\<close> dispatches in a row
  all succeed and every subscriber gets exactly one of them, in cursor order.\<close>

theorem queue_round_robin:
  assumes "s = fold step ops new_store"
    and "\<forall>w\<in>set (members a s). live s w"
    and "length ps = length (members a s)"
    and "unat (queue_cursor s a) + length ps < 2 ^ 64 - 1"
  shows "(\<forall>i < length ps.
            fst (queue_dispatch a (ps ! i) (dispatch_all a (take i ps) s)) = Inr ()
            \<and> (let w = sb_sink (candidate (members a s) (queue_cursor s a) i) in
                 sk_sent (event_sinks (dispatch_all a ps s) w)
                 = sk_sent (event_sinks s w) @ [\<lparr>ev_subject = a, ev_payload = ps ! i\<rparr>]))
         \<and> set (members a s) = candidate (members a s) (queue_cursor s a) ` {..<length ps}"
proof -
  have d: "distinct (map sb_sink (members a s))"
    using store_okD(4) [OF reachable_ok, of ops] unfolding assms(1) sinks_ok_def members_def
    by (simp add: distinct_map_filter)
  have "set (members a s) = candidate (members a s) (queue_cursor s a) ` {..<length ps}"
    using candidate_covers [of _ "members a s" "queue_cursor s a"] candidate_in [of _ "members a s"]
    unfolding assms(3) by (auto simp: image_iff Bex_def)
  moreover have "fst (queue_dispatch a (ps ! i) (dispatch_all a (take i ps) s)) = Inr ()"
    if "i < length ps" for i
    using dispatch_all_next [OF d assms(2), of "take i ps"] assms(3,4) that by simp
  moreover have "sk_sent (event_sinks (dispatch_all a ps s)
        (sb_sink (candidate (members a s) (queue_cursor s a) i)))
      = sk_sent (event_sinks s (sb_sink (candidate (members a s) (queue_cursor s a) i)))
        @ [\<lparr>ev_subject = a, ev_payload = ps ! i\<rparr>]" if "i < length ps" for i
    using dispatch_all_run [OF d assms(2) _ assms(4)] assms(3) that by simp
  ultimately show ?thesis by (simp add: Let_def)
qed

theorem queue_round_robin_witness:
  "\<exists>s. s = fold step [Subscribe ''q'', Subscribe ''r'', Subscribe ''q''] new_store
     \<and> (\<forall>w\<in>set (members ''q'' s). live s w)
     \<and> length [''x'', ''y''] = length (members ''q'' s)
     \<and> unat (queue_cursor s ''q'') + length [''x'', ''y''] < 2 ^ 64 - 1
     \<and> map ev_payload (sk_sent (event_sinks (dispatch_all ''q'' [''x'', ''y''] s) 2)) = [''y'']"
proof -
  define s where "s = fold step [Subscribe ''q'', Subscribe ''r'', Subscribe ''q''] new_store"
  have m: "members ''q'' s = [\<lparr>sb_subject = ''q'', sb_sink = 0\<rparr>, \<lparr>sb_subject = ''q'', sb_sink = 2\<rparr>]"
    and c: "queue_cursor s ''q'' = 0" and l: "\<forall>w\<in>set (members ''q'' s). live s w"
    and e: "sk_sent (event_sinks s 2) = []"
    by (simp_all add: s_def members_def new_store_def subscribe_def live_def sink_new_def Let_def)
  have p: "length [''x'', ''y''] = length (members ''q'' s)"
    "unat (queue_cursor s ''q'') + length [''x'', ''y''] < 2 ^ 64 - 1"
    unfolding m c by simp_all
  have "candidate (members ''q'' s) (queue_cursor s ''q'') 1 = \<lparr>sb_subject = ''q'', sb_sink = 2\<rparr>"
    unfolding m c by (simp add: candidate_def)
  then have "map ev_payload (sk_sent (event_sinks (dispatch_all ''q'' [''x'', ''y''] s) 2)) = [''y'']"
    using spec [OF conjunct1 [OF queue_round_robin [OF s_def l p]], of 1] e by (simp add: Let_def)
  with l p show ?thesis by (intro exI [of _ s] conjI s_def)
qed

end
