(* ===== verification/Server.thy ===== *)
theory Server
  imports Kvmap
begin

text \<open>
  The discovery server, from \<^verbatim>\<open>src/discovery/server.cpp\<close>: the state every connection shares
  (\<open>DiscoveryServer::State\<close>), the request handler, the end of a connection and the lease sweeper.
  The state mutex makes each of them one step.  Requests and frames are typed: the header is the
  JSON the code builds, field by field, and its text form belongs to the JSON library.  A connection
  is the list of frames written to it and whether its socket still takes writes.  Time is a parameter
  of the steps that read the clock.  The lemmas show that the event log holds the last revisions
  without a gap, and that the answer to a watch request brings any earlier view of a prefix up to
  date, whether it replays the log or sends a snapshot.
\<close>

section \<open>State\<close>

record Entry =
  en_value :: string
  en_lease_id :: int
  en_mod_revision :: int

record LoggedEvent =
  le_rev :: int
  le_is_put :: bool
  le_key :: string
  le_lease_id :: int
  le_value :: string

record LeaseRecord =
  lr_deadline :: int
  lr_ttl :: int
  lr_keys :: "string list"

text \<open>Header fields beyond \<open>reply\<close> and \<open>ok\<close>; an \<open>error\<close> field comes with \<open>ok = false\<close>.\<close>

datatype ReplyBody =
    Done
  | LeaseId int
  | Ttl int
  | Kvs "KeyValue list" int
  | Error string

datatype SyncMode = ReplayMode | SnapshotMode

datatype Frame =
    Reply u64 ReplyBody
  | WatchFrame u64 bool KeyValue
  | SyncFrame u64 SyncMode int
  | EventFrame u64 string string

record Conn =
  cn_open :: bool
  cn_out :: "Frame list"

definition conn_write :: "Frame \<Rightarrow> Conn \<Rightarrow> bool \<times> Conn" where
  "conn_write f c = (if cn_open c then (True, c\<lparr>cn_out := cn_out c @ [f]\<rparr>) else (False, c))"

record SrvWatcher =
  sw_id :: u64
  sw_prefix :: string
  sw_conn :: nat

record SrvSubscriber =
  ss_id :: u64
  ss_subject :: string
  ss_conn :: nat

record State =
  st_kvs :: "(string \<times> Entry) list"
  st_revision :: int
  event_log :: "LoggedEvent list"
  st_leases :: "int \<Rightarrow> LeaseRecord option"
  st_next_lease_id :: int
  st_watchers :: "SrvWatcher list"
  st_subscribers :: "SrvSubscriber list"
  st_queue_cursor :: "string \<Rightarrow> u64"
  conns :: "nat \<Rightarrow> Conn"
  active_conns :: "nat list"
  next_conn_id :: nat

definition new_state :: State where
  "new_state = \<lparr>st_kvs = [], st_revision = 0, event_log = [], st_leases = (\<lambda>_. None),
     st_next_lease_id = 1, st_watchers = [], st_subscribers = [], st_queue_cursor = (\<lambda>_. 0),
     conns = (\<lambda>_. \<lparr>cn_open = False, cn_out = []\<rparr>), active_conns = [], next_conn_id = 0\<rparr>"

definition write_conn :: "nat \<Rightarrow> Frame \<Rightarrow> State \<Rightarrow> bool \<times> State" where
  "write_conn c f s =
     (let (ok, cn) = conn_write f (conns s c) in (ok, s\<lparr>conns := (conns s)(c := cn)\<rparr>))"

definition kEventLogCapacity :: nat where
  "kEventLogCapacity = 4096"

definition log_mutation_locked :: "bool \<Rightarrow> string \<Rightarrow> int \<Rightarrow> string \<Rightarrow> State \<Rightarrow> int \<times> State" where
  "log_mutation_locked is_put key lease_id val s =
     (let rev = st_revision s + 1;
          log = event_log s @ [\<lparr>le_rev = rev, le_is_put = is_put, le_key = key,
                                le_lease_id = lease_id, le_value = val\<rparr>];
          log = (if length log > kEventLogCapacity then tl log else log)
      in (rev, s\<lparr>st_revision := rev, event_log := log\<rparr>))"

definition can_replay_from :: "State \<Rightarrow> int \<Rightarrow> bool" where
  "can_replay_from s from_rev =
     (if from_rev \<ge> st_revision s then True
      else if event_log s = [] then False
      else le_rev (hd (event_log s)) \<le> from_rev + 1)"

fun watcher_loop ::
  "bool \<Rightarrow> KeyValue \<Rightarrow> SrvWatcher list \<Rightarrow> State \<Rightarrow> SrvWatcher list \<times> State" where
  "watcher_loop is_put kv [] s = ([], s)"
| "watcher_loop is_put kv (w # ws) s =
     (if prefix (sw_prefix w) (kv_key kv) then
        (case write_conn (sw_conn w) (WatchFrame (sw_id w) is_put kv) s of
           (True, s) \<Rightarrow> (let (ws, s) = watcher_loop is_put kv ws s in (w # ws, s))
         | (False, s) \<Rightarrow> watcher_loop is_put kv ws s)
      else (let (ws, s) = watcher_loop is_put kv ws s in (w # ws, s)))"

definition mutate_and_notify_locked ::
  "bool \<Rightarrow> string \<Rightarrow> int \<Rightarrow> string \<Rightarrow> State \<Rightarrow> State" where
  "mutate_and_notify_locked is_put key lease_id val s =
     (let (rev, s) = log_mutation_locked is_put key lease_id val s;
          kv = \<lparr>kv_key = key, kv_value = val, kv_lease_id = lease_id, kv_mod_revision = rev\<rparr>;
          (ws, s) = watcher_loop is_put kv (st_watchers s) s
      in s\<lparr>st_watchers := ws\<rparr>)"

definition upd_keys :: "(string list \<Rightarrow> string list) \<Rightarrow> LeaseRecord \<Rightarrow> LeaseRecord" where
  "upd_keys f l = l\<lparr>lr_keys := f (lr_keys l)\<rparr>"

definition srv_unbind_lease_locked :: "string \<Rightarrow> int \<Rightarrow> State \<Rightarrow> State" where
  "srv_unbind_lease_locked key lease_id s =
     (if lease_id = 0 then s
      else case st_leases s lease_id of
             None \<Rightarrow> s
           | Some l \<Rightarrow> s\<lparr>st_leases := (st_leases s)(lease_id \<mapsto> upd_keys (filter (\<lambda>k. k \<noteq> key)) l)\<rparr>)"

fun expire_loop :: "int \<Rightarrow> string list \<Rightarrow> State \<Rightarrow> State" where
  "expire_loop lease_id [] s = s"
| "expire_loop lease_id (key # keys) s =
     expire_loop lease_id keys
       (case map_of (st_kvs s) key of
          None \<Rightarrow> s
        | Some e \<Rightarrow> (let s = mutate_and_notify_locked False key lease_id (en_value e) s
                   in s\<lparr>st_kvs := om_del key (st_kvs s)\<rparr>))"

definition expire_lease_locked :: "int \<Rightarrow> State \<Rightarrow> State" where
  "expire_lease_locked lease_id s =
     (case st_leases s lease_id of
        None \<Rightarrow> s
      | Some l \<Rightarrow> (let s = expire_loop lease_id (lr_keys l) s
                 in s\<lparr>st_leases := (st_leases s)(lease_id := None)\<rparr>))"

section \<open>Requests\<close>

datatype Request =
    CreateLease int
  | Keepalive int
  | RevokeLease int
  | KvCreate string int string
  | KvPut string int string
  | KvCreateOrValidate string int string
  | GetPrefix string
  | WatchPrefix string u64 int
  | Unwatch u64
  | SubscribeTo u64 string
  | Unsubscribe u64
  | PublishTo string string
  | DispatchTo string string
  | UnknownOp string

text \<open>\<open>s.leases[lease_id].keys.push_back(key)\<close> under \<open>if (lease_id != 0)\<close>.  \<open>operator[]\<close> makes a default
  record when there is none, which the callers have excluded.\<close>

definition default_lease :: LeaseRecord where
  "default_lease = \<lparr>lr_deadline = 0, lr_ttl = 10, lr_keys = []\<rparr>"

definition push_key :: "string \<Rightarrow> int \<Rightarrow> State \<Rightarrow> State" where
  "push_key key lease_id s =
     (if lease_id = 0 then s
      else s\<lparr>st_leases := (st_leases s)(lease_id \<mapsto> upd_keys (\<lambda>ks. ks @ [key])
             (case st_leases s lease_id of None \<Rightarrow> default_lease | Some l \<Rightarrow> l))\<rparr>)"

definition lease_missing :: "int \<Rightarrow> State \<Rightarrow> bool" where
  "lease_missing lease_id s \<longleftrightarrow> lease_id \<noteq> 0 \<and> st_leases s lease_id = None"

text \<open>The last two lines of the three writing operations.\<close>

definition store_entry :: "string \<Rightarrow> int \<Rightarrow> string \<Rightarrow> State \<Rightarrow> State" where
  "store_entry key lease_id val s =
     (let s = mutate_and_notify_locked True key lease_id val s
      in s\<lparr>st_kvs := om_put key \<lparr>en_value = val, en_lease_id = lease_id,
                               en_mod_revision = st_revision s\<rparr> (st_kvs s)\<rparr>)"

definition entry_kv :: "string \<times> Entry \<Rightarrow> KeyValue" where
  "entry_kv e = \<lparr>kv_key = fst e, kv_value = en_value (snd e), kv_lease_id = en_lease_id (snd e),
                 kv_mod_revision = en_mod_revision (snd e)\<rparr>"

definition logged_kv :: "LoggedEvent \<Rightarrow> KeyValue" where
  "logged_kv l = \<lparr>kv_key = le_key l, kv_value = le_value l, kv_lease_id = le_lease_id l,
                  kv_mod_revision = le_rev l\<rparr>"

text \<open>What is written in answer to a watch request, before the reply.\<close>

definition watch_frames :: "string \<Rightarrow> u64 \<Rightarrow> int \<Rightarrow> State \<Rightarrow> Frame list" where
  "watch_frames p watch_id from_rev s =
     (if from_rev \<ge> 0 \<and> can_replay_from s from_rev
      then map (\<lambda>l. WatchFrame watch_id (le_is_put l) (logged_kv l))
             (filter (\<lambda>l. \<not> (le_rev l \<le> from_rev \<or> \<not> prefix p (le_key l))) (event_log s))
           @ [SyncFrame watch_id ReplayMode (st_revision s)]
      else map (\<lambda>e. WatchFrame watch_id True (entry_kv e)) (om_scan p (st_kvs s))
           @ [SyncFrame watch_id SnapshotMode (st_revision s)])"

fun srv_publish_loop ::
  "string \<Rightarrow> string \<Rightarrow> SrvSubscriber list \<Rightarrow> State \<Rightarrow> SrvSubscriber list \<times> State" where
  "srv_publish_loop subject data [] s = ([], s)"
| "srv_publish_loop subject data (w # ws) s =
     (if ss_subject w = subject then
        (case write_conn (ss_conn w) (EventFrame (ss_id w) subject data) s of
           (True, s) \<Rightarrow> (let (ws, s) = srv_publish_loop subject data ws s in (w # ws, s))
         | (False, s) \<Rightarrow> srv_publish_loop subject data ws s)
      else (let (ws, s) = srv_publish_loop subject data ws s in (w # ws, s)))"

fun srv_dispatch_loop ::
  "string \<Rightarrow> string \<Rightarrow> SrvSubscriber list \<Rightarrow> nat \<Rightarrow> State \<Rightarrow> bool \<times> State" where
  "srv_dispatch_loop subject data matching 0 s = (False, s)"
| "srv_dispatch_loop subject data matching (Suc n) s =
     (let cursor = st_queue_cursor s subject;
          w = matching ! (unat cursor mod length matching);
          s = s\<lparr>st_queue_cursor := (st_queue_cursor s)(subject := cursor + 1)\<rparr>
      in case write_conn (ss_conn w) (EventFrame (ss_id w) subject data) s of
           (True, s) \<Rightarrow> (True, s)
         | (False, s) \<Rightarrow> srv_dispatch_loop subject data matching n
             (s\<lparr>st_subscribers := remove1 w (st_subscribers s)\<rparr>))"

definition same_watch :: "u64 \<Rightarrow> nat \<Rightarrow> SrvWatcher \<Rightarrow> bool" where
  "same_watch i c w \<longleftrightarrow> sw_id w = i \<and> sw_conn w = c"

definition same_sub :: "u64 \<Rightarrow> nat \<Rightarrow> SrvSubscriber \<Rightarrow> bool" where
  "same_sub i c w \<longleftrightarrow> ss_id w = i \<and> ss_conn w = c"

text \<open>The branches of \<open>handle_request\<close>; \<open>c\<close> is the connection the request came from.\<close>

fun handle_op :: "int \<Rightarrow> nat \<Rightarrow> Request \<Rightarrow> State \<Rightarrow> ReplyBody \<times> State" where
  "handle_op now c (CreateLease ttl) s =
     (let i = st_next_lease_id s
      in (LeaseId i, s\<lparr>st_next_lease_id := i + 1,
                       st_leases := (st_leases s)(i \<mapsto>
                         \<lparr>lr_deadline = now + ttl, lr_ttl = ttl, lr_keys = []\<rparr>)\<rparr>))"
| "handle_op now c (Keepalive i) s =
     (case st_leases s i of
        None \<Rightarrow> (Error ''lease expired or unknown'', s)
      | Some l \<Rightarrow> (Ttl (lr_ttl l),
                   s\<lparr>st_leases := (st_leases s)(i \<mapsto> l\<lparr>lr_deadline := now + lr_ttl l\<rparr>)\<rparr>))"
| "handle_op now c (RevokeLease i) s = (Done, expire_lease_locked i s)"
| "handle_op now c (KvCreate key lease_id data) s =
     (if map_of (st_kvs s) key \<noteq> None then (Error ''key already exists'', s)
      else if lease_missing lease_id s then (Error ''lease expired or unknown'', s)
      else (Done, store_entry key lease_id data (push_key key lease_id s)))"
| "handle_op now c (KvPut key lease_id data) s =
     (if lease_missing lease_id s then (Error ''lease expired or unknown'', s)
      else (Done, store_entry key lease_id data
             (case map_of (st_kvs s) key of
                Some old \<Rightarrow>
                  (if en_lease_id old \<noteq> lease_id
                   then push_key key lease_id (srv_unbind_lease_locked key (en_lease_id old) s)
                   else s)
              | None \<Rightarrow> push_key key lease_id s)))"
| "handle_op now c (KvCreateOrValidate key lease_id data) s =
     (case map_of (st_kvs s) key of
        Some old \<Rightarrow>
          (if en_value old \<noteq> data then (Error ''existing value differs'', s) else (Done, s))
      | None \<Rightarrow>
          (if lease_missing lease_id s then (Error ''lease expired or unknown'', s)
           else (Done, store_entry key lease_id data (push_key key lease_id s))))"
| "handle_op now c (GetPrefix p) s =
     (Kvs (map entry_kv (om_scan p (st_kvs s))) (st_revision s), s)"
| "handle_op now c (WatchPrefix p watch_id from_rev) s =
     (let s = fold (\<lambda>f s. snd (write_conn c f s)) (watch_frames p watch_id from_rev s) s
      in (Done, s\<lparr>st_watchers := filter (\<lambda>w. \<not> same_watch watch_id c w) (st_watchers s)
                   @ [\<lparr>sw_id = watch_id, sw_prefix = p, sw_conn = c\<rparr>]\<rparr>))"
| "handle_op now c (Unwatch watch_id) s =
     (Done, s\<lparr>st_watchers := filter (\<lambda>w. sw_id w \<noteq> watch_id) (st_watchers s)\<rparr>)"
| "handle_op now c (SubscribeTo sub_id subject) s =
     (Done, s\<lparr>st_subscribers := filter (\<lambda>w. \<not> same_sub sub_id c w) (st_subscribers s)
                @ [\<lparr>ss_id = sub_id, ss_subject = subject, ss_conn = c\<rparr>]\<rparr>)"
| "handle_op now c (Unsubscribe sub_id) s =
     (Done, s\<lparr>st_subscribers := filter (\<lambda>w. \<not> same_sub sub_id c w) (st_subscribers s)\<rparr>)"
| "handle_op now c (PublishTo subject data) s =
     (let (ws, s) = srv_publish_loop subject data (st_subscribers s) s
      in (Done, s\<lparr>st_subscribers := ws\<rparr>))"
| "handle_op now c (DispatchTo subject data) s =
     (let matching = filter (\<lambda>w. ss_subject w = subject) (st_subscribers s)
      in case srv_dispatch_loop subject data matching (length matching) s of
           (True, s) \<Rightarrow> (Done, s)
         | (False, s) \<Rightarrow> (Error (''no responders for queue subject '' @ subject), s))"
| "handle_op now c (UnknownOp op) s = (Error (''unknown op: '' @ op), s)"

definition handle_request :: "int \<Rightarrow> nat \<Rightarrow> u64 \<Rightarrow> Request \<Rightarrow> State \<Rightarrow> State" where
  "handle_request now c req_id req s =
     (let (body, s) = handle_op now c req s in snd (write_conn c (Reply req_id body) s))"

section \<open>Connections and the sweeper\<close>

definition accept_conn :: "State \<Rightarrow> nat \<times> State" where
  "accept_conn s =
     (let i = next_conn_id s
      in (i, s\<lparr>next_conn_id := i + 1, conns := (conns s)(i := \<lparr>cn_open = True, cn_out = []\<rparr>),
               active_conns := i # active_conns s\<rparr>))"

text \<open>The peer is gone: writes fail from now on.\<close>

definition break_conn :: "nat \<Rightarrow> State \<Rightarrow> State" where
  "break_conn c s = s\<lparr>conns := (conns s)(c := (conns s c)\<lparr>cn_open := False\<rparr>)\<rparr>"

definition end_conn :: "nat \<Rightarrow> State \<Rightarrow> State" where
  "end_conn c s =
     s\<lparr>st_watchers := filter (\<lambda>w. sw_conn w \<noteq> c) (st_watchers s),
       st_subscribers := filter (\<lambda>w. ss_conn w \<noteq> c) (st_subscribers s),
       active_conns := remove1 c (active_conns s)\<rparr>"

text \<open>One round of the sweeper.  \<open>ids\<close> lists the lease ids in the order of the table.\<close>

definition sweep :: "int \<Rightarrow> int list \<Rightarrow> State \<Rightarrow> State" where
  "sweep now ids s =
     fold expire_lease_locked
       (filter (\<lambda>i. case st_leases s i of None \<Rightarrow> False | Some l \<Rightarrow> lr_deadline l \<le> now) ids) s"

section \<open>Histories\<close>

datatype SrvOp =
    Handle int nat u64 Request
  | Accept
  | Break nat
  | End nat
  | Sweep int "int list"

fun srv_step :: "SrvOp \<Rightarrow> State \<Rightarrow> State" where
  "srv_step (Handle now c r req) s = handle_request now c r req s"
| "srv_step Accept s = snd (accept_conn s)"
| "srv_step (Break c) s = break_conn c s"
| "srv_step (End c) s = end_conn c s"
| "srv_step (Sweep now ids) s = sweep now ids s"

definition contents :: "State \<Rightarrow> (string \<times> KeyValue) list" where
  "contents s = map (\<lambda>e. (fst e, entry_kv e)) (st_kvs s)"

definition srv_view :: "State \<Rightarrow> view" where
  "srv_view s = map_of (contents s)"

lemma srv_view_eq: "srv_view s k = map_option (\<lambda>e. entry_kv (k, e)) (map_of (st_kvs s) k)"
proof -
  have "map_of (map (\<lambda>e. (fst e, entry_kv e)) m) k = map_option (\<lambda>e. entry_kv (k, e)) (map_of m k)" for m
    by (induction m) auto
  then show ?thesis by (simp add: srv_view_def contents_def)
qed

fun le_event :: "LoggedEvent \<Rightarrow> WatchEvent" where
  "le_event l = (if le_is_put l then Put (logged_kv l) else Delete (logged_kv l))"

lemma le_event_key [simp]: "ev_key (le_event l) = le_key l"
  by (simp add: logged_kv_def)

declare le_event.simps [simp del]

text \<open>The last \<open>n\<close> elements.\<close>

definition lastn :: "nat \<Rightarrow> 'a list \<Rightarrow> 'a list" where
  "lastn n xs = drop (length xs - n) xs"

lemma lastn_append_lastn: "lastn n (lastn n xs @ ys) = lastn n (xs @ ys)"
proof (cases "length ys \<le> n")
  case True
  then show ?thesis by (cases "length xs \<le> n") (simp_all add: lastn_def add.commute)
next
  case False
  then show ?thesis by (cases "length xs \<le> n") (simp_all add: lastn_def)
qed

lemma lastn_id: "length xs \<le> n \<Longrightarrow> lastn n xs = xs"
  by (simp add: lastn_def)

lemma lastn_snoc:
  assumes "length xs \<le> n"
  shows "lastn n (xs @ [x]) = (if n < length (xs @ [x]) then tl (xs @ [x]) else xs @ [x])"
proof (cases "length xs = n")
  case True
  then show ?thesis by (simp add: lastn_def drop_Suc del: drop_append)
qed (use assms in \<open>simp add: lastn_def\<close>)

text \<open>\<open>advances s es t\<close>: \<open>t\<close> comes after \<open>s\<close> with the mutations \<open>es\<close>, which got the next revisions, went into
  the log, and account for the difference in contents.\<close>

definition advances :: "State \<Rightarrow> LoggedEvent list \<Rightarrow> State \<Rightarrow> bool" where
  "advances s es t \<longleftrightarrow>
     st_revision t = st_revision s + int (length es) \<and>
     (\<forall>i<length es. le_rev (es ! i) = st_revision s + 1 + int i) \<and>
     event_log t = lastn kEventLogCapacity (event_log s @ es) \<and>
     srv_view t = replay (map le_event es) (srv_view s)"

lemma advancesD:
  assumes "advances s es t"
  shows "st_revision t = st_revision s + int (length es)"
    and "i < length es \<Longrightarrow> le_rev (es ! i) = st_revision s + 1 + int i"
    and "event_log t = lastn kEventLogCapacity (event_log s @ es)"
    and "srv_view t = replay (map le_event es) (srv_view s)"
  using assms unfolding advances_def by blast+

lemma advances_trans:
  assumes "advances s es t" "advances t es' u"
  shows "advances s (es @ es') u"
  unfolding advances_def
proof (intro conjI allI impI)
  show "st_revision u = st_revision s + int (length (es @ es'))"
    using advancesD(1) [OF assms(1)] advancesD(1) [OF assms(2)] by simp
  show "event_log u = lastn kEventLogCapacity (event_log s @ es @ es')"
    using advancesD(3) [OF assms(1)] advancesD(3) [OF assms(2)] by (simp add: lastn_append_lastn)
  show "srv_view u = replay (map le_event (es @ es')) (srv_view s)"
    using advancesD(4) [OF assms(1)] advancesD(4) [OF assms(2)] by simp
  fix i assume i: "i < length (es @ es')"
  show "le_rev ((es @ es') ! i) = st_revision s + 1 + int i"
  proof (cases "i < length es")
    case True
    then show ?thesis using advancesD(2) [OF assms(1) True] by (simp add: nth_append)
  next
    case False
    then have "i - length es < length es'" using i by simp
    from advancesD(2) [OF assms(2) this] show ?thesis
      using advancesD(1) [OF assms(1)] False by (simp add: nth_append of_nat_diff)
  qed
qed

text \<open>Steps that write no key.\<close>

lemma advances_quiet:
  assumes "length (event_log s) \<le> kEventLogCapacity"
    and "st_revision t = st_revision s" "event_log t = event_log s" "st_kvs t = st_kvs s"
  shows "advances s [] t"
  using assms by (simp add: advances_def lastn_id srv_view_def contents_def)

section \<open>The invariant\<close>

definition srv_lease_of :: "State \<Rightarrow> string \<Rightarrow> int option" where
  "srv_lease_of s k = map_option en_lease_id (map_of (st_kvs s) k)"

definition lease_keys :: "State \<Rightarrow> int \<Rightarrow> string list option" where
  "lease_keys s i = map_option lr_keys (st_leases s i)"

definition state_ok :: "State \<Rightarrow> bool" where
  "state_ok s \<longleftrightarrow>
     om_ok (st_kvs s) \<and> lease_inv (srv_lease_of s) (lease_keys s) \<and>
     (\<forall>i. st_leases s i \<noteq> None \<longrightarrow> i < st_next_lease_id s) \<and> 0 < st_next_lease_id s \<and>
     length (event_log s) \<le> kEventLogCapacity"

lemma state_okD:
  assumes "state_ok s"
  shows "om_ok (st_kvs s)" "lease_inv (srv_lease_of s) (lease_keys s)"
    "st_leases s i \<noteq> None \<Longrightarrow> i < st_next_lease_id s" "0 < st_next_lease_id s"
    "length (event_log s) \<le> kEventLogCapacity"
  using assms unfolding state_ok_def by blast+

lemma state_ok_cong:
  assumes "state_ok s" "st_kvs t = st_kvs s" "\<And>i. lease_keys t i = lease_keys s i"
    "st_next_lease_id t = st_next_lease_id s" "event_log t = event_log s"
  shows "state_ok t"
proof -
  have "lease_keys t = lease_keys s" using assms(3) by (rule ext)
  moreover have "st_leases t i = None \<longleftrightarrow> st_leases s i = None" for i
    using assms(3) [of i] unfolding lease_keys_def by (metis option.map_disc_iff)
  moreover have "srv_lease_of t = srv_lease_of s" using assms(2) by (auto simp: srv_lease_of_def)
  ultimately show ?thesis using assms(1,2,4,5) unfolding state_ok_def by simp
qed

lemma new_state_ok [simp]: "state_ok new_state"
  by (simp add: state_ok_def new_state_def srv_lease_of_def [abs_def] lease_keys_def [abs_def]
      lease_inv_def)

text \<open>Writing frames touches connections only.\<close>

lemma write_conn_frame [simp]:
  "st_kvs (snd (write_conn c f s)) = st_kvs s"
  "st_revision (snd (write_conn c f s)) = st_revision s"
  "event_log (snd (write_conn c f s)) = event_log s"
  "st_leases (snd (write_conn c f s)) = st_leases s"
  "st_next_lease_id (snd (write_conn c f s)) = st_next_lease_id s"
  "st_watchers (snd (write_conn c f s)) = st_watchers s"
  "st_subscribers (snd (write_conn c f s)) = st_subscribers s"
  by (simp_all add: write_conn_def case_prod_unfold Let_def)

lemma watcher_loop_frame [simp]:
  "st_kvs (snd (watcher_loop b kv ws s)) = st_kvs s"
  "st_revision (snd (watcher_loop b kv ws s)) = st_revision s"
  "event_log (snd (watcher_loop b kv ws s)) = event_log s"
  "st_leases (snd (watcher_loop b kv ws s)) = st_leases s"
  "st_next_lease_id (snd (watcher_loop b kv ws s)) = st_next_lease_id s"
  by (induction ws arbitrary: s) (simp_all add: case_prod_unfold Let_def split: bool.split)

lemma mutate_frame [simp]:
  "st_kvs (mutate_and_notify_locked b k i v s) = st_kvs s"
  "st_revision (mutate_and_notify_locked b k i v s) = st_revision s + 1"
  "st_leases (mutate_and_notify_locked b k i v s) = st_leases s"
  "st_next_lease_id (mutate_and_notify_locked b k i v s) = st_next_lease_id s"
  by (simp_all add: mutate_and_notify_locked_def log_mutation_locked_def case_prod_unfold Let_def)

lemma mutate_log:
  assumes "length (event_log s) \<le> kEventLogCapacity"
  shows "event_log (mutate_and_notify_locked b k i v s) = lastn kEventLogCapacity (event_log s @
     [\<lparr>le_rev = st_revision s + 1, le_is_put = b, le_key = k, le_lease_id = i, le_value = v\<rparr>])"
  by (simp add: mutate_and_notify_locked_def log_mutation_locked_def case_prod_unfold Let_def
      lastn_snoc [OF assms])

subsection \<open>Writes and expiry\<close>

lemma advances_put:
  assumes "state_ok s" "st_kvs t = st_kvs s" "st_revision t = st_revision s" "event_log t = event_log s"
  shows "advances s [\<lparr>le_rev = st_revision s + 1, le_is_put = True, le_key = k, le_lease_id = i,
            le_value = v\<rparr>] (store_entry k i v t)"
  using assms state_okD(1,5) [OF assms(1)]
  by (auto simp: advances_def store_entry_def Let_def mutate_log fun_eq_iff srv_view_eq map_of_put
      le_event.simps logged_kv_def entry_kv_def)

lemma advances_del:
  assumes "length (event_log s) \<le> kEventLogCapacity"
  shows "advances s [\<lparr>le_rev = st_revision s + 1, le_is_put = False, le_key = k, le_lease_id = i,
            le_value = v\<rparr>]
           ((mutate_and_notify_locked False k i v s)\<lparr>st_kvs := om_del k (st_kvs s)\<rparr>)"
  using assms
  by (auto simp: advances_def mutate_log fun_eq_iff srv_view_eq map_of_del
      le_event.simps logged_kv_def)

lemma lastn_length: "length (lastn n xs) \<le> n"
  by (simp add: lastn_def)

lemma advances_log_length: "advances s es t \<Longrightarrow> length (event_log t) \<le> kEventLogCapacity"
  using advancesD(3) by (simp add: lastn_length)

lemma expire_loop_spec:
  "length (event_log s) \<le> kEventLogCapacity \<Longrightarrow> \<exists>es. advances s es (expire_loop i ks s)"
proof (induction i ks s rule: expire_loop.induct)
  case (1 i s)
  then show ?case by (auto intro!: exI [of _ "[]"] advances_quiet)
next
  case (2 i k ks s)
  show ?case
  proof (cases "map_of (st_kvs s) k")
    case None
    then show ?thesis using 2 by simp
  next
    case (Some e)
    let ?t = "(mutate_and_notify_locked False k i (en_value e) s)\<lparr>st_kvs := om_del k (st_kvs s)\<rparr>"
    note a = advances_del [OF "2.prems", of k i "en_value e"]
    obtain es where es: "advances ?t es (expire_loop i ks ?t)"
      using "2.IH" Some advances_log_length [OF a] by auto
    from advances_trans [OF a this] show ?thesis using Some by auto
  qed
qed

lemma expire_loop_state [simp]:
  "map_of (st_kvs (expire_loop i ks s)) k = (if k \<in> set ks then None else map_of (st_kvs s) k)"
  "st_leases (expire_loop i ks s) = st_leases s"
  "st_next_lease_id (expire_loop i ks s) = st_next_lease_id s"
  "om_ok (st_kvs s) \<Longrightarrow> om_ok (st_kvs (expire_loop i ks s))"
  by (induction i ks s rule: expire_loop.induct)
     (auto simp: Let_def map_of_del split: option.split)

lemma expire_lease_spec:
  assumes s: "state_ok s"
  shows "state_ok (expire_lease_locked i s) \<and> (\<exists>es. advances s es (expire_lease_locked i s))"
proof (cases "st_leases s i")
  case None
  then show ?thesis
    using s advances_quiet [of s s] state_okD(5) [OF s] by (auto simp: expire_lease_locked_def)
next
  case (Some l)
  let ?e = "expire_loop i (lr_keys l) s" and ?t = "expire_lease_locked i s"
  have t: "?t = ?e\<lparr>st_leases := (st_leases s)(i := None)\<rparr>"
    by (simp add: expire_lease_locked_def Some Let_def)
  obtain es where es: "advances s es ?e" using expire_loop_spec [OF state_okD(5) [OF s]] by blast
  have keys: "lease_keys s i = Some (lr_keys l)" by (simp add: lease_keys_def Some)
  have "lease_inv (srv_lease_of ?t) (lease_keys ?t)"
  proof -
    have "srv_lease_of ?t = (\<lambda>k. if k \<in> set (lr_keys l) then None else srv_lease_of s k)"
      by (auto simp: srv_lease_of_def t)
    moreover have "lease_keys ?t = (lease_keys s)(i := None)"
      by (auto simp: lease_keys_def t)
    ultimately show ?thesis using lease_inv_revoke [OF state_okD(2) [OF s] keys] by simp
  qed
  then have "state_ok ?t"
    using s advances_log_length [OF es] by (simp add: state_ok_def t)
  moreover have "advances s es ?t"
    using es by (simp add: t advances_def srv_view_def contents_def)
  ultimately show ?thesis by blast
qed

lemma store_entry_ok:
  assumes s: "state_ok s" and i: "i = 0 \<or> st_leases s i \<noteq> None"
    and t: "st_kvs t = st_kvs s" "st_revision t = st_revision s" "event_log t = event_log s"
      "st_next_lease_id t = st_next_lease_id s"
      "lease_keys t = rebind_key k (srv_lease_of s k) i (lease_keys s)"
  shows "state_ok (store_entry k i v t) \<and> (\<exists>es. advances s es (store_entry k i v t))"
proof -
  let ?u = "store_entry k i v t"
  note a = advances_put [OF s t(1-3), of k i v]
  have z: "srv_lease_of ?u = (srv_lease_of s)(k \<mapsto> i)"
    using state_okD(1) [OF s] t(1)
    by (auto simp: srv_lease_of_def store_entry_def Let_def map_of_put fun_eq_iff)
  have l: "st_leases ?u = st_leases t" "st_next_lease_id ?u = st_next_lease_id s"
    by (simp_all add: store_entry_def Let_def t(4))
  have lk: "lease_keys ?u = rebind_key k (srv_lease_of s k) i (lease_keys s)"
    unfolding t(5) [symmetric] lease_keys_def l ..
  have i': "i = 0 \<or> lease_keys s i \<noteq> None" using i by (simp add: lease_keys_def)
  have dom: "st_leases ?u j = None \<longleftrightarrow> st_leases s j = None" for j
  proof -
    have "lease_keys ?u j = None \<longleftrightarrow> lease_keys s j = None"
      unfolding lk by (rule rebind_key_dom [of i "lease_keys s", OF i'])
    then show ?thesis by (simp add: lease_keys_def)
  qed
  have "om_ok (st_kvs ?u)" using state_okD(1) [OF s] by (simp add: store_entry_def Let_def t(1))
  moreover have "lease_inv (srv_lease_of ?u) (lease_keys ?u)"
    unfolding z lk by (rule lease_inv_rebind [of _ "lease_keys s", OF state_okD(2) [OF s] i'])
  ultimately have "state_ok ?u"
    using state_okD(3,4) [OF s] advances_log_length [OF a] dom unfolding state_ok_def l by auto
  with a show ?thesis by blast
qed

subsection \<open>Requests\<close>

lemma push_key_keys:
  "lease_keys (push_key k i s) = bind_key k i (lease_keys s)"
  by (auto simp: push_key_def lease_keys_def bind_key_def upd_keys_def default_lease_def fun_eq_iff
      split: option.split)

lemma unbind_keys:
  "lease_keys (srv_unbind_lease_locked k i s) = unbind_key k i (lease_keys s)"
  by (auto simp: srv_unbind_lease_locked_def lease_keys_def unbind_key_def upd_keys_def fun_eq_iff
      split: option.split)

lemma lease_update_frame [simp]:
  "st_kvs (push_key k i s) = st_kvs s"
  "st_revision (push_key k i s) = st_revision s"
  "event_log (push_key k i s) = event_log s"
  "st_next_lease_id (push_key k i s) = st_next_lease_id s"
  "st_kvs (srv_unbind_lease_locked k i s) = st_kvs s"
  "st_revision (srv_unbind_lease_locked k i s) = st_revision s"
  "event_log (srv_unbind_lease_locked k i s) = event_log s"
  "st_next_lease_id (srv_unbind_lease_locked k i s) = st_next_lease_id s"
  by (simp_all add: push_key_def srv_unbind_lease_locked_def split: option.split)

lemma fold_write_frame [simp]:
  "st_kvs (fold (\<lambda>f s. snd (write_conn c f s)) fs s) = st_kvs s"
  "st_revision (fold (\<lambda>f s. snd (write_conn c f s)) fs s) = st_revision s"
  "event_log (fold (\<lambda>f s. snd (write_conn c f s)) fs s) = event_log s"
  "st_leases (fold (\<lambda>f s. snd (write_conn c f s)) fs s) = st_leases s"
  "st_next_lease_id (fold (\<lambda>f s. snd (write_conn c f s)) fs s) = st_next_lease_id s"
  "st_watchers (fold (\<lambda>f s. snd (write_conn c f s)) fs s) = st_watchers s"
  by (induction fs arbitrary: s) simp_all

lemma publish_loop_frame [simp]:
  "st_kvs (snd (srv_publish_loop a b ws s)) = st_kvs s"
  "st_revision (snd (srv_publish_loop a b ws s)) = st_revision s"
  "event_log (snd (srv_publish_loop a b ws s)) = event_log s"
  "st_leases (snd (srv_publish_loop a b ws s)) = st_leases s"
  "st_next_lease_id (snd (srv_publish_loop a b ws s)) = st_next_lease_id s"
  "st_watchers (snd (srv_publish_loop a b ws s)) = st_watchers s"
  by (induction ws arbitrary: s) (simp_all add: case_prod_unfold Let_def split: bool.split)

lemma srv_dispatch_loop_frame [simp]:
  "st_kvs (snd (srv_dispatch_loop a b ms n s)) = st_kvs s"
  "st_revision (snd (srv_dispatch_loop a b ms n s)) = st_revision s"
  "event_log (snd (srv_dispatch_loop a b ms n s)) = event_log s"
  "st_leases (snd (srv_dispatch_loop a b ms n s)) = st_leases s"
  "st_next_lease_id (snd (srv_dispatch_loop a b ms n s)) = st_next_lease_id s"
  "st_watchers (snd (srv_dispatch_loop a b ms n s)) = st_watchers s"
  by (induction n arbitrary: s) (simp_all add: case_prod_unfold Let_def split: bool.split)

text \<open>\<open>keeps s t\<close>: the step from \<open>s\<close> to \<open>t\<close> keeps the invariant and is accounted for in the log.\<close>

definition keeps :: "State \<Rightarrow> State \<Rightarrow> bool" where
  "keeps s t \<longleftrightarrow> state_ok t \<and> (\<exists>es. advances s es t)"

lemma srv_keeps_trans: "keeps s t \<Longrightarrow> keeps t u \<Longrightarrow> keeps s u"
  unfolding keeps_def by (meson advances_trans)

lemma keeps_quiet:
  assumes "state_ok s" "st_kvs t = st_kvs s" "\<And>i. lease_keys t i = lease_keys s i"
    "st_next_lease_id t = st_next_lease_id s" "event_log t = event_log s"
    "st_revision t = st_revision s"
  shows "keeps s t"
  using state_ok_cong [OF assms(1-5)] advances_quiet [OF state_okD(5) [OF assms(1)] assms(6,5,2)]
  unfolding keeps_def by blast

lemma keeps_put:
  assumes "state_ok s" "\<not> lease_missing i s"
  shows "keeps s (store_entry k i v
           (case map_of (st_kvs s) k of
              Some old \<Rightarrow>
                (if en_lease_id old \<noteq> i then push_key k i (srv_unbind_lease_locked k (en_lease_id old) s)
                 else s)
            | None \<Rightarrow> push_key k i s))" (is "keeps s (store_entry k i v ?t)")
  unfolding keeps_def
proof (rule store_entry_ok [OF assms(1)])
  show "i = 0 \<or> st_leases s i \<noteq> None" using assms(2) by (auto simp: lease_missing_def)
  show "lease_keys ?t = rebind_key k (srv_lease_of s k) i (lease_keys s)"
    by (simp add: rebind_key_def srv_lease_of_def push_key_keys unbind_keys split: option.split)
qed (simp_all split: option.split)

lemma keeps_create_lease:
  assumes s: "state_ok s"
  shows "keeps s (snd (handle_op now c (CreateLease ttl) s))"
proof -
  let ?i = "st_next_lease_id s" and ?t = "snd (handle_op now c (CreateLease ttl) s)"
  have fresh: "st_leases s ?i = None" using state_okD(3) [OF s, of ?i] by (cases "st_leases s ?i") auto
  then have "lease_keys s ?i = None" by (simp add: lease_keys_def)
  moreover have "?i \<noteq> 0" using state_okD(4) [OF s] by simp
  moreover have "lease_keys ?t = (lease_keys s)(?i \<mapsto> [])"
    by (auto simp: lease_keys_def Let_def fun_eq_iff)
  moreover have "srv_lease_of ?t = srv_lease_of s" by (auto simp: srv_lease_of_def Let_def)
  ultimately have "lease_inv (srv_lease_of ?t) (lease_keys ?t)"
    using lease_inv_new [OF state_okD(2) [OF s]] by simp
  then have "state_ok ?t"
    using state_okD(1,3,4,5) [OF s] unfolding state_ok_def by (force simp: Let_def)
  moreover have "advances s [] ?t"
    using advances_quiet [OF state_okD(5) [OF s], of ?t] by (simp add: Let_def)
  ultimately show ?thesis unfolding keeps_def by blast
qed

lemma keeps_handle_op:
  assumes s: "state_ok s"
  shows "keeps s (snd (handle_op now c req s))"
proof (cases req)
  case (CreateLease ttl)
  then show ?thesis using keeps_create_lease [OF s] by simp
next
  case (RevokeLease i)
  then show ?thesis using expire_lease_spec [OF s] by (simp add: keeps_def)
next
  case (KvCreate k i v)
  then show ?thesis using keeps_put [OF s, of i k v] keeps_quiet [OF s, of s] by auto
next
  case (KvPut k i v)
  then show ?thesis using keeps_put [OF s, of i k v] keeps_quiet [OF s, of s] by simp
next
  case (KvCreateOrValidate k i v)
  then show ?thesis using keeps_put [OF s, of i k v] keeps_quiet [OF s, of s]
    by (auto split: option.split)
qed (auto intro!: keeps_quiet [OF s]
       simp: Let_def case_prod_unfold lease_keys_def split: option.split bool.split)

lemma keeps_expire: "state_ok s \<Longrightarrow> keeps s (expire_lease_locked i s)"
  using expire_lease_spec by (simp add: keeps_def)

lemma srv_keeps_refl: "state_ok s \<Longrightarrow> keeps s s"
  by (rule keeps_quiet) simp_all

lemma keeps_fold_expire: "state_ok s \<Longrightarrow> keeps s (fold expire_lease_locked ids s)"
proof (induction ids arbitrary: s)
  case (Cons i ids)
  have "keeps s (expire_lease_locked i s)" by (rule keeps_expire [OF Cons.prems])
  then show ?case using Cons.IH [of "expire_lease_locked i s"] srv_keeps_trans by (auto simp: keeps_def)
qed (simp add: srv_keeps_refl)

lemma keeps_step:
  assumes s: "state_ok s"
  shows "keeps s (srv_step op s)"
proof (cases op)
  case (Handle now c r req)
  let ?t = "snd (handle_op now c req s)"
  have 1: "keeps s ?t" by (rule keeps_handle_op [OF s])
  then have 2: "keeps ?t (snd (write_conn c f ?t))" for f
    by (intro keeps_quiet) (simp_all add: keeps_def lease_keys_def)
  show ?thesis using srv_keeps_trans [OF 1 2] Handle
    by (simp add: handle_request_def case_prod_unfold Let_def)
next
  case (Sweep now ids)
  then show ?thesis using keeps_fold_expire [OF s] by (simp add: sweep_def)
qed (auto intro!: keeps_quiet [OF s]
       simp: accept_conn_def break_conn_def end_conn_def lease_keys_def Let_def)

lemma keeps_run: "state_ok s \<Longrightarrow> keeps s (fold srv_step ops s)"
proof (induction ops arbitrary: s)
  case (Cons op ops)
  have "keeps s (srv_step op s)" by (rule keeps_step [OF Cons.prems])
  then show ?case using Cons.IH [of "srv_step op s"] srv_keeps_trans by (auto simp: keeps_def)
qed (simp add: srv_keeps_refl)

section \<open>Answers to watch requests\<close>

lemma log_from_start:
  assumes "advances new_state F s"
  shows "st_revision s = int (length F)" "event_log s = lastn kEventLogCapacity F"
    "i < length F \<Longrightarrow> le_rev (F ! i) = 1 + int i"
  using advancesD [OF assms] by (simp_all add: new_state_def)

text \<open>The log from a revision on: when the server can replay, nothing is missing.\<close>

lemma replayable:
  assumes F: "advances new_state F s" and r: "0 \<le> r" "r \<le> st_revision s" "can_replay_from s r"
  shows "filter (\<lambda>l. \<not> le_rev l \<le> r) (event_log s) = drop (nat r) F"
proof -
  let ?d = "length F - kEventLogCapacity"
  have log: "event_log s = drop ?d F" using log_from_start(2) [OF F] by (simp add: lastn_def)
  have rev: "le_rev (F ! i) = 1 + int i" if "i < length F" for i using log_from_start(3) [OF F that] .
  have d: "?d \<le> nat r"
  proof (cases "r \<ge> st_revision s")
    case True
    then show ?thesis using r(1) log_from_start(1) [OF F] by linarith
  next
    case False
    then have "event_log s \<noteq> []" using r(3) by (auto simp: can_replay_from_def)
    then have "?d < length F" unfolding log by simp
    moreover have "le_rev (hd (event_log s)) = 1 + int ?d"
      unfolding log using rev [OF \<open>?d < length F\<close>] \<open>?d < length F\<close> by (simp add: hd_drop_conv_nth)
    ultimately show ?thesis using r(3) False by (auto simp: can_replay_from_def split: if_splits)
  qed
  have "drop ?d F = take (nat r - ?d) (drop ?d F) @ drop (nat r) F"
    using d by (metis append_take_drop_id drop_drop le_add_diff_inverse2)
  moreover have "filter (\<lambda>l. \<not> le_rev l \<le> r) (take (nat r - ?d) (drop ?d F)) = []"
    using rev r(1) d by (auto simp: filter_empty_conv in_set_conv_nth)
  moreover have "filter (\<lambda>l. \<not> le_rev l \<le> r) (drop (nat r) F) = drop (nat r) F"
    using rev r(1) by (auto simp: filter_id_conv in_set_conv_nth)
  ultimately show ?thesis unfolding log by (metis append_Nil filter_append)
qed

fun frame_events :: "Frame list \<Rightarrow> WatchEvent list" where
  "frame_events [] = []"
| "frame_events (WatchFrame i b kv # fs) = (if b then Put kv else Delete kv) # frame_events fs"
| "frame_events (_ # fs) = frame_events fs"

lemma frame_events_append [simp]: "frame_events (fs @ gs) = frame_events fs @ frame_events gs"
  by (induction fs rule: frame_events.induct) simp_all

lemma frame_events_logged [simp]:
  "frame_events (map (\<lambda>l. WatchFrame i (le_is_put l) (logged_kv l)) ls) = map le_event ls"
  by (induction ls) (simp_all add: le_event.simps)

lemma frame_events_scanned [simp]:
  "frame_events (map (\<lambda>e. WatchFrame i True (entry_kv e)) es) = map (\<lambda>e. Put (entry_kv e)) es"
  by (induction es) simp_all

text \<open>The contents after the first \<open>n\<close> mutations.\<close>

definition view_at :: "LoggedEvent list \<Rightarrow> nat \<Rightarrow> view" where
  "view_at F n = replay (map le_event (take n F)) (\<lambda>_. None)"

lemma view_at_all:
  assumes "advances new_state F s"
  shows "view_at F (length F) = srv_view s"
proof -
  have "srv_view new_state = (\<lambda>_. None)" by (simp add: srv_view_def contents_def new_state_def)
  then show ?thesis using advancesD(4) [OF assms] by (simp add: view_at_def)
qed

lemma view_at_drop:
  "replay (map le_event (filter (\<lambda>l. prefix p (le_key l)) (drop n F))) (under p (view_at F n))
   = under p (view_at F (length F))"
proof -
  have "filter (\<lambda>e. prefix p (ev_key e)) (map le_event ls)
      = map le_event (filter (\<lambda>l. prefix p (le_key l)) ls)" for ls
    by (simp add: filter_map comp_def)
  then have "replay (map le_event (filter (\<lambda>l. prefix p (le_key l)) (drop n F))) (under p (view_at F n))
      = under p (replay (map le_event (drop n F)) (view_at F n))"
    by (simp add: under_replay)
  also have "replay (map le_event (drop n F)) (view_at F n) = view_at F (length F)"
    unfolding view_at_def by (simp flip: replay_simps(3) map_append)
  finally show ?thesis .
qed

lemma replay_answer:
  assumes F: "advances new_state F s" and r: "0 \<le> r" "r \<le> st_revision s" "can_replay_from s r"
  shows "replay (frame_events (watch_frames p w r s)) (under p (view_at F (nat r)))
         = under p (srv_view s)"
proof -
  have "filter (\<lambda>l. \<not> (le_rev l \<le> r \<or> \<not> prefix p (le_key l))) (event_log s)
      = filter (\<lambda>l. prefix p (le_key l)) (drop (nat r) F)"
    unfolding replayable [OF F r, symmetric] by (simp add: conj_commute)
  then show ?thesis
    using r(1,3) view_at_drop [of p "nat r" F] view_at_all [OF F] by (simp add: watch_frames_def)
qed

lemma om_scan_map:
  "om_scan p (map (\<lambda>e. (fst e, f e)) m) = map (\<lambda>e. (fst e, f e)) (om_scan p m)"
  by (simp add: om_scan_def takeWhile_map dropWhile_map comp_def)

lemma contents_ok:
  assumes "state_ok s"
  shows "om_ok (contents s)" "keyed (contents s)"
  using state_okD(1) [OF assms] by (auto simp: om_ok_def contents_def keyed_def entry_kv_def comp_def)

lemma snapshot_answer:
  assumes "\<not> (0 \<le> r \<and> can_replay_from s r)"
  shows "frame_events (watch_frames p w r s) = snapshot p (contents s)"
  using assms by (auto simp: watch_frames_def snapshot_def contents_def om_scan_map comp_def)

lemma write_conn_out:
  "cn_open (conns s c) \<Longrightarrow> snd (write_conn c f s) =
     s\<lparr>conns := (conns s)(c := (conns s c)\<lparr>cn_out := cn_out (conns s c) @ [f]\<rparr>)\<rparr>"
  by (simp add: write_conn_def conn_write_def)

lemma fold_write_out:
  "cn_open (conns s c) \<Longrightarrow> fold (\<lambda>f s. snd (write_conn c f s)) fs s =
     s\<lparr>conns := (conns s)(c := (conns s c)\<lparr>cn_out := cn_out (conns s c) @ fs\<rparr>)\<rparr>"
  by (induction fs arbitrary: s) (simp_all add: write_conn_out)

lemma handle_watch_out:
  assumes "cn_open (conns s c)"
  shows "conns (handle_request now c q (WatchPrefix p w r) s) c
     = \<lparr>cn_open = True, cn_out = cn_out (conns s c) @ watch_frames p w r s @ [Reply q Done]\<rparr>"
  using assms
  by (simp add: handle_request_def case_prod_unfold Let_def fold_write_out write_conn_out)

text \<open>A run and its continuation, with the mutations of both.\<close>

lemma run_history:
  obtains F G where "advances new_state F (fold srv_step ops new_state)"
    "advances new_state (F @ G) (fold srv_step ops' (fold srv_step ops new_state))"
proof -
  let ?s = "fold srv_step ops new_state"
  have 1: "keeps new_state ?s" by (rule keeps_run) simp
  then have "keeps ?s (fold srv_step ops' ?s)" by (intro keeps_run) (simp add: keeps_def)
  with 1 obtain F G where "advances new_state F ?s" "advances ?s G (fold srv_step ops' ?s)"
    unfolding keeps_def by blast
  then show thesis using advances_trans that by blast
qed

lemma reachable_state_ok: "state_ok (fold srv_step ops new_state)"
  using keeps_run [OF new_state_ok] unfolding keeps_def by blast

section \<open>Properties\<close>

text \<open>Take the contents of the server at any time, let any requests, disconnections and expiries
  follow, and then ask to watch a prefix from the old revision.  The answer is written in one piece to
  the asking connection.  If the server decides that it can replay, applying the replayed events to the
  old contents under the prefix gives exactly the current ones; without a revision, the
  snapshot alone gives them.\<close>

lemma watch_answer_resyncs:
  assumes "s0 = fold srv_step ops new_state" and "s = fold srv_step ops' s0"
    and "cn_open (conns s c)"
  shows "cn_out (conns (handle_request now c q (WatchPrefix p w r) s) c)
           = cn_out (conns s c) @ watch_frames p w r s @ [Reply q Done]
         \<and> (can_replay_from s (st_revision s0) \<longrightarrow>
              replay (frame_events (watch_frames p w (st_revision s0) s)) (under p (srv_view s0))
              = under p (srv_view s))
         \<and> replay (frame_events (watch_frames p w (- 1) s)) (\<lambda>_. None) = under p (srv_view s)"
proof (intro conjI impI)
  obtain F G where F: "advances new_state F s0" and FG: "advances new_state (F @ G) s"
    using run_history [of ops ops'] unfolding assms(1,2) by blast
  note r = log_from_start(1) [OF F] and r' = log_from_start(1) [OF FG]
  have v: "view_at (F @ G) (nat (st_revision s0)) = srv_view s0"
    using view_at_all [OF F] by (simp add: view_at_def r)
  show "replay (frame_events (watch_frames p w (st_revision s0) s)) (under p (srv_view s0))
      = under p (srv_view s)" if c: "can_replay_from s (st_revision s0)"
  proof -
    have "0 \<le> st_revision s0" "st_revision s0 \<le> st_revision s" using r r' by simp_all
    from replay_answer [OF FG this c, of p w] show ?thesis unfolding v .
  qed
  have "state_ok s" using reachable_state_ok [of "ops @ ops'"] unfolding assms(1,2) by simp
  then show "replay (frame_events (watch_frames p w (- 1) s)) (\<lambda>_. None) = under p (srv_view s)"
    using snapshot_answer [of "- 1" s p w] replay_snapshot [of "contents s" p] contents_ok
    by (simp add: srv_view_def)
qed (simp add: handle_watch_out [OF assms(3)])

lemma watch_answer_resyncs_witness:
  "\<exists>s0 s. s0 = fold srv_step [Accept, Handle 0 0 1 (KvPut ''a/x'' 0 ''1'')] new_state
     \<and> s = fold srv_step [Handle 0 0 2 (KvPut ''a/y'' 0 ''2''), Handle 0 0 3 (KvPut ''b'' 0 ''3'')] s0
     \<and> cn_open (conns s 0)
     \<and> frame_events (watch_frames ''a/'' 7 (st_revision s0) s)
         = [Put \<lparr>kv_key = ''a/y'', kv_value = ''2'', kv_lease_id = 0, kv_mod_revision = 2\<rparr>]
     \<and> replay (frame_events (watch_frames ''a/'' 7 (st_revision s0) s)) (under ''a/'' (srv_view s0))
         = under ''a/'' (srv_view s)"
proof -
  define s0 where "s0 = fold srv_step [Accept, Handle 0 0 1 (KvPut ''a/x'' 0 ''1'')] new_state"
  define s where
    "s = fold srv_step [Handle 0 0 2 (KvPut ''a/y'' 0 ''2''), Handle 0 0 3 (KvPut ''b'' 0 ''3'')] s0"
  note eval = s_def s0_def new_state_def accept_conn_def handle_request_def lease_missing_def push_key_def
    store_entry_def mutate_and_notify_locked_def log_mutation_locked_def kEventLogCapacity_def
    write_conn_def conn_write_def Let_def
  have o: "cn_open (conns s 0)" by (simp add: eval)
  have r: "can_replay_from s (st_revision s0)" by (simp add: eval can_replay_from_def)
  have f: "frame_events (watch_frames ''a/'' 7 (st_revision s0) s)
         = [Put \<lparr>kv_key = ''a/y'', kv_value = ''2'', kv_lease_id = 0, kv_mod_revision = 2\<rparr>]"
    by (simp add: eval can_replay_from_def watch_frames_def logged_kv_def)
  have "replay (frame_events (watch_frames ''a/'' 7 (st_revision s0) s)) (under ''a/'' (srv_view s0))
         = under ''a/'' (srv_view s)"
    using watch_answer_resyncs [OF s0_def s_def o] r by blast
  then show ?thesis by (intro exI [of _ s0] exI [of _ s] conjI s0_def s_def o f)
qed

text \<open>The watch frames for an id among what was written to a connection.\<close>

fun for_watch :: "u64 \<Rightarrow> Frame \<Rightarrow> bool" where
  "for_watch i (WatchFrame j b kv) = (i = j)"
| "for_watch i _ = False"

lemma write_conn_other:
  "\<not> for_watch i f \<Longrightarrow>
   filter (for_watch i) (cn_out (conns (snd (write_conn c f s)) d)) = filter (for_watch i) (cn_out (conns s d))"
  by (simp add: write_conn_def conn_write_def)

lemma watcher_loop_other:
  "\<forall>w\<in>set ws. sw_id w \<noteq> i \<Longrightarrow>
   filter (for_watch i) (cn_out (conns (snd (watcher_loop b kv ws s)) d))
   = filter (for_watch i) (cn_out (conns s d))"
proof (induction ws arbitrary: s)
  case (Cons w ws)
  have "filter (for_watch i) (cn_out (conns (snd (write_conn (sw_conn w) (WatchFrame (sw_id w) b kv) s)) d))
      = filter (for_watch i) (cn_out (conns s d))"
    using Cons.prems by (intro write_conn_other) auto
  then show ?case using Cons by (simp add: case_prod_unfold Let_def split: bool.split)
qed simp

text \<open>A watch can be silenced from outside.  Clients number their watches independently, but a
  request to drop a watch removes every watch with that number, on all connections.  From then on no
  write of any key reaches those watches.\<close>

lemma unwatch_silences_others:
  "i \<notin> sw_id ` set (st_watchers (handle_request now c q (Unwatch i) s))
   \<and> filter (for_watch i) (cn_out (conns (handle_request now' c' q' (KvPut k l v)
         (handle_request now c q (Unwatch i) s)) d))
     = filter (for_watch i) (cn_out (conns (handle_request now c q (Unwatch i) s) d))"
proof -
  define t where "t = handle_request now c q (Unwatch i) s"
  have w: "\<forall>w\<in>set (st_watchers t). sw_id w \<noteq> i"
    by (simp add: t_def handle_request_def)
  have "filter (for_watch i) (cn_out (conns (mutate_and_notify_locked b k l v u) d))
      = filter (for_watch i) (cn_out (conns t d))"
    if "st_watchers u = st_watchers t" "conns u = conns t" for b u
    using that w by (simp add: mutate_and_notify_locked_def log_mutation_locked_def Let_def
        case_prod_unfold watcher_loop_other)
  then have "filter (for_watch i) (cn_out (conns (handle_request now' c' q' (KvPut k l v) t) d))
      = filter (for_watch i) (cn_out (conns t d))"
    by (simp add: handle_request_def write_conn_other store_entry_def Let_def push_key_def
        srv_unbind_lease_locked_def split: option.split)
  with w show ?thesis unfolding t_def by blast
qed

end
