(* ===== verification/Tcp.thy ===== *)
theory Tcp
  imports Server
begin

text \<open>
  The TCP client of the discovery server, from \<^verbatim>\<open>src/discovery/tcp.cpp\<close>: its shared state
  (\<open>TcpDiscovery::State\<close>), the frames it routes, what it does when a connection is lost and made
  again, the keep-alive loop of a lease and the two halves of every operation (up to the request and
  from the reply).  The client mutex makes each of them one step.  The main results are about watches
  that live across connections: an undisturbed resynchronisation always ends with the consumer
  seeing exactly what the server holds, and one that is cut off inside a snapshot may
  leave keys out for good.
\<close>

section \<open>State\<close>

record WatchRecord =
  wr_prefix :: string
  wr_sink :: "WatchEvent Sink"
  live_keys :: "string list"
  sync_keys :: "string list"
  syncing :: bool
  last_rev :: int

record SubRecord =
  sr_subject :: string
  sr_sink :: "Event Sink"

text \<open>\<open>out\<close> is what was written to the current socket, with the request ids, and \<open>sock_ok\<close> says whether it
  takes writes.  Tables are association lists in iteration order.  \<open>answers\<close> is what arrived for
  requests: the reply, or None when the channel was dropped.\<close>

record Client =
  shutdown_requested :: bool
  connected :: bool
  next_req_id :: u64
  next_watch_id :: u64
  next_sub_id :: u64
  pending :: "u64 list"
  answers :: "(u64 \<times> ReplyBody option) list"
  watches :: "(u64 \<times> WatchRecord) list"
  subs :: "(u64 \<times> SubRecord) list"
  lease_tokens :: "int list"
  sock_ok :: bool
  out :: "(u64 \<times> Request) list"

text \<open>The state after \<open>TcpDiscovery::connect\<close>.\<close>

definition new_client :: Client where
  "new_client = \<lparr>shutdown_requested = False, connected = True, next_req_id = 1, next_watch_id = 1,
     next_sub_id = 1, pending = [], answers = [], watches = [], subs = [], lease_tokens = [],
     sock_ok = True, out = []\<rparr>"

definition client_write :: "u64 \<Rightarrow> Request \<Rightarrow> Client \<Rightarrow> bool \<times> Client" where
  "client_write req r s = (if sock_ok s then (True, s\<lparr>out := out s @ [(req, r)]\<rparr>) else (False, s))"

definition lost :: "'a res" where
  "lost = Inl (RuntimeError ''discovery connection lost'')"

definition request :: "Request \<Rightarrow> Client \<Rightarrow> u64 res \<times> Client" where
  "request r s =
     (if shutdown_requested s \<or> \<not> connected s then (lost, s)
      else
        let i = next_req_id s;
            s = s\<lparr>next_req_id := i + 1, pending := i # pending s\<rparr>
        in case client_write i r s of
             (True, s) \<Rightarrow> (Inr i, s)
           | (False, s) \<Rightarrow> (lost, s\<lparr>pending := removeAll i (pending s)\<rparr>))"

text \<open>The end of \<open>request\<close>: what came through the reply channel.\<close>

fun await_reply :: "ReplyBody option \<Rightarrow> ReplyBody res" where
  "await_reply (Some b) = Inr b"
| "await_reply None = lost"

section \<open>The manager thread\<close>

definition upd_at :: "u64 \<Rightarrow> ('v \<Rightarrow> 'v) \<Rightarrow> (u64 \<times> 'v) list \<Rightarrow> (u64 \<times> 'v) list" where
  "upd_at i f m = map (\<lambda>e. if fst e = i then (i, f (snd e)) else e) m"

definition erase_at :: "u64 \<Rightarrow> (u64 \<times> 'v) list \<Rightarrow> (u64 \<times> 'v) list" where
  "erase_at i m = filter (\<lambda>e. fst e \<noteq> i) m"

definition enter_sync :: "WatchRecord \<Rightarrow> WatchRecord" where
  "enter_sync r = r\<lparr>syncing := True, sync_keys := []\<rparr>"

definition resub_request :: "u64 \<Rightarrow> WatchRecord \<Rightarrow> Request" where
  "resub_request i r = WatchPrefix (wr_prefix r) i (if last_rev r > 0 then last_rev r else - 1)"

definition resubscribe_all :: "Client \<Rightarrow> Client" where
  "resubscribe_all s =
     (let s = s\<lparr>watches := map (\<lambda>e. (fst e, enter_sync (snd e))) (watches s)\<rparr>;
          s = fold (\<lambda>e s. snd (client_write 0 (resub_request (fst e) (snd e)) s)) (watches s) s
      in fold (\<lambda>e s. snd (client_write 0 (SubscribeTo (fst e) (sr_subject (snd e))) s)) (subs s) s)"

definition route_reply :: "u64 \<Rightarrow> ReplyBody \<Rightarrow> Client \<Rightarrow> Client" where
  "route_reply i body s =
     (if i \<in> set (pending s)
      then s\<lparr>pending := removeAll i (pending s), answers := answers s @ [(i, Some body)]\<rparr> else s)"

text \<open>The locked part of \<open>route_watch_frame\<close>: the record afterwards and the events to send.\<close>

definition sync_record :: "SyncMode \<Rightarrow> int \<Rightarrow> WatchRecord \<Rightarrow> WatchRecord \<times> WatchEvent list" where
  "sync_record mode revn r =
     (if \<not> syncing r then (r, [])
      else
        let to_send = (if mode = SnapshotMode
              then map (\<lambda>k. Delete \<lparr>kv_key = k, kv_value = [], kv_lease_id = 0, kv_mod_revision = 0\<rparr>)
                     (filter (\<lambda>k. k \<notin> set (sync_keys r)) (live_keys r))
              else []);
            r = (if mode = SnapshotMode then r\<lparr>live_keys := sync_keys r\<rparr> else r)
        in (r\<lparr>sync_keys := [], syncing := False, last_rev := max (last_rev r) revn\<rparr>, to_send))"

definition put_record :: "KeyValue \<Rightarrow> WatchRecord \<Rightarrow> WatchRecord \<times> WatchEvent list" where
  "put_record kv r =
     (r\<lparr>live_keys := insort_insert (kv_key kv) (live_keys r),
        sync_keys := (if syncing r then insort_insert (kv_key kv) (sync_keys r) else sync_keys r),
        last_rev := max (last_rev r) (kv_mod_revision kv)\<rparr>, [Put kv])"

definition delete_record :: "KeyValue \<Rightarrow> WatchRecord \<Rightarrow> WatchRecord \<times> WatchEvent list" where
  "delete_record kv r =
     (r\<lparr>live_keys := removeAll (kv_key kv) (live_keys r),
        last_rev := max (last_rev r) (kv_mod_revision kv)\<rparr>, [Delete kv])"

fun record_frame :: "Frame \<Rightarrow> WatchRecord \<Rightarrow> WatchRecord \<times> WatchEvent list" where
  "record_frame (SyncFrame i mode revn) r = sync_record mode revn r"
| "record_frame (WatchFrame i is_put kv) r = (if is_put then put_record kv r else delete_record kv r)"
| "record_frame _ r = (r, [])"

text \<open>Sends until the receiver turns out to be gone.\<close>

fun send_all :: "'e list \<Rightarrow> 'e Sink \<Rightarrow> bool \<times> 'e Sink" where
  "send_all [] k = (True, k)"
| "send_all (e # es) k = (case sink_send e k of (True, k) \<Rightarrow> send_all es k | (False, k) \<Rightarrow> (False, k))"

definition route_watch_frame :: "u64 \<Rightarrow> Frame \<Rightarrow> Client \<Rightarrow> Client" where
  "route_watch_frame watch_id f s =
     (case map_of (watches s) watch_id of
        None \<Rightarrow> s
      | Some r \<Rightarrow>
          (let (r, to_send) = record_frame f r;
               (ok, k) = send_all to_send (wr_sink r);
               s = s\<lparr>watches := upd_at watch_id (\<lambda>_. r\<lparr>wr_sink := k\<rparr>) (watches s)\<rparr>
           in if ok then s
              else snd (client_write 0 (Unwatch watch_id) (s\<lparr>watches := erase_at watch_id (watches s)\<rparr>))))"

definition route_event :: "u64 \<Rightarrow> string \<Rightarrow> Client \<Rightarrow> Client" where
  "route_event sub_id data s =
     (case map_of (subs s) sub_id of
        None \<Rightarrow> s
      | Some r \<Rightarrow>
          (case sink_send \<lparr>ev_subject = sr_subject r, ev_payload = data\<rparr> (sr_sink r) of
             (True, k) \<Rightarrow> s\<lparr>subs := upd_at sub_id (\<lambda>r. r\<lparr>sr_sink := k\<rparr>) (subs s)\<rparr>
           | (False, _) \<Rightarrow>
               snd (client_write 0 (Unsubscribe sub_id) (s\<lparr>subs := erase_at sub_id (subs s)\<rparr>))))"

text \<open>The dispatch on the header in \<open>read_until_disconnect\<close>.\<close>

fun route_frame :: "Frame \<Rightarrow> Client \<Rightarrow> Client" where
  "route_frame (Reply i body) s = route_reply i body s"
| "route_frame (WatchFrame i b kv) s = route_watch_frame i (WatchFrame i b kv) s"
| "route_frame (SyncFrame i mode revn) s = route_watch_frame i (SyncFrame i mode revn) s"
| "route_frame (EventFrame i subject data) s = route_event i data s"

text \<open>The rounds of \<open>manager_loop\<close>: a fresh socket is up, the connection is lost, and the exit.\<close>

definition drop_pending :: "Client \<Rightarrow> Client" where
  "drop_pending s = s\<lparr>pending := [], answers := answers s @ map (\<lambda>i. (i, None)) (pending s)\<rparr>"

definition manager_connect :: "Client \<Rightarrow> Client" where
  "manager_connect s = (resubscribe_all (s\<lparr>sock_ok := True, out := []\<rparr>))\<lparr>connected := True\<rparr>"

definition manager_disconnect :: "Client \<Rightarrow> Client" where
  "manager_disconnect s = drop_pending (s\<lparr>connected := False, sock_ok := False\<rparr>)"

definition close_sink :: "'e Sink \<Rightarrow> 'e Sink" where
  "close_sink k = k\<lparr>sk_open := False\<rparr>"

definition manager_exit :: "Client \<Rightarrow> Client" where
  "manager_exit s = drop_pending (s\<lparr>connected := False, watches := [], subs := []\<rparr>)"

text \<open>The pause before another attempt to connect, doubled up to two seconds.\<close>

definition next_backoff :: "int \<Rightarrow> int" where
  "next_backoff backoff_ms = min (backoff_ms * 2) 2000"

definition shutdown_client :: "Client \<Rightarrow> Client" where
  "shutdown_client s = s\<lparr>shutdown_requested := True, sock_ok := False\<rparr>"

section \<open>Operations\<close>

text \<open>The check every operation makes on its reply.\<close>

definition check_reply :: "string \<Rightarrow> ReplyBody res \<Rightarrow> ReplyBody res" where
  "check_reply name r =
     rbind r (\<lambda>b. case b of Error e \<Rightarrow> Inl (RuntimeError (name @ '' failed: '' @ e)) | _ \<Rightarrow> Inr b)"

definition value_or_0 :: "int option \<Rightarrow> int" where
  "value_or_0 l = (case l of None \<Rightarrow> 0 | Some i \<Rightarrow> i)"

definition tcp_kv_create :: "string \<Rightarrow> string \<Rightarrow> int option \<Rightarrow> Client \<Rightarrow> u64 res \<times> Client" where
  "tcp_kv_create key val l s = request (KvCreate key (value_or_0 l) val) s"

definition tcp_kv_put :: "string \<Rightarrow> string \<Rightarrow> int option \<Rightarrow> Client \<Rightarrow> u64 res \<times> Client" where
  "tcp_kv_put key val l s = request (KvPut key (value_or_0 l) val) s"

definition tcp_kv_create_or_validate ::
  "string \<Rightarrow> string \<Rightarrow> int option \<Rightarrow> Client \<Rightarrow> u64 res \<times> Client" where
  "tcp_kv_create_or_validate key val l s = request (KvCreateOrValidate key (value_or_0 l) val) s"

definition tcp_kv_get_prefix :: "ReplyBody option \<Rightarrow> KeyValue list res" where
  "tcp_kv_get_prefix reply =
     rbind (await_reply reply)
       (\<lambda>b. case b of Kvs kvs revn \<Rightarrow> Inr kvs | _ \<Rightarrow> Inl (OutOfRange ''kvs''))"

definition tcp_publish :: "string \<Rightarrow> string \<Rightarrow> Client \<Rightarrow> u64 res \<times> Client" where
  "tcp_publish subject payload s = request (PublishTo subject payload) s"

definition tcp_queue_dispatch :: "string \<Rightarrow> string \<Rightarrow> Client \<Rightarrow> u64 res \<times> Client" where
  "tcp_queue_dispatch subject payload s = request (DispatchTo subject payload) s"

definition tcp_make_lease :: "int \<Rightarrow> Client \<Rightarrow> u64 res \<times> Client" where
  "tcp_make_lease ttl s = request (CreateLease ttl) s"

text \<open>The cached primary lease: the field at the second look, and the lease just made.\<close>

definition tcp_primary_lease :: "int option \<Rightarrow> int \<Rightarrow> int \<times> int option" where
  "tcp_primary_lease primary lease =
     (case primary of None \<Rightarrow> (lease, Some lease) | Some l \<Rightarrow> (l, Some l))"

text \<open>\<open>make_lease\<close> from its reply on: the token is entered and the keep-alive loop starts.\<close>

definition make_lease_done :: "ReplyBody option \<Rightarrow> Client \<Rightarrow> int res \<times> Client" where
  "make_lease_done reply s =
     (case check_reply ''create_lease'' (await_reply reply) of
        Inl e \<Rightarrow> (Inl e, s)
      | Inr (LeaseId i) \<Rightarrow> (Inr i, s\<lparr>lease_tokens := i # lease_tokens s\<rparr>)
      | Inr _ \<Rightarrow> (Inl (OutOfRange ''lease_id''), s))"

definition new_watch :: "string \<Rightarrow> WatchRecord" where
  "new_watch p = \<lparr>wr_prefix = p, wr_sink = sink_new, live_keys = [], sync_keys = [], syncing = True,
     last_rev = 0\<rparr>"

definition watch_begin :: "string \<Rightarrow> Client \<Rightarrow> (u64 \<times> u64) res \<times> Client" where
  "watch_begin p s =
     (if shutdown_requested s then (lost, s)
      else
        let i = next_watch_id s;
            s = s\<lparr>next_watch_id := i + 1, watches := watches s @ [(i, new_watch p)]\<rparr>
        in case request (WatchPrefix p i (- 1)) s of
             (Inl e, s) \<Rightarrow> (Inl e, s)
           | (Inr q, s) \<Rightarrow> (Inr (i, q), s))"

definition watch_end :: "u64 \<Rightarrow> ReplyBody option \<Rightarrow> Client \<Rightarrow> u64 res \<times> Client" where
  "watch_end i reply s =
     (case reply of
        None \<Rightarrow> (lost, s)
      | Some (Error e) \<Rightarrow>
          (Inl (RuntimeError (''watch failed: '' @ e)), s\<lparr>watches := erase_at i (watches s)\<rparr>)
      | Some _ \<Rightarrow> (Inr i, s))"

definition subscribe_begin :: "string \<Rightarrow> Client \<Rightarrow> (u64 \<times> u64) res \<times> Client" where
  "subscribe_begin subject s =
     (if shutdown_requested s then (lost, s)
      else
        let i = next_sub_id s;
            s = s\<lparr>next_sub_id := i + 1,
                  subs := subs s @ [(i, \<lparr>sr_subject = subject, sr_sink = sink_new\<rparr>)]\<rparr>
        in case request (SubscribeTo i subject) s of
             (Inl e, s) \<Rightarrow> (Inl e, s)
           | (Inr q, s) \<Rightarrow> (Inr (i, q), s))"

definition subscribe_end :: "u64 \<Rightarrow> ReplyBody option \<Rightarrow> Client \<Rightarrow> u64 res \<times> Client" where
  "subscribe_end i reply s =
     (case reply of
        None \<Rightarrow> (lost, s)
      | Some (Error e) \<Rightarrow>
          (Inl (RuntimeError (''subscribe failed: '' @ e)), s\<lparr>subs := erase_at i (subs s)\<rparr>)
      | Some _ \<Rightarrow> (Inr i, s))"

section \<open>Keep-alive\<close>

text \<open>The loop for one lease.  Its environment is a list of what happens round by round: the
  token is cancelled, the request is answered, or it fails; the last two read the clock.  The loop ends
  with the reason, or is still going when the list is used up.\<close>

datatype KaInput = TokenCancelled | Answered bool int | Failed int

datatype KaResult = Revoked | Expired | DeadlinePassed | Going int int

fun keep_alive_loop :: "int \<Rightarrow> KaInput list \<Rightarrow> int \<Rightarrow> int \<Rightarrow> KaResult" where
  "keep_alive_loop ttl_ms [] deadline interval = Going deadline interval"
| "keep_alive_loop ttl_ms (TokenCancelled # xs) deadline interval = Revoked"
| "keep_alive_loop ttl_ms (Answered ok now # xs) deadline interval =
     (if \<not> ok then Expired else keep_alive_loop ttl_ms xs (now + ttl_ms) (ttl_ms div 2))"
| "keep_alive_loop ttl_ms (Failed now # xs) deadline interval =
     (if now \<ge> deadline then DeadlinePassed
      else keep_alive_loop ttl_ms xs deadline (min (ttl_ms div 4) 500))"

definition keep_alive :: "int \<Rightarrow> int \<Rightarrow> KaInput list \<Rightarrow> KaResult" where
  "keep_alive start ttl_ms xs = keep_alive_loop ttl_ms xs (start + ttl_ms) (ttl_ms div 2)"

text \<open>The last lines of the loop: the token is cancelled by the loop itself unless it was already, and
  forgotten.\<close>

definition keep_alive_done :: "int \<Rightarrow> Client \<Rightarrow> Client" where
  "keep_alive_done lease_id s = s\<lparr>lease_tokens := removeAll lease_id (lease_tokens s)\<rparr>"

section \<open>Routing\<close>

lemma map_of_upd_at: "map_of (upd_at i f m) k = (if k = i then map_option f (map_of m k) else map_of m k)"
  by (induction m) (auto simp: upd_at_def)

lemma send_all_open:
  "sk_open k \<Longrightarrow> send_all es k = (True, k\<lparr>sk_sent := sk_sent k @ es\<rparr>)"
  by (induction es arbitrary: k) (simp_all add: sink_send_def)

text \<open>A frame on one record whose consumer is there.\<close>

definition feed :: "Frame \<Rightarrow> WatchRecord \<Rightarrow> WatchRecord" where
  "feed f r = (let (r', es) = record_frame f r
               in r'\<lparr>wr_sink := (wr_sink r')\<lparr>sk_sent := sk_sent (wr_sink r') @ es\<rparr>\<rparr>)"

lemma record_frame_sink [simp]:
  "wr_sink (fst (record_frame f r)) = wr_sink r" "wr_prefix (fst (record_frame f r)) = wr_prefix r"
  by (cases f; simp add: sync_record_def put_record_def delete_record_def Let_def)+

lemma feed_open [simp]: "sk_open (wr_sink (feed f r)) = sk_open (wr_sink r)"
  and feed_prefix [simp]: "wr_prefix (feed f r) = wr_prefix r"
  by (simp_all add: feed_def case_prod_unfold Let_def)

lemma route_feed:
  assumes "map_of (watches s) i = Some r" "sk_open (wr_sink r)"
  shows "map_of (watches (route_watch_frame i f s)) i = Some (feed f r)"
  using assms
  by (simp add: route_watch_frame_def case_prod_unfold Let_def send_all_open map_of_upd_at feed_def)

fun is_for :: "u64 \<Rightarrow> Frame \<Rightarrow> bool" where
  "is_for i (WatchFrame j b kv) = (i = j)"
| "is_for i (SyncFrame j m revn) = (i = j)"
| "is_for i _ = False"

lemma route_frames_feed:
  "map_of (watches s) i = Some r \<Longrightarrow> sk_open (wr_sink r) \<Longrightarrow> \<forall>f\<in>set fs. is_for i f \<Longrightarrow>
   map_of (watches (fold route_frame fs s)) i = Some (fold feed fs r)"
proof (induction fs arbitrary: s r)
  case (Cons f fs)
  have "route_frame f s = route_watch_frame i f s" using Cons.prems(3) by (cases f) auto
  moreover have "map_of (watches (route_watch_frame i f s)) i = Some (feed f r)"
    using Cons.prems(1,2) by (rule route_feed)
  ultimately show ?case using Cons.IH [of "route_frame f s" "feed f r"] Cons.prems(2,3) by simp
qed simp

lemma watch_frames_for: "\<forall>f\<in>set (watch_frames p i r s). is_for i f"
  by (auto simp: watch_frames_def)

lemma fold_client_write_watches [simp]:
  "watches (fold (\<lambda>e s. snd (client_write 0 (g e) s)) es s) = watches s"
  "subs (fold (\<lambda>e s. snd (client_write 0 (g e) s)) es s) = subs s"
  by (induction es arbitrary: s) (simp_all add: client_write_def)

lemma manager_connect_watches:
  "watches (manager_connect k) = map (\<lambda>e. (fst e, enter_sync (snd e))) (watches k)"
  by (simp add: manager_connect_def resubscribe_all_def Let_def)

lemma map_of_map_snd: "map_of (map (\<lambda>e. (fst e, f (snd e))) m) i = map_option f (map_of m i)"
  by (induction m) auto

lemma fold_client_write_out:
  "sock_ok s \<Longrightarrow> out (fold (\<lambda>e s. snd (client_write 0 (g e) s)) es s) = out s @ map (\<lambda>e. (0, g e)) es
     \<and> sock_ok (fold (\<lambda>e s. snd (client_write 0 (g e) s)) es s)"
  by (induction es arbitrary: s) (simp_all add: client_write_def)

lemma manager_connect_out:
  "out (manager_connect k) = map (\<lambda>e. (0, resub_request (fst e) (enter_sync (snd e)))) (watches k)
     @ map (\<lambda>e. (0, SubscribeTo (fst e) (sr_subject (snd e)))) (subs k)"
  using fold_client_write_out [of "k\<lparr>sock_ok := True, out := [],
        watches := map (\<lambda>e. (fst e, enter_sync (snd e))) (watches k)\<rparr>"
      "\<lambda>e. resub_request (fst e) (snd e)"]
  by (simp add: manager_connect_def resubscribe_all_def Let_def fold_client_write_out comp_def)

section \<open>Watches across connections\<close>

text \<open>What the consumer of a watch believes; and that it is the state of the server at a moment.\<close>

definition consumer :: "WatchRecord \<Rightarrow> view" where
  "consumer r = replay (sk_sent (wr_sink r)) (\<lambda>_. None)"

definition tracks :: "WatchRecord \<Rightarrow> bool" where
  "tracks r \<longleftrightarrow> set (live_keys r) = dom (consumer r)"

definition in_sync :: "WatchRecord \<Rightarrow> State \<Rightarrow> bool" where
  "in_sync r s \<longleftrightarrow>
     consumer r = under (wr_prefix r) (srv_view s) \<and> tracks r \<and> last_rev r = st_revision s"

lemma consumer_feed: "consumer (feed f r) = replay (snd (record_frame f r)) (consumer r)"
  by (simp add: consumer_def feed_def case_prod_unfold Let_def)

lemma feed_watch_frame:
  assumes "tracks r"
  shows "tracks (feed (WatchFrame i b kv) r)"
    and "consumer (feed (WatchFrame i b kv) r) = apply_ev (if b then Put kv else Delete kv) (consumer r)"
    and "last_rev (feed (WatchFrame i b kv) r) = max (last_rev r) (kv_mod_revision kv)"
    and "syncing (feed (WatchFrame i b kv) r) = syncing r"
proof -
  show c: "consumer (feed (WatchFrame i b kv) r) = apply_ev (if b then Put kv else Delete kv) (consumer r)"
    by (simp add: consumer_feed put_record_def delete_record_def)
  have "set (live_keys (feed (WatchFrame i b kv) r)) =
      (if b then insert (kv_key kv) (set (live_keys r)) else set (live_keys r) - {kv_key kv})"
    by (simp add: feed_def put_record_def delete_record_def set_insort_insert)
  then show "tracks (feed (WatchFrame i b kv) r)"
    using assms by (auto simp: tracks_def c)
qed (simp_all add: feed_def put_record_def delete_record_def)

lemma feed_watch_frames:
  "tracks r \<Longrightarrow>
   tracks (fold feed (map (\<lambda>x. WatchFrame i (b x) (kv x)) xs) r)
   \<and> consumer (fold feed (map (\<lambda>x. WatchFrame i (b x) (kv x)) xs) r)
     = replay (frame_events (map (\<lambda>x. WatchFrame i (b x) (kv x)) xs)) (consumer r)
   \<and> last_rev (fold feed (map (\<lambda>x. WatchFrame i (b x) (kv x)) xs) r)
     = fold (\<lambda>x n. max n (kv_mod_revision (kv x))) xs (last_rev r)
   \<and> syncing (fold feed (map (\<lambda>x. WatchFrame i (b x) (kv x)) xs) r) = syncing r"
  by (induction xs arbitrary: r) (simp_all add: feed_watch_frame)

lemma feed_puts_sync_keys:
  "syncing r \<Longrightarrow>
   set (sync_keys (fold feed (map (\<lambda>x. WatchFrame i True (kv x)) xs) r))
   = set (sync_keys r) \<union> (\<lambda>x. kv_key (kv x)) ` set xs"
proof (induction xs arbitrary: r)
  case (Cons x xs)
  have "syncing (feed (WatchFrame i True (kv x)) r)"
    "set (sync_keys (feed (WatchFrame i True (kv x)) r)) = insert (kv_key (kv x)) (set (sync_keys r))"
    using Cons.prems by (simp_all add: feed_def put_record_def set_insort_insert)
  then show ?case using Cons.IH by simp
qed simp

lemma fold_max_bound:
  "n \<le> m \<Longrightarrow> \<forall>x\<in>set xs. f x \<le> m \<Longrightarrow> fold (\<lambda>x n. max n (f x)) xs n \<le> (m :: int)"
  by (induction xs arbitrary: n) auto

text \<open>Every revision in the store and in the log is at most the current one.\<close>

lemma replay_origin:
  "replay (map le_event es) v k = Some kv \<Longrightarrow> v k = Some kv \<or> (\<exists>l\<in>set es. kv = logged_kv l)"
proof (induction es arbitrary: v)
  case (Cons l es)
  then show ?case by (cases "le_is_put l") (force simp: le_event.simps split: if_splits)+
qed simp

lemma revisions_bounded:
  assumes F: "advances new_state F s"
  shows "l \<in> set F \<Longrightarrow> le_rev l \<le> st_revision s"
    and "srv_view s k = Some kv \<Longrightarrow> kv_mod_revision kv \<le> st_revision s"
proof -
  show F': "le_rev l \<le> st_revision s" if l: "l \<in> set F" for l
  proof -
    obtain i where "i < length F" "l = F ! i" using l by (auto simp: in_set_conv_nth)
    then show ?thesis using log_from_start [OF F] by simp
  qed
  assume "srv_view s k = Some kv"
  then obtain l where "l \<in> set F" "kv = logged_kv l"
    using replay_origin [of F "\<lambda>_. None" k kv] view_at_all [OF F] by (auto simp: view_at_def)
  then show "kv_mod_revision kv \<le> st_revision s" using F' by (simp add: logged_kv_def)
qed

text \<open>The sync marker, in its two modes.\<close>

lemma feed_sync_replay:
  assumes "syncing r" "tracks r" "last_rev r \<le> n"
  shows "consumer (feed (SyncFrame i ReplayMode n) r) = consumer r"
    and "tracks (feed (SyncFrame i ReplayMode n) r)"
    and "last_rev (feed (SyncFrame i ReplayMode n) r) = n"
    and "\<not> syncing (feed (SyncFrame i ReplayMode n) r)"
proof -
  show c: "consumer (feed (SyncFrame i ReplayMode n) r) = consumer r"
    using assms(1) by (simp add: consumer_feed sync_record_def)
  show "tracks (feed (SyncFrame i ReplayMode n) r)"
    using assms unfolding tracks_def c by (simp add: feed_def sync_record_def)
qed (use assms in \<open>simp_all add: feed_def sync_record_def\<close>)

lemma replay_deletes:
  "replay (map (\<lambda>k. Delete \<lparr>kv_key = k, kv_value = [], kv_lease_id = 0, kv_mod_revision = 0\<rparr>) ks) v
   = (\<lambda>k. if k \<in> set ks then None else v k)"
  by (induction ks arbitrary: v) (auto simp: fun_eq_iff)

lemma feed_sync_snapshot:
  assumes "syncing r" "tracks r" "last_rev r \<le> n" "set (sync_keys r) \<subseteq> dom (consumer r)"
  shows "consumer (feed (SyncFrame i SnapshotMode n) r)
         = (\<lambda>k. if k \<in> set (sync_keys r) then consumer r k else None)"
    and "tracks (feed (SyncFrame i SnapshotMode n) r)"
    and "last_rev (feed (SyncFrame i SnapshotMode n) r) = n"
    and "\<not> syncing (feed (SyncFrame i SnapshotMode n) r)"
proof -
  show c: "consumer (feed (SyncFrame i SnapshotMode n) r)
      = (\<lambda>k. if k \<in> set (sync_keys r) then consumer r k else None)"
    using assms(1,2)
    by (auto simp: consumer_feed sync_record_def replay_deletes tracks_def fun_eq_iff)
  show "tracks (feed (SyncFrame i SnapshotMode n) r)"
    using assms(1,4) unfolding tracks_def c
    by (auto simp: feed_def sync_record_def split: if_splits)
qed (use assms in \<open>simp_all add: feed_def sync_record_def\<close>)

lemma enter_sync_simps [simp]:
  "consumer (enter_sync r) = consumer r" "tracks (enter_sync r) = tracks r"
  "last_rev (enter_sync r) = last_rev r" "wr_prefix (enter_sync r) = wr_prefix r"
  "syncing (enter_sync r)" "sync_keys (enter_sync r) = []" "wr_sink (enter_sync r) = wr_sink r"
  by (simp_all add: enter_sync_def consumer_def tracks_def)

lemma fold_feed_prefix [simp]: "wr_prefix (fold feed fs r) = wr_prefix r"
  by (induction fs arbitrary: r) simp_all

lemma resync_by_replay:
  assumes FG: "advances new_state FG s" and r: "tracks r" "syncing r"
    "consumer r = under p (view_at FG (nat (last_rev r)))"
    and n: "0 \<le> last_rev r" "last_rev r \<le> st_revision s" "can_replay_from s (last_rev r)"
    and p: "wr_prefix r = p"
  shows "in_sync (fold feed (watch_frames p i (last_rev r) s) r) s
         \<and> \<not> syncing (fold feed (watch_frames p i (last_rev r) s) r)"
proof -
  let ?xs = "filter (\<lambda>l. \<not> (le_rev l \<le> last_rev r \<or> \<not> prefix p (le_key l))) (event_log s)"
  let ?fs = "map (\<lambda>l. WatchFrame i (le_is_put l) (logged_kv l)) ?xs"
  have fs: "watch_frames p i (last_rev r) s = ?fs @ [SyncFrame i ReplayMode (st_revision s)]"
    using n by (simp add: watch_frames_def)
  let ?m = "fold feed ?fs r"
  note m = feed_watch_frames [OF r(1), of i le_is_put logged_kv ?xs]
  have c: "consumer ?m = under p (srv_view s)"
    using m replay_answer [OF FG n, of p i] unfolding fs r(3) by simp
  have "\<forall>l\<in>set ?xs. kv_mod_revision (logged_kv l) \<le> st_revision s"
    using revisions_bounded(1) [OF FG] log_from_start(2) [OF FG]
    by (auto simp: lastn_def logged_kv_def dest: in_set_dropD)
  then have l: "last_rev ?m \<le> st_revision s"
    using m n(2) fold_max_bound [of "last_rev r" "st_revision s" ?xs "\<lambda>l. kv_mod_revision (logged_kv l)"]
    by simp
  have "syncing ?m" "tracks ?m" using m r(2) by simp_all
  from feed_sync_replay [OF this l, of i] show ?thesis
    unfolding in_sync_def fs using c p by simp
qed

lemma resync_by_snapshot:
  assumes F: "advances new_state F s" and s: "state_ok s"
    and r: "tracks r" "syncing r" "sync_keys r = []" "last_rev r \<le> st_revision s"
    and n: "\<not> (0 \<le> n \<and> can_replay_from s n)" and p: "wr_prefix r = p"
  shows "in_sync (fold feed (watch_frames p i n s) r) s
         \<and> \<not> syncing (fold feed (watch_frames p i n s) r)"
proof -
  let ?xs = "om_scan p (st_kvs s)"
  let ?fs = "map (\<lambda>e. WatchFrame i True (entry_kv e)) ?xs"
  have fs: "watch_frames p i n s = ?fs @ [SyncFrame i SnapshotMode (st_revision s)]"
    using n by (auto simp: watch_frames_def)
  let ?m = "fold feed ?fs r"
  note m = feed_watch_frames [OF r(1), of i "\<lambda>_. True" entry_kv ?xs]
  have xs: "map_of ?xs k = (if prefix p k then map_of (st_kvs s) k else None)" for k
    using map_of_scan [OF state_okD(1) [OF s]] .
  have keys: "set (sync_keys ?m) = dom (under p (srv_view s))"
    using feed_puts_sync_keys [OF r(2), of i entry_kv ?xs] r(3) dom_map_of_conv_image_fst [of ?xs] xs
    by (auto simp: entry_kv_def under_def srv_view_eq dom_def image_iff split: if_splits)
  have c: "consumer ?m k = (case under p (srv_view s) k of None \<Rightarrow> consumer r k | Some kv \<Rightarrow> Some kv)" for k
  proof -
    let ?ys = "om_scan p (contents s)"
    have ys: "?ys = map (\<lambda>e. (fst e, entry_kv e)) ?xs" by (simp add: contents_def om_scan_map)
    have "keyed ?ys" "distinct (map fst ?ys)"
      using contents_ok [OF s] by (auto simp: om_scan_filter keyed_def om_ok_def distinct_map_filter)
    from replay_puts [OF this, of "consumer r" k] show ?thesis
      unfolding map_of_scan [OF contents_ok(1) [OF s]] using m
      by (simp add: ys comp_def under_def srv_view_def)
  qed
  have "\<forall>e\<in>set ?xs. kv_mod_revision (entry_kv e) \<le> st_revision s"
  proof
    fix e assume "e \<in> set ?xs"
    then have "e \<in> set (st_kvs s)" using om_scan_filter [OF state_okD(1) [OF s]] by auto
    then have "srv_view s (fst e) = Some (entry_kv e)"
      using state_okD(1) [OF s] by (auto simp: srv_view_eq om_ok_def intro!: exI [of _ "snd e"])
    then show "kv_mod_revision (entry_kv e) \<le> st_revision s" by (rule revisions_bounded(2) [OF F])
  qed
  then have l: "last_rev ?m \<le> st_revision s"
    using m r(4) fold_max_bound [of "last_rev r" "st_revision s" ?xs "\<lambda>e. kv_mod_revision (entry_kv e)"]
    by simp
  have "syncing ?m" "tracks ?m" using m r(2) by simp_all
  moreover have "set (sync_keys ?m) \<subseteq> dom (consumer ?m)" unfolding keys by (auto simp: dom_def c)
  ultimately show ?thesis
    using feed_sync_snapshot [of ?m "st_revision s" i] l p c keys
    unfolding in_sync_def fs by (auto simp: fun_eq_iff dom_def split: option.split)
qed

section \<open>The life of a watch\<close>

text \<open>Where a watch asks to continue from.\<close>

abbreviation resume_rev :: "WatchRecord \<Rightarrow> int" where
  "resume_rev r \<equiv> (if last_rev r > 0 then last_rev r else - 1)"

text \<open>
  What happens to the watch \<open>i\<close> on the prefix \<open>p\<close>, in any order and number: the server takes any step;
  the first request of the watch is answered on the connection it was made on; the client reads
  the next change under the prefix that it has not recorded; and a connection is lost, made again, and the
  renewed request answered. Answers are read to their end: a connection that is lost inside one is
  not part of the relation.
\<close>

inductive watch_life :: "u64 \<Rightarrow> string \<Rightarrow> State \<Rightarrow> Client \<Rightarrow> bool" for i p where
  begun: "map_of (watches k) i = Some (new_watch p) \<Longrightarrow> watch_life i p (fold srv_step ops new_state) k"
| server: "watch_life i p s k \<Longrightarrow> watch_life i p (srv_step op s) k"
| first_answer: "watch_life i p s k \<Longrightarrow> map_of (watches k) i = Some (new_watch p) \<Longrightarrow>
    watch_life i p s (fold route_frame (watch_frames p i (- 1) s) k)"
| update: "watch_life i p s k \<Longrightarrow> map_of (watches k) i = Some r \<Longrightarrow> can_replay_from s (last_rev r) \<Longrightarrow>
    find (\<lambda>l. last_rev r < le_rev l \<and> prefix p (le_key l)) (event_log s) = Some l \<Longrightarrow>
    watch_life i p s (route_frame (WatchFrame i (le_is_put l) (logged_kv l)) k)"
| reconnect: "watch_life i p s k \<Longrightarrow> map_of (watches k) i = Some r \<Longrightarrow>
    watch_life i p s (fold route_frame (watch_frames p i (resume_rev r) s) (manager_connect (manager_disconnect k)))"

text \<open>The consumer has seen every change up to the revision that is recorded.\<close>

definition caught_up :: "string \<Rightarrow> WatchRecord \<Rightarrow> State \<Rightarrow> bool" where
  "caught_up p r s \<longleftrightarrow> wr_prefix r = p \<and> sk_open (wr_sink r) \<and> tracks r \<and> 0 \<le> last_rev r \<and> last_rev r \<le> st_revision s
     \<and> (\<exists>F. advances new_state F s \<and> consumer r = under p (view_at F (nat (last_rev r))))"

lemma caught_up_new:
  assumes "s = fold srv_step ops new_state"
  shows "caught_up p (new_watch p) s"
proof -
  obtain F where F: "advances new_state F s" using run_history [of ops "[]"] unfolding assms by blast
  have "tracks (new_watch p)" "consumer (new_watch p) = under p (view_at F 0)"
    by (simp_all add: new_watch_def consumer_def tracks_def sink_new_def view_at_def under_def)
  then show ?thesis
    using F log_from_start(1) [OF F] by (auto simp: caught_up_def new_watch_def sink_new_def)
qed

lemma caught_up_server:
  assumes "caught_up p r s" "state_ok s"
  shows "caught_up p r (srv_step op s)"
proof -
  obtain F where F: "advances new_state F s" "consumer r = under p (view_at F (nat (last_rev r)))"
    using assms(1) by (auto simp: caught_up_def)
  obtain G where G: "advances s G (srv_step op s)"
    using keeps_step [OF assms(2), of op] by (auto simp: keeps_def)
  have "nat (last_rev r) \<le> length F" using assms(1) log_from_start(1) [OF F(1)] by (auto simp: caught_up_def)
  then have "view_at (F @ G) (nat (last_rev r)) = view_at F (nat (last_rev r))" by (simp add: view_at_def)
  then show ?thesis
    using assms(1) F advances_trans [OF F(1) G] advancesD(1) [OF G] by (auto simp: caught_up_def)
qed

text \<open>The changes between two revisions that are not under the prefix do not matter.\<close>

lemma next_change:
  assumes F: "advances new_state F s" and n: "0 \<le> n" "n \<le> st_revision s" "can_replay_from s n"
    and l: "find (\<lambda>l. n < le_rev l \<and> prefix p (le_key l)) (event_log s) = Some l"
  shows "n < le_rev l" "le_rev l \<le> st_revision s"
    "under p (view_at F (nat (le_rev l))) = apply_ev (le_event l) (under p (view_at F (nat n)))"
proof -
  let ?D = "drop (nat n) F"
  have D: "filter (\<lambda>l. n < le_rev l) (event_log s) = ?D"
    using replayable [OF F n] by (simp add: not_le)
  have split: "find (\<lambda>l. n < le_rev l \<and> prefix p (le_key l)) xs = find (\<lambda>l. prefix p (le_key l)) (filter (\<lambda>l. n < le_rev l) xs)"
    for xs by (induction xs) auto
  have "find (\<lambda>l. prefix p (le_key l)) ?D = Some l" using l unfolding split D .
  then obtain j where j: "j < length ?D" "l = ?D ! j" "prefix p (le_key l)" "\<forall>i<j. \<not> prefix p (le_key (?D ! i))"
    by (auto simp: find_Some_iff)
  have rev: "le_rev l = 1 + n + int j"
    using log_from_start(3) [OF F, of "nat n + j"] j(1,2) n(1) by simp
  then show "n < le_rev l" by simp
  show "le_rev l \<le> st_revision s" using rev j(1) n(1) log_from_start(1) [OF F] by simp
  have "take (nat (le_rev l)) F = take (nat n) F @ take j ?D @ [l]"
  proof -
    have "nat (le_rev l) = nat n + Suc j" using rev n(1) by simp
    then have "take (nat (le_rev l)) F = take (nat n) F @ take (Suc j) ?D" by (simp only: take_add)
    then show ?thesis using j(1,2) by (simp add: take_Suc_conv_app_nth)
  qed
  moreover have "filter (\<lambda>e. prefix p (ev_key e)) (map le_event (take j ?D)) = []"
    using j(1,4) by (auto simp: filter_empty_conv in_set_conv_nth)
  ultimately show "under p (view_at F (nat (le_rev l))) = apply_ev (le_event l) (under p (view_at F (nat n)))"
    using j(3) by (simp add: view_at_def under_apply under_replay [of p "map le_event (take j ?D)"])
qed

lemma caught_up_update:
  assumes c: "caught_up p r s" and l: "can_replay_from s (last_rev r)"
      "find (\<lambda>l. last_rev r < le_rev l \<and> prefix p (le_key l)) (event_log s) = Some l"
  shows "caught_up p (feed (WatchFrame i (le_is_put l) (logged_kv l)) r) s"
proof -
  obtain F where F: "advances new_state F s" "consumer r = under p (view_at F (nat (last_rev r)))"
    and r: "wr_prefix r = p" "sk_open (wr_sink r)" "tracks r" "0 \<le> last_rev r" "last_rev r \<le> st_revision s"
    using c by (auto simp: caught_up_def)
  note n = next_change [OF F(1) r(4,5) l]
  note f = feed_watch_frame [OF r(3), of i "le_is_put l" "logged_kv l"]
  have "last_rev (feed (WatchFrame i (le_is_put l) (logged_kv l)) r) = le_rev l"
    using f(3) n(1) by (simp add: logged_kv_def)
  moreover have "consumer (feed (WatchFrame i (le_is_put l) (logged_kv l)) r) = under p (view_at F (nat (le_rev l)))"
    unfolding n(3) f(2) F(2) by (simp add: le_event.simps)
  ultimately show ?thesis using r n F(1) f(1) by (auto simp: caught_up_def)
qed

lemma answered_in_sync:
  assumes s: "state_ok s" and c: "caught_up p r s" and r: "syncing r" "sync_keys r = []"
    and n: "n = - 1 \<or> n = last_rev r"
  shows "in_sync (fold feed (watch_frames p i n s) r) s \<and> \<not> syncing (fold feed (watch_frames p i n s) r)"
proof -
  obtain F where F: "advances new_state F s" "consumer r = under p (view_at F (nat (last_rev r)))"
    and k: "wr_prefix r = p" "tracks r" "0 \<le> last_rev r" "last_rev r \<le> st_revision s"
    using c by (auto simp: caught_up_def)
  show ?thesis
  proof (cases "0 \<le> n \<and> can_replay_from s n")
    case True
    then have "n = last_rev r" using n by auto
    then show ?thesis using resync_by_replay [OF F(1) k(2) r(1) F(2) k(3,4) _ k(1), of i] True by simp
  next
    case False
    then show ?thesis using resync_by_snapshot [OF F(1) s k(2) r(1,2) k(4) False k(1), of i] by simp
  qed
qed

lemma fold_feed_open [simp]: "sk_open (wr_sink (fold feed fs r)) = sk_open (wr_sink r)"
  by (induction fs arbitrary: r) simp_all

lemma in_sync_caught_up:
  assumes "state_ok s" "advances new_state F s" "in_sync r s" "sk_open (wr_sink r)" "wr_prefix r = p"
  shows "caught_up p r s"
  using assms log_from_start(1) [OF assms(2)] view_at_all [OF assms(2)]
  by (auto simp: caught_up_def in_sync_def)

lemma answered_record:
  assumes "state_ok s" "caught_up p r s" "syncing r" "sync_keys r = []" "n = - 1 \<or> n = last_rev r"
    and "map_of (watches k) i = Some r"
  shows "\<exists>r'. map_of (watches (fold route_frame (watch_frames p i n s) k)) i = Some r'
    \<and> in_sync r' s \<and> \<not> syncing r' \<and> wr_prefix r' = p \<and> caught_up p r' s"
proof -
  let ?r = "fold feed (watch_frames p i n s) r"
  have o: "sk_open (wr_sink r)" "wr_prefix r = p" using assms(2) by (auto simp: caught_up_def)
  obtain F where "advances new_state F s" using assms(2) by (auto simp: caught_up_def)
  from in_sync_caught_up [OF assms(1) this, of ?r p] answered_in_sync [OF assms(1-5), of i] o
    route_frames_feed [OF assms(6) o(1) watch_frames_for, of p n s]
  show ?thesis by auto
qed

lemma reconnected_record:
  "map_of (watches k) i = Some r \<Longrightarrow> map_of (watches (manager_connect (manager_disconnect k))) i = Some (enter_sync r)"
  by (simp add: manager_connect_watches map_of_map_snd manager_disconnect_def drop_pending_def)

lemma caught_up_enter_sync [simp]: "caught_up p (enter_sync r) s = caught_up p r s"
  by (simp add: caught_up_def)

lemma reconnected_answer:
  assumes "state_ok s" "caught_up p r s" "map_of (watches k) i = Some r"
  shows "\<exists>r'. map_of (watches (fold route_frame (watch_frames p i (resume_rev r) s)
      (manager_connect (manager_disconnect k)))) i = Some r'
    \<and> in_sync r' s \<and> \<not> syncing r' \<and> wr_prefix r' = p \<and> caught_up p r' s"
  by (rule answered_record [OF assms(1) _ _ _ _ reconnected_record [OF assms(3)]]) (use assms(2) in auto)

lemma watch_life_ok:
  "watch_life i p s k \<Longrightarrow> state_ok s \<and> (\<exists>r. map_of (watches k) i = Some r \<and> caught_up p r s)"
proof (induction rule: watch_life.induct)
  case (begun k ops)
  then show ?case using caught_up_new [OF refl] reachable_state_ok by blast
next
  case (server s k op)
  then show ?case using caught_up_server keeps_step [of s op] by (auto simp: keeps_def)
next
  case (first_answer s k)
  then show ?case using answered_record [of s p "new_watch p" "- 1" k i] by (auto simp: new_watch_def)
next
  case (update s k r l)
  moreover from this have "sk_open (wr_sink r)" by (auto simp: caught_up_def)
  ultimately show ?case
    using caught_up_update [of p r s l i] route_feed [of k i r "WatchFrame i (le_is_put l) (logged_kv l)"] by auto
next
  case (reconnect s k r)
  then show ?case using reconnected_answer [of s p r k i] by auto
qed

section \<open>Properties\<close>

text \<open>C17.  A watch survives lost connections.  Take the life of a watch up to some moment: anything
  happens on the server, the client reads changes in the order the server made them, and connections
  are lost and made again, except inside the answer to a request of the watch, which is read to its
  end.  If the connection is lost now, the client asks again for the watch on the next one, from
  the revision it has recorded; the server writes the answer in one piece; and when the client has
  worked through it, the consumer sees exactly what the server holds under the prefix, deleted keys
  included, the recorded revision is the server's, and the watch counts as synchronised.\<close>

theorem reconnect_resyncs:
  assumes "watch_life i p s k"
  shows "\<exists>r r'. map_of (watches k) i = Some r
    \<and> (0, WatchPrefix p i (resume_rev r)) \<in> set (out (manager_connect (manager_disconnect k)))
    \<and> (\<forall>c now. cn_open (conns s c) \<longrightarrow>
        cn_out (conns (handle_request now c 0 (WatchPrefix p i (resume_rev r)) s) c)
          = cn_out (conns s c) @ watch_frames p i (resume_rev r) s @ [Reply 0 Done])
    \<and> map_of (watches (fold route_frame (watch_frames p i (resume_rev r) s)
        (manager_connect (manager_disconnect k)))) i = Some r'
    \<and> consumer r' = under p (srv_view s) \<and> last_rev r' = st_revision s \<and> \<not> syncing r'"
proof -
  obtain r where s: "state_ok s" and r: "map_of (watches k) i = Some r" "caught_up p r s"
    using watch_life_ok [OF assms] by blast
  obtain r' where "map_of (watches (fold route_frame (watch_frames p i (resume_rev r) s)
        (manager_connect (manager_disconnect k)))) i = Some r'"
      "in_sync r' s" "\<not> syncing r'" "wr_prefix r' = p"
    using reconnected_answer [OF s r(2,1)] by blast
  moreover have "(0, WatchPrefix p i (resume_rev r)) \<in> set (out (manager_connect (manager_disconnect k)))"
    using map_of_SomeD [OF r(1)] r(2)
    by (force simp: manager_connect_out resub_request_def manager_disconnect_def drop_pending_def caught_up_def)
  ultimately show ?thesis
    using r(1) by (auto simp: in_sync_def handle_watch_out)
qed

text \<open>The revision a client keeps does not survive an interrupted snapshot.  With two keys on the
  server, the one first in key order written last, a new watch that loses its connection after the first
  snapshot frame asks next time from the latest revision; the server has nothing to replay and
  the watch counts as synchronised, but its consumer never hears of the second key.\<close>

lemma interrupted_snapshot_loses_keys:
  "\<exists>s k r.
     s = fold srv_step [Accept, Handle 0 0 1 (KvPut ''w/b'' 0 ''old''), Handle 0 0 2 (KvPut ''w/a'' 0 ''new'')]
           new_state
     \<and> k = manager_connect (manager_disconnect (fold route_frame (take 1 (watch_frames ''w/'' 1 (- 1) s))
             (snd (watch_begin ''w/'' new_client))))
     \<and> (0, WatchPrefix ''w/'' 1 2) \<in> set (out k)
     \<and> map_of (watches (fold route_frame (watch_frames ''w/'' 1 2 s) k)) 1 = Some r
     \<and> \<not> syncing r \<and> last_rev r = st_revision s
     \<and> consumer r ''w/b'' = None \<and> srv_view s ''w/b'' \<noteq> None"
proof -
  define s where "s = fold srv_step [Accept, Handle 0 0 1 (KvPut ''w/b'' 0 ''old''),
      Handle 0 0 2 (KvPut ''w/a'' 0 ''new'')] new_state"
  note eval = new_state_def accept_conn_def handle_request_def lease_missing_def push_key_def
    store_entry_def mutate_and_notify_locked_def log_mutation_locked_def kEventLogCapacity_def
    write_conn_def conn_write_def Let_def
  let ?kv = "\<lparr>kv_key = ''w/a'', kv_value = ''new'', kv_lease_id = 0, kv_mod_revision = 2\<rparr>"
  have f1: "take 1 (watch_frames ''w/'' 1 (- 1) s) = [WatchFrame 1 True ?kv]"
    and f2: "watch_frames ''w/'' 1 2 s = [SyncFrame 1 ReplayMode 2]"
    and s2: "st_revision s = 2" and v: "srv_view s ''w/b'' \<noteq> None"
    by (simp_all add: s_def eval watch_frames_def can_replay_from_def om_scan_def entry_kv_def
        srv_view_eq)
  define k where "k = manager_connect (manager_disconnect (fold route_frame
      (take 1 (watch_frames ''w/'' 1 (- 1) s)) (snd (watch_begin ''w/'' new_client))))"
  note cl = new_client_def watch_begin_def request_def client_write_def new_watch_def route_watch_frame_def
    put_record_def sink_new_def sink_send_def upd_at_def manager_disconnect_def drop_pending_def
    manager_connect_def resubscribe_all_def enter_sync_def resub_request_def Let_def
  have o: "(0, WatchPrefix ''w/'' 1 2) \<in> set (out k)"
    and w: "map_of (watches k) 1 = Some \<lparr>wr_prefix = ''w/'',
        wr_sink = \<lparr>sk_open = True, sk_sent = [Put ?kv]\<rparr>, live_keys = [''w/a''], sync_keys = [],
        syncing = True, last_rev = 2\<rparr>" (is "_ = Some ?r")
    unfolding k_def f1 by (simp_all add: cl insort_insert_key_def)
  define r where "r = feed (SyncFrame 1 ReplayMode 2) ?r"
  have "map_of (watches (fold route_frame (watch_frames ''w/'' 1 2 s) k)) 1 = Some r"
    using route_frames_feed [OF w, of "watch_frames ''w/'' 1 2 s"] unfolding f2 r_def by simp
  moreover have "\<not> syncing r" "last_rev r = st_revision s" "consumer r ''w/b'' = None"
    by (simp_all add: r_def s2 feed_def sync_record_def consumer_def)
  ultimately show ?thesis using o v by (intro exI [of _ s] exI [of _ k] exI [of _ r] conjI s_def k_def)
qed

theorem reconnect_resyncs_witness:
  "\<exists>s k. s = fold srv_step [Accept, Handle 0 0 1 (KvPut ''w/b'' 0 ''v'')] new_state
     \<and> k = snd (watch_begin ''w/'' new_client) \<and> watch_life 1 ''w/'' s k
     \<and> (\<exists>r'. map_of (watches (fold route_frame (watch_frames ''w/'' 1 (- 1) s)
                   (manager_connect (manager_disconnect k)))) 1 = Some r' \<and> consumer r' = under ''w/'' (srv_view s))"
proof -
  define s where "s = fold srv_step [Accept, Handle 0 0 1 (KvPut ''w/b'' 0 ''v'')] new_state"
  define k where "k = snd (watch_begin ''w/'' new_client)"
  have w: "map_of (watches k) 1 = Some (new_watch ''w/'')"
    by (simp add: k_def new_client_def watch_begin_def request_def client_write_def Let_def)
  have life: "watch_life 1 ''w/'' s k" unfolding s_def by (rule watch_life.begun [OF w])
  have "resume_rev (new_watch ''w/'') = - 1" by (simp add: new_watch_def)
  with reconnect_resyncs [OF life] w
  have "\<exists>r'. map_of (watches (fold route_frame (watch_frames ''w/'' 1 (- 1) s)
      (manager_connect (manager_disconnect k)))) 1 = Some r' \<and> consumer r' = under ''w/'' (srv_view s)"
    by auto
  with life show ?thesis
    by - (rule exI [of _ s], rule exI [of _ k], intro conjI s_def k_def)
qed

text \<open>When the last heartbeat landed.\<close>

fun last_beat :: "int \<Rightarrow> KaInput list \<Rightarrow> int" where
  "last_beat b [] = b"
| "last_beat b (Answered ok now # xs) = last_beat (if ok then now else b) xs"
| "last_beat b (_ # xs) = last_beat b xs"

definition going :: "KaResult \<Rightarrow> bool" where
  "going r \<longleftrightarrow> (case r of Going d i \<Rightarrow> True | _ \<Rightarrow> False)"

lemma going_simps [simp]: "going (Going d i)" "\<not> going Revoked" "\<not> going Expired" "\<not> going DeadlinePassed"
  by (simp_all add: going_def)

lemma first_failure_split:
  "(\<exists>ys now zs. x # xs = ys @ Failed now # zs \<and> P ys now) \<longleftrightarrow>
   (\<exists>now. x = Failed now \<and> P [] now) \<or> (\<exists>ys now zs. xs = ys @ Failed now # zs \<and> P (x # ys) now)"
  unfolding Cons_eq_append_conv by blast

lemma keep_alive_loop_deadline:
  "keep_alive_loop ttl xs (b + ttl) i = DeadlinePassed \<longleftrightarrow>
     (\<exists>ys now zs. xs = ys @ Failed now # zs \<and> going (keep_alive_loop ttl ys (b + ttl) i)
        \<and> last_beat b ys + ttl \<le> now)"
proof (induction xs arbitrary: b i)
  case (Cons x xs)
  note split = first_failure_split [of x xs "\<lambda>ys now. going (keep_alive_loop ttl ys (b + ttl) i)
        \<and> last_beat b ys + ttl \<le> now"]
  show ?case
  proof (cases x)
    case TokenCancelled
    then show ?thesis unfolding split by simp
  next
    case (Answered ok now)
    then show ?thesis unfolding split using Cons.IH [of now "ttl div 2"] by (cases ok) simp_all
  next
    case (Failed now)
    then show ?thesis unfolding split using Cons.IH [of b "min (ttl div 4) 500"]
      by (cases "b + ttl \<le> now") simp_all
  qed
qed simp

text \<open>The client gives a lease up for lack of heartbeats exactly when a heartbeat attempt fails
  a full time-to-live or more after the last one that landed (or after the start), the loop having
  gone on until then.  Failures inside the window never end it.\<close>

lemma keep_alive_deadline:
  "keep_alive start ttl_ms xs = DeadlinePassed \<longleftrightarrow>
     (\<exists>ys now zs. xs = ys @ Failed now # zs \<and> going (keep_alive start ttl_ms ys)
        \<and> last_beat start ys + ttl_ms \<le> now)"
  unfolding keep_alive_def by (rule keep_alive_loop_deadline)

end
