(* ===== verification/Tensor.thy ===== *)
theory Tensor
  imports Prelude
begin

text \<open>
  Storage slabs and tensor views, from \<^verbatim>\<open>src/llm/kv/storage.h\<close> and
  \<^verbatim>\<open>src/llm/kv/storage.cpp\<close>.  Memory is a map from addresses to bytes; \<open>size_t\<close> arithmetic is on
  naturals with the wrap-around at \<open>2 ^ 64\<close> written out (\<open>wmul\<close>, \<open>wadd\<close>).  The allocator is outside: what
  it returns is an argument of \<open>OwnedStorage_create\<close>.  The lemmas show that an element of a view, however
  it was sliced, lies inside the slab as long as the element count did not wrap, that different
  indices name different elements, and what goes wrong when the count does wrap.
\<close>

section \<open>Machine arithmetic and memory\<close>

definition wmul :: "nat \<Rightarrow> nat \<Rightarrow> nat" where
  "wmul a b = a * b mod 2 ^ 64"

definition wadd :: "nat \<Rightarrow> nat \<Rightarrow> nat" where
  "wadd a b = (a + b) mod 2 ^ 64"

lemma wmul_id [simp]: "a * b < 2 ^ 64 \<Longrightarrow> wmul a b = a * b"
  by (simp add: wmul_def)

lemma wadd_id [simp]: "a + b < 2 ^ 64 \<Longrightarrow> wadd a b = a + b"
  by (simp add: wadd_def)

type_synonym mem = "nat \<Rightarrow> u8"

definition memcpy :: "nat \<Rightarrow> nat \<Rightarrow> nat \<Rightarrow> mem \<Rightarrow> mem" where
  "memcpy dst src n m = (\<lambda>a. if dst \<le> a \<and> a < dst + n then m (src + (a - dst)) else m a)"

definition read_bytes :: "nat \<Rightarrow> nat \<Rightarrow> mem \<Rightarrow> u8 list" where
  "read_bytes p n m = map (\<lambda>i. m (p + i)) [0..<n]"

definition write_bytes :: "nat \<Rightarrow> u8 list \<Rightarrow> mem \<Rightarrow> mem" where
  "write_bytes p bs m = (\<lambda>a. if p \<le> a \<and> a < p + length bs then bs ! (a - p) else m a)"

lemma read_write_same: "length bs = n \<Longrightarrow> read_bytes p n (write_bytes p bs m) = bs"
  by (rule nth_equalityI) (simp_all add: read_bytes_def write_bytes_def)

lemma read_write_other:
  "p + length bs \<le> q \<or> q + n \<le> p \<Longrightarrow> read_bytes q n (write_bytes p bs m) = read_bytes q n m"
  by (auto simp: read_bytes_def write_bytes_def)

section \<open>Storage\<close>

datatype StorageKind = Device | Pinned | System

fun StorageKind_to_string :: "StorageKind \<Rightarrow> string" where
  "StorageKind_to_string Device = ''device''"
| "StorageKind_to_string Pinned = ''pinned''"
| "StorageKind_to_string System = ''system''"

definition is_host_accessible :: "StorageKind \<Rightarrow> bool" where
  "is_host_accessible k \<longleftrightarrow> k \<noteq> Device"

datatype DType = F32 | F16 | BF16 | FP8 | U8 | U16 | U32 | U64 | I8 | I16 | I32 | I64

fun dtype_size :: "DType \<Rightarrow> nat" where
  "dtype_size F32 = 4"
| "dtype_size F16 = 2"
| "dtype_size BF16 = 2"
| "dtype_size FP8 = 1"
| "dtype_size U8 = 1"
| "dtype_size U16 = 2"
| "dtype_size U32 = 4"
| "dtype_size U64 = 8"
| "dtype_size I8 = 1"
| "dtype_size I16 = 2"
| "dtype_size I32 = 4"
| "dtype_size I64 = 8"

record Storage =
  st_pointer :: nat
  st_size :: nat
  st_kind :: StorageKind

text \<open>\<open>ptr\<close> is what the allocation call of the tier returns, None when it fails.\<close>

definition alloc_error :: "StorageKind \<Rightarrow> exn" where
  "alloc_error k = (case k of
       System \<Rightarrow> RuntimeError ''bad_alloc''
     | Pinned \<Rightarrow> RuntimeError ''failed to allocate pinned memory''
     | Device \<Rightarrow> RuntimeError ''failed to allocate device memory (CUDA build required)'')"

definition OwnedStorage_create :: "nat option \<Rightarrow> nat \<Rightarrow> StorageKind \<Rightarrow> Storage res" where
  "OwnedStorage_create ptr bytes kind =
     (if bytes = 0 then Inl (InvalidArgument ''storage size must be > 0'')
      else case ptr of
             None \<Rightarrow> Inl (alloc_error kind)
           | Some p \<Rightarrow> Inr \<lparr>st_pointer = p, st_size = bytes, st_kind = kind\<rparr>)"

section \<open>Views\<close>

text \<open>The messages of the size errors leave out the numbers.\<close>

record TensorView =
  tv_storage :: Storage
  tv_shape :: "nat list"
  tv_strides :: "nat list"
  tv_element_size :: nat
  tv_offset :: nat
  tv_total :: nat

fun strides_of :: "nat list \<Rightarrow> nat list" where
  "strides_of [] = []"
| "strides_of [d] = [1]"
| "strides_of (d # e # ds) = (let st = strides_of (e # ds) in wmul (hd st) e # st)"

definition accumulate :: "nat list \<Rightarrow> nat" where
  "accumulate shape = foldl wmul 1 shape"

definition TensorView_new :: "Storage \<Rightarrow> nat list \<Rightarrow> nat \<Rightarrow> TensorView res" where
  "TensorView_new st shape element_size =
     (let total = accumulate shape in
      if wmul total element_size > st_size st then Inl (RuntimeError ''tensor view exceeds storage'')
      else Inr \<lparr>tv_storage = st, tv_shape = shape, tv_strides = strides_of shape,
                tv_element_size = element_size, tv_offset = 0, tv_total = total\<rparr>)"

definition size_in_bytes :: "TensorView \<Rightarrow> nat" where
  "size_in_bytes v = wmul (tv_total v) (tv_element_size v)"

definition tv_data :: "TensorView \<Rightarrow> nat" where
  "tv_data v = wadd (st_pointer (tv_storage v)) (tv_offset v)"

definition in_bounds :: "TensorView \<Rightarrow> nat list \<Rightarrow> bool" where
  "in_bounds v ix \<longleftrightarrow> list_all2 (\<lambda>i d. i < d) ix (tv_shape v)"

definition wdot :: "nat list \<Rightarrow> nat list \<Rightarrow> nat" where
  "wdot ix st = foldl (\<lambda>flat p. wadd flat (wmul (fst p) (snd p))) 0 (zip ix st)"

definition flat_index :: "TensorView \<Rightarrow> nat list \<Rightarrow> nat res" where
  "flat_index v ix =
     (if \<not> in_bounds v ix then Inl (OutOfRange ''tensor index out of bounds'')
      else Inr (wdot ix (tv_strides v)))"

definition byte_offset :: "TensorView \<Rightarrow> nat list \<Rightarrow> nat res" where
  "byte_offset v ix =
     rbind (flat_index v ix) (\<lambda>f. Inr (wadd (tv_offset v) (wmul f (tv_element_size v))))"

definition tv_address :: "TensorView \<Rightarrow> nat list \<Rightarrow> nat res" where
  "tv_address v ix = rbind (byte_offset v ix) (\<lambda>b. Inr (wadd (st_pointer (tv_storage v)) b))"

fun contiguous_from :: "nat list \<Rightarrow> nat list \<Rightarrow> nat option" where
  "contiguous_from [] [] = Some 1"
| "contiguous_from (d # ds) (s # ss) =
     (case contiguous_from ds ss of
        None \<Rightarrow> None
      | Some expected \<Rightarrow> if s \<noteq> expected then None else Some (wmul expected d))"
| "contiguous_from _ _ = None"

text \<open>The loop runs from the last dimension to the first and stops at the first mismatch.\<close>

definition is_contiguous :: "TensorView \<Rightarrow> bool" where
  "is_contiguous v \<longleftrightarrow> contiguous_from (tv_shape v) (tv_strides v) \<noteq> None"

definition check_access :: "string \<Rightarrow> nat \<Rightarrow> TensorView \<Rightarrow> unit res" where
  "check_access what n v =
     (if \<not> is_host_accessible (st_kind (tv_storage v))
      then Inl (RuntimeError (''cannot '' @ what @ '' device tensor directly''))
      else if n \<noteq> tv_element_size v
      then Inl (RuntimeError ''element type size does not match view element size'')
      else Inr ())"

text \<open>An element value is its bytes; \<open>n\<close> is \<open>sizeof(E)\<close>.\<close>

definition tv_get :: "nat \<Rightarrow> TensorView \<Rightarrow> nat list \<Rightarrow> mem \<Rightarrow> u8 list res" where
  "tv_get n v ix m =
     rbind (check_access ''read'' n v)
       (\<lambda>_. rbind (tv_address v ix) (\<lambda>a. Inr (read_bytes a n m)))"

definition tv_set :: "TensorView \<Rightarrow> nat list \<Rightarrow> u8 list \<Rightarrow> mem \<Rightarrow> mem res" where
  "tv_set v ix val m =
     rbind (check_access ''write'' (length val) v)
       (\<lambda>_. rbind (tv_address v ix) (\<lambda>a. Inr (write_bytes a val m)))"

definition unflatten :: "TensorView \<Rightarrow> nat \<Rightarrow> nat list" where
  "unflatten v flat = fst (foldr (\<lambda>d (ix, f). (f mod d # ix, f div d)) (tv_shape v) ([], flat))"

fun fill_contiguous :: "nat \<Rightarrow> nat \<Rightarrow> u8 list \<Rightarrow> mem \<Rightarrow> mem" where
  "fill_contiguous p 0 val m = m"
| "fill_contiguous p (Suc n) val m =
     fill_contiguous (p + length val) n val (write_bytes p val m)"

fun fill_walk :: "TensorView \<Rightarrow> nat list \<Rightarrow> u8 list \<Rightarrow> mem \<Rightarrow> mem res" where
  "fill_walk v [] val m = Inr m"
| "fill_walk v (f # fs) val m = rbind (tv_set v (unflatten v f) val m) (fill_walk v fs val)"

definition tv_fill :: "TensorView \<Rightarrow> u8 list \<Rightarrow> mem \<Rightarrow> mem res" where
  "tv_fill v val m =
     rbind (check_access ''fill'' (length val) v)
       (\<lambda>_. if is_contiguous v then Inr (fill_contiguous (tv_data v) (tv_total v) val m)
            else fill_walk v [0..<tv_total v] val m)"

definition tv_slice :: "nat \<Rightarrow> nat \<Rightarrow> nat option \<Rightarrow> TensorView \<Rightarrow> TensorView res" where
  "tv_slice dim start end_opt v =
     (if dim \<ge> length (tv_shape v) then Inl (OutOfRange ''slice dimension out of range'')
      else
        let end_idx = (case end_opt of None \<Rightarrow> tv_shape v ! dim | Some e \<Rightarrow> e) in
        if end_idx > tv_shape v ! dim \<or> start \<ge> end_idx then Inl (OutOfRange ''invalid slice range'')
        else
          let shape = (tv_shape v)[dim := end_idx - start]
          in Inr (v\<lparr>tv_shape := shape,
                    tv_offset := wadd (tv_offset v)
                      (wmul (wmul start (tv_strides v ! dim)) (tv_element_size v)),
                    tv_total := accumulate shape\<rparr>))"

definition copy_to_view_blocking :: "TensorView \<Rightarrow> TensorView \<Rightarrow> mem \<Rightarrow> mem res" where
  "copy_to_view_blocking v dst m =
     (if tv_shape v \<noteq> tv_shape dst \<or> tv_strides v \<noteq> tv_strides dst
      then Inl (RuntimeError ''copy_to_view_blocking: shape or strides mismatch'')
      else if \<not> is_contiguous v \<or> \<not> is_contiguous dst
      then Inl (RuntimeError ''copy_to_view_blocking: views must be contiguous'')
      else if tv_element_size v \<noteq> tv_element_size dst
      then Inl (RuntimeError ''copy_to_view_blocking: element size mismatch'')
      else Inr (memcpy (tv_data dst) (tv_data v) (size_in_bytes v) m))"

section \<open>Row-major order\<close>

fun rm :: "nat list \<Rightarrow> nat list \<Rightarrow> nat" where
  "rm (i # ix) (d # ds) = i * prod_list ds + rm ix ds"
| "rm _ _ = 0"

fun dotn :: "nat list \<Rightarrow> nat list \<Rightarrow> nat" where
  "dotn (i # ix) (s # ss) = i * s + dotn ix ss"
| "dotn _ _ = 0"

fun strides_n :: "nat list \<Rightarrow> nat list" where
  "strides_n [] = []"
| "strides_n (d # ds) = prod_list ds # strides_n ds"

abbreviation within :: "nat list \<Rightarrow> nat list \<Rightarrow> bool" where
  "within ix ds \<equiv> list_all2 (\<lambda>i d. i < d) ix ds"

lemma dotn_strides_n: "dotn ix (strides_n ds) = rm ix ds"
  by (induction ix ds rule: rm.induct) simp_all

lemma rm_bound: "within ix ds \<Longrightarrow> rm ix ds < prod_list ds"
proof (induction ix ds rule: rm.induct)
  case (1 i ix d ds)
  then have "rm ix ds < prod_list ds" "i + 1 \<le> d" by auto
  then have "i * prod_list ds + rm ix ds < (i + 1) * prod_list ds" by simp
  also have "\<dots> \<le> d * prod_list ds" using \<open>i + 1 \<le> d\<close> by (rule mult_le_mono1)
  finally show ?case by simp
qed auto

lemma rm_inj: "within ix ds \<Longrightarrow> within jx ds \<Longrightarrow> rm ix ds = rm jx ds \<Longrightarrow> ix = jx"
proof (induction ix ds arbitrary: jx rule: rm.induct)
  case (1 i ix d ds)
  obtain j jx' where jx: "jx = j # jx'" "j < d" "within jx' ds"
    using "1.prems"(2) by (cases jx) auto
  have b: "rm ix ds < prod_list ds" "rm jx' ds < prod_list ds"
    using "1.prems"(1) jx(3) by (auto intro: rm_bound)
  have e: "i * prod_list ds + rm ix ds = j * prod_list ds + rm jx' ds" using "1.prems"(3) jx(1) by simp
  have "(i * prod_list ds + rm ix ds) div prod_list ds = i" using b(1) by simp
  moreover have "(j * prod_list ds + rm jx' ds) div prod_list ds = j" using b(2) by simp
  ultimately have "i = j" using e by simp
  then show ?case using "1.IH" [of jx'] "1.prems"(1) jx e by simp
qed (auto simp: list_all2_Cons2)

lemma prod_list_pos: "0 \<notin> set ds \<Longrightarrow> 0 < prod_list (ds :: nat list)"
  by (induction ds) auto

lemma prod_list_tail_le: "d \<noteq> 0 \<Longrightarrow> prod_list ds \<le> prod_list (d # (ds :: nat list))"
  by (simp add: Suc_leI)

lemma strides_of_exact:
  "0 \<notin> set ds \<Longrightarrow> prod_list ds < 2 ^ 64 \<Longrightarrow> strides_of ds = strides_n ds"
proof (induction ds rule: strides_of.induct)
  case (3 d e ds)
  have "prod_list (e # ds) \<le> prod_list (d # e # ds)" using "3.prems"(1) by (intro prod_list_tail_le) simp
  then have l: "prod_list (e # ds) < 2 ^ 64" using "3.prems"(2) by linarith
  then have "strides_of (e # ds) = strides_n (e # ds)" using 3 by simp
  then show ?case using l by (simp add: Let_def mult.commute)
qed simp_all

lemma foldl_wmul_exact:
  "0 \<notin> set ds \<Longrightarrow> a * prod_list ds < 2 ^ 64 \<Longrightarrow> foldl wmul a ds = a * prod_list ds"
proof (induction ds arbitrary: a)
  case (Cons d ds)
  have p: "0 < prod_list ds" using Cons.prems(1) by (intro prod_list_pos) simp
  have "a * d * 1 \<le> a * d * prod_list ds" using p by (intro mult_le_mono2) linarith
  also have "\<dots> < 2 ^ 64" using Cons.prems(2) by (simp add: mult.assoc)
  finally have "a * d < 2 ^ 64" by (simp only: mult_1_right)
  then show ?case using Cons.IH [of "a * d"] Cons.prems by (simp add: mult.assoc)
qed simp

lemma accumulate_exact: "0 \<notin> set ds \<Longrightarrow> prod_list ds < 2 ^ 64 \<Longrightarrow> accumulate ds = prod_list ds"
  using foldl_wmul_exact [of ds 1] by (simp add: accumulate_def)

lemma foldl_wdot_exact:
  "a + dotn ix st < 2 ^ 64 \<Longrightarrow>
   foldl (\<lambda>flat p. wadd flat (wmul (fst p) (snd p))) a (zip ix st) = a + dotn ix st"
  by (induction ix st arbitrary: a rule: dotn.induct) simp_all

lemma wdot_exact: "dotn ix st < 2 ^ 64 \<Longrightarrow> wdot ix st = dotn ix st"
  using foldl_wdot_exact [of 0 ix st] by (simp add: wdot_def)

lemma dotn_add:
  "length ix = length st \<Longrightarrow> length jx = length st \<Longrightarrow>
   dotn (map2 (+) ix jx) st = dotn ix st + dotn jx st"
proof (induction st arbitrary: ix jx)
  case (Cons s st)
  then show ?case by (cases ix; cases jx) (simp_all add: algebra_simps)
qed simp

lemma length_strides_n [simp]: "length (strides_n ds) = length ds"
  by (induction ds) simp_all

section \<open>Well-formed views\<close>

text \<open>A view is a box inside a row-major tensor \<open>B\<close> that fits in the slab, with corner \<open>corner\<close>; or it has
  an empty dimension and no elements.\<close>

definition boxed :: "nat list \<Rightarrow> nat list \<Rightarrow> TensorView \<Rightarrow> bool" where
  "boxed B corner v \<longleftrightarrow>
     0 \<notin> set B \<and> length corner = length B \<and> length (tv_shape v) = length B \<and>
     (\<forall>d<length B. corner ! d + tv_shape v ! d \<le> B ! d) \<and>
     tv_strides v = strides_n B \<and> 0 < tv_element_size v \<and>
     tv_offset v = rm corner B * tv_element_size v \<and>
     prod_list B * tv_element_size v \<le> st_size (tv_storage v) \<and>
     prod_list B * tv_element_size v < 2 ^ 64"

definition view_ok :: "TensorView \<Rightarrow> bool" where
  "view_ok v \<longleftrightarrow> 0 \<in> set (tv_shape v) \<or> (\<exists>B corner. boxed B corner v)"

lemma boxedD:
  assumes "boxed B corner v"
  shows "0 \<notin> set B" "length corner = length B" "length (tv_shape v) = length B"
    "d < length B \<Longrightarrow> corner ! d + tv_shape v ! d \<le> B ! d"
    "tv_strides v = strides_n B" "0 < tv_element_size v"
    "tv_offset v = rm corner B * tv_element_size v"
    "prod_list B * tv_element_size v \<le> st_size (tv_storage v)"
    "prod_list B * tv_element_size v < 2 ^ 64"
  using assms unfolding boxed_def by blast+

lemma no_index_in_empty: "0 \<in> set (tv_shape v) \<Longrightarrow> \<not> in_bounds v ix"
  by (auto simp: in_bounds_def list_all2_conv_all_nth in_set_conv_nth)

lemma boxed_index:
  assumes b: "boxed B corner v" and ix: "in_bounds v ix"
  shows "within (map2 (+) corner ix) B"
    and "byte_offset v ix = Inr (rm (map2 (+) corner ix) B * tv_element_size v)"
proof -
  note D = boxedD [OF b]
  have l: "length ix = length B" using ix D(3) by (simp add: in_bounds_def list_all2_lengthD)
  have "corner ! d + ix ! d < B ! d" if d: "d < length B" for d
  proof -
    have "ix ! d < tv_shape v ! d" using ix d D(3) l by (simp add: in_bounds_def list_all2_conv_all_nth)
    then show ?thesis using D(4) [OF d] by linarith
  qed
  then show w: "within (map2 (+) corner ix) B" using D(2) l by (simp add: list_all2_conv_all_nth)
  let ?e = "tv_element_size v" and ?f = "dotn ix (strides_n B)"
  have sum: "rm (map2 (+) corner ix) B = rm corner B + ?f"
    unfolding dotn_strides_n [symmetric] using dotn_add [of corner "strides_n B" ix] D(2) l by simp
  have lt: "rm (map2 (+) corner ix) B < prod_list B" by (rule rm_bound [OF w])
  then have "rm (map2 (+) corner ix) B * ?e < prod_list B * ?e" using D(6) by simp
  then have le: "rm corner B * ?e + ?f * ?e < 2 ^ 64"
    unfolding sum using D(9) by (simp add: distrib_right)
  have "?f * 1 \<le> ?f * ?e" using D(6) by (intro mult_le_mono2) linarith
  then have "?f < 2 ^ 64" using le by linarith
  then have "flat_index v ix = Inr ?f"
    using ix by (simp add: flat_index_def wdot_exact D(5))
  moreover have "?f * ?e < 2 ^ 64" using le by linarith
  ultimately show "byte_offset v ix = Inr (rm (map2 (+) corner ix) B * ?e)"
    using le unfolding sum by (simp add: byte_offset_def D(7) distrib_right)
qed

lemma cell_fits: "r < p \<Longrightarrow> p * e \<le> n \<Longrightarrow> r * e + e \<le> (n :: nat)"
proof -
  assume "r < p" "p * e \<le> n"
  then have "Suc r * e \<le> p * e" by (intro mult_le_mono1 Suc_leI)
  then show ?thesis using \<open>p * e \<le> n\<close> by simp
qed

lemma cells_apart: "r \<noteq> q \<Longrightarrow> r * e + e \<le> q * e \<or> q * e + e \<le> r * (e :: nat)"
  using cell_fits [of r q e "q * e"] cell_fits [of q r e "r * e"] by (cases "r < q") auto

lemma byte_offset_eq:
  assumes "boxed B corner v" "in_bounds v ix" "byte_offset v ix = Inr n"
  shows "n = rm (map2 (+) corner ix) B * tv_element_size v"
  using trans [OF sym [OF assms(3)] boxed_index(2) [OF assms(1,2)]] by (rule sum.inject(2) [THEN iffD1])

lemma byte_offset_in_storage:
  assumes b: "boxed B corner v" and ix: "in_bounds v ix" "byte_offset v ix = Inr n"
  shows "n + tv_element_size v \<le> st_size (tv_storage v)"
  by (subst byte_offset_eq [OF b ix],
      rule cell_fits [OF rm_bound [OF boxed_index(1) [OF b ix(1)]] boxedD(8) [OF b]])

lemma map2_add_inj:
  assumes "length ix = length c" "length jx = length c" "map2 (+) c ix = map2 (+) c (jx :: nat list)"
  shows "ix = jx"
proof (rule nth_equalityI)
  fix i assume i: "i < length ix"
  have "map2 (+) c ix ! i = map2 (+) c jx ! i" using assms(3) by (rule arg_cong)
  then show "ix ! i = jx ! i" using i assms(1,2) by simp
qed (simp add: assms)

lemma byte_offset_apart:
  assumes b: "boxed B corner v" and ix: "in_bounds v ix" "byte_offset v ix = Inr m"
    and jx: "in_bounds v jx" "byte_offset v jx = Inr n" and ne: "ix \<noteq> jx"
  shows "m + tv_element_size v \<le> n \<or> n + tv_element_size v \<le> m"
proof -
  note D = boxedD [OF b]
  let ?r = "\<lambda>ix. rm (map2 (+) corner ix) B"
  have l: "length ix = length corner" "length jx = length corner"
    using ix(1) jx(1) D(2,3) by (simp_all add: in_bounds_def list_all2_lengthD)
  have "?r ix \<noteq> ?r jx"
    using rm_inj [OF boxed_index(1) [OF b ix(1)] boxed_index(1) [OF b jx(1)]] map2_add_inj [OF l] ne by blast
  then show ?thesis
    by (subst (1 2) byte_offset_eq [OF b ix], subst (1 2) byte_offset_eq [OF b jx], rule cells_apart)
qed

subsection \<open>Construction and slicing\<close>

lemma rm_zeros: "rm (replicate n 0) ds = 0"
proof (induction n arbitrary: ds)
  case (Suc n)
  then show ?case by (cases ds) simp_all
qed simp

lemma new_view_ok:
  assumes "TensorView_new st shape e = Inr v" "prod_list shape * e < 2 ^ 64" "0 < e"
  shows "view_ok v"
proof (cases "0 \<in> set shape")
  case True
  then show ?thesis using assms(1) by (auto simp: TensorView_new_def view_ok_def Let_def split: if_splits)
next
  case False
  have "prod_list shape * 1 \<le> prod_list shape * e" using assms(3) by (intro mult_le_mono2) linarith
  then have p: "prod_list shape < 2 ^ 64" using assms(2) by linarith
  have "boxed shape (replicate (length shape) 0) v"
    using assms False accumulate_exact [OF False p] strides_of_exact [OF False p]
    by (auto simp: TensorView_new_def boxed_def Let_def rm_zeros not_less split: if_splits)
  then show ?thesis unfolding view_ok_def by blast
qed

lemma rm_update:
  "length c = length B \<Longrightarrow> d < length B \<Longrightarrow>
   rm (c[d := c ! d + k]) B = rm c B + k * strides_n B ! d"
proof (induction c B arbitrary: d rule: rm.induct)
  case (1 i ix b ds)
  then show ?case by (cases d) (simp_all add: algebra_simps)
qed simp_all

lemma slice_ok:
  assumes v: "view_ok v" and s: "tv_slice dim start e v = Inr w"
  shows "view_ok w"
proof -
  let ?n = "(case e of None \<Rightarrow> tv_shape v ! dim | Some e \<Rightarrow> e) - start"
  have dim: "dim < length (tv_shape v)" "start + ?n \<le> tv_shape v ! dim" "0 < ?n"
    and w: "tv_shape w = (tv_shape v)[dim := ?n]" "tv_strides w = tv_strides v"
      "tv_element_size w = tv_element_size v" "tv_storage w = tv_storage v"
      "tv_offset w = wadd (tv_offset v) (wmul (wmul start (tv_strides v ! dim)) (tv_element_size v))"
    using s by (auto simp: tv_slice_def Let_def split: if_splits option.splits)
  show ?thesis
  proof (cases "0 \<in> set (tv_shape v)")
    case True
    then obtain i where i: "i < length (tv_shape v)" "tv_shape v ! i = 0" by (auto simp: in_set_conv_nth)
    then have "i \<noteq> dim" using dim(2,3) by auto
    then have "tv_shape w ! i = 0" "i < length (tv_shape w)" using i by (simp_all add: w(1))
    then have "0 \<in> set (tv_shape w)" by (metis nth_mem)
    then show ?thesis by (simp add: view_ok_def)
  next
    case False
    then obtain B c where b: "boxed B c v" using v by (auto simp: view_ok_def)
    note D = boxedD [OF b]
    let ?c = "c[dim := c ! dim + start]" and ?e = "tv_element_size v"
    have dB: "dim < length B" using dim(1) D(3) by simp
    have r: "rm ?c B = rm c B + start * strides_n B ! dim"
      using rm_update [of c B dim start] D(2) dB by simp
    have "?c ! d < B ! d" if d: "d < length B" for d
    proof -
      have "tv_shape v ! d \<noteq> 0" using False d D(3) by (metis nth_mem)
      then show ?thesis using D(4) [OF d] dim(2,3) d D(2) by (cases "d = dim") auto
    qed
    then have "within ?c B" using D(2) by (simp add: list_all2_conv_all_nth)
    then have "rm ?c B * ?e < prod_list B * ?e" using rm_bound D(6) by simp
    then have lt: "rm c B * ?e + start * strides_n B ! dim * ?e < 2 ^ 64"
      using D(9) unfolding r by (simp add: distrib_right)
    have "start * strides_n B ! dim * 1 \<le> start * strides_n B ! dim * ?e"
      using D(6) by (intro mult_le_mono2) linarith
    then have "start * strides_n B ! dim < 2 ^ 64" using lt by linarith
    then have off: "tv_offset w = rm ?c B * ?e"
      using lt unfolding r w(5) D(5,7) by (simp add: distrib_right)
    have box: "?c ! d + (tv_shape v)[dim := ?n] ! d \<le> B ! d" if d: "d < length B" for d
      using D(4) [OF d] dim(2) d D(2,3) by (cases "d = dim") auto
    have "boxed B ?c w"
      unfolding boxed_def w(1-4) off using D(1-3,5-9) box by simp
    then show ?thesis unfolding view_ok_def by blast
  qed
qed

fun slices :: "(nat \<times> nat \<times> nat option) list \<Rightarrow> TensorView \<Rightarrow> TensorView res" where
  "slices [] v = Inr v"
| "slices ((dim, start, e) # ss) v = rbind (tv_slice dim start e v) (slices ss)"

lemma slice_keeps: "tv_slice dim start e v = Inr w \<Longrightarrow>
   tv_storage w = tv_storage v \<and> tv_element_size w = tv_element_size v"
  by (auto simp: tv_slice_def Let_def split: if_splits)

lemma slices_ok:
  "view_ok v \<Longrightarrow> slices ss v = Inr w \<Longrightarrow>
   view_ok w \<and> tv_storage w = tv_storage v \<and> tv_element_size w = tv_element_size v"
proof (induction ss v rule: slices.induct)
  case (2 dim start e ss v)
  then obtain u where "tv_slice dim start e v = Inr u" "slices ss u = Inr w" by auto
  then show ?case using "2.IH" slice_ok [OF "2.prems"(1)] slice_keeps by fastforce
qed auto

lemma sliced_box:
  assumes "TensorView_new st shape e = Inr v" "slices ss v = Inr w" "prod_list shape * e < 2 ^ 64" "0 < e"
    and "in_bounds w ix"
  obtains B corner where "boxed B corner w" "tv_storage w = st" "tv_element_size w = e"
proof -
  have v: "tv_storage v = st" "tv_element_size v = e"
    using assms(1) by (auto simp: TensorView_new_def Let_def split: if_splits)
  have "view_ok w" "tv_storage w = st" "tv_element_size w = e"
    using slices_ok [OF new_view_ok [OF assms(1,3,4)] assms(2)] v by simp_all
  moreover have "0 \<notin> set (tv_shape w)" using no_index_in_empty assms(5) by blast
  ultimately show thesis using that unfolding view_ok_def by blast
qed

lemma boxed_address:
  assumes b: "boxed B corner v" and ix: "in_bounds v ix"
    and p: "st_pointer (tv_storage v) + st_size (tv_storage v) \<le> 2 ^ 64"
  obtains n where "byte_offset v ix = Inr n" "tv_address v ix = Inr (st_pointer (tv_storage v) + n)"
    "n + tv_element_size v \<le> st_size (tv_storage v)"
proof -
  obtain n where n: "byte_offset v ix = Inr n" using boxed_index(2) [OF b ix] by blast
  have "n + tv_element_size v \<le> st_size (tv_storage v)" by (rule byte_offset_in_storage [OF b ix n])
  moreover have "tv_address v ix = Inr (st_pointer (tv_storage v) + n)"
    using calculation p boxedD(6) [OF b] n by (simp add: tv_address_def)
  ultimately show thesis using n by (intro that)
qed

section \<open>Properties\<close>

text \<open>C18.  Take a view of a slab whose size in bytes does not wrap around, and slice it any number of times.
  An index that passes the bounds check names bytes inside the slab, and one that does not is
  refused with an exception.\<close>

theorem tensor_elements_in_slab:
  assumes "TensorView_new st shape e = Inr v" and "slices ss v = Inr w"
    and "prod_list shape * e < 2 ^ 64" and "0 < e" and "st_pointer st + st_size st \<le> 2 ^ 64"
  shows "if in_bounds w ix
         then \<exists>a. tv_address w ix = Inr a \<and> st_pointer st \<le> a \<and> a + e \<le> st_pointer st + st_size st
         else tv_address w ix = Inl (OutOfRange ''tensor index out of bounds'')"
proof (cases "in_bounds w ix")
  case True
  obtain B corner where b: "boxed B corner w" "tv_storage w = st" "tv_element_size w = e"
    by (rule sliced_box [OF assms(1-4) True])
  have "st_pointer (tv_storage w) + st_size (tv_storage w) \<le> 2 ^ 64" using assms(5) b(2) by simp
  then obtain n where "tv_address w ix = Inr (st_pointer (tv_storage w) + n)"
      "n + tv_element_size w \<le> st_size (tv_storage w)"
    by (rule boxed_address [OF b(1) True])
  then show ?thesis using True b(2,3) by auto
qed (simp add: tv_address_def byte_offset_def flat_index_def)

theorem tensor_elements_in_slab_witness:
  "\<exists>st v w. st = \<lparr>st_pointer = 4096, st_size = 96, st_kind = System\<rparr>
     \<and> TensorView_new st [2, 3, 4] 4 = Inr v \<and> slices [(1, 1, None), (2, 2, Some 3)] v = Inr w
     \<and> prod_list [2, 3, 4] * 4 < (2 :: nat) ^ 64 \<and> 0 < (4 :: nat) \<and> st_pointer st + st_size st \<le> 2 ^ 64
     \<and> in_bounds w [1, 1, 0]
     \<and> (\<exists>a. tv_address w [1, 1, 0] = Inr a \<and> st_pointer st \<le> a \<and> a + 4 \<le> st_pointer st + st_size st)"
proof -
  define st where "st = \<lparr>st_pointer = 4096, st_size = 96, st_kind = System\<rparr>"
  define v where "v = \<lparr>tv_storage = st, tv_shape = [2, 3, 4], tv_strides = [12, 4, 1],
      tv_element_size = 4, tv_offset = 0, tv_total = 24\<rparr>"
  define w where "w = \<lparr>tv_storage = st, tv_shape = [2, 2, 1], tv_strides = [12, 4, 1],
      tv_element_size = 4, tv_offset = 24, tv_total = 4\<rparr>"
  have 1: "TensorView_new st [2, 3, 4] 4 = Inr v"
    by (simp add: TensorView_new_def v_def st_def accumulate_def)
  have 2: "slices [(1, 1, None), (2, 2, Some 3)] v = Inr w"
    by (simp add: tv_slice_def v_def w_def accumulate_def)
  have 3: "prod_list [2, 3, 4] * 4 < (2 :: nat) ^ 64" "0 < (4 :: nat)"
    "st_pointer st + st_size st \<le> 2 ^ 64" by (simp_all add: st_def)
  have 4: "in_bounds w [1, 1, 0]" by (simp add: in_bounds_def w_def)
  show ?thesis
    using tensor_elements_in_slab [OF 1 2 3, of "[1, 1, 0]"] 1 2 3 4 st_def by auto
qed

text \<open>Element access through a view, sliced or not: reading an element just written gives the value
  back, and writing one element changes no other.\<close>

lemma tensor_set_get:
  assumes "TensorView_new st shape e = Inr v" and "slices ss v = Inr w"
    and "prod_list shape * e < 2 ^ 64" and "0 < e" and "st_pointer st + st_size st \<le> 2 ^ 64"
    and "is_host_accessible (st_kind st)" and "length val = e"
    and "in_bounds w ix" and "in_bounds w jx"
  shows "\<exists>m'. tv_set w ix val m = Inr m'
           \<and> tv_get e w jx m' = (if jx = ix then Inr val else tv_get e w jx m)"
proof -
  obtain B corner where b: "boxed B corner w" "tv_storage w = st" "tv_element_size w = e"
    by (rule sliced_box [OF assms(1-4,8)])
  have p: "st_pointer (tv_storage w) + st_size (tv_storage w) \<le> 2 ^ 64" using assms(5) b(2) by simp
  obtain i where i: "byte_offset w ix = Inr i" "tv_address w ix = Inr (st_pointer (tv_storage w) + i)"
    by (rule boxed_address [OF b(1) assms(8) p])
  obtain j where j: "byte_offset w jx = Inr j" "tv_address w jx = Inr (st_pointer (tv_storage w) + j)"
    by (rule boxed_address [OF b(1) assms(9) p])
  have chk: "check_access what e w = Inr ()" for what
    using assms(6) b(2,3) by (simp add: check_access_def)
  have set: "tv_set w ix val m = Inr (write_bytes (st_pointer (tv_storage w) + i) val m)"
    using i(2) chk assms(7) by (simp add: tv_set_def)
  have get: "tv_get e w jx m'' = Inr (read_bytes (st_pointer (tv_storage w) + j) e m'')" for m''
    using j(2) chk by (simp add: tv_get_def)
  show ?thesis
  proof (cases "jx = ix")
    case True
    then have "i = j" using i(1) j(1) by simp
    then show ?thesis using set get True read_write_same [OF assms(7)] by simp
  next
    case False
    have "i + e \<le> j \<or> j + e \<le> i"
      using byte_offset_apart [OF b(1) assms(8) i(1) assms(9) j(1)] False b(3) by auto
    then show ?thesis
      using set get False assms(7) read_write_other [of "st_pointer (tv_storage w) + i" val] by auto
  qed
qed

lemma tensor_set_get_witness:
  "\<exists>st v w. st = \<lparr>st_pointer = 4096, st_size = 96, st_kind = System\<rparr>
     \<and> TensorView_new st [2, 3, 4] 4 = Inr v \<and> slices [(1, 1, None)] v = Inr w
     \<and> is_host_accessible (st_kind st) \<and> in_bounds w [1, 1, 3] \<and> in_bounds w [0, 1, 3]
     \<and> (\<forall>m. \<exists>m'. tv_set w [1, 1, 3] [1, 2, 3, 4] m = Inr m'
           \<and> tv_get 4 w [0, 1, 3] m' = tv_get 4 w [0, 1, 3] m)"
proof -
  define st where "st = \<lparr>st_pointer = 4096, st_size = 96, st_kind = System\<rparr>"
  define v where "v = \<lparr>tv_storage = st, tv_shape = [2, 3, 4], tv_strides = [12, 4, 1],
      tv_element_size = 4, tv_offset = 0, tv_total = 24\<rparr>"
  define w where "w = \<lparr>tv_storage = st, tv_shape = [2, 2, 4], tv_strides = [12, 4, 1],
      tv_element_size = 4, tv_offset = 16, tv_total = 16\<rparr>"
  have 1: "TensorView_new st [2, 3, 4] 4 = Inr v"
    by (simp add: TensorView_new_def v_def st_def accumulate_def)
  have 2: "slices [(1, 1, None)] v = Inr w" by (simp add: tv_slice_def v_def w_def accumulate_def)
  have 3: "prod_list [2, 3, 4] * 4 < (2 :: nat) ^ 64" "0 < (4 :: nat)"
    "st_pointer st + st_size st \<le> 2 ^ 64" "is_host_accessible (st_kind st)"
    "length [1, 2, 3, 4 :: u8] = 4" by (simp_all add: st_def is_host_accessible_def)
  have 4: "in_bounds w [1, 1, 3]" "in_bounds w [0, 1, 3]" by (simp_all add: in_bounds_def w_def)
  have "\<exists>m'. tv_set w [1, 1, 3] [1, 2, 3, 4] m = Inr m'
           \<and> tv_get 4 w [0, 1, 3] m' = tv_get 4 w [0, 1, 3] m" for m
    using tensor_set_get [OF 1 2 3 4, of m] by simp
  then show ?thesis using 1 2 3(4) 4 st_def by blast
qed

text \<open>Without the assumption on the size the check can be passed by a view that is far larger than its
  slab: here a slab of one byte and an index a gigabyte outside.\<close>

lemma wrapped_view_escapes:
  "\<exists>v. TensorView_new \<lparr>st_pointer = 4096, st_size = 1, st_kind = System\<rparr> [2 ^ 32, 2 ^ 32] 1 = Inr v
     \<and> in_bounds v [0, 2 ^ 30] \<and> tv_address v [0, 2 ^ 30] = Inr (4096 + 2 ^ 30)"
  by (simp add: TensorView_new_def accumulate_def wmul_def wadd_def in_bounds_def tv_address_def
      byte_offset_def flat_index_def wdot_def)

end
