(* ===== verification/Layer.thy ===== *)
theory Layer
  imports Tensor
begin

text \<open>
  KV cache layers, block storage and block copies, from \<^verbatim>\<open>src/llm/kv/layer.h\<close>,
  \<^verbatim>\<open>src/llm/kv/layer.cpp\<close> and the host implementation of the copy interface,
  \<^verbatim>\<open>src/llm/kv/kernels/block_copy_cpu.cpp\<close>.  Sizes are naturals with the 64-bit wrap-around written
  out; \<open>to_int\<close> and \<open>of_int\<close> are the conversions to and from the 32-bit \<open>int\<close> of the C interface.  The lemmas
  show that an allocated block storage always has room for the tensors of its layers, and that a
  block copy moves exactly the named blocks.
\<close>

section \<open>Conversions\<close>

definition to_int :: "nat \<Rightarrow> int" where
  "to_int n = (let r = int n mod 2 ^ 32 in if r < 2 ^ 31 then r else r - 2 ^ 32)"

definition size_of_int :: "int \<Rightarrow> nat" where
  "size_of_int i = nat (i mod 2 ^ 64)"

lemma to_int_id [simp]: "n < 2 ^ 31 \<Longrightarrow> to_int n = int n"
  by (simp add: to_int_def Let_def)

lemma size_of_int_id [simp]: "n < 2 ^ 64 \<Longrightarrow> size_of_int (int n) = n"
  by (simp add: size_of_int_def)

section \<open>The host copy backend\<close>

record CpuCopyStream =
  cpu_src_ids :: "int list"
  cpu_dst_ids :: "int list"
  cpu_max_num_blocks :: int

text \<open>One \<open>memcpy\<close> of the double loop; a null pointer is address 0.\<close>

definition copy_pair ::
  "nat \<Rightarrow> nat \<Rightarrow> nat \<Rightarrow> nat \<Rightarrow> nat \<Rightarrow> nat \<Rightarrow> int \<Rightarrow> int \<Rightarrow> mem \<Rightarrow> mem" where
  "copy_pair src dst suffix_bytes src_stride dst_stride pre src_id dst_id m =
     memcpy (wadd (wadd dst (wmul pre dst_stride)) (wmul (size_of_int dst_id) suffix_bytes))
            (wadd (wadd src (wmul pre src_stride)) (wmul (size_of_int src_id) suffix_bytes))
            suffix_bytes m"

definition copy_blocks_impl ::
  "nat \<Rightarrow> nat \<Rightarrow> int list \<Rightarrow> int list \<Rightarrow> int \<Rightarrow> int \<Rightarrow> int \<Rightarrow> int \<Rightarrow> int \<Rightarrow> int \<Rightarrow> mem \<Rightarrow> int \<times> mem" where
  "copy_blocks_impl src dst src_ids dst_ids num_block_pairs prefix_dim suffix_dim elem_size
       src_block_dim dst_block_dim m =
     (if src = 0 \<or> dst = 0 then (- 1, m)
      else if num_block_pairs \<le> 0 \<or> prefix_dim \<le> 0 \<or> suffix_dim \<le> 0 \<or> elem_size \<le> 0 then (- 1, m)
      else
        let suffix_bytes = wmul (size_of_int suffix_dim) (size_of_int elem_size);
            src_stride = wmul (size_of_int src_block_dim) suffix_bytes;
            dst_stride = wmul (size_of_int dst_block_dim) suffix_bytes
        in (0, fold (\<lambda>pre m. fold (\<lambda>pair m.
                  copy_pair src dst suffix_bytes src_stride dst_stride pre
                    (src_ids ! pair) (dst_ids ! pair) m) [0..<nat num_block_pairs] m)
                [0..<nat prefix_dim] m))"

definition copy_blocks_3d ::
  "nat \<Rightarrow> nat \<Rightarrow> int list \<Rightarrow> int list \<Rightarrow> int \<Rightarrow> int \<Rightarrow> int \<Rightarrow> int \<Rightarrow> int \<Rightarrow> int \<Rightarrow> mem \<Rightarrow> int \<times> mem" where
  "copy_blocks_3d src dst src_ids dst_ids num_block_pairs prefix_dim src_blocks_dim dst_blocks_dim
       suffix_dim elem_size m =
     copy_blocks_impl src dst src_ids dst_ids num_block_pairs prefix_dim suffix_dim elem_size
       src_blocks_dim dst_blocks_dim m"

definition copy_stream_create :: "int \<Rightarrow> CpuCopyStream" where
  "copy_stream_create num_blocks = \<lparr>cpu_src_ids = [], cpu_dst_ids = [], cpu_max_num_blocks = num_blocks\<rparr>"

definition copy_stream_prepare_block_ids ::
  "int list \<Rightarrow> int list \<Rightarrow> int \<Rightarrow> CpuCopyStream \<Rightarrow> int \<times> CpuCopyStream" where
  "copy_stream_prepare_block_ids src_ids dst_ids num_block_pairs cs =
     (if num_block_pairs > cpu_max_num_blocks cs then (- 1, cs)
      else (0, cs\<lparr>cpu_src_ids := take (nat num_block_pairs) src_ids,
                  cpu_dst_ids := take (nat num_block_pairs) dst_ids\<rparr>))"

definition copy_stream_memcpy ::
  "CpuCopyStream \<Rightarrow> nat \<Rightarrow> nat \<Rightarrow> int \<Rightarrow> int \<Rightarrow> int \<Rightarrow> int \<Rightarrow> int \<Rightarrow> mem \<Rightarrow> int \<times> mem" where
  "copy_stream_memcpy cs src dst prefix_dim suffix_dim elem_size src_block_dim dst_block_dim m =
     copy_blocks_impl src dst (cpu_src_ids cs) (cpu_dst_ids cs) (to_int (length (cpu_src_ids cs)))
       prefix_dim suffix_dim elem_size src_block_dim dst_block_dim m"

definition copy_stream_launch ::
  "CpuCopyStream \<Rightarrow> nat \<Rightarrow> nat \<Rightarrow> int \<Rightarrow> int \<Rightarrow> int \<Rightarrow> int \<Rightarrow> int \<Rightarrow> mem \<Rightarrow> int \<times> mem" where
  "copy_stream_launch cs src dst prefix_dim suffix_dim elem_size src_block_dim dst_block_dim m =
     copy_stream_memcpy cs src dst prefix_dim suffix_dim elem_size src_block_dim dst_block_dim m"

text \<open>The rescatter.  \<open>dims\<close> has six entries; the shapes collapse the last two.  \<open>byte_strides\<close> is the loop
  that multiplies the shape up from the element size.\<close>

definition scatter_shapes :: "nat list \<Rightarrow> nat \<Rightarrow> nat \<Rightarrow> nat \<Rightarrow> nat list \<times> nat list" where
  "scatter_shapes dims block_dim_index src_block_dim dst_block_dim =
     (let kv = (if block_dim_index = 0 then 1 else 0);
          inner = wmul (dims ! 4) (dims ! 5);
          src = ([0, 0, dims ! 2, dims ! 3, inner])[block_dim_index := src_block_dim, kv := dims ! kv];
          dst = ([dims ! 3, 0, 0, dims ! 2, inner])
                  [block_dim_index + 1 := dst_block_dim, kv + 1 := dims ! kv]
      in (src, dst))"

fun byte_strides :: "nat \<Rightarrow> nat list \<Rightarrow> nat list" where
  "byte_strides elem [] = []"
| "byte_strides elem [d] = [elem]"
| "byte_strides elem (d # e # ds) =
     (let st = byte_strides elem (e # ds) in wmul (hd st) e # st)"

definition scatter_one ::
  "nat \<Rightarrow> nat \<Rightarrow> nat \<Rightarrow> nat list \<Rightarrow> nat list \<Rightarrow> nat \<Rightarrow> nat \<Rightarrow> nat \<Rightarrow> nat \<Rightarrow> nat \<Rightarrow> mem \<Rightarrow> mem" where
  "scatter_one src dst block_dim_index src_strides dst_strides copy_bytes block kv bs scatter m =
     (let k = (if block_dim_index = 0 then 1 else 0);
          src_idx = ([0, 0, bs, scatter])[block_dim_index := block, k := kv];
          dst_idx = ([scatter, 0, 0, bs])[block_dim_index + 1 := block, k + 1 := kv]
      in memcpy (wadd dst (wdot dst_idx (take 4 dst_strides)))
           (wadd src (wdot src_idx (take 4 src_strides))) copy_bytes m)"

definition copy_stream_scatter ::
  "CpuCopyStream \<Rightarrow> nat \<Rightarrow> nat \<Rightarrow> nat list \<Rightarrow> nat \<Rightarrow> nat \<Rightarrow> nat \<Rightarrow> nat \<Rightarrow> nat \<Rightarrow> mem \<Rightarrow> int \<times> mem" where
  "copy_stream_scatter cs src dst dims num_dims elem_size block_dim_index src_block_dim dst_block_dim m =
     (let kv_dim_index = (if block_dim_index = 0 then 1 else 0) in
      if num_dims \<noteq> 6 then (- 1, m)
      else if block_dim_index > 1 then (- 2, m)
      else if dims ! block_dim_index \<noteq> src_block_dim then (- 3, m)
      else if dims ! kv_dim_index \<noteq> 2 then (- 4, m)
      else
        let (src_shape, dst_shape) = scatter_shapes dims block_dim_index src_block_dim dst_block_dim;
            src_strides = byte_strides elem_size src_shape;
            dst_strides = byte_strides elem_size dst_shape;
            copy_bytes = wmul (wmul (dims ! 4) (dims ! 5)) elem_size
        in (0,
            fold (\<lambda>block. fold (\<lambda>kv. fold (\<lambda>bs. fold (\<lambda>scatter.
                scatter_one src dst block_dim_index src_strides dst_strides copy_bytes block kv bs scatter)
              [0..<src_shape ! 3]) [0..<src_shape ! 2]) [0..<src_shape ! kv_dim_index])
            [0..<length (cpu_src_ids cs)] m))"

section \<open>Layers\<close>

datatype KvLayout = KvFirst | BlockFirst

record KvModelDetails =
  number_of_layers :: nat
  md_heads :: nat
  md_head_size :: nat
  md_dtype :: DType

definition elements_per_token_per_layer :: "KvModelDetails \<Rightarrow> nat" where
  "elements_per_token_per_layer d = wmul (wmul 2 (md_heads d)) (md_head_size d)"

definition bytes_per_token_per_layer :: "KvModelDetails \<Rightarrow> nat" where
  "bytes_per_token_per_layer d = wmul (elements_per_token_per_layer d) (dtype_size (md_dtype d))"

record KvBlockDetails =
  bd_layout :: KvLayout
  bd_block_size :: nat
  bd_tp_rank :: nat
  bd_tp_size :: nat
  model_details :: KvModelDetails

definition KvBlockDetails_validate :: "KvBlockDetails \<Rightarrow> unit res" where
  "KvBlockDetails_validate d =
     (if bd_tp_size d = 0 \<or> md_heads (model_details d) mod bd_tp_size d \<noteq> 0
      then Inl (InvalidArgument ''tp_size must evenly divide number_of_heads'')
      else if bd_tp_rank d \<ge> bd_tp_size d
      then Inl (InvalidArgument ''tp_rank must be less than tp_size'')
      else if bd_tp_size d > md_heads (model_details d)
      then Inl (InvalidArgument ''tp_size must be at most number_of_heads'')
      else Inr ())"

definition is_compatible :: "KvBlockDetails \<Rightarrow> KvBlockDetails \<Rightarrow> bool" where
  "is_compatible a b \<longleftrightarrow>
     bd_layout a = bd_layout b \<and> bd_block_size a = bd_block_size b \<and>
     bd_tp_size a = bd_tp_size b \<and> model_details a = model_details b"

definition bytes_per_token_block_per_layer :: "KvBlockDetails \<Rightarrow> nat" where
  "bytes_per_token_block_per_layer d =
     wmul (bytes_per_token_per_layer (model_details d)) (bd_block_size d) div bd_tp_size d"

definition prefix_dim :: "KvBlockDetails \<Rightarrow> nat" where
  "prefix_dim d = (if bd_layout d = KvFirst then 2 else 1)"

definition suffix_dim :: "KvBlockDetails \<Rightarrow> nat" where
  "suffix_dim d =
     (let suffix = wmul (wmul (bd_block_size d) (md_heads (model_details d) div bd_tp_size d))
                     (md_head_size (model_details d))
      in if bd_layout d = KvFirst then suffix else wmul 2 suffix)"

record KvLayer =
  kl_layout :: KvLayout
  kl_storage :: Storage
  kl_blocks :: nat
  kl_block_size :: nat
  kl_heads :: nat
  kl_head_size :: nat
  kl_dtype :: DType
  kl_tp_size :: nat
  kl_tp_rank :: nat

definition layer_shape :: "KvLayer \<Rightarrow> nat list" where
  "layer_shape l =
     (let heads = kl_heads l div kl_tp_size l in
      if kl_layout l = KvFirst then [2, kl_blocks l, kl_block_size l, heads, kl_head_size l]
      else [kl_blocks l, 2, kl_block_size l, heads, kl_head_size l])"

definition KvLayer_new :: "KvLayer \<Rightarrow> KvLayer res" where
  "KvLayer_new l =
     (if kl_blocks l = 0 \<or> kl_block_size l = 0 \<or> kl_heads l = 0 \<or> kl_head_size l = 0
      then Inl (InvalidArgument ''kv layer dimensions must be non-zero'')
      else if kl_tp_size l = 0 \<or> kl_heads l mod kl_tp_size l \<noteq> 0
      then Inl (InvalidArgument ''number_of_heads must be divisible by tp_size'')
      else if kl_tp_rank l \<ge> kl_tp_size l
      then Inl (InvalidArgument ''tp_rank must be less than tp_size'')
      else if st_size (kl_storage l) < wmul (accumulate (layer_shape l)) (dtype_size (kl_dtype l))
      then Inl (InvalidArgument ''storage is smaller than the layer tensor'')
      else Inr l)"

definition KvLayer_from_storage :: "KvBlockDetails \<Rightarrow> nat \<Rightarrow> Storage \<Rightarrow> KvLayer res" where
  "KvLayer_from_storage d blocks st =
     KvLayer_new \<lparr>kl_layout = bd_layout d, kl_storage = st, kl_blocks = blocks,
       kl_block_size = bd_block_size d, kl_heads = md_heads (model_details d),
       kl_head_size = md_head_size (model_details d), kl_dtype = md_dtype (model_details d),
       kl_tp_size = bd_tp_size d, kl_tp_rank = bd_tp_rank d\<rparr>"

definition KvLayer_view :: "KvLayer \<Rightarrow> TensorView res" where
  "KvLayer_view l = TensorView_new (kl_storage l) (layer_shape l) (dtype_size (kl_dtype l))"

definition copy_blocks_to :: "KvLayer \<Rightarrow> nat list \<Rightarrow> KvLayer \<Rightarrow> nat list \<Rightarrow> mem \<Rightarrow> mem res" where
  "copy_blocks_to l src_block_ids dst dst_block_ids m =
     (if length src_block_ids \<noteq> length dst_block_ids
      then Inl (InvalidArgument ''src and dst block id lists must have the same length'')
      else if kl_layout l \<noteq> kl_layout dst
      then Inl (InvalidArgument ''src and dst must have the same layout'')
      else if st_kind (kl_storage l) = Device \<and> st_kind (kl_storage dst) = Device
      then Inl (RuntimeError ''device-to-device block copies are not implemented'')
      else
        let suffix = wmul (wmul (kl_block_size l) (kl_heads l div kl_tp_size l)) (kl_head_size l);
            suffix = (if kl_layout l = BlockFirst then wmul suffix 2 else suffix);
            (rc, m) = copy_blocks_3d (st_pointer (kl_storage l)) (st_pointer (kl_storage dst))
                        (map to_int src_block_ids) (map to_int dst_block_ids)
                        (to_int (length src_block_ids)) (if kl_layout l = KvFirst then 2 else 1)
                        (to_int (kl_blocks l)) (to_int (kl_blocks dst)) (to_int suffix)
                        (to_int (dtype_size (kl_dtype l))) m
        in if rc \<noteq> 0 then Inl (RuntimeError ''failed to copy blocks'') else Inr m)"

section \<open>Block storage\<close>

record KvBlockStorage =
  block_details :: KvBlockDetails
  bs_kind :: StorageKind
  bs_blocks :: nat
  bs_layers :: "KvLayer list"

definition layers_details :: "KvLayer list \<Rightarrow> KvBlockDetails" where
  "layers_details ls =
     (let l = hd ls in
      \<lparr>bd_layout = kl_layout l, bd_block_size = kl_block_size l, bd_tp_rank = kl_tp_rank l,
       bd_tp_size = kl_tp_size l,
       model_details = \<lparr>number_of_layers = length ls, md_heads = kl_heads l,
                        md_head_size = kl_head_size l, md_dtype = kl_dtype l\<rparr>\<rparr>)"

fun check_layers :: "StorageKind \<Rightarrow> nat \<Rightarrow> KvLayer list \<Rightarrow> unit res" where
  "check_layers kind blocks [] = Inr ()"
| "check_layers kind blocks (l # ls) =
     (if st_kind (kl_storage l) \<noteq> kind
      then Inl (InvalidArgument ''all layers must have the same storage kind'')
      else if kl_blocks l \<noteq> blocks
      then Inl (InvalidArgument ''all layers must have the same number of blocks'')
      else check_layers kind blocks ls)"

definition KvBlockStorage_from_layers :: "KvLayer list \<Rightarrow> KvBlockStorage res" where
  "KvBlockStorage_from_layers ls =
     (if ls = [] then Inl (InvalidArgument ''layers must not be empty'')
      else
        let kind = st_kind (kl_storage (hd ls)); blocks = kl_blocks (hd ls); d = layers_details ls
        in rbind (check_layers kind blocks ls)
             (\<lambda>_. rbind (KvBlockDetails_validate d)
               (\<lambda>_. if \<exists>l\<in>set ls. st_size (kl_storage l) < bytes_per_token_block_per_layer d
                    then Inl (InvalidArgument ''layer storage too small for one block'')
                    else Inr \<lparr>block_details = d, bs_kind = kind, bs_blocks = blocks, bs_layers = ls\<rparr>)))"

fun allocate_layers :: "KvBlockDetails \<Rightarrow> nat \<Rightarrow> nat \<Rightarrow> StorageKind \<Rightarrow> nat option list \<Rightarrow> KvLayer list res" where
  "allocate_layers d blocks bytes kind [] = Inr []"
| "allocate_layers d blocks bytes kind (p # ps) =
     rbind (OwnedStorage_create p bytes kind)
       (\<lambda>st. rbind (KvLayer_from_storage d blocks st)
         (\<lambda>l. rbind (allocate_layers d blocks bytes kind ps) (\<lambda>ls. Inr (l # ls))))"

text \<open>\<open>alloc i\<close> is what the allocator returns for layer \<open>i\<close>.\<close>

definition KvBlockStorage_allocate ::
  "(nat \<Rightarrow> nat option) \<Rightarrow> nat \<Rightarrow> KvBlockDetails \<Rightarrow> StorageKind \<Rightarrow> KvBlockStorage res" where
  "KvBlockStorage_allocate alloc blocks d kind =
     rbind (KvBlockDetails_validate d)
       (\<lambda>_. rbind (allocate_layers d blocks (wmul (bytes_per_token_block_per_layer d) blocks) kind
                     (map alloc [0..<number_of_layers (model_details d)]))
         KvBlockStorage_from_layers)"

definition KvBlockStorage_layer :: "nat \<Rightarrow> KvBlockStorage \<Rightarrow> KvLayer res" where
  "KvBlockStorage_layer i s =
     (if i \<ge> length (bs_layers s) then Inl (OutOfRange ''layer index out of bounds'')
      else Inr (bs_layers s ! i))"

section \<open>Copy streams\<close>

record CopyStreamBlockMap =
  src_layer_ptrs :: "nat list"
  dst_layer_ptrs :: "nat list"
  bm_prefix_dim :: int
  bm_src_block_dim :: int
  bm_dst_block_dim :: int
  bm_suffix_dim :: int
  bm_elem_size :: int

definition CopyStreamBlockMap_create :: "KvBlockStorage \<Rightarrow> KvBlockStorage \<Rightarrow> CopyStreamBlockMap res" where
  "CopyStreamBlockMap_create src dst =
     (if \<not> is_compatible (block_details src) (block_details dst)
      then Inl (InvalidArgument ''src and dst must have compatible block details'')
      else if length (bs_layers src) \<noteq> length (bs_layers dst)
      then Inl (InvalidArgument ''src and dst must have the same number of layers'')
      else
        let elem = to_int (dtype_size (md_dtype (model_details (block_details src))))
        in if elem < 1 \<or> elem > 8 then Inl (InvalidArgument ''element size must be 1..8 bytes'')
           else Inr \<lparr>src_layer_ptrs = map (\<lambda>l. st_pointer (kl_storage l)) (bs_layers src),
                     dst_layer_ptrs = map (\<lambda>l. st_pointer (kl_storage l)) (bs_layers dst),
                     bm_prefix_dim = to_int (prefix_dim (block_details src)),
                     bm_src_block_dim = to_int (bs_blocks src),
                     bm_dst_block_dim = to_int (bs_blocks dst),
                     bm_suffix_dim = to_int (suffix_dim (block_details src)),
                     bm_elem_size = elem\<rparr>)"

record CopyStream =
  cs_handle :: CpuCopyStream
  max_num_layers :: nat
  max_num_blocks :: nat
  staged_layers :: bool
  staged_block_ids :: bool
  layer_doorbells :: "bool list"
  cs_src_ids :: "int list"
  cs_dst_ids :: "int list"
  block_map :: "CopyStreamBlockMap option"

definition CopyStream_new :: "nat \<Rightarrow> nat \<Rightarrow> CopyStream" where
  "CopyStream_new layers blocks =
     \<lparr>cs_handle = copy_stream_create (to_int blocks), max_num_layers = layers, max_num_blocks = blocks,
      staged_layers = False, staged_block_ids = False, layer_doorbells = replicate layers False,
      cs_src_ids = [], cs_dst_ids = [], block_map = None\<rparr>"

definition prepare_block_map :: "CopyStreamBlockMap \<Rightarrow> CopyStream \<Rightarrow> unit res \<times> CopyStream" where
  "prepare_block_map bm s =
     (if src_layer_ptrs bm = [] \<or> length (src_layer_ptrs bm) \<noteq> length (dst_layer_ptrs bm)
      then (Inl (InvalidArgument ''block map must carry matching non-empty layer lists''), s)
      else if length (src_layer_ptrs bm) > max_num_layers s
      then (Inl (InvalidArgument ''number of layers exceeds the copy stream capacity''), s)
      else if staged_layers s then (Inl (LogicError ''layers already staged''), s)
      else (Inr (), s\<lparr>staged_layers := True, block_map := Some bm,
                     layer_doorbells := replicate (length (layer_doorbells s)) False\<rparr>))"

definition prepare_block_ids :: "int list \<Rightarrow> int list \<Rightarrow> CopyStream \<Rightarrow> unit res \<times> CopyStream" where
  "prepare_block_ids src_ids dst_ids s =
     (if length src_ids \<noteq> length dst_ids
      then (Inl (InvalidArgument ''src and dst block id lists must have the same length''), s)
      else if length src_ids > max_num_blocks s
      then (Inl (InvalidArgument ''number of blocks exceeds the copy stream capacity''), s)
      else if \<not> staged_layers s then (Inl (LogicError ''layers must be staged before block ids''), s)
      else if staged_block_ids s then (Inl (LogicError ''block ids already staged''), s)
      else if \<not> distinct src_ids then (Inl (InvalidArgument ''src block ids must be unique''), s)
      else if \<not> distinct dst_ids then (Inl (InvalidArgument ''dst block ids must be unique''), s)
      else
        let s = s\<lparr>cs_src_ids := src_ids, cs_dst_ids := dst_ids\<rparr>;
            (rc, h) = copy_stream_prepare_block_ids src_ids dst_ids (to_int (length src_ids)) (cs_handle s)
        in if rc \<noteq> 0 then (Inl (RuntimeError ''failed to prepare block ids''), s\<lparr>cs_handle := h\<rparr>)
           else (Inr (), s\<lparr>cs_handle := h, staged_block_ids := True\<rparr>))"

text \<open>The layers of the staged map; \<open>trigger_layer\<close> looks at them only once a map is staged.\<close>

definition layer_count :: "CopyStream \<Rightarrow> nat" where
  "layer_count s = (case block_map s of None \<Rightarrow> 0 | Some bm \<Rightarrow> length (src_layer_ptrs bm))"

definition trigger_layer :: "nat \<Rightarrow> CopyStream \<times> mem \<Rightarrow> unit res \<times> CopyStream \<times> mem" where
  "trigger_layer layer sm =
     (let (s, m) = sm in
      if \<not> staged_layers s then (Inl (LogicError ''layers must be staged before triggering''), s, m)
      else if \<not> staged_block_ids s
      then (Inl (LogicError ''block ids must be staged before triggering''), s, m)
      else if layer \<ge> layer_count s then (Inl (OutOfRange ''layer index out of bounds''), s, m)
      else if layer_doorbells s ! layer then (Inr (), s, m)
      else
        let bm = the (block_map s);
            (rc, m) = copy_stream_memcpy (cs_handle s) (src_layer_ptrs bm ! layer)
                        (dst_layer_ptrs bm ! layer) (bm_prefix_dim bm) (bm_suffix_dim bm)
                        (bm_elem_size bm) (bm_src_block_dim bm) (bm_dst_block_dim bm) m
        in if rc \<noteq> 0 then (Inl (RuntimeError ''failed to execute layer copy''), s, m)
           else (Inr (), s\<lparr>layer_doorbells := (layer_doorbells s)[layer := True]\<rparr>, m))"

fun trigger_loop :: "nat list \<Rightarrow> CopyStream \<times> mem \<Rightarrow> unit res \<times> CopyStream \<times> mem" where
  "trigger_loop [] sm = (Inr (), sm)"
| "trigger_loop (l # ls) sm =
     (case trigger_layer l sm of (Inl e, sm) \<Rightarrow> (Inl e, sm) | (Inr _, sm) \<Rightarrow> trigger_loop ls sm)"

definition trigger_all_layers :: "CopyStream \<times> mem \<Rightarrow> unit res \<times> CopyStream \<times> mem" where
  "trigger_all_layers sm = trigger_loop [0..<layer_count (fst sm)] sm"

text \<open>\<open>v != 0 && (v & (v - 1)) == 0\<close>.\<close>

definition power_of_two :: "u64 \<Rightarrow> bool" where
  "power_of_two v \<longleftrightarrow> v \<noteq> 0 \<and> v AND (v - 1) = 0"

definition scatter_copy_layer ::
  "nat \<Rightarrow> nat list \<Rightarrow> nat \<Rightarrow> nat \<Rightarrow> nat \<Rightarrow> nat \<Rightarrow> CopyStream \<times> mem \<Rightarrow> unit res \<times> mem" where
  "scatter_copy_layer layer dims elem_size block_dim_index src_tp_size dst_tp_size sm =
     (let (s, m) = sm in
      if block_dim_index > 1 then (Inl (InvalidArgument ''block_dim_index must be 0 or 1''), m)
      else if elem_size = 0 \<or> elem_size > 8 then (Inl (InvalidArgument ''elem_size must be 1..8''), m)
      else if src_tp_size \<ge> dst_tp_size
      then (Inl (InvalidArgument ''src_tp_size must be less than dst_tp_size''), m)
      else if \<not> power_of_two (of_nat src_tp_size) \<or> \<not> power_of_two (of_nat dst_tp_size)
      then (Inl (InvalidArgument ''tp sizes must be powers of 2''), m)
      else if \<not> staged_layers s \<or> \<not> staged_block_ids s
      then (Inl (LogicError ''layers and block ids must be staged before scattering''), m)
      else if layer \<ge> layer_count s then (Inl (OutOfRange ''layer index out of bounds''), m)
      else
        let bm = the (block_map s);
            scatter_factor = dst_tp_size div src_tp_size;
            u32 = (\<lambda>n. n mod 2 ^ 32);
            src_6d = map u32 [dims ! 0, dims ! 1, dims ! 2, scatter_factor, dims ! 3 div scatter_factor,
                              dims ! 4];
            (rc, m) = copy_stream_scatter (cs_handle s) (src_layer_ptrs bm ! layer)
                        (dst_layer_ptrs bm ! layer) src_6d 6 (u32 elem_size) (u32 block_dim_index)
                        (nat (bm_src_block_dim bm mod 2 ^ 32)) (nat (bm_dst_block_dim bm mod 2 ^ 32)) m
        in if rc \<noteq> 0 then (Inl (RuntimeError ''failed to execute tensor scatter''), m) else (Inr (), m))"

definition CopyStream_reset :: "CopyStream \<Rightarrow> CopyStream" where
  "CopyStream_reset s = s\<lparr>staged_layers := False, staged_block_ids := False\<rparr>"

section \<open>Many copies at once\<close>

lemma fold_nested: "fold (\<lambda>x. fold (f x) ys) xs m = fold (\<lambda>(x, y). f x y) (List.product xs ys) m"
proof (induction xs arbitrary: m)
  case (Cons x xs)
  have "fold (f x) ys m' = fold (\<lambda>(x, y). f x y) (map (Pair x) ys) m'" for m'
    by (induction ys arbitrary: m') simp_all
  with Cons show ?case by simp
qed simp

text \<open>Copies between regions that do not touch: every copy takes effect, whatever the order.\<close>

lemma memcpy_in: "k < n \<Longrightarrow> memcpy d s n m (d + k) = m (s + k)"
  by (simp add: memcpy_def)

lemma memcpy_out: "\<not> (d \<le> a \<and> a < d + n) \<Longrightarrow> memcpy d s n m a = m a"
  by (auto simp: memcpy_def)

lemma fold_memcpy_frame:
  "\<forall>x\<in>set xs. \<not> (d x \<le> a \<and> a < d x + n) \<Longrightarrow> fold (\<lambda>x. memcpy (d x) (s x) n) xs m a = m a"
  by (induction xs arbitrary: m) (auto simp: memcpy_def)

lemma fold_memcpy:
  assumes "\<forall>x\<in>set xs. \<forall>y\<in>set xs. d x + n \<le> s y \<or> s y + n \<le> d x"
    and "\<forall>x\<in>set xs. \<forall>y\<in>set xs. x \<noteq> y \<longrightarrow> d x + n \<le> d y \<or> d y + n \<le> d x"
    and "distinct xs" and "x \<in> set xs" and k: "k < n"
  shows "fold (\<lambda>x. memcpy (d x) (s x) n) xs m (d x + k) = m (s x + k)"
  using assms(1-4)
proof (induction xs arbitrary: m)
  case (Cons y ys)
  show ?case
  proof (cases "x = y")
    case True
    have "\<not> (d z \<le> d x + k \<and> d x + k < d z + n)" if "z \<in> set ys" for z
      using Cons.prems(2,3) that True k by fastforce
    then have "fold (\<lambda>x. memcpy (d x) (s x) n) ys (memcpy (d y) (s y) n m) (d x + k)
        = memcpy (d y) (s y) n m (d x + k)"
      by (intro fold_memcpy_frame) blast
    then show ?thesis using True k by (simp add: memcpy_in)
  next
    case False
    then have "fold (\<lambda>x. memcpy (d x) (s x) n) ys (memcpy (d y) (s y) n m) (d x + k)
        = memcpy (d y) (s y) n m (s x + k)"
      using Cons.IH Cons.prems by simp
    moreover have "d y + n \<le> s x \<or> s x + n \<le> d y" using Cons.prems(1,4) by auto
    then have "\<not> (d y \<le> s x + k \<and> s x + k < d y + n)" using k by linarith
    ultimately show ?thesis by (simp add: memcpy_out)
  qed
qed simp

section \<open>Block copies\<close>

text \<open>Where a block of a slab starts: row \<open>pre\<close>, block \<open>b\<close> of \<open>blocks\<close>, each of \<open>n\<close> bytes.\<close>

definition block_at :: "nat \<Rightarrow> nat \<Rightarrow> nat \<Rightarrow> nat \<Rightarrow> nat \<Rightarrow> nat" where
  "block_at base blocks n pre b = base + (pre * blocks + b) * n"

text \<open>What makes a call of the copy routine well-formed: the slabs exist, do not wrap and do not overlap,
  and the ids name blocks of them.\<close>

definition good_copy :: "nat \<Rightarrow> nat \<Rightarrow> nat \<Rightarrow> nat \<Rightarrow> nat \<Rightarrow> nat \<Rightarrow> nat list \<Rightarrow> nat list \<Rightarrow> bool" where
  "good_copy src dst P sb db n sids dids \<longleftrightarrow>
     0 < src \<and> 0 < dst \<and> 0 < P \<and> 0 < n \<and> sids \<noteq> [] \<and> length dids = length sids \<and> distinct dids \<and>
     (\<forall>b\<in>set sids. b < sb) \<and> (\<forall>b\<in>set dids. b < db) \<and>
     src + P * sb * n \<le> 2 ^ 64 \<and> dst + P * db * n \<le> 2 ^ 64 \<and>
     (src + P * sb * n \<le> dst \<or> dst + P * db * n \<le> src)"

lemma block_at_fits:
  assumes "pre < P" "b < blocks" "base + P * blocks * n \<le> M"
  shows "block_at base blocks n pre b + n \<le> base + P * blocks * n"
    and "pre * (blocks * n) + b * n + n \<le> P * blocks * n"
proof -
  have "rm [pre, b] [P, blocks] < prod_list [P, blocks]" using assms(1,2) by (intro rm_bound) simp
  then have "pre * blocks + b < P * blocks" by simp
  from cell_fits [OF this, of n "P * blocks * n"]
  show "pre * (blocks * n) + b * n + n \<le> P * blocks * n" by (simp add: algebra_simps)
  then show "block_at base blocks n pre b + n \<le> base + P * blocks * n"
    by (simp add: block_at_def algebra_simps)
qed

lemma block_at_apart:
  assumes "pre < P" "b < blocks" "pre' < P" "b' < blocks" "(pre, b) \<noteq> (pre', b')"
  shows "block_at base blocks n pre b + n \<le> block_at base blocks n pre' b'
       \<or> block_at base blocks n pre' b' + n \<le> block_at base blocks n pre b"
proof -
  have "rm [pre, b] [P, blocks] \<noteq> rm [pre', b'] [P, blocks]"
    using rm_inj [of "[pre, b]" "[P, blocks]" "[pre', b']"] assms by auto
  then have "pre * blocks + b \<noteq> pre' * blocks + b'" by simp
  from cells_apart [OF this, of n] show ?thesis by (auto simp: block_at_def)
qed

lemma copy_address:
  assumes "pre < P" "b < blocks" "base + P * blocks * n \<le> 2 ^ 64" "0 < n" "0 < base"
  shows "wadd (wadd base (wmul pre (wmul blocks n))) (wmul (size_of_int (int b)) n)
         = block_at base blocks n pre b"
proof -
  have f: "pre * (blocks * n) + b * n + n \<le> P * blocks * n" by (rule block_at_fits(2) [OF assms(1-3)])
  have "blocks * n * 1 \<le> blocks * n * P" using assms(1) by (intro mult_le_mono2) linarith
  also have "\<dots> = P * blocks * n" by (simp only: ac_simps)
  finally have 1: "blocks * n < 2 ^ 64" using assms(3,5) by linarith
  have "b * 1 \<le> b * n" using assms(4) by (intro mult_le_mono2) linarith
  then have 2: "b < 2 ^ 64" "b * n < 2 ^ 64" "base + pre * (blocks * n) + b * n < 2 ^ 64"
    using f assms(3-5) by linarith+
  then have "base + pre * (blocks * n) < 2 ^ 64" "pre * (blocks * n) < 2 ^ 64" by linarith+
  with 1 2 show ?thesis by (simp add: block_at_def algebra_simps)
qed

lemma copy_blocks_impl_spec:
  assumes g: "good_copy src dst P sb db n sids dids"
    and n: "wmul (size_of_int sfx) (size_of_int elem) = n" and pos: "0 < sfx" "0 < elem"
    and sb: "size_of_int src_dim = sb" "size_of_int dst_dim = db"
  shows "\<exists>m'. copy_blocks_impl src dst (map int sids) (map int dids) (int (length sids)) (int P) sfx elem
            src_dim dst_dim m = (0, m')
          \<and> (\<forall>pre p k. pre < P \<longrightarrow> p < length sids \<longrightarrow> k < n \<longrightarrow>
               m' (block_at dst db n pre (dids ! p) + k) = m (block_at src sb n pre (sids ! p) + k))
          \<and> (\<forall>a. (\<forall>pre b. pre < P \<longrightarrow> b \<in> set dids \<longrightarrow>
                   \<not> (block_at dst db n pre b \<le> a \<and> a < block_at dst db n pre b + n)) \<longrightarrow> m' a = m a)"
proof -
  let ?d = "\<lambda>x. block_at dst db n (fst x) (dids ! snd x)" and ?s = "\<lambda>x. block_at src sb n (fst x) (sids ! snd x)"
  let ?xs = "List.product [0..<P] [0..<length sids]"
  note G = g [unfolded good_copy_def]
  have ids: "dids ! snd x < db" "sids ! snd x < sb" "fst x < P" if "x \<in> set ?xs" for x
    using G that by auto
  have pair: "(\<lambda>(pre, p). copy_pair src dst n (wmul sb n) (wmul db n) pre (map int sids ! p) (map int dids ! p)) x
      = memcpy (?d x) (?s x) n" if "x \<in> set ?xs" for x
    using that ids [OF that] G
    by (auto simp: copy_pair_def fun_eq_iff copy_address [of _ P] split: prod.splits)
  have c: "copy_blocks_impl src dst (map int sids) (map int dids) (int (length sids)) (int P) sfx elem
      src_dim dst_dim m = (0, fold (\<lambda>x. memcpy (?d x) (?s x) n) ?xs m)"
  proof -
    have "fold (\<lambda>(pre, p). copy_pair src dst n (wmul sb n) (wmul db n) pre (map int sids ! p) (map int dids ! p))
        ?xs m = fold (\<lambda>x. memcpy (?d x) (?s x) n) ?xs m"
      by (rule fold_cong [OF refl refl pair])
    then show ?thesis using G pos by (simp add: copy_blocks_impl_def n sb Let_def fold_nested)
  qed
  have ds: "\<forall>x\<in>set ?xs. \<forall>y\<in>set ?xs. ?d x + n \<le> ?s y \<or> ?s y + n \<le> ?d x"
  proof (intro ballI)
    fix x y assume xy: "x \<in> set ?xs" "y \<in> set ?xs"
    have "?d x + n \<le> dst + P * db * n" "dst \<le> ?d x"
      using block_at_fits(1) [OF ids(3,1) [OF xy(1)], of dst n] by (auto simp: block_at_def)
    moreover have "?s y + n \<le> src + P * sb * n" "src \<le> ?s y"
      using block_at_fits(1) [OF ids(3,2) [OF xy(2)], of src n] by (auto simp: block_at_def)
    moreover have "src + P * sb * n \<le> dst \<or> dst + P * db * n \<le> src" using G by blast
    ultimately show "?d x + n \<le> ?s y \<or> ?s y + n \<le> ?d x" by linarith
  qed
  have dd: "\<forall>x\<in>set ?xs. \<forall>y\<in>set ?xs. x \<noteq> y \<longrightarrow> ?d x + n \<le> ?d y \<or> ?d y + n \<le> ?d x"
  proof (intro ballI impI)
    fix x y assume xy: "x \<in> set ?xs" "y \<in> set ?xs" "x \<noteq> y"
    have "(fst x, dids ! snd x) \<noteq> (fst y, dids ! snd y)"
      using xy G by (auto simp: nth_eq_iff_index_eq prod_eq_iff)
    then show "?d x + n \<le> ?d y \<or> ?d y + n \<le> ?d x"
      using ids [OF xy(1)] ids [OF xy(2)] by (intro block_at_apart [of _ P]) simp_all
  qed
  have dx: "distinct ?xs" by (simp add: distinct_product)
  have 1: "fold (\<lambda>x. memcpy (?d x) (?s x) n) ?xs m (block_at dst db n pre (dids ! p) + k)
      = m (block_at src sb n pre (sids ! p) + k)" if "pre < P" "p < length sids" "k < n" for pre p k
    using fold_memcpy [OF ds dd dx, of "(pre, p)" k m] that by simp
  have 2: "fold (\<lambda>x. memcpy (?d x) (?s x) n) ?xs m a = m a"
    if "\<forall>pre b. pre < P \<longrightarrow> b \<in> set dids \<longrightarrow>
        \<not> (block_at dst db n pre b \<le> a \<and> a < block_at dst db n pre b + n)" for a
    using that G by (intro fold_memcpy_frame) auto
  show ?thesis using c 1 2 by blast
qed

section \<open>Blocks of a layer\<close>

text \<open>The dimension that counts blocks; the bytes of a block in one row, and the number of rows.\<close>

definition block_dim :: "KvLayer \<Rightarrow> nat" where
  "block_dim l = (if kl_layout l = KvFirst then 1 else 0)"

definition block_bytes :: "KvLayer \<Rightarrow> nat" where
  "block_bytes l = (if kl_layout l = KvFirst then 1 else 2) * kl_block_size l * (kl_heads l div kl_tp_size l)
     * kl_head_size l * dtype_size (kl_dtype l)"

definition rows :: "KvLayer \<Rightarrow> nat" where
  "rows l = (if kl_layout l = KvFirst then 2 else 1)"

definition row_of :: "KvLayer \<Rightarrow> nat list \<Rightarrow> nat" where
  "row_of l ix = (if kl_layout l = KvFirst then ix ! 0 else 0)"

definition inside :: "KvLayer \<Rightarrow> nat list \<Rightarrow> nat" where
  "inside l ix = (if kl_layout l = KvFirst then rm (drop 2 ix) (drop 2 (layer_shape l))
                  else rm (drop 1 ix) (drop 1 (layer_shape l))) * dtype_size (kl_dtype l)"

text \<open>A layer that was constructed without wrap-around on a slab of the address space, and whose dimensions
  fit the \<open>int\<close> parameters of the copy interface.\<close>

definition ready :: "KvLayer \<Rightarrow> bool" where
  "ready l \<longleftrightarrow>
     KvLayer_new l = Inr l \<and> prod_list (layer_shape l) * dtype_size (kl_dtype l) < 2 ^ 64 \<and>
     0 < st_pointer (kl_storage l) \<and> st_pointer (kl_storage l) + st_size (kl_storage l) \<le> 2 ^ 64 \<and>
     is_host_accessible (st_kind (kl_storage l)) \<and> kl_blocks l < 2 ^ 31 \<and> block_bytes l < 2 ^ 31"

definition same_geometry :: "KvLayer \<Rightarrow> KvLayer \<Rightarrow> bool" where
  "same_geometry a b \<longleftrightarrow>
     kl_layout a = kl_layout b \<and> kl_block_size a = kl_block_size b \<and> kl_heads a = kl_heads b \<and>
     kl_head_size a = kl_head_size b \<and> kl_dtype a = kl_dtype b \<and> kl_tp_size a = kl_tp_size b"

lemma dtype_size_pos [simp]: "0 < dtype_size t"
  by (cases t) simp_all

lemma KvLayer_new_dims:
  assumes "KvLayer_new l = Inr l'"
  shows "l' = l" "0 < kl_blocks l" "0 < kl_block_size l" "0 < kl_head_size l"
    "0 < kl_heads l div kl_tp_size l"
    "wmul (accumulate (layer_shape l)) (dtype_size (kl_dtype l)) \<le> st_size (kl_storage l)"
proof -
  have c: "l' = l" "0 < kl_blocks l" "0 < kl_block_size l" "0 < kl_head_size l" "0 < kl_heads l"
    "0 < kl_tp_size l" "kl_heads l mod kl_tp_size l = 0"
    "wmul (accumulate (layer_shape l)) (dtype_size (kl_dtype l)) \<le> st_size (kl_storage l)"
    using assms by (auto simp: KvLayer_new_def split: if_splits)
  have "kl_tp_size l \<le> kl_heads l" using c(5,7) by (intro dvd_imp_le) auto
  then show "0 < kl_heads l div kl_tp_size l" using c(6) by (simp add: div_greater_zero_iff)
qed (use assms in \<open>auto simp: KvLayer_new_def split: if_splits\<close>)

lemma layer_shape_pos:
  assumes "KvLayer_new l = Inr l'"
  shows "0 \<notin> set (layer_shape l)"
  using KvLayer_new_dims [OF assms] by (auto simp: layer_shape_def Let_def)

lemma layer_bytes: "prod_list (layer_shape l) * dtype_size (kl_dtype l) = rows l * kl_blocks l * block_bytes l"
  by (simp add: layer_shape_def Let_def block_bytes_def rows_def)

lemma ready_view:
  assumes r: "ready l"
  obtains v where "KvLayer_view l = Inr v" "boxed (layer_shape l) (replicate 5 0) v"
    "tv_storage v = kl_storage l" "tv_element_size v = dtype_size (kl_dtype l)" "tv_shape v = layer_shape l"
    "rows l * kl_blocks l * block_bytes l \<le> st_size (kl_storage l)"
proof -
  let ?e = "dtype_size (kl_dtype l)" and ?S = "layer_shape l"
  note R = r [unfolded ready_def]
  have n0: "0 \<notin> set ?S" using layer_shape_pos R by blast
  have "prod_list ?S * 1 \<le> prod_list ?S * ?e" using dtype_size_pos by (intro mult_le_mono2) (simp add: Suc_leI)
  also have "\<dots> < 2 ^ 64" using R by blast
  finally have p: "prod_list ?S < 2 ^ 64" by (simp only: mult_1_right)
  have a: "accumulate ?S = prod_list ?S" by (rule accumulate_exact [OF n0 p])
  have "prod_list ?S * ?e \<le> st_size (kl_storage l)"
    using KvLayer_new_dims(6) [of l l] R unfolding a by simp
  moreover have len: "length ?S = 5" by (simp add: layer_shape_def Let_def)
  ultimately have "boxed ?S (replicate 5 0) \<lparr>tv_storage = kl_storage l, tv_shape = ?S, tv_strides = strides_of ?S,
      tv_element_size = ?e, tv_offset = 0, tv_total = prod_list ?S\<rparr>"
    using R n0 strides_of_exact [OF n0 p] by (simp add: boxed_def rm_zeros)
  moreover have "KvLayer_view l = Inr \<lparr>tv_storage = kl_storage l, tv_shape = ?S, tv_strides = strides_of ?S,
      tv_element_size = ?e, tv_offset = 0, tv_total = prod_list ?S\<rparr>"
    using R \<open>prod_list ?S * ?e \<le> st_size (kl_storage l)\<close>
    by (simp add: KvLayer_view_def TensorView_new_def a Let_def)
  ultimately show thesis using that \<open>prod_list ?S * ?e \<le> st_size (kl_storage l)\<close> layer_bytes [of l] by simp
qed

lemma in_bounds_layer:
  assumes "tv_shape v = layer_shape l" "in_bounds v ix"
  shows "ix ! block_dim l < kl_blocks l" "row_of l ix < rows l" "length ix = 5"
    "inside l ix + dtype_size (kl_dtype l) \<le> block_bytes l"
    "rm ix (layer_shape l) * dtype_size (kl_dtype l)
     = (row_of l ix * kl_blocks l + ix ! block_dim l) * block_bytes l + inside l ix"
proof -
  let ?H = "kl_heads l div kl_tp_size l"
  obtain a b c d e where ix: "ix = [a, b, c, d, e]"
    using assms by (auto simp: in_bounds_def layer_shape_def Let_def list_all2_Cons2 split: if_splits)
  have w: "within ix (layer_shape l)" using assms by (simp add: in_bounds_def)
  then show "ix ! block_dim l < kl_blocks l" "row_of l ix < rows l" "length ix = 5"
    by (auto simp: ix layer_shape_def Let_def block_dim_def row_of_def rows_def split: if_splits)
  have "if kl_layout l = KvFirst
        then rm [c, d, e] [kl_block_size l, ?H, kl_head_size l] < prod_list [kl_block_size l, ?H, kl_head_size l]
        else rm [b, c, d, e] [2, kl_block_size l, ?H, kl_head_size l]
             < prod_list [2, kl_block_size l, ?H, kl_head_size l]"
    using w by (auto simp: ix layer_shape_def Let_def simp del: rm.simps prod_list.Cons
        intro!: rm_bound split: if_splits)
  then show "inside l ix + dtype_size (kl_dtype l) \<le> block_bytes l"
    using cell_fits [of _ "prod_list [kl_block_size l, ?H, kl_head_size l]" "dtype_size (kl_dtype l)"]
      cell_fits [of _ "prod_list [2, kl_block_size l, ?H, kl_head_size l]" "dtype_size (kl_dtype l)"]
    by (auto simp: inside_def block_bytes_def ix layer_shape_def Let_def mult.assoc simp del: rm.simps
        split: if_splits)
  show "rm ix (layer_shape l) * dtype_size (kl_dtype l)
     = (row_of l ix * kl_blocks l + ix ! block_dim l) * block_bytes l + inside l ix"
    by (simp add: ix layer_shape_def Let_def block_dim_def row_of_def block_bytes_def inside_def algebra_simps)
qed

lemma map2_zeros: "length ix = n \<Longrightarrow> map2 (+) (replicate n 0) ix = (ix :: nat list)"
  by (rule nth_equalityI) simp_all

lemma ready_get:
  assumes r: "ready l" and v: "KvLayer_view l = Inr v" and ix: "in_bounds v ix"
  shows "tv_get (dtype_size (kl_dtype l)) v ix m
         = Inr (read_bytes (block_at (st_pointer (kl_storage l)) (kl_blocks l) (block_bytes l) (row_of l ix)
                  (ix ! block_dim l) + inside l ix) (dtype_size (kl_dtype l)) m)"
    and "tv_shape v = layer_shape l"
proof -
  obtain w where w: "KvLayer_view l = Inr w" "boxed (layer_shape l) (replicate 5 0) w"
    "tv_storage w = kl_storage l" "tv_element_size w = dtype_size (kl_dtype l)" "tv_shape w = layer_shape l"
    by (rule ready_view [OF r])
  have v: "v = w" using v w(1) by simp
  show s: "tv_shape v = layer_shape l" using v w(5) by simp
  note R = r [unfolded ready_def]
  have p: "st_pointer (tv_storage w) + st_size (tv_storage w) \<le> 2 ^ 64" using R w(3) by simp
  obtain n where n: "byte_offset w ix = Inr n" "tv_address w ix = Inr (st_pointer (tv_storage w) + n)"
    by (rule boxed_address [OF w(2) ix [unfolded v] p])
  have "n = rm (map2 (+) (replicate 5 0) ix) (layer_shape l) * tv_element_size w"
    by (rule byte_offset_eq [OF w(2) ix [unfolded v] n(1)])
  also have "map2 (+) (replicate 5 0) ix = ix" using in_bounds_layer(3) [OF s ix] by (rule map2_zeros)
  finally have "n = (row_of l ix * kl_blocks l + ix ! block_dim l) * block_bytes l + inside l ix"
    unfolding w(4) in_bounds_layer(5) [OF s ix] .
  then show "tv_get (dtype_size (kl_dtype l)) v ix m
         = Inr (read_bytes (block_at (st_pointer (kl_storage l)) (kl_blocks l) (block_bytes l) (row_of l ix)
                  (ix ! block_dim l) + inside l ix) (dtype_size (kl_dtype l)) m)"
    using n(2) R by (simp add: v tv_get_def check_access_def w(3,4) block_at_def add.assoc)
qed

lemma suffix_exact:
  assumes "(if b then 1 else 2) * (x * y * z) < 2 ^ 31" "0 < (z :: nat)"
  shows "(let suffix = wmul (wmul x y) z in if \<not> b then wmul suffix 2 else suffix)
         = (if b then 1 else 2) * (x * y * z)"
proof -
  have "x * y * 1 \<le> x * y * z" using assms(2) by (intro mult_le_mono2) linarith
  moreover have "x * y * z < 2 ^ 31" "\<not> b \<Longrightarrow> 2 * (x * y * z) < 2 ^ 31"
    using assms(1) by (auto split: if_splits)
  moreover have "(2 :: nat) ^ 31 \<le> 2 ^ 64" by simp
  ultimately have "x * y < 2 ^ 64 \<and> x * y * z < 2 ^ 64" by linarith
  moreover have "wmul (x * y * z) 2 = 2 * (x * y * z)" if "\<not> b"
    using \<open>\<not> b \<Longrightarrow> 2 * (x * y * z) < 2 ^ 31\<close> [OF that] by (simp add: wmul_def)
  ultimately show ?thesis by (simp add: Let_def)
qed

lemma copy_blocks_to_spec:
  assumes l: "ready l" and d: "ready d" and geo: "same_geometry l d"
    and apart: "st_pointer (kl_storage l) + st_size (kl_storage l) \<le> st_pointer (kl_storage d)
              \<or> st_pointer (kl_storage d) + st_size (kl_storage d) \<le> st_pointer (kl_storage l)"
    and ids: "sids \<noteq> []" "length dids = length sids" "distinct dids" "length sids < 2 ^ 31"
      "\<forall>b\<in>set sids. b < kl_blocks l" "\<forall>b\<in>set dids. b < kl_blocks d"
  obtains m' where "copy_blocks_to l sids d dids m = Inr m'"
    "\<forall>pre p k. pre < rows l \<longrightarrow> p < length sids \<longrightarrow> k < block_bytes l \<longrightarrow>
       m' (block_at (st_pointer (kl_storage d)) (kl_blocks d) (block_bytes l) pre (dids ! p) + k)
       = m (block_at (st_pointer (kl_storage l)) (kl_blocks l) (block_bytes l) pre (sids ! p) + k)"
    "\<forall>a. (\<forall>pre b. pre < rows l \<longrightarrow> b \<in> set dids \<longrightarrow>
        \<not> (block_at (st_pointer (kl_storage d)) (kl_blocks d) (block_bytes l) pre b \<le> a
           \<and> a < block_at (st_pointer (kl_storage d)) (kl_blocks d) (block_bytes l) pre b + block_bytes l))
       \<longrightarrow> m' a = m a"
proof -
  let ?n = "block_bytes l" and ?e = "dtype_size (kl_dtype l)"
  note L = l [unfolded ready_def] and D = d [unfolded ready_def]
  have G: "rows d = rows l" "block_bytes d = ?n" "kl_layout d = kl_layout l"
    using geo by (simp_all add: same_geometry_def rows_def block_bytes_def)
  obtain ls: "rows l * kl_blocks l * ?n \<le> st_size (kl_storage l)" by (rule ready_view [OF l])
  obtain "rows d * kl_blocks d * block_bytes d \<le> st_size (kl_storage d)" by (rule ready_view [OF d])
  then have ds: "rows l * kl_blocks d * ?n \<le> st_size (kl_storage d)" by (simp add: G)
  have dims: "0 < kl_blocks l" "0 < kl_block_size l" "0 < kl_head_size l" "0 < kl_heads l div kl_tp_size l"
    using KvLayer_new_dims(2-5) [of l l] L by simp_all
  have n: "0 < ?n" using dims by (simp add: block_bytes_def)
  have r: "0 < rows l" by (simp add: rows_def)
  have "good_copy (st_pointer (kl_storage l)) (st_pointer (kl_storage d)) (rows l) (kl_blocks l) (kl_blocks d)
      ?n sids dids"
    unfolding good_copy_def using L D ids n r ls ds apart by (intro conjI) (simp_all, linarith+)
  note good = this
  define q where "q = (if kl_layout l = KvFirst then 1 else 2)
      * (kl_block_size l * (kl_heads l div kl_tp_size l) * kl_head_size l)"
  have q: "q * ?e = ?n" by (simp add: q_def block_bytes_def)
  have "q * 1 \<le> q * ?e" using dtype_size_pos by (intro mult_le_mono2) (simp add: Suc_leI)
  then have q31: "q < 2 ^ 31" using L unfolding q by linarith
  have q0: "0 < q" using dims by (simp add: q_def)
  have sfx: "(let suffix = wmul (wmul (kl_block_size l) (kl_heads l div kl_tp_size l)) (kl_head_size l)
      in if kl_layout l = BlockFirst then wmul suffix 2 else suffix) = q"
    using suffix_exact [OF q31 [unfolded q_def] dims(3)] unfolding q_def by (cases "kl_layout l") simp_all
  have e: "?e < 2 ^ 31" by (cases "kl_dtype l") simp_all
  have "q * ?e < 2 ^ 64" using L unfolding q by simp
  then have w: "wmul (size_of_int (int q)) (size_of_int (int ?e)) = ?n" using q31 e unfolding q [symmetric] by simp
  have pos: "0 < int q" "0 < int ?e" using q0 by simp_all
  have b: "size_of_int (int (kl_blocks l)) = kl_blocks l" "size_of_int (int (kl_blocks d)) = kl_blocks d"
    using L D by simp_all
  obtain m' where m': "copy_blocks_impl (st_pointer (kl_storage l)) (st_pointer (kl_storage d))
      (map int sids) (map int dids) (int (length sids)) (int (rows l)) (int q) (int ?e)
      (int (kl_blocks l)) (int (kl_blocks d)) m = (0, m')"
    "\<forall>pre p k. pre < rows l \<longrightarrow> p < length sids \<longrightarrow> k < ?n \<longrightarrow>
       m' (block_at (st_pointer (kl_storage d)) (kl_blocks d) ?n pre (dids ! p) + k)
       = m (block_at (st_pointer (kl_storage l)) (kl_blocks l) ?n pre (sids ! p) + k)"
    "\<forall>a. (\<forall>pre b. pre < rows l \<longrightarrow> b \<in> set dids \<longrightarrow>
        \<not> (block_at (st_pointer (kl_storage d)) (kl_blocks d) ?n pre b \<le> a
           \<and> a < block_at (st_pointer (kl_storage d)) (kl_blocks d) ?n pre b + ?n)) \<longrightarrow> m' a = m a"
    using copy_blocks_impl_spec [OF good w pos b, of m] by (elim exE conjE)
  have ids': "map to_int sids = map int sids" "map to_int dids = map int dids"
    using ids(5,6) L D by (auto intro!: to_int_id)
  have k: "\<not> (st_kind (kl_storage l) = Device \<and> st_kind (kl_storage d) = Device)"
    using L by (simp add: is_host_accessible_def)
  have args: "to_int (length sids) = int (length sids)" "to_int (kl_blocks l) = int (kl_blocks l)"
    "to_int (kl_blocks d) = int (kl_blocks d)" "to_int q = int q" "to_int ?e = int ?e"
    "(if kl_layout l = KvFirst then 2 else 1) = int (rows l)"
    using ids(4) L D q31 e by (simp_all add: rows_def)
  have "copy_blocks_to l sids d dids m = Inr m'"
    unfolding copy_blocks_to_def copy_blocks_3d_def sfx [unfolded Let_def] Let_def args ids' m'(1)
    using ids(2) k G(3) by simp
  then show thesis using m'(2,3) by (rule that)
qed

lemma read_bytes_cong:
  "(\<And>k. k < n \<Longrightarrow> m (p + k) = m' (q + k)) \<Longrightarrow> read_bytes p n m = read_bytes q n m'"
  by (simp add: read_bytes_def)

lemma same_geometry_fields:
  assumes "same_geometry l d"
  shows "block_dim d = block_dim l" "row_of d ix = row_of l ix" "inside d ix = inside l ix"
    "rows d = rows l" "block_bytes d = block_bytes l" "kl_dtype d = kl_dtype l" "kl_layout d = kl_layout l"
  using assms
  by (simp_all add: same_geometry_def block_dim_def row_of_def inside_def rows_def block_bytes_def
      layer_shape_def Let_def)

text \<open>Moving an index to another block keeps its place inside the block.\<close>

lemma other_block:
  assumes geo: "same_geometry l d" and v: "tv_shape vl = layer_shape l" "tv_shape vd = layer_shape d"
    and ix: "in_bounds vd ix" and b: "b < kl_blocks l"
  shows "in_bounds vl (ix[block_dim l := b])" "row_of l (ix[block_dim l := b]) = row_of l ix"
    "inside l (ix[block_dim l := b]) = inside l ix" "(ix[block_dim l := b]) ! block_dim l = b"
proof -
  obtain a1 a2 a3 a4 a5 where i: "ix = [a1, a2, a3, a4, a5]"
    using ix v(2) by (auto simp: in_bounds_def layer_shape_def Let_def list_all2_Cons2 split: if_splits)
  show "in_bounds vl (ix[block_dim l := b])" "row_of l (ix[block_dim l := b]) = row_of l ix"
    "inside l (ix[block_dim l := b]) = inside l ix" "(ix[block_dim l := b]) ! block_dim l = b"
    using ix b geo v
    by (auto simp: i in_bounds_def layer_shape_def Let_def block_dim_def row_of_def inside_def same_geometry_def
        split: if_splits)
qed

section \<open>Allocation\<close>

lemma validated_dims:
  assumes "KvBlockDetails_validate d = Inr ()"
  shows "0 < bd_tp_size d" "bd_tp_rank d < bd_tp_size d"
    "md_heads (model_details d) = bd_tp_size d * (md_heads (model_details d) div bd_tp_size d)"
    "0 < md_heads (model_details d)" "md_heads (model_details d) mod bd_tp_size d = 0"
  using assms by (auto simp: KvBlockDetails_validate_def split: if_splits)

text \<open>The bytes of one block of one layer, when nothing wraps.\<close>

lemma block_bytes_exact:
  assumes v: "KvBlockDetails_validate d = Inr ()"
    and n: "2 * md_heads (model_details d) * md_head_size (model_details d)
              * dtype_size (md_dtype (model_details d)) * bd_block_size d < 2 ^ 64"
    and pos: "0 < md_head_size (model_details d)" "0 < bd_block_size d"
  shows "bytes_per_token_block_per_layer d
         = 2 * (md_heads (model_details d) div bd_tp_size d) * md_head_size (model_details d)
           * dtype_size (md_dtype (model_details d)) * bd_block_size d"
proof -
  let ?h = "md_heads (model_details d)" and ?s = "md_head_size (model_details d)"
    and ?e = "dtype_size (md_dtype (model_details d))" and ?b = "bd_block_size d" and ?t = "bd_tp_size d"
  have le: "x * 1 \<le> x * y" if "0 < y" for x y :: nat using that by (intro mult_le_mono2) linarith
  have 1: "2 * ?h * ?s * ?e < 2 ^ 64" using le [OF pos(2), of "2 * ?h * ?s * ?e"] n by linarith
  have 2: "2 * ?h * ?s < 2 ^ 64" using le [OF dtype_size_pos [of "md_dtype (model_details d)"], of "2 * ?h * ?s"] 1 by linarith
  have 3: "2 * ?h < 2 ^ 64" using le [OF pos(1), of "2 * ?h"] 2 by linarith
  have "bytes_per_token_block_per_layer d = (2 * ?h * ?s * ?e * ?b) div ?t"
    using n 1 2 3 by (simp add: bytes_per_token_block_per_layer_def bytes_per_token_per_layer_def
        elements_per_token_per_layer_def)
  also have "2 * ?h * ?s * ?e * ?b = ?t * (2 * (?h div ?t) * ?s * ?e * ?b)"
    by (subst validated_dims(3) [OF v]) (simp only: ac_simps)
  finally show ?thesis using validated_dims(1) [OF v] by simp
qed

definition fresh_layer :: "KvBlockDetails \<Rightarrow> nat \<Rightarrow> nat \<Rightarrow> StorageKind \<Rightarrow> nat \<Rightarrow> KvLayer" where
  "fresh_layer d blocks bytes kind p =
     \<lparr>kl_layout = bd_layout d, kl_storage = \<lparr>st_pointer = p, st_size = bytes, st_kind = kind\<rparr>,
      kl_blocks = blocks, kl_block_size = bd_block_size d, kl_heads = md_heads (model_details d),
      kl_head_size = md_head_size (model_details d), kl_dtype = md_dtype (model_details d),
      kl_tp_size = bd_tp_size d, kl_tp_rank = bd_tp_rank d\<rparr>"

lemma layer_elements:
  "prod_list (layer_shape (fresh_layer d blocks bytes kind p)) * dtype_size (md_dtype (model_details d))
   = 2 * (md_heads (model_details d) div bd_tp_size d) * md_head_size (model_details d)
     * dtype_size (md_dtype (model_details d)) * bd_block_size d * blocks"
  by (simp add: layer_shape_def fresh_layer_def Let_def)

lemma fresh_layer_fits:
  assumes v: "KvBlockDetails_validate d = Inr ()"
    and pos: "0 < md_head_size (model_details d)" "0 < bd_block_size d" "0 < blocks"
    and bytes: "bytes = 2 * (md_heads (model_details d) div bd_tp_size d) * md_head_size (model_details d)
      * dtype_size (md_dtype (model_details d)) * bd_block_size d * blocks" "bytes < 2 ^ 64"
  shows "wmul (accumulate (layer_shape (fresh_layer d blocks bytes kind p))) (dtype_size (md_dtype (model_details d)))
         = bytes"
    and "KvLayer_new (fresh_layer d blocks bytes kind p) = Inr (fresh_layer d blocks bytes kind p)"
proof -
  let ?F = "fresh_layer d blocks bytes kind p" and ?e = "dtype_size (md_dtype (model_details d))"
  note V = validated_dims [OF v]
  have q: "0 < md_heads (model_details d) div bd_tp_size d" using V(3,4) by (metis mult_0_right neq0_conv)
  have n0: "0 \<notin> set (layer_shape ?F)"
    using q pos by (auto simp: layer_shape_def fresh_layer_def Let_def)
  have e: "prod_list (layer_shape ?F) * ?e = bytes" unfolding layer_elements bytes(1) ..
  have "prod_list (layer_shape ?F) * 1 \<le> prod_list (layer_shape ?F) * ?e"
    by (intro mult_le_mono2) (simp add: Suc_leI)
  then have "prod_list (layer_shape ?F) < 2 ^ 64" using bytes(2) unfolding e by linarith
  from accumulate_exact [OF n0 this] show t: "wmul (accumulate (layer_shape ?F)) ?e = bytes"
    using wmul_id [of "prod_list (layer_shape ?F)" ?e] bytes(2) unfolding e by simp
  then show "KvLayer_new ?F = Inr ?F"
    using V(1,2,4,5) pos by (simp add: KvLayer_new_def fresh_layer_def)
qed

lemma allocate_layers_all:
  assumes "0 < bytes" "\<And>p. KvLayer_new (fresh_layer d blocks bytes kind p) = Inr (fresh_layer d blocks bytes kind p)"
  shows "allocate_layers d blocks bytes kind (map Some ps) = Inr (map (fresh_layer d blocks bytes kind) ps)"
  using assms
  by (induction ps)
     (simp_all add: OwnedStorage_create_def KvLayer_from_storage_def fresh_layer_def)

lemma check_layers_all:
  "\<forall>l\<in>set ls. st_kind (kl_storage l) = kind \<and> kl_blocks l = blocks \<Longrightarrow> check_layers kind blocks ls = Inr ()"
  by (induction ls) auto

lemma layers_details_fresh:
  assumes "ps \<noteq> []" "length ps = number_of_layers (model_details d)"
  shows "layers_details (map (fresh_layer d blocks bytes kind) ps) = d"
  using assms by (cases ps) (simp_all add: layers_details_def fresh_layer_def Let_def)

section \<open>Properties\<close>

text \<open>C19.  Copying blocks between two layers of the same geometry on separate slabs, with ids that name
  blocks of them and no destination twice, succeeds, and does exactly this to the destination
  tensor: an element of a named destination block is the element at the same place of the corresponding
  source block, and every element of any other block is as before.\<close>

theorem copy_blocks_to_moves_blocks:
  assumes "ready l" and "ready d" and "same_geometry l d"
    and "st_pointer (kl_storage l) + st_size (kl_storage l) \<le> st_pointer (kl_storage d)
         \<or> st_pointer (kl_storage d) + st_size (kl_storage d) \<le> st_pointer (kl_storage l)"
    and "sids \<noteq> []" and "length dids = length sids" and "distinct dids" and "length sids < 2 ^ 31"
    and "\<forall>b\<in>set sids. b < kl_blocks l" and "\<forall>b\<in>set dids. b < kl_blocks d"
    and "KvLayer_view l = Inr vl" and "KvLayer_view d = Inr vd" and "in_bounds vd ix"
  shows "\<exists>m'. copy_blocks_to l sids d dids m = Inr m'
    \<and> (\<forall>p < length sids. ix ! block_dim l = dids ! p \<longrightarrow>
         tv_get (dtype_size (kl_dtype d)) vd ix m'
         = tv_get (dtype_size (kl_dtype l)) vl (ix[block_dim l := sids ! p]) m)
    \<and> (ix ! block_dim l \<notin> set dids \<longrightarrow>
         tv_get (dtype_size (kl_dtype d)) vd ix m' = tv_get (dtype_size (kl_dtype d)) vd ix m)"
proof -
  obtain m' where c: "copy_blocks_to l sids d dids m = Inr m'"
    and moved: "\<forall>pre p k. pre < rows l \<longrightarrow> p < length sids \<longrightarrow> k < block_bytes l \<longrightarrow>
       m' (block_at (st_pointer (kl_storage d)) (kl_blocks d) (block_bytes l) pre (dids ! p) + k)
       = m (block_at (st_pointer (kl_storage l)) (kl_blocks l) (block_bytes l) pre (sids ! p) + k)"
    and kept: "\<forall>a. (\<forall>pre b. pre < rows l \<longrightarrow> b \<in> set dids \<longrightarrow>
        \<not> (block_at (st_pointer (kl_storage d)) (kl_blocks d) (block_bytes l) pre b \<le> a
           \<and> a < block_at (st_pointer (kl_storage d)) (kl_blocks d) (block_bytes l) pre b + block_bytes l))
       \<longrightarrow> m' a = m a"
    by (rule copy_blocks_to_spec [OF assms(1-10), of m])
  note F = same_geometry_fields [OF assms(3)]
  have s: "tv_shape vd = layer_shape d" by (rule ready_get(2) [OF assms(2,12,13)])
  note B = in_bounds_layer [OF s assms(13), unfolded F]
  note get = ready_get(1) [OF assms(2,12,13), unfolded F]
  have "tv_get (dtype_size (kl_dtype l)) vd ix m'
      = tv_get (dtype_size (kl_dtype l)) vl (ix[block_dim l := sids ! p]) m"
    if p: "p < length sids" "ix ! block_dim l = dids ! p" for p
  proof -
    have sp: "sids ! p < kl_blocks l" using assms(9) p(1) by simp
    obtain vl' where vl': "KvLayer_view l = Inr vl'" "tv_shape vl' = layer_shape l"
      by (rule ready_view [OF assms(1)])
    then have "tv_shape vl = layer_shape l" using assms(11) by simp
    note O = other_block [OF assms(3) this s assms(13) sp]
    show ?thesis unfolding get ready_get(1) [OF assms(1,11) O(1)] O
      using moved B(2,4) p by (auto intro!: read_bytes_cong simp: add.assoc)
  qed
  moreover have "tv_get (dtype_size (kl_dtype l)) vd ix m' = tv_get (dtype_size (kl_dtype l)) vd ix m"
    if out: "ix ! block_dim l \<notin> set dids"
  proof -
    let ?at = "block_at (st_pointer (kl_storage d)) (kl_blocks d) (block_bytes l)"
    have "m' (?at (row_of l ix) (ix ! block_dim l) + inside l ix + k)
        = m (?at (row_of l ix) (ix ! block_dim l) + inside l ix + k)" if k: "k < dtype_size (kl_dtype l)" for k
    proof (rule kept [rule_format], rule notI)
      fix pre b assume pb: "pre < rows l" "b \<in> set dids" and
        a: "?at pre b \<le> ?at (row_of l ix) (ix ! block_dim l) + inside l ix + k
          \<and> ?at (row_of l ix) (ix ! block_dim l) + inside l ix + k < ?at pre b + block_bytes l"
      have "?at pre b + block_bytes l \<le> ?at (row_of l ix) (ix ! block_dim l)
          \<or> ?at (row_of l ix) (ix ! block_dim l) + block_bytes l \<le> ?at pre b"
        using pb out assms(10) B(1,2) by (intro block_at_apart [of _ "rows l"]) auto
      then show False using a k B(4) by linarith
    qed
    then show ?thesis unfolding get by (auto intro!: read_bytes_cong)
  qed
  ultimately show ?thesis using c unfolding F by blast
qed

theorem copy_blocks_to_moves_blocks_witness:
  "\<exists>l d vl vd. ready l \<and> ready d \<and> same_geometry l d
     \<and> st_pointer (kl_storage l) + st_size (kl_storage l) \<le> st_pointer (kl_storage d)
     \<and> KvLayer_view l = Inr vl \<and> KvLayer_view d = Inr vd \<and> in_bounds vd [1, 2, 0, 0, 1]
     \<and> (\<forall>m. \<exists>m'. copy_blocks_to l [1] d [2] m = Inr m'
          \<and> tv_get 4 vd [1, 2, 0, 0, 1] m' = tv_get 4 vl [1, 1, 0, 0, 1] m)"
proof -
  define l where "l = \<lparr>kl_layout = KvFirst, kl_storage = \<lparr>st_pointer = 4096, st_size = 32, st_kind = System\<rparr>,
      kl_blocks = 2, kl_block_size = 1, kl_heads = 1, kl_head_size = 2, kl_dtype = F32, kl_tp_size = 1,
      kl_tp_rank = 0\<rparr>"
  define d where "d = \<lparr>kl_layout = KvFirst, kl_storage = \<lparr>st_pointer = 8192, st_size = 48, st_kind = Pinned\<rparr>,
      kl_blocks = 3, kl_block_size = 1, kl_heads = 1, kl_head_size = 2, kl_dtype = F32, kl_tp_size = 1,
      kl_tp_rank = 0\<rparr>"
  have l: "ready l" and d: "ready d"
    by (simp_all add: ready_def l_def d_def KvLayer_new_def layer_shape_def accumulate_def block_bytes_def
        is_host_accessible_def)
  have g: "same_geometry l d" by (simp add: same_geometry_def l_def d_def)
  have a: "st_pointer (kl_storage l) + st_size (kl_storage l) \<le> st_pointer (kl_storage d)"
    by (simp add: l_def d_def)
  obtain vl where vl: "KvLayer_view l = Inr vl" by (rule ready_view [OF l])
  obtain vd where vd: "KvLayer_view d = Inr vd" "tv_shape vd = layer_shape d" by (rule ready_view [OF d])
  have ix: "in_bounds vd [1, 2, 0, 0, 1]" by (simp add: in_bounds_def vd(2) layer_shape_def d_def)
  have ids: "[1] \<noteq> []" "length [2 :: nat] = length [1 :: nat]" "distinct [2 :: nat]"
    "length [1 :: nat] < 2 ^ 31" "\<forall>b\<in>set [1]. b < kl_blocks l" "\<forall>b\<in>set [2]. b < kl_blocks d"
    by (simp_all add: l_def d_def)
  have e: "dtype_size (kl_dtype l) = 4" "dtype_size (kl_dtype d) = 4" "block_dim l = 1"
    by (simp_all add: l_def d_def block_dim_def)
  have "\<exists>m'. copy_blocks_to l [1] d [2] m = Inr m'
      \<and> tv_get 4 vd [1, 2, 0, 0, 1] m' = tv_get 4 vl [1, 1, 0, 0, 1] m" for m
    using copy_blocks_to_moves_blocks [OF l d g disjI1 [OF a] ids vl vd(1) ix, of m] unfolding e by auto
  then show ?thesis using l d g a vl vd(1) ix by blast
qed

text \<open>C20.  Allocating block storage for a validated geometry with no empty dimension, when the byte count does
  not wrap and the allocator serves every layer: all layers pass every check of their construction,
  the storage reports the geometry it was asked for, and each slab is exactly the size of its
  layer's tensor, so that the view of every layer can be taken.\<close>

theorem allocate_makes_viewable_layers:
  assumes "KvBlockDetails_validate d = Inr ()"
    and "0 < number_of_layers (model_details d)" and "0 < md_head_size (model_details d)"
    and "0 < bd_block_size d" and "0 < blocks"
    and "2 * md_heads (model_details d) * md_head_size (model_details d)
           * dtype_size (md_dtype (model_details d)) * bd_block_size d * blocks < 2 ^ 64"
    and "\<And>i. i < number_of_layers (model_details d) \<Longrightarrow> alloc i = Some (ptr i)"
  shows "\<exists>s. KvBlockStorage_allocate alloc blocks d kind = Inr s
           \<and> block_details s = d \<and> bs_blocks s = blocks \<and> bs_kind s = kind
           \<and> length (bs_layers s) = number_of_layers (model_details d)
           \<and> (\<forall>l\<in>set (bs_layers s). \<exists>v. KvLayer_view l = Inr v \<and> size_in_bytes v = st_size (kl_storage l))"
proof -
  let ?h = "md_heads (model_details d)" and ?s = "md_head_size (model_details d)"
    and ?e = "dtype_size (md_dtype (model_details d))" and ?n = "number_of_layers (model_details d)"
  define bytes where "bytes = wmul (bytes_per_token_block_per_layer d) blocks"
  define F where "F = fresh_layer d blocks bytes kind"
  note V = validated_dims [OF assms(1)]
  have mono: "x * 1 \<le> x * y" if "0 < y" for x y :: nat using that by (intro mult_le_mono2) linarith
  have "2 * ?h * ?s * ?e * bd_block_size d < 2 ^ 64"
    using mono [OF assms(5), of "2 * ?h * ?s * ?e * bd_block_size d"] assms(6) by linarith
  note B = block_bytes_exact [OF assms(1) this assms(3,4)]
  have "?h div bd_tp_size d \<le> ?h" by simp
  then have "2 * (?h div bd_tp_size d) * ?s * ?e * bd_block_size d * blocks
      \<le> 2 * ?h * ?s * ?e * bd_block_size d * blocks" by (intro mult_le_mono) simp_all
  then have lt: "2 * (?h div bd_tp_size d) * ?s * ?e * bd_block_size d * blocks < 2 ^ 64" using assms(6) by linarith
  then have bytes: "bytes = 2 * (?h div bd_tp_size d) * ?s * ?e * bd_block_size d * blocks"
    by (simp add: bytes_def B)
  have "0 < ?h div bd_tp_size d" using V(3,4) by (metis mult_0_right neq0_conv)
  then have pos: "0 < bytes" using assms(3-5) by (simp add: bytes)
  have "bytes < 2 ^ 64" using lt bytes by linarith
  note fits = fresh_layer_fits [OF assms(1,3-5) bytes this]
  let ?ls = "map (F \<circ> ptr) [0..<?n]"
  have ne: "map ptr [0..<?n] \<noteq> []" using assms(2) by simp
  have al: "map alloc [0..<?n] = map Some (map ptr [0..<?n])" using assms(7) by simp
  have ls: "allocate_layers d blocks bytes kind (map alloc [0..<?n]) = Inr ?ls"
    unfolding al using allocate_layers_all [OF pos fits(2), of kind "map ptr [0..<?n]"] by (simp add: F_def comp_def)
  have det: "layers_details ?ls = d"
    using layers_details_fresh [OF ne, of d blocks bytes kind] by (simp add: F_def comp_def)
  have one: "bytes_per_token_block_per_layer d \<le> bytes"
    using mono [OF assms(5), of "bytes_per_token_block_per_layer d"] unfolding bytes B by simp
  have hd: "hd ?ls = F (ptr 0)" using assms(2) by (simp add: hd_map upt_rec)
  have "KvBlockStorage_from_layers ?ls
      = Inr \<lparr>block_details = d, bs_kind = kind, bs_blocks = blocks, bs_layers = ?ls\<rparr>"
    using assms(1,2) one unfolding KvBlockStorage_from_layers_def det hd Let_def
    by (auto simp: F_def fresh_layer_def check_layers_all)
  then have "KvBlockStorage_allocate alloc blocks d kind
      = Inr \<lparr>block_details = d, bs_kind = kind, bs_blocks = blocks, bs_layers = ?ls\<rparr>"
    using assms(1) ls by (simp add: KvBlockStorage_allocate_def bytes_def)
  moreover have "\<exists>v. KvLayer_view (F p) = Inr v \<and> size_in_bytes v = st_size (kl_storage (F p))" for p
    using fits(1) by (simp add: KvLayer_view_def TensorView_new_def size_in_bytes_def F_def
        fresh_layer_def)
  ultimately show ?thesis by auto
qed

theorem allocate_makes_viewable_layers_witness:
  "\<exists>d. KvBlockDetails_validate d = Inr ()
     \<and> 2 * md_heads (model_details d) * md_head_size (model_details d)
         * dtype_size (md_dtype (model_details d)) * bd_block_size d * 10 < 2 ^ 64
     \<and> (\<exists>s. KvBlockStorage_allocate (\<lambda>i. Some (4096 * Suc i)) 10 d Pinned = Inr s \<and> block_details s = d
          \<and> length (bs_layers s) = 3)"
proof -
  define d where "d = \<lparr>bd_layout = BlockFirst, bd_block_size = 16, bd_tp_rank = 1, bd_tp_size = 2,
      model_details = \<lparr>number_of_layers = 3, md_heads = 8, md_head_size = 64, md_dtype = BF16\<rparr>\<rparr>"
  have v: "KvBlockDetails_validate d = Inr ()" by (simp add: KvBlockDetails_validate_def d_def)
  have p: "0 < number_of_layers (model_details d)" "0 < md_head_size (model_details d)" "0 < bd_block_size d"
    "0 < (10 :: nat)" and n: "2 * md_heads (model_details d) * md_head_size (model_details d)
      * dtype_size (md_dtype (model_details d)) * bd_block_size d * 10 < 2 ^ 64"
    and l: "number_of_layers (model_details d) = 3"
    by (simp_all add: d_def)
  have "\<exists>s. KvBlockStorage_allocate (\<lambda>i. Some (4096 * Suc i)) 10 d Pinned = Inr s \<and> block_details s = d
          \<and> length (bs_layers s) = 3"
    using allocate_makes_viewable_layers [OF v p n refl, where kind = Pinned and ptr = "\<lambda>i. 4096 * Suc i"] unfolding l by blast
  with v n show ?thesis by blast
qed

end
