(* ===== verification/Signals.thy ===== *)
theory Signals
  imports Prelude "HOL-Library.Multiset"
begin

text \<open>
  One-shot signals: the manual-reset event (\<open>runtime/coro/event.h\<close>), hierarchical
  cancellation (\<open>runtime/cancellation.h\<close>, \<open>cancellation.cpp\<close>) and the stop and kill signals
  of a request (\<open>pipeline/engine.h\<close>). Coroutine handles and user callbacks are numbers;
  running or resuming one is an entry of the returned log. A user callback is arbitrary code,
  so only the fact that it is called is modelled.
\<close>

section \<open>The event\<close>

record AsyncEvent =
  ev_set :: bool
  ev_waiters :: "nat list"

definition ev_new :: AsyncEvent where
  "ev_new = \<lparr>ev_set = False, ev_waiters = []\<rparr>"

definition ev_fire :: "AsyncEvent \<Rightarrow> nat list \<times> AsyncEvent" where
  "ev_fire e = (if ev_set e then ([], e) else (ev_waiters e, \<lparr>ev_set = True, ev_waiters = []\<rparr>))"

text \<open>\<open>add_waiter\<close>: false when the caller must resume at once.\<close>

definition add_waiter :: "nat \<Rightarrow> AsyncEvent \<Rightarrow> bool \<times> AsyncEvent" where
  "add_waiter h e = (if ev_set e then (False, e) else (True, e\<lparr>ev_waiters := ev_waiters e @ [h]\<rparr>))"

definition ev_ok :: "AsyncEvent \<Rightarrow> bool" where
  "ev_ok e = (ev_set e \<longrightarrow> ev_waiters e = [])"

lemma ev_ok_preserved [inv_intros]:
  "ev_ok ev_new" "ev_ok e \<Longrightarrow> ev_ok (snd (ev_fire e))" "ev_ok e \<Longrightarrow> ev_ok (snd (add_waiter h e))"
  by (auto simp: ev_ok_def ev_new_def ev_fire_def add_waiter_def)

text \<open>Every waiter is resumed by the first firing and nobody by a later one.\<close>

lemma ev_fire_once:
  "fst (ev_fire e) = (if ev_set e then [] else ev_waiters e)" "fst (ev_fire (snd (ev_fire e))) = []"
  by (auto simp: ev_fire_def)

section \<open>Cancellation tokens\<close>

text \<open>
  The registered callbacks of a token: a user function, or the function that cancels a
  child. A registration is identified by a number, standing for the list iterator; the link
  to the parent is the parent and the registration there.
\<close>

datatype callback = CancelChild nat | UserFn nat

record CancellationState =
  cancelled :: bool
  callbacks :: "(nat \<times> callback) list"
  event :: AsyncEvent
  parent_link :: "(nat \<times> nat) option"

record TokenStore =
  states :: "CancellationState list"
  next_registration :: nat

definition token_new :: CancellationState where
  "token_new = \<lparr>cancelled = False, callbacks = [], event = ev_new, parent_link = None\<rparr>"

definition no_tokens :: TokenStore where
  "no_tokens = \<lparr>states = [], next_registration = 0\<rparr>"

datatype effect = Called nat | Resumed nat

text \<open>
  \<open>CancellationState::cancel\<close>. The callbacks run one after another and may cancel further
  tokens before the event of this one is set: the remaining work is a list that is worked off
  from the front.
\<close>

datatype work = Run callback | SetEvent nat

lemma filter_update_less:
  "t < length s \<Longrightarrow> P (s ! t) \<Longrightarrow> \<not> P x \<Longrightarrow> length (filter P (s[t := x])) < length (filter P s)"
  by (induction s arbitrary: t) (auto split: nat.splits)

lemma filter_update_same:
  "P x = P (s ! t) \<Longrightarrow> length (filter P (s[t := x])) = length (filter P s)"
proof (induction s arbitrary: t)
  case (Cons a s)
  then show ?case by (cases t) auto
qed simp

function run_work :: "work list \<Rightarrow> CancellationState list \<Rightarrow> effect list \<times> CancellationState list" where
  "run_work [] s = ([], s)"
| "run_work (Run (UserFn u) # ws) s = (let r = run_work ws s in (Called u # fst r, snd r))"
| "run_work (Run (CancelChild t) # ws) s =
     (if t < length s \<and> \<not> cancelled (s ! t)
      then run_work (map (Run \<circ> snd) (callbacks (s ! t)) @ SetEvent t # ws)
             (s[t := (s ! t)\<lparr>cancelled := True, callbacks := []\<rparr>])
      else run_work ws s)"
| "run_work (SetEvent t # ws) s =
     (if t < length s
      then let r = run_work ws (s[t := (s ! t)\<lparr>event := snd (ev_fire (event (s ! t)))\<rparr>])
           in (map Resumed (fst (ev_fire (event (s ! t)))) @ fst r, snd r)
      else run_work ws s)"
  by pat_completeness auto
termination
  by (relation "measures [\<lambda>(ws, s). length (filter (\<lambda>c. \<not> cancelled c) s), \<lambda>(ws, s). length ws]")
    (auto simp: filter_update_same intro!: filter_update_less)

definition cancel :: "nat \<Rightarrow> TokenStore \<Rightarrow> effect list \<times> TokenStore" where
  "cancel t k = (let (l, s) = run_work [Run (CancelChild t)] (states k) in (l, k\<lparr>states := s\<rparr>))"

definition is_cancelled :: "nat \<Rightarrow> TokenStore \<Rightarrow> bool" where
  "is_cancelled t k = cancelled (states k ! t)"

text \<open>\<open>register_callback\<close>: the registration, or none when the callback fired inline.\<close>

definition register_callback ::
  "nat \<Rightarrow> callback \<Rightarrow> TokenStore \<Rightarrow> (nat option \<times> effect list) \<times> TokenStore" where
  "register_callback t f k =
     (if \<not> cancelled (states k ! t)
      then ((Some (next_registration k), []),
            \<lparr>states = (states k)[t := (states k ! t)\<lparr>callbacks := callbacks (states k ! t)
                 @ [(next_registration k, f)]\<rparr>],
             next_registration = next_registration k + 1\<rparr>)
      else let (l, s) = run_work [Run f] (states k) in ((None, l), k\<lparr>states := s\<rparr>))"

text \<open>\<open>CancellationRegistration::reset\<close>, also run by the destructor.\<close>

definition reset :: "nat \<Rightarrow> nat \<Rightarrow> TokenStore \<Rightarrow> TokenStore" where
  "reset t i k =
     (if cancelled (states k ! t) then k
      else k\<lparr>states := (states k)[t := (states k ! t)\<lparr>callbacks :=
             filter (\<lambda>(j, f). j \<noteq> i) (callbacks (states k ! t))\<rparr>]\<rparr>)"

definition new_token :: "TokenStore \<Rightarrow> nat \<times> TokenStore" where
  "new_token k = (length (states k), k\<lparr>states := states k @ [token_new]\<rparr>)"

definition child_token :: "nat \<Rightarrow> TokenStore \<Rightarrow> (nat \<times> effect list) \<times> TokenStore" where
  "child_token p k =
     (let (c, k1) = new_token k;
          ((r, l), k2) = register_callback p (CancelChild c) k1
      in ((c, l), k2\<lparr>states := (states k2)[c := (states k2 ! c)\<lparr>parent_link := map_option (Pair p) r\<rparr>]\<rparr>))"

text \<open>
  The destruction of a token's state resets the registration in its parent. A token with
  children is kept alive by their registrations.
\<close>

definition drop_token :: "nat \<Rightarrow> TokenStore \<Rightarrow> TokenStore" where
  "drop_token c k =
     (case parent_link (states k ! c) of
        None \<Rightarrow> k
      | Some (p, i) \<Rightarrow>
          let k1 = reset p i k
          in k1\<lparr>states := (states k1)[c := (states k1 ! c)\<lparr>parent_link := None\<rparr>]\<rparr>)"

text \<open>Awaiting \<open>cancelled()\<close>: true when the coroutine parks.\<close>

definition await_cancelled :: "nat \<Rightarrow> nat \<Rightarrow> TokenStore \<Rightarrow> bool \<times> TokenStore" where
  "await_cancelled t h k =
     (let (parked, e) = add_waiter h (event (states k ! t))
      in (parked, k\<lparr>states := (states k)[t := (states k ! t)\<lparr>event := e\<rparr>]\<rparr>))"

section \<open>What a cancellation reaches\<close>

definition child_of :: "CancellationState list \<Rightarrow> nat \<Rightarrow> nat \<Rightarrow> bool" where
  "child_of s c p \<longleftrightarrow> c < length s \<and> (\<exists>i. parent_link (s ! c) = Some (p, i))"

abbreviation descendant :: "CancellationState list \<Rightarrow> nat \<Rightarrow> nat \<Rightarrow> bool" where
  "descendant s c t \<equiv> (child_of s)\<^sup>*\<^sup>* c t"

text \<open>
  The invariant of the tree, also while work is left: a live token lists the cancellation of
  each child, and a child of a cancelled token is cancelled or about to be.
\<close>

definition tree_ok :: "work list \<Rightarrow> CancellationState list \<Rightarrow> bool" where
  "tree_ok ws s \<longleftrightarrow>
     (\<forall>c p i. c < length s \<longrightarrow> parent_link (s ! c) = Some (p, i) \<longrightarrow> p < c)
     \<and> (\<forall>c p i. c < length s \<longrightarrow> parent_link (s ! c) = Some (p, i) \<longrightarrow> cancelled (s ! p) \<longrightarrow>
        cancelled (s ! c) \<or> Run (CancelChild c) \<in> set ws)
     \<and> (\<forall>c p i. c < length s \<longrightarrow> parent_link (s ! c) = Some (p, i) \<longrightarrow> \<not> cancelled (s ! p) \<longrightarrow>
        (i, CancelChild c) \<in> set (callbacks (s ! p)))
     \<and> (\<forall>p i c. p < length s \<longrightarrow> (i, CancelChild c) \<in> set (callbacks (s ! p)) \<longrightarrow>
        c < length s \<and> parent_link (s ! c) = Some (p, i))
     \<and> (\<forall>p. p < length s \<longrightarrow> cancelled (s ! p) \<longrightarrow> callbacks (s ! p) = [])"

lemma tree_okI:
  assumes "\<And>c p i. c < length s \<Longrightarrow> parent_link (s ! c) = Some (p, i) \<Longrightarrow> p < c"
    and "\<And>c p i. c < length s \<Longrightarrow> parent_link (s ! c) = Some (p, i) \<Longrightarrow> cancelled (s ! p) \<Longrightarrow>
      cancelled (s ! c) \<or> Run (CancelChild c) \<in> set ws"
    and "\<And>c p i. c < length s \<Longrightarrow> parent_link (s ! c) = Some (p, i) \<Longrightarrow> \<not> cancelled (s ! p) \<Longrightarrow>
      (i, CancelChild c) \<in> set (callbacks (s ! p))"
    and "\<And>p i c. p < length s \<Longrightarrow> (i, CancelChild c) \<in> set (callbacks (s ! p)) \<Longrightarrow>
      c < length s \<and> parent_link (s ! c) = Some (p, i)"
    and "\<And>p. p < length s \<Longrightarrow> cancelled (s ! p) \<Longrightarrow> callbacks (s ! p) = []"
  shows "tree_ok ws s"
  using assms unfolding tree_ok_def by blast

lemma tree_okD:
  assumes "tree_ok ws s"
  shows "\<And>c p i. c < length s \<Longrightarrow> parent_link (s ! c) = Some (p, i) \<Longrightarrow> p < c"
    and "\<And>c p i. c < length s \<Longrightarrow> parent_link (s ! c) = Some (p, i) \<Longrightarrow> cancelled (s ! p) \<Longrightarrow>
      cancelled (s ! c) \<or> Run (CancelChild c) \<in> set ws"
    and "\<And>c p i. c < length s \<Longrightarrow> parent_link (s ! c) = Some (p, i) \<Longrightarrow> \<not> cancelled (s ! p) \<Longrightarrow>
      (i, CancelChild c) \<in> set (callbacks (s ! p))"
    and "\<And>p i c. p < length s \<Longrightarrow> (i, CancelChild c) \<in> set (callbacks (s ! p)) \<Longrightarrow>
      c < length s \<and> parent_link (s ! c) = Some (p, i)"
    and "\<And>p. p < length s \<Longrightarrow> cancelled (s ! p) \<Longrightarrow> callbacks (s ! p) = []"
  using assms unfolding tree_ok_def by blast+

lemma run_work_length [simp]: "length (snd (run_work ws s)) = length s"
  by (induction ws s rule: run_work.induct) (auto simp: Let_def)

lemma run_work_parent: "parent_link (snd (run_work ws s) ! c) = parent_link (s ! c)"
proof (induction ws s rule: run_work.induct)
  case (3 t ws s)
  then show ?case by (cases "c = t") (auto simp: Let_def)
next
  case (4 t ws s)
  then show ?case by (cases "c = t") (auto simp: Let_def)
qed (auto simp: Let_def)

lemma run_work_mono: "cancelled (s ! c) \<Longrightarrow> cancelled (snd (run_work ws s) ! c)"
proof (induction ws s rule: run_work.induct)
  case (3 t ws s)
  then show ?case by (cases "c = t") (auto simp: Let_def)
next
  case (4 t ws s)
  then show ?case by (cases "c = t") (auto simp: Let_def)
qed (auto simp: Let_def)

lemma tree_ok_cancel:
  assumes ok: "tree_ok (Run (CancelChild t) # ws) s" and t: "t < length s" "\<not> cancelled (s ! t)"
  shows "tree_ok (map (Run \<circ> snd) (callbacks (s ! t)) @ SetEvent t # ws)
    (s[t := (s ! t)\<lparr>cancelled := True, callbacks := []\<rparr>])" (is "tree_ok ?ws ?s")
proof (rule tree_okI)
  have link: "parent_link (?s ! c) = parent_link (s ! c)" for c
    by (cases "c = t") (simp_all add: t)
  have len: "length ?s = length s" by simp
  fix c p i
  show "p < c" if "c < length ?s" "parent_link (?s ! c) = Some (p, i)"
    using tree_okD(1) [OF ok] that by (simp add: link)
  show "cancelled (?s ! c) \<or> Run (CancelChild c) \<in> set ?ws"
    if c: "c < length ?s" "parent_link (?s ! c) = Some (p, i)" "cancelled (?s ! p)"
  proof (cases "p = t")
    case True
    then have "(i, CancelChild c) \<in> set (callbacks (s ! t))"
      using tree_okD(3) [OF ok] c t by (simp add: link)
    then show ?thesis by force
  next
    case False
    with c have "cancelled (s ! p)" by simp
    with tree_okD(2) [OF ok, of c p i] c have "cancelled (s ! c) \<or> Run (CancelChild c) \<in> set (Run (CancelChild t) # ws)"
      by (simp add: link)
    then show ?thesis using t by (cases "c = t") auto
  qed
  show "(i, CancelChild c) \<in> set (callbacks (?s ! p))"
    if "c < length ?s" "parent_link (?s ! c) = Some (p, i)" "\<not> cancelled (?s ! p)"
    using tree_okD(3) [OF ok, of c p i] that t by (cases "p = t") (simp_all add: link)
  show "c < length ?s \<and> parent_link (?s ! c) = Some (p, i)"
    if "p < length ?s" "(i, CancelChild c) \<in> set (callbacks (?s ! p))"
    using tree_okD(4) [OF ok, of p i c] that t by (cases "p = t") (simp_all add: link)
  show "callbacks (?s ! p) = []" if "p < length ?s" "cancelled (?s ! p)"
    using tree_okD(5) [OF ok, of p] that t by (cases "p = t") simp_all
qed

lemma tree_ok_weaken:
  assumes ok: "tree_ok ws s"
    and "\<And>c. Run (CancelChild c) \<in> set ws \<Longrightarrow> c < length s \<Longrightarrow> \<not> cancelled (s ! c) \<Longrightarrow> Run (CancelChild c) \<in> set ws'"
  shows "tree_ok ws' s"
proof (rule tree_okI)
  show "cancelled (s ! c) \<or> Run (CancelChild c) \<in> set ws'"
    if "c < length s" "parent_link (s ! c) = Some (p, i)" "cancelled (s ! p)" for c p i
    using tree_okD(2) [OF ok that] assms(2) that(1) by blast
qed (fact tree_okD [OF ok])+

lemma tree_ok_update:
  assumes ok: "tree_ok ws s"
    and same: "cancelled x = cancelled (s ! t)" "callbacks x = callbacks (s ! t)"
      "parent_link x = parent_link (s ! t)"
  shows "tree_ok ws (s[t := x])"
proof (cases "t < length s")
  case True
  have c: "cancelled (s[t := x] ! q) = cancelled (s ! q)" "callbacks (s[t := x] ! q) = callbacks (s ! q)"
    "parent_link (s[t := x] ! q) = parent_link (s ! q)" for q
    using same True by (cases "q = t"; simp)+
  show ?thesis by (rule tree_okI; simp add: c) (fact tree_okD [OF ok])+
next
  case False
  with ok show ?thesis by (simp add: list_update_beyond)
qed

lemma run_work_tree: "tree_ok ws s \<Longrightarrow> tree_ok [] (snd (run_work ws s))"
proof (induction ws s rule: run_work.induct)
  case (2 u ws s)
  from 2(2) have "tree_ok ws s" by (rule tree_ok_weaken) auto
  with 2(1) show ?case by (simp add: Let_def)
next
  case (3 t ws s)
  show ?case
  proof (cases "t < length s \<and> \<not> cancelled (s ! t)")
    case True
    with 3(1) [OF True tree_ok_cancel [OF 3(3)]] show ?thesis by simp
  next
    case False
    from 3(3) have "tree_ok ws s" by (rule tree_ok_weaken) (use False in auto)
    from 3(2) [OF False this] False show ?thesis by auto
  qed
next
  case (4 t ws s)
  from 4(3) have ok: "tree_ok ws s" by (rule tree_ok_weaken) auto
  show ?case
  proof (cases "t < length s")
    case True
    with 4(1) [OF True] ok show ?thesis
      by (simp add: Let_def tree_ok_update)
  next
    case False
    with 4(2) ok show ?thesis by simp
  qed
qed simp

text \<open>Only scheduled tokens and their descendants are cancelled, and all of them are.\<close>

lemma descendant_update:
  "parent_link x = parent_link (s ! t) \<Longrightarrow> child_of (s[t := x]) = child_of s"
  by (cases "t < length s") (auto simp: child_of_def fun_eq_iff nth_list_update)

lemma run_work_upper:
  assumes "tree_ok ws s" "c < length s" "cancelled (snd (run_work ws s) ! c)"
  shows "cancelled (s ! c) \<or> (\<exists>t. Run (CancelChild t) \<in> set ws \<and> descendant s c t)"
  using assms
proof (induction ws s rule: run_work.induct)
  case (2 u ws s)
  from 2(2) have "tree_ok ws s" by (rule tree_ok_weaken) auto
  with 2 show ?case by (auto simp: Let_def)
next
  case (3 t ws s)
  show ?case
  proof (cases "t < length s \<and> \<not> cancelled (s ! t)")
    case True
    let ?s = "s[t := (s ! t)\<lparr>cancelled := True, callbacks := []\<rparr>]"
    let ?ws = "map (Run \<circ> snd) (callbacks (s ! t)) @ SetEvent t # ws"
    have child: "child_of ?s = child_of s" by (rule descendant_update) simp
    from True 3 tree_ok_cancel [OF 3(3)]
    have "cancelled (?s ! c) \<or> (\<exists>t'. Run (CancelChild t') \<in> set ?ws \<and> descendant s c t')"
      by (simp add: child)
    then consider "c = t" | "cancelled (s ! c)"
      | t' where "Run (CancelChild t') \<in> set ws" "descendant s c t'"
      | t' i where "(i, CancelChild t') \<in> set (callbacks (s ! t))" "descendant s c t'"
      using True by (cases "c = t") fastforce+
    then show ?thesis
    proof cases
      case (4 t' i)
      with tree_okD(4) [OF 3(3)] True have "child_of s t' t" by (auto simp: child_of_def)
      with 4 have "descendant s c t" by simp
      then show ?thesis by auto
    qed auto
  next
    case False
    from 3(3) have "tree_ok ws s" by (rule tree_ok_weaken) (use False in auto)
    from 3(2) [OF False this 3(4)] 3(5) False show ?thesis by auto
  qed
next
  case (4 t ws s)
  from 4(3) have ok: "tree_ok ws s" by (rule tree_ok_weaken) auto
  show ?case
  proof (cases "t < length s")
    case True
    let ?s = "s[t := (s ! t)\<lparr>event := snd (ev_fire (event (s ! t)))\<rparr>]"
    have child: "child_of ?s = child_of s" by (rule descendant_update) simp
    have "tree_ok ws ?s" using ok by (rule tree_ok_update) simp_all
    from 4(1) [OF True this] 4(4,5) True show ?thesis
      by (cases "c = t") (auto simp: Let_def child)
  next
    case False
    with 4(2) ok 4(4,5) show ?thesis by auto
  qed
qed simp

lemma run_work_lower:
  "Run (CancelChild t) \<in> set ws \<Longrightarrow> t < length s \<Longrightarrow> cancelled (snd (run_work ws s) ! t)"
proof (induction ws s rule: run_work.induct)
  case (3 t' ws s)
  show ?case
  proof (cases "t = t'")
    case True
    show ?thesis
    proof (cases "cancelled (s ! t)")
      case True
      then show ?thesis by (rule run_work_mono)
    next
      case False
      with 3 True show ?thesis by (auto intro!: run_work_mono)
    qed
  next
    case False
    with 3 show ?thesis by auto
  qed
qed (auto simp: Let_def)

lemma descendant_cancelled:
  assumes ok: "tree_ok [] s" and "descendant s c t" "cancelled (s ! t)"
  shows "cancelled (s ! c)"
  using assms(2,3)
proof (induction rule: converse_rtranclp_induct)
  case (step y z)
  then show ?case using tree_okD(2) [OF ok, of y z] by (auto simp: child_of_def)
qed

text \<open>Every user callback that leaves the lists is called, each registration once.\<close>

definition users :: "callback list \<Rightarrow> nat multiset" where
  "users fs = mset (concat (map (\<lambda>f. case f of UserFn u \<Rightarrow> [u] | CancelChild c \<Rightarrow> []) fs))"

definition registered :: "CancellationState list \<Rightarrow> nat multiset" where
  "registered s = (\<Sum>c \<leftarrow> s. users (map snd (callbacks c)))"

definition pending_users :: "work list \<Rightarrow> nat multiset" where
  "pending_users ws = users (concat (map (\<lambda>w. case w of Run f \<Rightarrow> [f] | SetEvent t \<Rightarrow> []) ws))"

definition called :: "effect list \<Rightarrow> nat multiset" where
  "called l = mset (concat (map (\<lambda>e. case e of Called u \<Rightarrow> [u] | Resumed h \<Rightarrow> []) l))"

lemma users_simps [simp]:
  "users [] = {#}" "users (UserFn u # fs) = add_mset u (users fs)" "users (CancelChild c # fs) = users fs"
  "users (fs @ gs) = users fs + users gs"
  by (simp_all add: users_def)

lemma pending_users_simps [simp]:
  "pending_users [] = {#}" "pending_users (Run f # ws) = users [f] + pending_users ws"
  "pending_users (SetEvent t # ws) = pending_users ws"
  "pending_users (map (Run \<circ> snd) fs @ ws) = users (map snd fs) + pending_users ws"
proof -
  show "pending_users (map (Run \<circ> snd) fs @ ws) = users (map snd fs) + pending_users ws"
    by (induction fs) (simp_all add: pending_users_def users_def ac_simps)
qed (simp_all add: pending_users_def users_def)

lemma called_simps [simp]:
  "called [] = {#}" "called (Called u # l) = add_mset u (called l)" "called (map Resumed hs @ l) = called l"
  by (simp_all add: called_def comp_def)

lemma registered_update:
  "t < length s \<Longrightarrow> registered (s[t := x]) + users (map snd (callbacks (s ! t)))
     = registered s + users (map snd (callbacks x))"
proof (induction s arbitrary: t)
  case (Cons a s)
  then show ?case by (cases t) (auto simp: registered_def ac_simps)
qed simp

lemma run_work_users:
  "called (fst (run_work ws s)) + registered (snd (run_work ws s)) = pending_users ws + registered s"
proof (induction ws s rule: run_work.induct)
  case (3 t ws s)
  show ?case
  proof (cases "t < length s \<and> \<not> cancelled (s ! t)")
    case True
    with registered_update [of t s "(s ! t)\<lparr>cancelled := True, callbacks := []\<rparr>"] 3(1) [OF True]
    show ?thesis by (simp add: ac_simps)
  next
    case False
    with 3(2) show ?thesis by auto
  qed
next
  case (4 t ws s)
  show ?case
  proof (cases "t < length s")
    case True
    with registered_update [of t s "(s ! t)\<lparr>event := snd (ev_fire (event (s ! t)))\<rparr>"] 4(1) [OF True]
    show ?thesis by (simp add: Let_def)
  next
    case False
    with 4(2) show ?thesis by simp
  qed
qed (simp_all add: Let_def)

text \<open>A token that stays live keeps its callbacks.\<close>

lemma run_work_callbacks:
  "\<not> cancelled (snd (run_work ws s) ! c) \<Longrightarrow> callbacks (snd (run_work ws s) ! c) = callbacks (s ! c)"
proof (induction ws s rule: run_work.induct)
  case (3 t ws s)
  show ?case
  proof (cases "t < length s \<and> \<not> cancelled (s ! t)")
    case True
    have "c \<noteq> t"
    proof
      assume "c = t"
      with True have "cancelled (snd (run_work (Run (CancelChild t) # ws) s) ! c)"
        by (intro run_work_lower) simp_all
      with 3(3) show False by simp
    qed
    with 3(1) [OF True] 3(3) True show ?thesis by simp
  next
    case False
    with 3(2) [OF False] 3(3) show ?thesis by auto
  qed
next
  case (4 t ws s)
  then show ?case by (cases "c = t") (auto simp: Let_def)
qed (simp_all add: Let_def)

section \<open>Reachable stores\<close>

definition ids_ok :: "TokenStore \<Rightarrow> bool" where
  "ids_ok k \<longleftrightarrow> (\<forall>c \<in> set (states k). distinct (map fst (callbacks c))
     \<and> (\<forall>e \<in> set (callbacks c). fst e < next_registration k))"

definition token_store_ok :: "TokenStore \<Rightarrow> bool" where
  "token_store_ok k \<longleftrightarrow> tree_ok [] (states k) \<and> ids_ok k"

inductive tok_reach :: "TokenStore \<Rightarrow> bool" where
  tok_init: "tok_reach no_tokens"
| tok_new: "tok_reach k \<Longrightarrow> tok_reach (snd (new_token k))"
| tok_child: "tok_reach k \<Longrightarrow> p < length (states k) \<Longrightarrow> tok_reach (snd (child_token p k))"
| tok_register: "tok_reach k \<Longrightarrow> t < length (states k) \<Longrightarrow>
    tok_reach (snd (register_callback t (UserFn u) k))"
| tok_reset: "tok_reach k \<Longrightarrow> t < length (states k) \<Longrightarrow>
    (i, UserFn u) \<in> set (callbacks (states k ! t)) \<Longrightarrow> tok_reach (reset t i k)"
| tok_drop: "tok_reach k \<Longrightarrow> c < length (states k) \<Longrightarrow> (\<And>d. \<not> child_of (states k) d c) \<Longrightarrow>
    tok_reach (drop_token c k)"
| tok_await: "tok_reach k \<Longrightarrow> t < length (states k) \<Longrightarrow> tok_reach (snd (await_cancelled t h k))"
| tok_cancel: "tok_reach k \<Longrightarrow> t < length (states k) \<Longrightarrow> tok_reach (snd (cancel t k))"

lemma ids_ok_update:
  assumes "ids_ok k" "set (callbacks x) \<subseteq> set (callbacks (states k ! t))" "distinct (map fst (callbacks x))"
  shows "ids_ok (k\<lparr>states := (states k)[t := x]\<rparr>)"
proof (cases "t < length (states k)")
  case True
  then have "states k ! t \<in> set (states k)" by simp
  with assms show ?thesis
    unfolding ids_ok_def by (auto dest!: set_update_subset_insert [THEN subsetD])
next
  case False
  with assms show ?thesis by (simp add: ids_ok_def list_update_beyond)
qed

lemma run_work_ids:
  assumes "ids_ok k" "tree_ok ws (states k)"
  shows "ids_ok (k\<lparr>states := snd (run_work ws (states k))\<rparr>)"
  unfolding ids_ok_def
proof (intro ballI)
  fix c
  assume "c \<in> set (states (k\<lparr>states := snd (run_work ws (states k))\<rparr>))"
  then obtain n where n: "n < length (states k)" "c = snd (run_work ws (states k)) ! n"
    by (auto simp: in_set_conv_nth)
  have "callbacks c = callbacks (states k ! n) \<or> callbacks c = []"
    using run_work_callbacks [of ws "states k" n] n
      tree_okD(5) [OF run_work_tree [OF assms(2)], of n] by auto
  moreover have "states k ! n \<in> set (states k)" using n by simp
  ultimately show "distinct (map fst (callbacks c))
      \<and> (\<forall>e\<in>set (callbacks c). fst e < next_registration (k\<lparr>states := snd (run_work ws (states k))\<rparr>))"
    using assms(1) unfolding ids_ok_def by fastforce
qed

lemma store_ok_cancel:
  assumes "token_store_ok k"
  shows "token_store_ok (snd (cancel t k))"
proof -
  have ok: "tree_ok [Run (CancelChild t)] (states k)"
    using assms unfolding token_store_ok_def by (auto intro: tree_ok_weaken)
  with assms run_work_tree [OF ok] run_work_ids [OF _ ok] show ?thesis
    by (simp add: token_store_ok_def cancel_def split_beta)
qed

lemma store_ok_new: "token_store_ok k \<Longrightarrow> token_store_ok (snd (new_token k))"
  unfolding token_store_ok_def new_token_def
proof (elim conjE, intro conjI)
  assume ok: "tree_ok [] (states k)" and ids: "ids_ok k"
  show "tree_ok [] (states (snd (length (states k), k\<lparr>states := states k @ [token_new]\<rparr>)))"
    unfolding snd_conv
  proof (rule tree_okI; simp)
    fix c p i
    show "p < c" if "c < Suc (length (states k))" "parent_link ((states k @ [token_new]) ! c) = Some (p, i)"
      using that tree_okD(1) [OF ok, of c p i] by (auto simp: nth_append token_new_def split: if_splits)
    show "cancelled ((states k @ [token_new]) ! c)"
      if "c < Suc (length (states k))" "parent_link ((states k @ [token_new]) ! c) = Some (p, i)"
        "cancelled ((states k @ [token_new]) ! p)"
      using that tree_okD(1,2) [OF ok, of c p i] by (auto simp: nth_append token_new_def split: if_splits)
    show "(i, CancelChild c) \<in> set (callbacks ((states k @ [token_new]) ! p))"
      if "c < Suc (length (states k))" "parent_link ((states k @ [token_new]) ! c) = Some (p, i)"
        "\<not> cancelled ((states k @ [token_new]) ! p)"
      using that tree_okD(1,3) [OF ok, of c p i] by (auto simp: nth_append token_new_def split: if_splits)
    show "c < Suc (length (states k)) \<and> parent_link ((states k @ [token_new]) ! c) = Some (p, i)"
      if "p < Suc (length (states k))" "(i, CancelChild c) \<in> set (callbacks ((states k @ [token_new]) ! p))"
      using that tree_okD(4) [OF ok, of p i c] by (auto simp: nth_append token_new_def split: if_splits)
    show "callbacks ((states k @ [token_new]) ! p) = []"
      if "p < Suc (length (states k))" "cancelled ((states k @ [token_new]) ! p)"
      using that tree_okD(5) [OF ok, of p] by (auto simp: nth_append token_new_def split: if_splits)
  qed
  show "ids_ok (snd (length (states k), k\<lparr>states := states k @ [token_new]\<rparr>))"
    using ids by (auto simp: ids_ok_def token_new_def)
qed

lemma store_ok_await:
  assumes "token_store_ok k"
  shows "token_store_ok (snd (await_cancelled t h k))"
proof -
  let ?x = "(states k ! t)\<lparr>event := snd (add_waiter h (event (states k ! t)))\<rparr>"
  have "tree_ok [] ((states k)[t := ?x])"
    using assms by (intro tree_ok_update) (simp_all add: token_store_ok_def)
  moreover have "ids_ok (k\<lparr>states := (states k)[t := ?x]\<rparr>)"
  proof (cases "t < length (states k)")
    case True
    with assms show ?thesis
      by (intro ids_ok_update) (auto simp: token_store_ok_def ids_ok_def)
  next
    case False
    with assms show ?thesis by (simp add: token_store_ok_def ids_ok_def list_update_beyond)
  qed
  ultimately show ?thesis by (simp add: token_store_ok_def await_cancelled_def split_beta)
qed

text \<open>Changing the user callbacks of a live token.\<close>

lemma tree_ok_user_callbacks:
  assumes ok: "tree_ok ws s" and live: "\<not> cancelled (s ! t)"
    and same: "\<And>i c. (i, CancelChild c) \<in> set fs \<longleftrightarrow> (i, CancelChild c) \<in> set (callbacks (s ! t))"
  shows "tree_ok ws (s[t := (s ! t)\<lparr>callbacks := fs\<rparr>])"
proof (cases "t < length s")
  case True
  let ?s = "s[t := (s ! t)\<lparr>callbacks := fs\<rparr>]"
  have c: "cancelled (?s ! q) = cancelled (s ! q)" "parent_link (?s ! q) = parent_link (s ! q)"
    "(i, CancelChild c) \<in> set (callbacks (?s ! q)) \<longleftrightarrow> (i, CancelChild c) \<in> set (callbacks (s ! q))" for q i c
    using same True by (cases "q = t"; simp)+
  have e: "callbacks (?s ! q) = []" if "q < length s" "cancelled (s ! q)" for q
    using that live tree_okD(5) [OF ok] by (cases "q = t") simp_all
  show ?thesis
    by (rule tree_okI; simp only: c length_list_update)
      (rule tree_okD [OF ok], assumption+ | rule e, assumption+)+
next
  case False
  with ok show ?thesis by (simp add: list_update_beyond)
qed

lemma ids_ok_nth: "ids_ok k \<Longrightarrow> t < length (states k) \<Longrightarrow> distinct (map fst (callbacks (states k ! t)))"
  by (simp add: ids_ok_def)

lemma ids_ok_fresh:
  "ids_ok k \<Longrightarrow> t < length (states k) \<Longrightarrow> e \<in> set (callbacks (states k ! t)) \<Longrightarrow> fst e < next_registration k"
  unfolding ids_ok_def using nth_mem by blast

lemma ids_ok_append:
  assumes "ids_ok k" "t < length (states k)"
  shows "ids_ok \<lparr>states = (states k)[t := (states k ! t)\<lparr>callbacks := callbacks (states k ! t)
      @ [(next_registration k, f)]\<rparr>], next_registration = Suc (next_registration k)\<rparr>"
proof -
  have t: "states k ! t \<in> set (states k)" using assms(2) by simp
  have "distinct (map fst (callbacks c)) \<and> (\<forall>e\<in>set (callbacks c). fst e < Suc (next_registration k))"
    if "c \<in> set ((states k)[t := (states k ! t)\<lparr>callbacks := callbacks (states k ! t)
      @ [(next_registration k, f)]\<rparr>])" for c
  proof -
    from that have "c = (states k ! t)\<lparr>callbacks := callbacks (states k ! t) @ [(next_registration k, f)]\<rparr>
        \<or> c \<in> set (states k)"
      using set_update_subset_insert by fast
    then show ?thesis using assms(1) t unfolding ids_ok_def by fastforce
  qed
  then show ?thesis by (simp add: ids_ok_def)
qed

lemma store_ok_register:
  assumes "token_store_ok k" "t < length (states k)"
  shows "token_store_ok (snd (register_callback t (UserFn u) k))"
proof (cases "cancelled (states k ! t)")
  case True
  with assms show ?thesis by (simp add: register_callback_def)
next
  case False
  with assms show ?thesis
    by (simp add: register_callback_def token_store_ok_def tree_ok_user_callbacks ids_ok_append)
qed

lemma distinct_fst_unique:
  "distinct (map fst xs) \<Longrightarrow> (i, a) \<in> set xs \<Longrightarrow> (i, b) \<in> set xs \<Longrightarrow> a = b"
  by (metis eq_key_imp_eq_value)

lemma store_ok_reset:
  assumes k: "token_store_ok k" "t < length (states k)" and u: "(i, UserFn u) \<in> set (callbacks (states k ! t))"
  shows "token_store_ok (reset t i k)"
proof (cases "cancelled (states k ! t)")
  case False
  let ?fs = "filter (\<lambda>(j, f). j \<noteq> i) (callbacks (states k ! t))"
  have d: "distinct (map fst (callbacks (states k ! t)))"
    using k by (simp add: token_store_ok_def ids_ok_nth)
  have "(j, CancelChild c) \<in> set ?fs \<longleftrightarrow> (j, CancelChild c) \<in> set (callbacks (states k ! t))" for j c
    using distinct_fst_unique [OF d u] by fastforce
  moreover have "distinct (map fst ?fs)" using d by (rule distinct_map_filter)
  ultimately show ?thesis
    using k False by (simp add: reset_def token_store_ok_def tree_ok_user_callbacks ids_ok_update)
qed (use k in \<open>simp add: reset_def\<close>)

text \<open>A new child enters its live parent's list.\<close>

lemma tree_ok_link:
  assumes ok: "tree_ok [] s" and p: "p < length s" "\<not> cancelled (s ! p)"
    and c: "c < length s" "p < c" "parent_link (s ! c) = None" "callbacks (s ! c) = []"
      "\<not> cancelled (s ! c)"
    and fresh: "i \<notin> fst ` set (callbacks (s ! p))"
  shows "tree_ok [] (s[p := (s ! p)\<lparr>callbacks := callbacks (s ! p) @ [(i, CancelChild c)]\<rparr>,
      c := (s ! c)\<lparr>parent_link := Some (p, i)\<rparr>])" (is "tree_ok [] ?s")
proof -
  have ne: "p \<noteq> c" using c(2) by simp
  have canc: "cancelled (?s ! q) = cancelled (s ! q)"
    and link: "parent_link (?s ! q) = (if q = c then Some (p, i) else parent_link (s ! q))"
    and cbs: "callbacks (?s ! q) =
      (if q = p then callbacks (s ! p) @ [(i, CancelChild c)] else callbacks (s ! q))" for q
    using p c ne by (simp_all add: nth_list_update)
  show ?thesis
  proof (rule tree_okI; unfold length_list_update canc link cbs)
    fix d q j
    assume d: "d < length s" and l: "(if d = c then Some (p, i) else parent_link (s ! d)) = Some (q, j)"
    show "q < d" using l c(2) tree_okD(1) [OF ok d, of q j] by (simp split: if_splits)
    show "cancelled (s ! d) \<or> Run (CancelChild d) \<in> set []" if "cancelled (s ! q)"
      using l that p tree_okD(2) [OF ok d, of q j] by (auto split: if_splits)
    show "(j, CancelChild d) \<in> set (if q = p then callbacks (s ! p) @ [(i, CancelChild c)] else callbacks (s ! q))"
      if "\<not> cancelled (s ! q)"
      using l that tree_okD(3) [OF ok d, of q j] by (auto split: if_splits)
  next
    fix q j d
    assume q: "q < length s"
      and m: "(j, CancelChild d) \<in> set (if q = p then callbacks (s ! p) @ [(i, CancelChild c)] else callbacks (s ! q))"
    show "d < length s \<and> (if d = c then Some (p, i) else parent_link (s ! d)) = Some (q, j)"
    proof (cases "q = p \<and> j = i \<and> d = c")
      case True
      with c show ?thesis by simp
    next
      case False
      with m have "(j, CancelChild d) \<in> set (callbacks (s ! q))" by (auto split: if_splits)
      from tree_okD(4) [OF ok q this] c(3) show ?thesis by auto
    qed
  next
    fix q
    assume "q < length s" "cancelled (s ! q)"
    then show "(if q = p then callbacks (s ! p) @ [(i, CancelChild c)] else callbacks (s ! q)) = []"
      using p tree_okD(5) [OF ok] by auto
  qed
qed

definition cancelled_new :: CancellationState where
  "cancelled_new = token_new\<lparr>cancelled := True, event := \<lparr>ev_set = True, ev_waiters = []\<rparr>\<rparr>"

lemma cancelled_new_link [simp]: "cancelled_new\<lparr>parent_link := None\<rparr> = cancelled_new"
  by (simp add: cancelled_new_def token_new_def)

lemma run_work_new:
  assumes c: "c < length s" "s ! c = token_new"
  shows "run_work [Run (CancelChild c)] s = ([], s[c := cancelled_new])"
proof -
  have "run_work [Run (CancelChild c)] s = run_work [SetEvent c] (s[c := token_new\<lparr>cancelled := True\<rparr>])"
    using c by (simp add: token_new_def)
  also have "\<dots> = ([], s[c := cancelled_new])"
    using c(1) by (simp add: Let_def ev_fire_def ev_new_def token_new_def cancelled_new_def)
  finally show ?thesis .
qed

lemma store_ok_child:
  assumes k: "token_store_ok k" and p: "p < length (states k)"
  shows "token_store_ok (snd (child_token p k))"
proof -
  let ?c = "length (states k)"
  define k1 where "k1 = k\<lparr>states := states k @ [token_new]\<rparr>"
  have ok1: "token_store_ok k1" using store_ok_new [OF k] by (simp add: new_token_def k1_def)
  have s1: "states k1 ! ?c = token_new" "states k1 ! p = states k ! p" "length (states k1) = Suc ?c"
    using p by (simp_all add: k1_def nth_append)
  show ?thesis
  proof (cases "cancelled (states k ! p)")
    case True
    let ?x = cancelled_new
    have run: "run_work [Run (CancelChild ?c)] (states k1) = ([], (states k1)[?c := ?x])"
      by (rule run_work_new) (simp_all add: s1)
    have "token_store_ok (snd (cancel ?c k1))" by (rule store_ok_cancel [OF ok1])
    then have "token_store_ok (k1\<lparr>states := (states k1)[?c := ?x]\<rparr>)"
      by (simp only: cancel_def run Let_def prod.case snd_conv)
    moreover have "snd (child_token p k) = k1\<lparr>states := (states k1)[?c := ?x]\<rparr>"
    proof -
      have "register_callback p (CancelChild ?c) k1 = ((None, []), k1\<lparr>states := (states k1)[?c := ?x]\<rparr>)"
        using True s1(2) by (simp only: register_callback_def run Let_def prod.case if_False not_True_eq_False)
      then show ?thesis
        using s1(3) by (simp add: child_token_def new_token_def k1_def)
    qed
    ultimately show ?thesis by simp
  next
    case False
    let ?n = "next_registration k1"
    have n: "?n \<notin> fst ` set (callbacks (states k1 ! p))"
      using ids_ok_fresh [of k1 p] ok1 p s1(3) by (fastforce simp: token_store_ok_def)
    let ?s = "(states k1)[p := (states k1 ! p)\<lparr>callbacks := callbacks (states k1 ! p) @ [(?n, CancelChild ?c)]\<rparr>,
      ?c := (states k1 ! ?c)\<lparr>parent_link := Some (p, ?n)\<rparr>]"
    have "tree_ok [] ?s"
      using ok1 p s1 False n by (intro tree_ok_link) (simp_all add: token_store_ok_def token_new_def)
    moreover have "ids_ok \<lparr>states = ?s, next_registration = Suc ?n\<rparr>"
    proof -
      have "ids_ok \<lparr>states = (states k1)[p := (states k1 ! p)\<lparr>callbacks := callbacks (states k1 ! p)
          @ [(?n, CancelChild ?c)]\<rparr>], next_registration = Suc ?n\<rparr>"
        using ok1 p s1(3) by (intro ids_ok_append) (simp_all add: token_store_ok_def)
      from ids_ok_update [OF this, of "(states k1 ! ?c)\<lparr>parent_link := Some (p, ?n)\<rparr>" ?c] p s1
      show ?thesis by (simp add: token_new_def)
    qed
    moreover have "snd (child_token p k) = \<lparr>states = ?s, next_registration = Suc ?n\<rparr>"
      using False s1 p
      by (simp add: child_token_def new_token_def register_callback_def k1_def [symmetric])
    ultimately show ?thesis by (simp add: token_store_ok_def)
  qed
qed

text \<open>A dropped token leaves its parent's list.\<close>

lemma tree_ok_unlink:
  assumes ok: "tree_ok [] s" and p: "p < length s" and c: "c < length s" "p \<noteq> c"
    and linked: "parent_link (s ! c) = Some (p, i)"
    and fs: "\<And>j d. (j, CancelChild d) \<in> set fs \<longleftrightarrow> (j, CancelChild d) \<in> set (callbacks (s ! p)) \<and> d \<noteq> c"
    and emp: "cancelled (s ! p) \<Longrightarrow> fs = []"
  shows "tree_ok [] (s[p := (s ! p)\<lparr>callbacks := fs\<rparr>, c := (s ! c)\<lparr>parent_link := None\<rparr>])" (is "tree_ok [] ?s")
proof -
  have canc: "cancelled (?s ! q) = cancelled (s ! q)"
    and link: "parent_link (?s ! q) = (if q = c then None else parent_link (s ! q))"
    and cbs: "callbacks (?s ! q) = (if q = p then fs else callbacks (s ! q))" for q
    using p c by (simp_all add: nth_list_update)
  show ?thesis
  proof (rule tree_okI; unfold length_list_update canc link cbs)
    fix d q j
    assume d: "d < length s" and "(if d = c then None else parent_link (s ! d)) = Some (q, j)"
    then have l: "d \<noteq> c" "parent_link (s ! d) = Some (q, j)" by (simp_all split: if_splits)
    show "q < d" by (rule tree_okD(1) [OF ok d l(2)])
    show "cancelled (s ! d) \<or> Run (CancelChild d) \<in> set []" if "cancelled (s ! q)"
      by (rule tree_okD(2) [OF ok d l(2) that])
    show "(j, CancelChild d) \<in> set (if q = p then fs else callbacks (s ! q))" if "\<not> cancelled (s ! q)"
      using tree_okD(3) [OF ok d l(2) that] fs l(1) by auto
  next
    fix q j d
    assume q: "q < length s" and m: "(j, CancelChild d) \<in> set (if q = p then fs else callbacks (s ! q))"
    then have "(j, CancelChild d) \<in> set (callbacks (s ! q))" using fs by (auto split: if_splits)
    from tree_okD(4) [OF ok q this] linked m fs
    show "d < length s \<and> (if d = c then None else parent_link (s ! d)) = Some (q, j)"
      by (auto split: if_splits)
  next
    fix q
    assume "q < length s" "cancelled (s ! q)"
    then show "(if q = p then fs else callbacks (s ! q)) = []" using emp tree_okD(5) [OF ok] by auto
  qed
qed

lemma store_ok_drop:
  assumes k: "token_store_ok k" and c: "c < length (states k)"
  shows "token_store_ok (drop_token c k)"
proof (cases "parent_link (states k ! c)")
  case None
  with k show ?thesis by (simp add: drop_token_def)
next
  case (Some pi)
  obtain p i where l: "parent_link (states k ! c) = Some (p, i)" using Some by (cases pi) simp
  from k have ok: "tree_ok [] (states k)" and ids: "ids_ok k" by (simp_all add: token_store_ok_def)
  have p: "p < c" "p < length (states k)" using tree_okD(1) [OF ok c l] c by auto
  define fs where "fs = (if cancelled (states k ! p) then callbacks (states k ! p)
    else filter (\<lambda>(j, f). j \<noteq> i) (callbacks (states k ! p)))"
  have d: "distinct (map fst (callbacks (states k ! p)))" by (rule ids_ok_nth [OF ids p(2)])
  have fs: "(j, CancelChild e) \<in> set fs \<longleftrightarrow> (j, CancelChild e) \<in> set (callbacks (states k ! p)) \<and> e \<noteq> c" for j e
  proof (cases "cancelled (states k ! p)")
    case True
    with tree_okD(5) [OF ok p(2)] show ?thesis by (simp add: fs_def)
  next
    case False
    have "(i, CancelChild c) \<in> set (callbacks (states k ! p))" by (rule tree_okD(3) [OF ok c l False])
    from distinct_fst_unique [OF d this] tree_okD(4) [OF ok p(2), of j e] l False
    show ?thesis by (auto simp: fs_def)
  qed
  have emp: "cancelled (states k ! p) \<Longrightarrow> fs = []" using tree_okD(5) [OF ok p(2)] by (simp add: fs_def)
  let ?s1 = "(states k)[p := (states k ! p)\<lparr>callbacks := fs\<rparr>]"
  have reset: "reset p i k = k\<lparr>states := ?s1\<rparr>"
    by (cases "cancelled (states k ! p)") (simp_all add: reset_def fs_def)
  have ids1: "ids_ok (k\<lparr>states := ?s1\<rparr>)"
    using ids d by (intro ids_ok_update) (auto simp: fs_def distinct_map_filter)
  have "ids_ok (k\<lparr>states := ?s1[c := (?s1 ! c)\<lparr>parent_link := None\<rparr>]\<rparr>)"
    using ids_ok_update [OF ids1, of "(?s1 ! c)\<lparr>parent_link := None\<rparr>" c] ids_ok_nth [OF ids1, of c] c by simp
  moreover have "tree_ok [] (?s1[c := (states k ! c)\<lparr>parent_link := None\<rparr>])"
    by (rule tree_ok_unlink [OF ok p(2) c _ l fs emp]) (use p in simp)
  moreover have "drop_token c k = k\<lparr>states := ?s1[c := (states k ! c)\<lparr>parent_link := None\<rparr>]\<rparr>"
    using p by (simp add: drop_token_def l reset)
  ultimately show ?thesis using p by (simp add: token_store_ok_def)
qed

lemma tok_reach_ok: "tok_reach k \<Longrightarrow> token_store_ok k"
proof (induction rule: tok_reach.induct)
  case tok_init
  show ?case by (simp add: token_store_ok_def no_tokens_def tree_ok_def ids_ok_def)
qed (simp_all add: store_ok_new store_ok_child store_ok_register store_ok_reset store_ok_drop
    store_ok_await store_ok_cancel)

section \<open>Waiting with a timeout\<close>

text \<open>
  \<open>TimedWaitState\<close>: the timer and the cancellation callback both complete the wait; the
  first one decides and resumes the coroutine.
\<close>

record TimedWaitState =
  tw_done :: bool
  was_cancelled :: bool

definition timed_wait_new :: TimedWaitState where
  "timed_wait_new = \<lparr>tw_done = False, was_cancelled = False\<rparr>"

text \<open>\<open>complete\<close>: whether the coroutine is posted for resumption.\<close>

definition tw_complete :: "bool \<Rightarrow> TimedWaitState \<Rightarrow> bool \<times> TimedWaitState" where
  "tw_complete c w = (if tw_done w then (False, w) else (True, \<lparr>tw_done = True, was_cancelled = c\<rparr>))"

primrec completes :: "bool list \<Rightarrow> TimedWaitState \<Rightarrow> nat \<times> TimedWaitState" where
  "completes [] w = (0, w)"
| "completes (c # cs) w =
     (let (posted, w1) = tw_complete c w; (n, w2) = completes cs w1
      in ((if posted then 1 else 0) + n, w2))"

lemma completes_done: "tw_done w \<Longrightarrow> completes cs w = (0, w)"
  by (induction cs) (simp_all add: tw_complete_def)

lemma completes_once:
  "completes (c # cs) timed_wait_new = (1, \<lparr>tw_done = True, was_cancelled = c\<rparr>)"
  by (simp add: tw_complete_def timed_wait_new_def completes_done)

section \<open>The controller of a request\<close>

record Controller =
  co_id :: string
  stopped :: bool
  killed :: bool
  stopped_event :: AsyncEvent
  killed_event :: AsyncEvent
  stop_hooks :: "nat list"
  kill_hooks :: "nat list"

definition Controller_new :: "string \<Rightarrow> Controller" where
  "Controller_new i = \<lparr>co_id = i, stopped = False, killed = False, stopped_event = ev_new,
     killed_event = ev_new, stop_hooks = [], kill_hooks = []\<rparr>"

text \<open>Hooks run inline or are posted to an executor; either way each is called once.\<close>

definition stop_generating :: "Controller \<Rightarrow> effect list \<times> Controller" where
  "stop_generating c =
     (if stopped c then ([], c)
      else let (hs, e) = ev_fire (stopped_event c)
           in (map Resumed hs @ map Called (stop_hooks c),
               c\<lparr>stopped := True, stopped_event := e, stop_hooks := []\<rparr>))"

definition kill :: "Controller \<Rightarrow> effect list \<times> Controller" where
  "kill c =
     (let (l, c1) = stop_generating (c\<lparr>killed := True\<rparr>)
      in if killed c then (l, c1)
         else let (hs, e) = ev_fire (killed_event c1)
              in (l @ map Resumed hs @ map Called (kill_hooks c1),
                  c1\<lparr>killed_event := e, kill_hooks := []\<rparr>))"

text \<open>
  \<open>on_stop\<close> and \<open>on_kill\<close> read the flag first and take the lock afterwards, so registration
  has two steps: \<open>fired\<close> is the flag as it was read.
\<close>

definition add_stop_hook :: "nat \<Rightarrow> bool \<Rightarrow> Controller \<Rightarrow> effect list \<times> Controller" where
  "add_stop_hook f fired c =
     (if \<not> fired then ([], c\<lparr>stop_hooks := stop_hooks c @ [f]\<rparr>) else ([Called f], c))"

definition add_kill_hook :: "nat \<Rightarrow> bool \<Rightarrow> Controller \<Rightarrow> effect list \<times> Controller" where
  "add_kill_hook f fired c =
     (if \<not> fired then ([], c\<lparr>kill_hooks := kill_hooks c @ [f]\<rparr>) else ([Called f], c))"

definition on_stop :: "nat \<Rightarrow> Controller \<Rightarrow> effect list \<times> Controller" where
  "on_stop f c = add_stop_hook f (stopped c) c"

definition on_kill :: "nat \<Rightarrow> Controller \<Rightarrow> effect list \<times> Controller" where
  "on_kill f c = add_kill_hook f (killed c) c"

definition co_ok :: "Controller \<Rightarrow> bool" where
  "co_ok c = ((killed c \<longrightarrow> stopped c) \<and> (stopped c \<longrightarrow> stop_hooks c = [] \<and> ev_set (stopped_event c))
     \<and> (killed c \<longrightarrow> kill_hooks c = [] \<and> ev_set (killed_event c))
     \<and> (\<not> stopped c \<longrightarrow> \<not> ev_set (stopped_event c)) \<and> (\<not> killed c \<longrightarrow> \<not> ev_set (killed_event c)))"

lemma co_ok_preserved [inv_intros]:
  "co_ok (Controller_new i)"
  "co_ok c \<Longrightarrow> co_ok (snd (stop_generating c))"
  "co_ok c \<Longrightarrow> co_ok (snd (kill c))"
  "co_ok c \<Longrightarrow> co_ok (snd (on_stop f c))"
  "co_ok c \<Longrightarrow> co_ok (snd (on_kill f c))"
  by (auto simp: co_ok_def Controller_new_def ev_new_def stop_generating_def kill_def on_stop_def
      on_kill_def add_stop_hook_def add_kill_hook_def ev_fire_def Let_def split_beta)

text \<open>A kill stops first, runs every hook of both kinds once, and a second one does nothing.\<close>

lemma kill_runs_hooks:
  assumes "co_ok c" "\<not> stopped c"
  shows "called (fst (kill c)) = mset (stop_hooks c) + mset (kill_hooks c)"
    and "stopped (snd (kill c)) \<and> killed (snd (kill c))"
proof -
  have [simp]: "called (l @ l') = called l + called l'" for l l' by (simp add: called_def)
  have [simp]: "called (map Called us) = mset us" "called (map Resumed us) = {#}" for us
    by (simp_all add: called_def comp_def)
  show "called (fst (kill c)) = mset (stop_hooks c) + mset (kill_hooks c)"
    and "stopped (snd (kill c)) \<and> killed (snd (kill c))"
    using assms by (auto simp: co_ok_def kill_def stop_generating_def Let_def split_beta)
qed

lemma kill_twice: "co_ok c \<Longrightarrow> fst (kill (snd (kill c))) = []"
  by (auto simp: co_ok_def kill_def stop_generating_def Let_def split_beta)

text \<open>
  A stop between the two steps of a registration loses the hook: it stays in the list, and
  no later stop calls it.
\<close>

lemma stop_during_registration:
  assumes "\<not> stopped c"
  shows "snd (add_stop_hook f (stopped c) (snd (stop_generating c)))
      = (snd (stop_generating c))\<lparr>stop_hooks := [f]\<rparr>"
    and "fst (stop_generating (snd (add_stop_hook f (stopped c) (snd (stop_generating c))))) = []"
  using assms by (simp_all add: add_stop_hook_def stop_generating_def split_beta)

section \<open>Properties\<close>

text \<open>C24.  Cancelling a token cancels exactly the token and its descendants, in every reachable store of
  tokens: no parent, sibling or unrelated token is touched, and tokens that stay live keep
  their callbacks. The user callbacks that were registered at the tokens it cancels are each
  called once, and nothing else is called. The tree stays well formed: no token is lost, every
  parent link is as it was and points to an older token, a live token lists the cancellation of
  each of its children under the registration the child holds, and the children of a cancelled
  token are cancelled.\<close>

theorem cancel_reaches_subtree:
  assumes "tok_reach k" "t < length (states k)" "cancel t k = (l, k')"
  shows "(\<forall>c < length (states k). cancelled (states k' ! c) = (cancelled (states k ! c) \<or> descendant (states k) c t)
       \<and> callbacks (states k' ! c) = (if cancelled (states k' ! c) then [] else callbacks (states k ! c)))
     \<and> called l + registered (states k') = registered (states k)
     \<and> length (states k') = length (states k)
     \<and> (\<forall>c < length (states k). parent_link (states k' ! c) = parent_link (states k ! c))
     \<and> token_store_ok k'"
proof -
  let ?ws = "[Run (CancelChild t)]"
  have ok0: "tree_ok [] (states k)" using tok_reach_ok [OF assms(1)] by (simp add: token_store_ok_def)
  then have ok: "tree_ok ?ws (states k)" by (rule tree_ok_weaken) simp
  have l: "l = fst (run_work ?ws (states k))" and k': "states k' = snd (run_work ?ws (states k))"
    using assms(3) by (auto simp: cancel_def split_beta simp del: run_work.simps)
  have ok': "tree_ok [] (states k')" unfolding k' by (rule run_work_tree [OF ok])
  have same: "child_of (states k') = child_of (states k)"
    unfolding k' by (simp add: child_of_def fun_eq_iff run_work_parent del: run_work.simps)
  have t: "cancelled (states k' ! t)" unfolding k' by (rule run_work_lower) (simp_all add: assms(2))
  have "cancelled (states k' ! c) = (cancelled (states k ! c) \<or> descendant (states k) c t)"
    if "c < length (states k)" for c
    using run_work_upper [OF ok that] run_work_mono [of "states k" c ?ws]
      descendant_cancelled [OF ok' _ t, of c] unfolding k' [symmetric] same by auto
  moreover have "callbacks (states k' ! c) = (if cancelled (states k' ! c) then [] else callbacks (states k ! c))"
    if "c < length (states k)" for c
    using that tree_okD(5) [OF ok', of c] run_work_callbacks [of ?ws "states k" c] unfolding k' [symmetric]
    by (simp add: k' del: run_work.simps)
  moreover have "called l + registered (states k') = registered (states k)"
    using run_work_users [of ?ws "states k"] unfolding l k' by (simp del: run_work.simps)
  moreover have "length (states k') = length (states k)"
    "parent_link (states k' ! c) = parent_link (states k ! c)" for c
    unfolding k' by (simp_all add: run_work_parent del: run_work.simps)
  moreover have "token_store_ok k'"
    using store_ok_cancel [OF tok_reach_ok [OF assms(1)], of t] assms(3) by simp
  ultimately show ?thesis by blast
qed

theorem cancel_reaches_subtree_witness:
  "\<exists>k l k'. tok_reach k \<and> length (states k) = 3 \<and> cancel 1 k = (l, k') \<and> l = [Called 7]
     \<and> map cancelled (states k') = [False, True, True]
     \<and> called l + registered (states k') = registered (states k) \<and> token_store_ok k'"
proof -
  define k where "k = snd (register_callback 2 (UserFn 7) (snd (child_token 1 (snd (child_token 0
    (snd (new_token no_tokens)))))))"
  have r: "tok_reach k"
    unfolding k_def
    by (intro tok_reach.intros)
      (simp_all add: no_tokens_def new_token_def child_token_def register_callback_def token_new_def)
  have len: "length (states k) = 3" unfolding k_def by code_simp
  obtain l k' where c: "cancel 1 k = (l, k')" by fastforce
  have "fst (cancel 1 k) = [Called 7]" "map cancelled (states (snd (cancel 1 k))) = [False, True, True]"
    unfolding k_def by code_simp+
  with c have "l = [Called 7]" "map cancelled (states k') = [False, True, True]" by simp_all
  moreover have "called l + registered (states k') = registered (states k)" "token_store_ok k'"
    using cancel_reaches_subtree [OF r _ c] len by simp_all
  ultimately show ?thesis using r len c
    by - (rule exI [of _ k], rule exI [of _ l], rule exI [of _ k'], intro conjI)
qed

end
