(* ===== verification/Channel.thy ===== *)
theory Channel
  imports Prelude
begin

text \<open>
  The bounded channel between threads and coroutines (\<open>runtime/coro/channel.h\<close>). Every
  operation runs under the channel's mutex, so it is a function of the state; a call that
  waits on a condition variable is one that is not enabled in the current state, and the
  interleaving of the callers is an arbitrary sequence of enabled operations. Coroutine
  handles are the identities of the awaiting receivers; resuming one is the result it gets.

  The interface the rest of the runtime relies on is a first-in first-out queue that closes
  once. It is the locale \<open>fifo_channel\<close>, interpreted on the model at the end.
\<close>

section \<open>State\<close>

record 'a ChannelState =
  queue :: "'a list"
  capacity :: nat
  closed :: bool
  senders :: nat
  receivers :: nat
  async_receivers :: "nat list"

definition ch_new :: "nat \<Rightarrow> 'a ChannelState" where
  "ch_new cap = \<lparr>queue = [], capacity = cap, closed = False, senders = 0, receivers = 0,
     async_receivers = []\<rparr>"

definition add_sender :: "'a ChannelState \<Rightarrow> 'a ChannelState" where
  "add_sender s = s\<lparr>senders := senders s + 1\<rparr>"

definition add_receiver :: "'a ChannelState \<Rightarrow> 'a ChannelState" where
  "add_receiver s = s\<lparr>receivers := receivers s + 1\<rparr>"

definition make_channel :: "nat \<Rightarrow> 'a ChannelState" where
  "make_channel cap = add_receiver (add_sender (ch_new cap))"

section \<open>Operations\<close>

text \<open>What a receiver that is resumed, or returns, obtains; \<open>None\<close> is \<open>nullopt\<close>.\<close>

type_synonym 'a delivery = "nat \<times> 'a option"

text \<open>\<open>close_locked\<close> and the resumption of the parked receivers that follows it.\<close>

definition ch_close :: "'a ChannelState \<Rightarrow> 'a delivery list \<times> 'a ChannelState" where
  "ch_close s =
     (if closed s then ([], s)
      else (map (\<lambda>h. (h, None)) (async_receivers s), s\<lparr>closed := True, async_receivers := []\<rparr>))"

text \<open>The predicate a sender waits for, and what \<open>push\<close> does once it holds.\<close>

definition push_ready :: "'a ChannelState \<Rightarrow> bool" where
  "push_ready s = (closed s \<or> length (queue s) < capacity s \<or> async_receivers s \<noteq> [])"

definition push :: "'a \<Rightarrow> 'a ChannelState \<Rightarrow> (bool \<times> 'a delivery list) \<times> 'a ChannelState" where
  "push v s =
     (if closed s then ((False, []), s)
      else case async_receivers s of
        h # hs \<Rightarrow> ((True, [(h, Some v)]), s\<lparr>async_receivers := hs\<rparr>)
      | [] \<Rightarrow> ((True, []), s\<lparr>queue := queue s @ [v]\<rparr>))"

text \<open>\<open>send\<close> on a handle: blocked, or the result of \<open>push\<close>.\<close>

definition ch_send :: "'a \<Rightarrow> 'a ChannelState \<Rightarrow> ((bool \<times> 'a delivery list) \<times> 'a ChannelState) option" where
  "ch_send v s = (if push_ready s then Some (push v s) else None)"

text \<open>The awaiter of \<open>recv\<close>: it returns at once or parks the coroutine.\<close>

definition recv :: "nat \<Rightarrow> 'a ChannelState \<Rightarrow> 'a delivery list \<times> 'a ChannelState" where
  "recv h s =
     (case queue s of
        v # vs \<Rightarrow> ([(h, Some v)], s\<lparr>queue := vs\<rparr>)
      | [] \<Rightarrow> if closed s then ([(h, None)], s)
             else ([], s\<lparr>async_receivers := async_receivers s @ [h]\<rparr>))"

definition sync_recv :: "'a ChannelState \<Rightarrow> ('a option \<times> 'a ChannelState) option" where
  "sync_recv s =
     (case queue s of
        v # vs \<Rightarrow> Some (Some v, s\<lparr>queue := vs\<rparr>)
      | [] \<Rightarrow> if closed s then Some (None, s) else None)"

definition release_sender :: "'a ChannelState \<Rightarrow> 'a delivery list \<times> 'a ChannelState" where
  "release_sender s =
     (let s' = s\<lparr>senders := senders s - 1\<rparr> in if senders s' = 0 then ch_close s' else ([], s'))"

definition release_receiver :: "'a ChannelState \<Rightarrow> 'a delivery list \<times> 'a ChannelState" where
  "release_receiver s =
     (let s' = s\<lparr>receivers := receivers s - 1\<rparr> in if receivers s' = 0 then ch_close s' else ([], s'))"

section \<open>Runs\<close>

datatype 'a chan_op =
    Send 'a
  | Recv nat
  | SyncRecv
  | Close
  | CloneSender
  | CloneReceiver
  | DropSender
  | DropReceiver

text \<open>The history beside the state: the values accepted, and the receipts in order.\<close>

record 'a chan_run =
  chan :: "'a ChannelState"
  accepted :: "'a list"
  receipts :: "'a option list"

text \<open>
  One operation, if it is enabled. A handle can only be cloned or dropped while one exists.
\<close>

definition chan_step :: "'a chan_op \<Rightarrow> 'a chan_run \<Rightarrow> 'a chan_run option" where
  "chan_step opn r =
     (let deliver = \<lambda>(ds, s'). Some (r\<lparr>chan := s', receipts := receipts r @ map snd ds\<rparr>) in
      case opn of
        Send v \<Rightarrow>
          (case ch_send v (chan r) of
             None \<Rightarrow> None
           | Some ((ok, ds), s') \<Rightarrow>
               Some (r\<lparr>chan := s', accepted := accepted r @ (if ok then [v] else []),
                       receipts := receipts r @ map snd ds\<rparr>))
      | Recv h \<Rightarrow> deliver (recv h (chan r))
      | SyncRecv \<Rightarrow>
          (case sync_recv (chan r) of
             None \<Rightarrow> None
           | Some (v, s') \<Rightarrow> Some (r\<lparr>chan := s', receipts := receipts r @ [v]\<rparr>))
      | Close \<Rightarrow> deliver (ch_close (chan r))
      | CloneSender \<Rightarrow> if senders (chan r) = 0 then None else Some (r\<lparr>chan := add_sender (chan r)\<rparr>)
      | CloneReceiver \<Rightarrow> if receivers (chan r) = 0 then None else Some (r\<lparr>chan := add_receiver (chan r)\<rparr>)
      | DropSender \<Rightarrow> if senders (chan r) = 0 then None else deliver (release_sender (chan r))
      | DropReceiver \<Rightarrow> if receivers (chan r) = 0 then None else deliver (release_receiver (chan r)))"

inductive chan_reach :: "nat \<Rightarrow> 'a chan_run \<Rightarrow> bool" for cap where
  start: "chan_reach cap \<lparr>chan = make_channel cap, accepted = [], receipts = []\<rparr>"
| move: "chan_reach cap r \<Longrightarrow> chan_step opn r = Some r' \<Longrightarrow> chan_reach cap r'"

primrec chan_steps :: "'a chan_op list \<Rightarrow> 'a chan_run \<Rightarrow> 'a chan_run option" where
  "chan_steps [] r = Some r"
| "chan_steps (opn # ops) r = (case chan_step opn r of None \<Rightarrow> None | Some r' \<Rightarrow> chan_steps ops r')"

lemma chan_reach_steps: "chan_reach cap r \<Longrightarrow> chan_steps ops r = Some r' \<Longrightarrow> chan_reach cap r'"
  by (induction ops arbitrary: r) (auto intro: chan_reach.move split: option.splits)

definition values_of :: "'a option list \<Rightarrow> 'a list" where
  "values_of rs = concat (map (\<lambda>v. case v of None \<Rightarrow> [] | Some a \<Rightarrow> [a]) rs)"

lemma values_of_simps [simp]:
  "values_of [] = []"
  "values_of (v # rs) = (case v of None \<Rightarrow> [] | Some a \<Rightarrow> [a]) @ values_of rs"
  "values_of (rs @ ts) = values_of rs @ values_of ts"
  "values_of (map (\<lambda>h. None) hs) = []"
  by (simp_all add: values_of_def)

text \<open>
  The invariant: accepted values are received or queued, in order; the queue is bounded;
  receivers are parked only while the queue is empty and the channel open; after closing
  only the rest of the queue is delivered; the handles keep it open.
\<close>

definition chan_ok :: "'a chan_run \<Rightarrow> bool" where
  "chan_ok r =
     (accepted r = values_of (receipts r) @ queue (chan r)
      \<and> length (queue (chan r)) \<le> capacity (chan r)
      \<and> (async_receivers (chan r) \<noteq> [] \<longrightarrow> queue (chan r) = [] \<and> \<not> closed (chan r))
      \<and> (senders (chan r) = 0 \<or> receivers (chan r) = 0 \<longrightarrow> closed (chan r))
      \<and> (None \<in> set (receipts r) \<longrightarrow> closed (chan r) \<and> queue (chan r) = []))"

lemmas chan_defs = ch_send_def push_def push_ready_def recv_def sync_recv_def ch_close_def
  release_sender_def release_receiver_def add_sender_def add_receiver_def

lemma chan_step_ok [inv_intros]:
  assumes "chan_step opn r = Some r'" "chan_ok r"
  shows "chan_ok r'"
  using assms
  by (cases opn)
    (auto simp: chan_step_def chan_ok_def chan_defs Let_def comp_def
      split: if_splits list.splits option.splits)

lemma chan_step_capacity: "chan_step opn r = Some r' \<Longrightarrow> capacity (chan r') = capacity (chan r)"
  by (cases opn) (auto simp: chan_step_def chan_defs Let_def split: if_splits list.splits option.splits)

lemma chan_reach_ok: "chan_reach cap r \<Longrightarrow> chan_ok r \<and> capacity (chan r) = cap"
proof (induction rule: chan_reach.induct)
  case start
  show ?case by (simp add: chan_ok_def make_channel_def ch_new_def chan_defs)
next
  case (move r opn r')
  then show ?case using chan_step_ok chan_step_capacity by fastforce
qed

text \<open>
  Closing wakes every parked receiver, and a closed channel accepts nothing more; parked
  receivers are served in the order they parked.
\<close>

lemma ch_close_wakes:
  "\<not> closed s \<Longrightarrow> map fst (fst (ch_close s)) = async_receivers s \<and> async_receivers (snd (ch_close s)) = []"
  by (simp add: ch_close_def comp_def)

lemma closed_refuses: "closed s \<Longrightarrow> ch_send v s = Some ((False, []), s)"
  by (simp add: chan_defs)

lemma parked_in_order:
  "\<not> closed s \<Longrightarrow> async_receivers s = h # hs \<Longrightarrow>
   ch_send v s = Some ((True, [(h, Some v)]), s\<lparr>async_receivers := hs\<rparr>)"
  by (simp add: chan_defs)

text \<open>
  With capacity zero a sender can only hand its value to a parked receiver. Parking makes
  the sender's predicate true, but \<open>await_suspend\<close> does not notify it.
\<close>

lemma rendezvous_needs_receiver:
  "capacity s = 0 \<Longrightarrow> \<not> closed s \<Longrightarrow> queue s = [] \<Longrightarrow>
   (push_ready s \<longleftrightarrow> async_receivers s \<noteq> []) \<and> push_ready (snd (recv h s))"
  by (simp add: chan_defs)

section \<open>The interface\<close>

text \<open>
  A producer that sends and closes, and a consumer that polls: \<open>content\<close> is what is queued,
  \<open>offer\<close> and \<open>poll\<close> are not enabled when they would block.
\<close>

locale fifo_channel =
  fixes ok :: "'s \<Rightarrow> bool"
    and content :: "'s \<Rightarrow> 'a list"
    and is_closed :: "'s \<Rightarrow> bool"
    and offer :: "'a \<Rightarrow> 's \<Rightarrow> (bool \<times> 's) option"
    and poll :: "'s \<Rightarrow> ('a option \<times> 's) option"
    and shut :: "'s \<Rightarrow> 's"
  assumes offer_open: "ok s \<Longrightarrow> \<not> is_closed s \<Longrightarrow> offer v s = Some (b, s') \<Longrightarrow>
      b \<and> ok s' \<and> \<not> is_closed s' \<and> content s' = content s @ [v]"
    and offer_closed: "is_closed s \<Longrightarrow> offer v s = Some (False, s)"
    and poll_value: "ok s \<Longrightarrow> content s = v # vs \<Longrightarrow>
      \<exists>s'. poll s = Some (Some v, s') \<and> ok s' \<and> content s' = vs \<and> is_closed s' = is_closed s"
    and poll_end: "ok s \<Longrightarrow> content s = [] \<Longrightarrow> is_closed s \<Longrightarrow> poll s = Some (None, s)"
    and shut_closes: "ok s \<Longrightarrow> ok (shut s) \<and> is_closed (shut s) \<and> content (shut s) = content s"

text \<open>The two loops of the clients: send all, and poll until the end.\<close>

fun offer_all :: "('a \<Rightarrow> 's \<Rightarrow> (bool \<times> 's) option) \<Rightarrow> 'a list \<Rightarrow> 's \<Rightarrow> (bool \<times> 's) option" where
  "offer_all offer [] s = Some (True, s)"
| "offer_all offer (v # vs) s =
     (case offer v s of
        None \<Rightarrow> None
      | Some (b, s') \<Rightarrow> if b then offer_all offer vs s' else Some (False, s'))"

fun drain :: "('s \<Rightarrow> ('a option \<times> 's) option) \<Rightarrow> nat \<Rightarrow> 's \<Rightarrow> ('a list \<times> 's) option" where
  "drain poll 0 s = None"
| "drain poll (Suc n) s =
     (case poll s of
        None \<Rightarrow> None
      | Some (None, s') \<Rightarrow> Some ([], s')
      | Some (Some v, s') \<Rightarrow> map_option (\<lambda>(vs, s''). (v # vs, s'')) (drain poll n s'))"

context fifo_channel
begin

lemma offer_all_content:
  "ok s \<Longrightarrow> \<not> is_closed s \<Longrightarrow> offer_all offer vs s = Some (b, s') \<Longrightarrow>
   b \<and> ok s' \<and> \<not> is_closed s' \<and> content s' = content s @ vs"
proof (induction vs arbitrary: s)
  case (Cons v vs)
  then obtain b1 s1 where o: "offer v s = Some (b1, s1)" by (cases "offer v s") auto
  with offer_open [OF Cons.prems(1,2) o] Cons.IH [of s1] Cons.prems(3) show ?case by auto
qed simp

lemma drain_closed:
  "ok s \<Longrightarrow> is_closed s \<Longrightarrow> length (content s) < n \<Longrightarrow>
   \<exists>s'. drain poll n s = Some (content s, s') \<and> content s' = []"
proof (induction n arbitrary: s)
  case (Suc n)
  show ?case
  proof (cases "content s")
    case Nil
    with Suc.prems poll_end show ?thesis by simp
  next
    case (Cons v vs)
    with Suc.prems(1) poll_value obtain s1 where s1: "poll s = Some (Some v, s1)" "ok s1"
      "content s1 = vs" "is_closed s1 = is_closed s" by blast
    with Suc.IH [of s1] Suc.prems Cons show ?thesis by auto
  qed
qed simp

text \<open>What was sent before the end arrives, in order, and then the end.\<close>

lemma produce_then_drain:
  assumes "ok s" "\<not> is_closed s" "offer_all offer vs s = Some (b, s')"
    and "length (content s) + length vs < n"
  shows "\<exists>s''. drain poll n (shut s') = Some (content s @ vs, s'')"
  using offer_all_content [OF assms(1-3)] drain_closed [of "shut s'" n] shut_closes [of s'] assms(4)
  by auto

end

definition ch_offer :: "'a \<Rightarrow> 'a ChannelState \<Rightarrow> (bool \<times> 'a ChannelState) option" where
  "ch_offer v s = map_option (\<lambda>((b, ds), s'). (b, s')) (ch_send v s)"

definition no_parked :: "'a ChannelState \<Rightarrow> bool" where
  "no_parked s = (async_receivers s = [])"

interpretation chan_fifo: fifo_channel no_parked queue closed ch_offer sync_recv "\<lambda>s. snd (ch_close s)"
  by unfold_locales
    (auto simp: no_parked_def ch_offer_def chan_defs split: list.splits if_splits)

text \<open>Within the capacity no offer blocks.\<close>

lemma offer_all_enabled:
  "no_parked s \<Longrightarrow> length (queue s) + length vs \<le> capacity s \<Longrightarrow> \<not> closed s \<Longrightarrow>
   \<exists>s'. offer_all ch_offer vs s = Some (True, s')"
proof (induction vs arbitrary: s)
  case (Cons v vs)
  have "ch_offer v s = Some (True, s\<lparr>queue := queue s @ [v]\<rparr>)"
    using Cons.prems by (simp add: ch_offer_def chan_defs no_parked_def)
  with Cons.IH [of "s\<lparr>queue := queue s @ [v]\<rparr>"] Cons.prems show ?case
    by (simp add: no_parked_def)
qed simp

section \<open>Properties\<close>

text \<open>C23.  The channel refines a queue: in every run of sends, receives, closes, and copies and drops
  of handles, the accepted values are the received ones followed by the queued ones, in
  order; at most the capacity is queued; and once a receiver has been told that the channel
  ended, it is closed and every accepted value has been received.\<close>

theorem channel_fifo:
  assumes "chan_reach cap r"
  shows "accepted r = values_of (receipts r) @ queue (chan r)
    \<and> length (queue (chan r)) \<le> cap
    \<and> (None \<in> set (receipts r) \<longrightarrow> closed (chan r) \<and> accepted r = values_of (receipts r))"
  using chan_reach_ok [OF assms] by (auto simp: chan_ok_def)

theorem channel_fifo_witness:
  "\<exists>r. chan_reach 1 r \<and> accepted r = [7, 8 :: nat] \<and> receipts r = [Some 7, Some 8, None]
     \<and> accepted r = values_of (receipts r) @ queue (chan r)"
proof -
  define r :: "nat chan_run" where "r = \<lparr>chan = \<lparr>queue = [], capacity = 1, closed = True, senders = 0,
      receivers = 1, async_receivers = []\<rparr>, accepted = [7, 8], receipts = [Some 7, Some 8, None]\<rparr>"
  have "chan_steps [Send 7, SyncRecv, Recv 4, Send 8, Recv 5, DropSender]
      \<lparr>chan = make_channel 1, accepted = [], receipts = []\<rparr> = Some r"
    unfolding r_def by (simp add: chan_step_def chan_defs make_channel_def ch_new_def)
  then have "chan_reach 1 r" by (rule chan_reach_steps [OF chan_reach.start])
  with channel_fifo [OF this] show ?thesis by (auto simp: r_def)
qed

end
