(* ===== verification/Executor.thy ===== *)
theory Executor
  imports Channel "HOL-Library.Multiset"
begin

text \<open>
  Executors and timers (\<open>runtime/executor.h\<close>, \<open>executor.cpp\<close>, \<open>runtime/timer.h\<close>,
  \<open>timer.cpp\<close>), the stream and pool utilities (\<open>runtime/coro/utils.h\<close>), and the metadata that
  travels with a request (\<open>ContextRegistry\<close> and \<open>Context\<close> of \<open>pipeline/engine.h\<close>). Threads are
  interleavings of the operations under each mutex; functions are numbers, and running one is
  returning it. Clock readings are parameters.
\<close>

section \<open>The timer queue\<close>

record TimerQueue =
  entries :: "(nat \<times> nat \<times> nat) list"
  next_id :: nat
  stopping :: bool

definition timer_new :: TimerQueue where
  "timer_new = \<lparr>entries = [], next_id = 1, stopping = False\<rparr>"

text \<open>
  \<open>std::multimap::emplace\<close> puts an entry behind the entries with the same key.
\<close>

definition emplace :: "nat \<times> nat \<times> nat \<Rightarrow> (nat \<times> nat \<times> nat) list \<Rightarrow> (nat \<times> nat \<times> nat) list" where
  "emplace e es = takeWhile (\<lambda>x. fst x \<le> fst e) es @ e # dropWhile (\<lambda>x. fst x \<le> fst e) es"

definition schedule_at :: "nat \<Rightarrow> nat \<Rightarrow> TimerQueue \<Rightarrow> nat \<times> TimerQueue" where
  "schedule_at deadline fn q =
     (next_id q, q\<lparr>entries := emplace (deadline, next_id q, fn) (entries q), next_id := next_id q + 1\<rparr>)"

fun erase_id :: "nat \<Rightarrow> (nat \<times> nat \<times> nat) list \<Rightarrow> bool \<times> (nat \<times> nat \<times> nat) list" where
  "erase_id i [] = (False, [])"
| "erase_id i (e # es) =
     (if fst (snd e) = i then (True, es) else (let (b, es') = erase_id i es in (b, e # es')))"

definition timer_cancel :: "nat \<Rightarrow> TimerQueue \<Rightarrow> bool \<times> TimerQueue" where
  "timer_cancel i q = (let (b, es) = erase_id i (entries q) in (b, q\<lparr>entries := es\<rparr>))"

text \<open>One turn of the inner loop of \<open>run\<close>: the next due callback, taken out under the lock.\<close>

definition pop_due :: "nat \<Rightarrow> TimerQueue \<Rightarrow> (nat \<times> TimerQueue) option" where
  "pop_due now q =
     (case entries q of
        [] \<Rightarrow> None
      | e # es \<Rightarrow> if fst e \<le> now then Some (snd (snd e), q\<lparr>entries := es\<rparr>) else None)"

function fire_due :: "nat \<Rightarrow> TimerQueue \<Rightarrow> nat list \<times> TimerQueue" where
  "fire_due now q =
     (case pop_due now q of
        None \<Rightarrow> ([], q)
      | Some (fn, q') \<Rightarrow> (let (fns, q'') = fire_due now q' in (fn # fns, q'')))"
  by pat_completeness auto
termination
  by (relation "measure (\<lambda>(now, q). length (entries q))")
    (auto simp: pop_due_def split: list.splits if_splits)

declare fire_due.simps [simp del]

definition timer_ok :: "TimerQueue \<Rightarrow> bool" where
  "timer_ok q \<longleftrightarrow> sorted (map fst (entries q)) \<and> distinct (map (fst \<circ> snd) (entries q))
     \<and> (\<forall>e \<in> set (entries q). fst (snd e) < next_id q)"

lemma emplace_set [simp]: "set (emplace e es) = insert e (set es)"
  by (induction es) (auto simp: emplace_def)

lemma emplace_mset: "mset (emplace e es) = add_mset e (mset es)"
  by (induction es) (auto simp: emplace_def)

lemma emplace_sorted:
  assumes "sorted (map fst es)"
  shows "sorted (map fst (emplace e es))"
  using assms
proof (induction es)
  case (Cons x es)
  show ?case
  proof (cases "fst x \<le> fst e")
    case True
    then have "emplace e (x # es) = x # emplace e es" by (simp add: emplace_def)
    with Cons True show ?thesis by auto
  next
    case False
    with Cons show ?thesis by (auto simp: emplace_def)
  qed
qed (simp add: emplace_def)

lemma emplace_distinct:
  assumes "distinct (map f es)" "f e \<notin> f ` set es"
  shows "distinct (map f (emplace e es))"
proof -
  have "mset (map f (emplace e es)) = mset (map f (e # es))" by (simp add: emplace_mset)
  then have "distinct (map f (emplace e es)) = distinct (map f (e # es))" by (metis mset_eq_imp_distinct_iff)
  with assms show ?thesis by simp
qed

lemma erase_id_spec:
  "erase_id i es = (b, es') \<Longrightarrow> distinct (map (fst \<circ> snd) es) \<Longrightarrow>
   (b \<longleftrightarrow> i \<in> (fst \<circ> snd) ` set es) \<and> es' = filter (\<lambda>e. fst (snd e) \<noteq> i) es"
proof (induction es arbitrary: b es')
  case (Cons e es)
  show ?case
  proof (cases "fst (snd e) = i")
    case True
    with Cons.prems have "filter (\<lambda>e. fst (snd e) \<noteq> i) es = es" by (auto simp: filter_id_conv image_iff)
    with Cons.prems True show ?thesis by auto
  next
    case False
    obtain b1 es1 where "erase_id i es = (b1, es1)" by fastforce
    with Cons False show ?thesis by auto
  qed
qed simp

lemma timer_ok_preserved [inv_intros]:
  "timer_ok timer_new"
  "timer_ok q \<Longrightarrow> timer_ok (snd (schedule_at d f q))"
  "timer_ok q \<Longrightarrow> timer_ok (snd (timer_cancel i q))"
  "timer_ok q \<Longrightarrow> pop_due now q = Some (f, q') \<Longrightarrow> timer_ok q'"
proof -
  show "timer_ok timer_new" by (simp add: timer_ok_def timer_new_def)
  show "timer_ok (snd (schedule_at d f q))" if "timer_ok q"
    using that emplace_sorted [of "entries q" "(d, next_id q, f)"]
      emplace_distinct [of "fst \<circ> snd" "entries q" "(d, next_id q, f)"]
    by (fastforce simp: timer_ok_def schedule_at_def)
  show "timer_ok (snd (timer_cancel i q))" if ok: "timer_ok q"
  proof -
    obtain b es where e: "erase_id i (entries q) = (b, es)" by fastforce
    from erase_id_spec [OF e] ok have "es = filter (\<lambda>e. fst (snd e) \<noteq> i) (entries q)"
      by (simp add: timer_ok_def)
    with e ok show ?thesis
      by (auto simp: timer_cancel_def timer_ok_def sorted_filter intro: distinct_map_filter)
  qed
  show "timer_ok q'" if "timer_ok q" "pop_due now q = Some (f, q')"
    using that by (fastforce simp: timer_ok_def pop_due_def split: list.splits if_splits)
qed

text \<open>
  The due callbacks run in the order of their deadlines, and those with the same deadline in
  the order they were scheduled; the others stay.
\<close>

lemma fire_due_spec:
  "fire_due now q = (map (snd \<circ> snd) (takeWhile (\<lambda>e. fst e \<le> now) (entries q)),
     q\<lparr>entries := dropWhile (\<lambda>e. fst e \<le> now) (entries q)\<rparr>)"
proof (induction "entries q" arbitrary: q)
  case Nil
  then show ?case by (subst fire_due.simps) (simp add: pop_due_def Nil [symmetric])
next
  case (Cons e es)
  show ?case
  proof (cases "fst e \<le> now")
    case True
    from Cons(1) [of "q\<lparr>entries := es\<rparr>"] True show ?thesis
      by (subst fire_due.simps) (simp add: pop_due_def Cons(2) [symmetric])
  next
    case False
    then show ?thesis by (subst fire_due.simps) (simp add: pop_due_def Cons(2) [symmetric])
  qed
qed

lemma sorted_takeWhile_filter:
  "sorted (map fst es) \<Longrightarrow> takeWhile (\<lambda>e. fst e \<le> (now :: nat)) es = filter (\<lambda>e. fst e \<le> now) es"
proof (induction es)
  case (Cons e es)
  show ?case
  proof (cases "fst e \<le> now")
    case False
    with Cons.prems have "\<forall>x\<in>set es. \<not> fst x \<le> now" by fastforce
    with False show ?thesis by simp
  qed (use Cons in simp)
qed simp

lemma timer_fires_exactly_due:
  assumes "timer_ok q"
  shows "fst (fire_due now q) = map (snd \<circ> snd) (filter (\<lambda>e. fst e \<le> now) (entries q))"
  using assms by (simp add: fire_due_spec sorted_takeWhile_filter timer_ok_def)

text \<open>A cancelled entry does not fire, and cancelling reports whether it was pending.\<close>

lemma timer_cancel_spec:
  assumes "timer_ok q" "timer_cancel i q = (b, q')"
  shows "b \<longleftrightarrow> i \<in> (fst \<circ> snd) ` set (entries q)"
    and "entries q' = filter (\<lambda>e. fst (snd e) \<noteq> i) (entries q)"
proof -
  obtain b1 es where e: "erase_id i (entries q) = (b1, es)" by fastforce
  with assms erase_id_spec [OF e] show "b \<longleftrightarrow> i \<in> (fst \<circ> snd) ` set (entries q)"
    "entries q' = filter (\<lambda>e. fst (snd e) \<noteq> i) (entries q)"
    by (auto simp: timer_cancel_def timer_ok_def)
qed

section \<open>The thread pool\<close>

record ThreadPool =
  tasks :: "nat list"
  tp_stopping :: bool

definition pool_post :: "nat \<Rightarrow> ThreadPool \<Rightarrow> ThreadPool" where
  "pool_post fn p = (if tp_stopping p then p else p\<lparr>tasks := tasks p @ [fn]\<rparr>)"

definition pool_shutdown :: "ThreadPool \<Rightarrow> ThreadPool" where
  "pool_shutdown p = p\<lparr>tp_stopping := True\<rparr>"

text \<open>
  One turn of a worker: it waits, or leaves because the pool is stopping and drained, or runs
  the next task.
\<close>

definition pool_take :: "ThreadPool \<Rightarrow> (nat option \<times> ThreadPool) option" where
  "pool_take p =
     (case tasks p of
        [] \<Rightarrow> if tp_stopping p then Some (None, p) else None
      | fn # fns \<Rightarrow> Some (Some fn, p\<lparr>tasks := fns\<rparr>))"

text \<open>
  The pool is a queue in the sense of the channel's interface: posted tasks run in order, and
  shutting down lets the workers finish what was posted before.
\<close>

definition pool_offer :: "nat \<Rightarrow> ThreadPool \<Rightarrow> (bool \<times> ThreadPool) option" where
  "pool_offer fn p = Some (\<not> tp_stopping p, pool_post fn p)"

interpretation pool_fifo: fifo_channel "\<lambda>p. True" tasks tp_stopping pool_offer pool_take pool_shutdown
  by unfold_locales (auto simp: pool_offer_def pool_post_def pool_take_def pool_shutdown_def)

lemma pool_runs_all_posted:
  assumes "\<not> tp_stopping p" "offer_all pool_offer fns p = Some (b, p')"
    and "length (tasks p) + length fns < n"
  shows "\<exists>p''. drain pool_take n (pool_shutdown p') = Some (tasks p @ fns, p'')"
  using pool_fifo.produce_then_drain [OF TrueI assms] .

section \<open>Task tracking\<close>

definition tracker_add :: "nat \<Rightarrow> nat" where
  "tracker_add n = n + 1"

text \<open>\<open>remove\<close>: the new n, and whether the joiners are notified.\<close>

definition tracker_remove :: "nat \<Rightarrow> nat \<times> bool" where
  "tracker_remove n = (n - 1, n - 1 = 0)"

definition tracker_join_ready :: "nat \<Rightarrow> bool" where
  "tracker_join_ready n = (n = 0)"

lemma tracker_balance: "tracker_remove (tracker_add n) = (n, tracker_join_ready n)"
  by (simp add: tracker_remove_def tracker_add_def tracker_join_ready_def)

record TaskState =
  ts_error :: "exn option"
  ts_finished :: bool

definition task_complete :: "exn option \<Rightarrow> TaskState \<Rightarrow> TaskState" where
  "task_complete e s = s\<lparr>ts_error := e, ts_finished := True\<rparr>"

text \<open>Joining an absent task returns; a failed one rethrows; an unfinished one waits.\<close>

definition task_join :: "TaskState option \<Rightarrow> unit res option" where
  "task_join h =
     (case h of
        None \<Rightarrow> Some (Inr ())
      | Some s \<Rightarrow> if \<not> ts_finished s then None
                  else Some (case ts_error s of None \<Rightarrow> Inr () | Some e \<Rightarrow> Inl e))"

lemma task_join_complete:
  "task_join (Some (task_complete e s)) = Some (case e of None \<Rightarrow> Inr () | Some x \<Rightarrow> Inl x)"
  by (simp add: task_join_def task_complete_def)

section \<open>Streams with a deadline\<close>

text \<open>
  \<open>until_deadline\<close>: the clock is read before asking the source and after it answered; \<open>now n\<close>
  is the \<open>n\<close>-th reading.
\<close>

fun until_deadline :: "(nat \<Rightarrow> nat) \<Rightarrow> nat \<Rightarrow> nat \<Rightarrow> 'a list \<Rightarrow> 'a list" where
  "until_deadline now deadline n [] = []"
| "until_deadline now deadline n (x # xs) =
     (if now n < deadline
      then if deadline \<le> now (n + 1) then [] else x # until_deadline now deadline (n + 2) xs
      else [])"

lemma until_deadline_prefix: "prefix (until_deadline now deadline n xs) xs"
  by (induction xs arbitrary: n) auto

text \<open>With a monotone clock the items are those answered before the deadline.\<close>

lemma until_deadline_exact:
  assumes "mono now"
  shows "until_deadline now deadline n xs =
    take (length (takeWhile (\<lambda>i. now (n + 2 * i + 1) < deadline) [0..<length xs])) xs"
proof (induction xs arbitrary: n)
  case (Cons x xs)
  have up: "[0..<length (x # xs)] = 0 # map Suc [0..<length xs]"
    by (simp add: map_Suc_upt upt_conv_Cons del: upt_Suc)
  have idx: "(\<lambda>i. now (n + 2 * i + 1) < deadline) \<circ> Suc = (\<lambda>i. now (n + 2 + 2 * i + 1) < deadline)"
    by (simp add: fun_eq_iff)
  show ?case
  proof (cases "now (n + 1) < deadline")
    case True
    with assms have "now n < deadline" by (meson le_add1 le_less_trans monoD)
    with True Cons.IH [of "n + 2"] show ?thesis unfolding up
      by (simp add: takeWhile_map idx [simplified])
  next
    case False
    then show ?thesis unfolding up by simp
  qed
qed simp

section \<open>Object pools\<close>

record 'a Pool =
  idle :: "'a list"

definition pool_create :: "'a list \<Rightarrow> 'a Pool" where
  "pool_create initial = \<lparr>idle = initial\<rparr>"

definition try_acquire :: "'a Pool \<Rightarrow> 'a option \<times> 'a Pool" where
  "try_acquire p = (case idle p of [] \<Rightarrow> (None, p) | v # vs \<Rightarrow> (Some v, p\<lparr>idle := vs\<rparr>))"

definition put_back :: "('a \<Rightarrow> 'a) \<Rightarrow> 'a \<Rightarrow> 'a Pool \<Rightarrow> 'a Pool" where
  "put_back on_return v p = p\<lparr>idle := idle p @ [on_return v]\<rparr>"

text \<open>Held and idle items together stay the items of the pool, up to the reset on return.\<close>

lemma pool_conserves:
  "try_acquire p = (Some v, p') \<Longrightarrow> mset (idle p) = add_mset v (mset (idle p'))"
  "mset (idle (put_back f v p)) = add_mset (f v) (mset (idle p))"
  by (auto simp: try_acquire_def put_back_def split: list.splits)

section \<open>Request metadata\<close>

text \<open>An entry carries its value, the index of its type, and whether it may be taken.\<close>

record 'v RegistryEntry =
  en_value :: 'v
  en_type :: nat
  en_unique :: bool

type_synonym 'v ContextRegistry = "string \<Rightarrow> 'v RegistryEntry option"

definition insert_shared :: "string \<Rightarrow> nat \<Rightarrow> 'v \<Rightarrow> 'v ContextRegistry \<Rightarrow> 'v ContextRegistry" where
  "insert_shared key ty v r = r(key \<mapsto> \<lparr>en_value = v, en_type = ty, en_unique = False\<rparr>)"

definition insert_unique :: "string \<Rightarrow> nat \<Rightarrow> 'v \<Rightarrow> 'v ContextRegistry \<Rightarrow> 'v ContextRegistry" where
  "insert_unique key ty v r = r(key \<mapsto> \<lparr>en_value = v, en_type = ty, en_unique = True\<rparr>)"

definition reg_get :: "string \<Rightarrow> nat \<Rightarrow> 'v ContextRegistry \<Rightarrow> 'v option" where
  "reg_get key ty r =
     (case r key of None \<Rightarrow> None | Some e \<Rightarrow> if en_type e \<noteq> ty then None else Some (en_value e))"

definition take_unique :: "string \<Rightarrow> nat \<Rightarrow> 'v ContextRegistry \<Rightarrow> 'v option \<times> 'v ContextRegistry" where
  "take_unique key ty r =
     (case r key of
        None \<Rightarrow> (None, r)
      | Some e \<Rightarrow> if \<not> en_unique e \<or> en_type e \<noteq> ty then (None, r)
                  else (Some (en_value e), r(key := None)))"

text \<open>A unique entry is taken once; a shared one is read any number of times and never taken.\<close>

lemma take_unique_once:
  "take_unique key ty (insert_unique key ty v r) = (Some v, r(key := None))"
  "fst (take_unique key ty (snd (take_unique key ty (insert_unique key ty v r)))) = None"
  by (simp_all add: take_unique_def insert_unique_def)

lemma shared_not_taken:
  "take_unique key ty (insert_shared key ty v r) = (None, insert_shared key ty v r)"
  "reg_get key ty (insert_shared key ty v r) = Some v"
  by (simp_all add: take_unique_def insert_shared_def reg_get_def)

record ('p, 'v) Context =
  payload :: 'p
  controller :: nat
  registry :: "'v ContextRegistry option"
  stages :: "string list"

definition ctx_registry :: "('p, 'v) Context \<Rightarrow> 'v ContextRegistry \<times> ('p, 'v) Context" where
  "ctx_registry c =
     (case registry c of
        Some r \<Rightarrow> (r, c)
      | None \<Rightarrow> (Map.empty, c\<lparr>registry := Some Map.empty\<rparr>))"

definition add_stage :: "string \<Rightarrow> ('p, 'v) Context \<Rightarrow> ('p, 'v) Context" where
  "add_stage name c = c\<lparr>stages := stages c @ [name]\<rparr>"

definition transfer :: "'q \<Rightarrow> ('p, 'v) Context \<Rightarrow> 'p \<times> ('q, 'v) Context" where
  "transfer q c =
     (payload c, \<lparr>payload = q, controller = controller c, registry = registry c, stages = stages c\<rparr>)"

definition ctx_map :: "('p \<Rightarrow> 'q) \<Rightarrow> ('p, 'v) Context \<Rightarrow> ('q, 'v) Context" where
  "ctx_map f c =
     \<lparr>payload = f (payload c), controller = controller c, registry = registry c, stages = stages c\<rparr>"

lemma ctx_map_transfer: "ctx_map f c = snd (transfer (f (payload c)) c)"
  by (simp add: ctx_map_def transfer_def)

lemma ctx_map_comp: "ctx_map g (ctx_map f c) = ctx_map (g \<circ> f) c"
  by (simp add: ctx_map_def)

end
