(* ===== verification/DataPlane.thy ===== *)
theory DataPlane
  imports Codec Channel
begin

text \<open>
  The data plane (\<^verbatim>\<open>transports/data_plane.cpp\<close>, \<^verbatim>\<open>transports/wire.h\<close>) with its two users: the
  ingress of a worker (\<^verbatim>\<open>component/serve.h\<close>) and the response half of the client
  (\<^verbatim>\<open>component/client.h\<close>).  The requester registers a pending stream, the worker calls home and
  sends a prologue, data frames and a sentinel, and a relay loop moves the data into a bounded
  channel the client reads.  The conversion of the wire types to JSON and back is a parameter, a
  record of functions.  The lemmas show that arrivals never block, that the client receives a
  prefix of what the worker wrote, all of it when the stream finished, and what a whole remote
  call returns.
\<close>

section \<open>Wire types\<close>

datatype StreamKind = RequestStream | ResponseStream

record ConnectionInfo =
  ci_transport :: string
  ci_address :: string
  ci_subject :: string
  ci_context_id :: string
  ci_stream_type :: StreamKind

record CallHomeHandshake =
  hs_subject :: string
  hs_stream_type :: StreamKind

datatype ControlKind = StopFrame | KillFrame | Sentinel

record RequestControlMessage =
  rc_id :: string
  request_type :: string
  response_type :: string
  connection_info :: ConnectionInfo

text \<open>
  Dumping to and parsing from JSON text, by the JSON library; parsing fails with an exception.
  A prologue is its optional error; dumping one throws when the text is not valid UTF-8. The fields of
  a handshake come out of a parsed JSON message, and control frames are constants.
\<close>

record wire_json =
  dump_handshake :: "CallHomeHandshake \<Rightarrow> string"
  parse_handshake :: "string \<Rightarrow> CallHomeHandshake option"
  dump_prologue :: "string option \<Rightarrow> string + string"
  parse_prologue :: "string \<Rightarrow> string option option"
  dump_control :: "ControlKind \<Rightarrow> string"
  parse_control :: "string \<Rightarrow> ControlKind option"

text \<open>What the code relies on: what was dumped can be read back, and the text is not empty.\<close>

definition json_ok :: "('a \<Rightarrow> string) \<Rightarrow> (string \<Rightarrow> 'a option) \<Rightarrow> bool" where
  "json_ok dump parse \<longleftrightarrow> (\<forall>x. parse (dump x) = Some x \<and> dump x \<noteq> [])"

text \<open>The same for a dump that may throw: what it yields can be read back.\<close>

definition lossless :: "('a \<Rightarrow> string + string) \<Rightarrow> (string \<Rightarrow> 'a option) \<Rightarrow> bool" where
  "lossless dump parse \<longleftrightarrow> (\<forall>x t. dump x = Inr t \<longrightarrow> parse t = Some x \<and> t \<noteq> [])"

definition wire_json_ok :: "wire_json \<Rightarrow> bool" where
  "wire_json_ok j \<longleftrightarrow> json_ok (dump_handshake j) (parse_handshake j)
     \<and> lossless (dump_prologue j) (parse_prologue j) \<and> (\<exists>t. dump_prologue j None = Inr t)
     \<and> json_ok (dump_control j) (parse_control j)"

section \<open>Registration of pending streams\<close>

record Pending =
  pd_ctx :: string
  pd_fulfill :: nat
  recv_buffer_count :: nat

text \<open>Of the error and the stream of an arrival exactly one is present.\<close>

datatype StreamArrival = ArrivalError string | ArrivalStream

text \<open>
  The state of the server with what hangs on it: \<open>arrivals\<close> are the arrival channels by number,
  \<open>claimed\<close> the channels whose entry a connection has taken out of \<open>pending\<close> and not used yet,
  and \<open>timer\<close> says whether the client has armed its arrival timer and whether it is over.
\<close>

datatype timer_state = Unarmed | Armed | TimerOver

record DataPlane =
  dp_stopping :: bool
  pending :: "(string \<times> Pending) list"
  arrivals :: "nat \<Rightarrow> StreamArrival ChannelState"
  next_channel :: nat
  claimed :: "nat list"
  timer :: "nat \<Rightarrow> timer_state"

definition dp_new :: DataPlane where
  "dp_new = \<lparr>dp_stopping = False, pending = [], arrivals = (\<lambda>_. ch_new 2), next_channel = 0,
     claimed = [], timer = (\<lambda>_. Unarmed)\<rparr>"

definition upd_arrival ::
  "nat \<Rightarrow> (StreamArrival ChannelState \<Rightarrow> StreamArrival ChannelState) \<Rightarrow> DataPlane \<Rightarrow> DataPlane" where
  "upd_arrival i f d = d\<lparr>arrivals := (arrivals d)(i := f (arrivals d i))\<rparr>"

text \<open>
  \<open>register_response_stream\<close>: \<open>subj\<close> is the generated subject, \<open>addr\<close> the address of the listener.
  The channel has capacity two; the requester keeps a sender besides the one of the entry.
\<close>

definition register_response_stream ::
  "string \<Rightarrow> string \<Rightarrow> string \<Rightarrow> nat \<Rightarrow> DataPlane \<Rightarrow> (ConnectionInfo \<times> nat) \<times> DataPlane" where
  "register_response_stream subj addr ctx_id buffer d =
     (let i = next_channel d;
          info = \<lparr>ci_transport = ''tcp'', ci_address = addr, ci_subject = subj, ci_context_id = ctx_id,
                  ci_stream_type = ResponseStream\<rparr>;
          d1 = d\<lparr>next_channel := i + 1, arrivals := (arrivals d)(i := make_channel 2)\<rparr>
      in ((info, i),
          if \<not> dp_stopping d \<and> map_of (pending d) subj = None
          then upd_arrival i add_sender
                 (d1\<lparr>pending := (subj, \<lparr>pd_ctx = ctx_id, pd_fulfill = i, recv_buffer_count = buffer\<rparr>) # pending d\<rparr>)
          else d1))"

definition erase_pending :: "string \<Rightarrow> DataPlane \<Rightarrow> DataPlane" where
  "erase_pending subj d = d\<lparr>pending := filter (\<lambda>e. fst e \<noteq> subj) (pending d)\<rparr>"

text \<open>Erasing an entry destroys its sender.\<close>

definition deregister :: "string \<Rightarrow> DataPlane \<Rightarrow> DataPlane" where
  "deregister subj d =
     (case map_of (pending d) subj of
        None \<Rightarrow> d
      | Some p \<Rightarrow> upd_arrival (pd_fulfill p) (snd \<circ> release_sender) (erase_pending subj d))"

text \<open>Sending an arrival through a sender of the channel, when that does not block.\<close>

definition send_arrival :: "StreamArrival \<Rightarrow> nat \<Rightarrow> DataPlane \<Rightarrow> DataPlane option" where
  "send_arrival a i d = map_option (\<lambda>(_, s). d\<lparr>arrivals := (arrivals d)(i := s)\<rparr>) (ch_send a (arrivals d i))"

fun fail_pending :: "(string \<times> Pending) list \<Rightarrow> DataPlane \<Rightarrow> DataPlane option" where
  "fail_pending [] d = Some d"
| "fail_pending ((subj, p) # ps) d =
     Option.bind (send_arrival (ArrivalError ''data plane shutting down'') (pd_fulfill p) d) (fail_pending ps)"

definition release_all :: "(string \<times> Pending) list \<Rightarrow> DataPlane \<Rightarrow> DataPlane" where
  "release_all = fold (\<lambda>p. upd_arrival (pd_fulfill (snd p)) (snd \<circ> release_sender))"

text \<open>\<open>stop\<close>: fails the pending registrations and clears them; \<open>None\<close> when a send would block.\<close>

definition dp_stop :: "DataPlane \<Rightarrow> DataPlane option" where
  "dp_stop d =
     (if dp_stopping d then Some d
      else map_option
             (\<lambda>d1. release_all (pending d) (d1\<lparr>dp_stopping := True, pending := []\<rparr>))
             (fail_pending (pending d) d))"

section \<open>A connection of a worker\<close>

text \<open>
  The first frame: the handshake.  The connection takes the pending entry of the subject, or ends.
\<close>

definition claim_stream :: "wire_json \<Rightarrow> TwoPartMessage \<Rightarrow> DataPlane \<Rightarrow> Pending option \<times> DataPlane" where
  "claim_stream j frame d =
     (if \<not> has_header frame then (None, d)
      else case parse_handshake j (header frame) of
        None \<Rightarrow> (None, d)
      | Some hs \<Rightarrow>
          if hs_stream_type hs \<noteq> ResponseStream then (None, d)
          else case map_of (pending d) (hs_subject hs) of
            None \<Rightarrow> (None, d)
          | Some p \<Rightarrow> (Some p, (erase_pending (hs_subject hs) d)\<lparr>claimed := pd_fulfill p # claimed d\<rparr>))"

text \<open>The second frame: the prologue, and the arrival it leads to, if any.\<close>

definition open_stream :: "wire_json \<Rightarrow> TwoPartMessage \<Rightarrow> StreamArrival option" where
  "open_stream j frame =
     (if \<not> has_header frame then None
      else case parse_prologue j (header frame) of
        None \<Rightarrow> None
      | Some (Some e) \<Rightarrow> Some (ArrivalError e)
      | Some None \<Rightarrow> Some ArrivalStream)"

definition remove_claim :: "nat \<Rightarrow> DataPlane \<Rightarrow> DataPlane" where
  "remove_claim i d = d\<lparr>claimed := filter (\<lambda>k. k \<noteq> i) (claimed d)\<rparr>"

text \<open>
  The connection sends the arrival, or ends without one.  It gives up its sender, except when the
  stream is open: then the sender lives as long as the connection.
\<close>

definition release_fulfill :: "nat \<Rightarrow> DataPlane \<Rightarrow> DataPlane" where
  "release_fulfill i = upd_arrival i (snd \<circ> release_sender)"

definition conclude_claim :: "nat \<Rightarrow> StreamArrival option \<Rightarrow> DataPlane \<Rightarrow> DataPlane option" where
  "conclude_claim i a d =
     (case a of
        None \<Rightarrow> Some (release_fulfill i (remove_claim i d))
      | Some (ArrivalError e) \<Rightarrow>
          map_option (\<lambda>d1. release_fulfill i (remove_claim i d1)) (send_arrival (ArrivalError e) i d)
      | Some ArrivalStream \<Rightarrow> map_option (remove_claim i) (send_arrival ArrivalStream i d))"

text \<open>One frame of the relay loop: the end of the loop, data for the channel, or nothing.\<close>

datatype relay = RelayEnd | RelayData string | RelaySkip

definition relay_frame :: "wire_json \<Rightarrow> TwoPartMessage \<Rightarrow> relay" where
  "relay_frame j frame =
     (if has_header frame \<and> parse_control j (header frame) = None then RelayEnd
      else if has_header frame \<and> parse_control j (header frame) = Some Sentinel then RelayEnd
      else if has_data frame then RelayData (data frame)
      else RelaySkip)"

text \<open>
  The client in \<open>await_arrival\<close>: it arms a timer that holds a sender of its own, awaits the channel,
  cancels the timer and finally drops its handles.
\<close>

definition arm_timer :: "nat \<Rightarrow> DataPlane \<Rightarrow> DataPlane" where
  "arm_timer i d = upd_arrival i add_sender (d\<lparr>timer := (timer d)(i := Armed)\<rparr>)"

definition end_timer :: "nat \<Rightarrow> DataPlane \<Rightarrow> DataPlane" where
  "end_timer i d = upd_arrival i (snd \<circ> release_sender) (d\<lparr>timer := (timer d)(i := TimerOver)\<rparr>)"

definition fire_timer :: "nat \<Rightarrow> DataPlane \<Rightarrow> DataPlane option" where
  "fire_timer i d =
     map_option (end_timer i)
       (send_arrival (ArrivalError ''timed out waiting for the worker's call-home'') i d)"

definition recv_arrival :: "nat \<Rightarrow> DataPlane \<Rightarrow> StreamArrival delivery list \<times> DataPlane" where
  "recv_arrival i d = (let (ds, s) = recv 0 (arrivals d i) in (ds, d\<lparr>arrivals := (arrivals d)(i := s)\<rparr>))"

definition drop_registered :: "nat \<Rightarrow> DataPlane \<Rightarrow> DataPlane" where
  "drop_registered i = upd_arrival i (snd \<circ> release_receiver \<circ> snd \<circ> release_sender)"

section \<open>Arrivals never block\<close>

inductive dp_reach :: "DataPlane \<Rightarrow> bool" where
  dp_init: "dp_reach dp_new"
| dp_register: "dp_reach d \<Longrightarrow> dp_reach (snd (register_response_stream subj addr ctx buf d))"
| dp_deregister: "dp_reach d \<Longrightarrow> dp_reach (deregister subj d)"
| dp_claim: "dp_reach d \<Longrightarrow> dp_reach (snd (claim_stream j frame d))"
| dp_conclude: "dp_reach d \<Longrightarrow> i \<in> set (claimed d) \<Longrightarrow> conclude_claim i a d = Some d' \<Longrightarrow> dp_reach d'"
| dp_end_conn: "dp_reach d \<Longrightarrow> dp_reach (release_fulfill i d)"
| dp_arm: "dp_reach d \<Longrightarrow> i < next_channel d \<Longrightarrow> timer d i = Unarmed \<Longrightarrow> dp_reach (arm_timer i d)"
| dp_fire: "dp_reach d \<Longrightarrow> timer d i = Armed \<Longrightarrow> fire_timer i d = Some d' \<Longrightarrow> dp_reach d'"
| dp_cancel: "dp_reach d \<Longrightarrow> timer d i = Armed \<Longrightarrow> dp_reach (end_timer i d)"
| dp_recv: "dp_reach d \<Longrightarrow> dp_reach (snd (recv_arrival i d))"
| dp_drop: "dp_reach d \<Longrightarrow> dp_reach (drop_registered i d)"
| dp_shutdown: "dp_reach d \<Longrightarrow> dp_stop d = Some d' \<Longrightarrow> dp_reach d'"

text \<open>
  Who may still send on channel \<open>i\<close>: the holder of its entry, and its timer.  Together with what
  is queued they never exceed the capacity.
\<close>

definition holders :: "DataPlane \<Rightarrow> nat list" where
  "holders d = map (pd_fulfill \<circ> snd) (pending d) @ claimed d"

definition arrival_load :: "DataPlane \<Rightarrow> nat \<Rightarrow> nat" where
  "arrival_load d i = length (queue (arrivals d i)) + of_bool (i \<in> set (holders d))
     + of_bool (timer d i \<noteq> TimerOver)"

definition dp_ok :: "DataPlane \<Rightarrow> bool" where
  "dp_ok d \<longleftrightarrow> distinct (holders d) \<and> distinct (map fst (pending d))
     \<and> (\<forall>i \<in> set (holders d). i < next_channel d)
     \<and> (\<forall>i. capacity (arrivals d i) = 2 \<and> arrival_load d i \<le> 2)"

lemma ch_op_simps [simp]:
  "queue (snd (release_sender s)) = queue s" "queue (snd (release_receiver s)) = queue s"
  "queue (add_sender s) = queue s"
  "capacity (snd (release_sender s)) = capacity s" "capacity (snd (release_receiver s)) = capacity s"
  "capacity (add_sender s) = capacity s" "capacity (snd (recv h s)) = capacity s"
  "queue (make_channel n) = []" "capacity (make_channel n) = n" "queue (ch_new n) = []"
  "capacity (ch_new n) = n"
  by (simp_all add: release_sender_def release_receiver_def ch_close_def add_sender_def recv_def
      make_channel_def add_receiver_def ch_new_def Let_def split: list.split)

lemma recv_queue: "length (queue (snd (recv h s))) \<le> length (queue s)"
  by (simp add: recv_def split: list.split)

lemma ch_send_bound:
  "ch_send v s = Some ((b, ds), s') \<Longrightarrow> capacity s' = capacity s \<and> length (queue s') \<le> length (queue s) + 1"
  by (auto simp: chan_defs split: list.splits if_splits)

lemma send_arrival_Some:
  assumes "send_arrival a i d = Some d'"
  obtains s where "d' = d\<lparr>arrivals := (arrivals d)(i := s)\<rparr>" "capacity s = capacity (arrivals d i)"
    "length (queue s) \<le> length (queue (arrivals d i)) + 1"
proof -
  obtain b ds s where "ch_send a (arrivals d i) = Some ((b, ds), s)" "d' = d\<lparr>arrivals := (arrivals d)(i := s)\<rparr>"
    using assms by (auto simp: send_arrival_def)
  then show thesis using ch_send_bound [of a "arrivals d i" b ds s] that by blast
qed

lemma send_arrival_ready:
  "length (queue (arrivals d i)) < capacity (arrivals d i) \<Longrightarrow> \<exists>d'. send_arrival a i d = Some d'"
  by (auto simp: send_arrival_def ch_send_def push_ready_def)

lemma dp_okD:
  assumes "dp_ok d"
  shows "distinct (holders d)" "distinct (map fst (pending d))"
    "i \<in> set (holders d) \<Longrightarrow> i < next_channel d" "capacity (arrivals d i) = 2" "arrival_load d i \<le> 2"
  using assms unfolding dp_ok_def by blast+

text \<open>Operations that only take senders, timers, entries and queued arrivals away.\<close>

lemma dp_ok_shrink:
  assumes "dp_ok d" "distinct (holders d')" "distinct (map fst (pending d'))"
    and "set (holders d') \<subseteq> set (holders d)" "next_channel d' = next_channel d"
    and "\<And>i. capacity (arrivals d' i) = capacity (arrivals d i)"
    and "\<And>i. arrival_load d' i \<le> arrival_load d i"
  shows "dp_ok d'"
  unfolding dp_ok_def
proof (intro conjI ballI allI)
  fix i
  show "capacity (arrivals d' i) = 2" using assms(6) dp_okD(4) [OF assms(1)] by simp
  show "arrival_load d' i \<le> 2" using assms(7) [of i] dp_okD(5) [OF assms(1), of i] by simp
next
  fix i assume "i \<in> set (holders d')"
  then have "i \<in> set (holders d)" using assms(4) by blast
  then show "i < next_channel d'" using assms(5) dp_okD(3) [OF assms(1)] by simp
qed (use assms(2,3) in simp_all)

lemma holders_simps [simp]:
  "holders (upd_arrival i f d) = holders d"
  "holders (d\<lparr>arrivals := A\<rparr>) = holders d"
  "holders (d\<lparr>timer := T\<rparr>) = holders d"
  "holders (d\<lparr>next_channel := n\<rparr>) = holders d"
  "holders (d\<lparr>dp_stopping := b\<rparr>) = holders d"
  by (simp_all add: holders_def upd_arrival_def)

lemma upd_arrival_simps [simp]:
  "pending (upd_arrival i f d) = pending d" "timer (upd_arrival i f d) = timer d"
  "next_channel (upd_arrival i f d) = next_channel d" "claimed (upd_arrival i f d) = claimed d"
  "arrivals (upd_arrival i f d) = (arrivals d)(i := f (arrivals d i))"
  by (simp_all add: upd_arrival_def)

lemma dp_ok_upd [simp]:
  assumes "\<And>s. queue (f s) = queue s" "\<And>s. capacity (f s) = capacity s"
  shows "dp_ok (upd_arrival i f d) = dp_ok d"
proof -
  have "arrival_load (upd_arrival i f d) = arrival_load d"
    by (simp add: arrival_load_def assms fun_eq_iff)
  moreover have "capacity (arrivals (upd_arrival i f d) k) = capacity (arrivals d k)" for k
    by (simp add: assms)
  ultimately show ?thesis by (simp add: dp_ok_def)
qed

lemma dp_ok_erase:
  assumes "dp_ok d"
  shows "dp_ok (erase_pending subj d)"
proof (rule dp_ok_shrink [OF assms])
  let ?d = "erase_pending subj d"
  show sub: "set (holders ?d) \<subseteq> set (holders d)" by (auto simp: holders_def erase_pending_def)
  show "distinct (holders ?d)" "distinct (map fst (pending ?d))"
    using dp_okD(1,2) [OF assms] by (auto simp: holders_def erase_pending_def distinct_map_filter)
  show "arrival_load ?d i \<le> arrival_load d i" for i
    using sub by (auto simp: arrival_load_def erase_pending_def of_bool_def)
qed (simp_all add: erase_pending_def)

text \<open>A sender that is used up: \<open>r\<close> drops the right to send of which there was one on the channel.\<close>

lemma dp_ok_send:
  assumes "dp_ok d" "send_arrival a i d = Some d1" "i \<in> set (holders d)"
    and "holders d' = filter (\<lambda>k. k \<noteq> i) (holders d)" "distinct (map fst (pending d'))"
    and "next_channel d' = next_channel d" "timer d' = timer d" "arrivals d' = arrivals d1"
  shows "dp_ok d'"
proof -
  obtain s where s: "d1 = d\<lparr>arrivals := (arrivals d)(i := s)\<rparr>" "capacity s = capacity (arrivals d i)"
    "length (queue s) \<le> length (queue (arrivals d i)) + 1"
    using send_arrival_Some [OF assms(2)] by blast
  show ?thesis
  proof (rule dp_ok_shrink [OF assms(1)])
    show "arrival_load d' k \<le> arrival_load d k" for k
      using s assms(3,4,7,8) by (auto simp: arrival_load_def of_bool_def)
  qed (use s assms dp_okD(1) [OF assms(1)] in auto)
qed

lemma claim_ok:
  assumes "dp_ok d"
  shows "dp_ok (snd (claim_stream j frame d))"
proof (cases "snd (claim_stream j frame d) = d")
  case False
  then obtain subj p where p: "map_of (pending d) subj = Some p"
    "snd (claim_stream j frame d) = (erase_pending subj d)\<lparr>claimed := pd_fulfill p # claimed d\<rparr>"
    by (auto simp: claim_stream_def split: if_splits option.splits)
  let ?d = "snd (claim_stream j frame d)"
  have mem: "(subj, p) \<in> set (pending d)" using p(1) by (rule map_of_SomeD)
  have hs: "holders ?d = map (pd_fulfill \<circ> snd) (filter (\<lambda>e. fst e \<noteq> subj) (pending d)) @ pd_fulfill p # claimed d"
    by (simp add: p(2) holders_def erase_pending_def)
  have other: "pd_fulfill q \<noteq> pd_fulfill p" if "(t, q) \<in> set (pending d)" "t \<noteq> subj" for t q
    using dp_okD(1) [OF assms] mem that by (force simp: holders_def distinct_map inj_on_def)
  show ?thesis
  proof (rule dp_ok_shrink [OF assms])
    show sub: "set (holders ?d) \<subseteq> set (holders d)" using mem unfolding hs by (force simp: holders_def)
    show "distinct (holders ?d)"
      using dp_okD(1) [OF assms] other mem unfolding hs
      by (force simp: holders_def distinct_map_filter)
    show "distinct (map fst (pending ?d))"
      using dp_okD(2) [OF assms] by (simp add: p(2) erase_pending_def distinct_map_filter)
    show "arrival_load ?d i \<le> arrival_load d i" for i
      using sub by (auto simp: arrival_load_def p(2) erase_pending_def of_bool_def)
  qed (simp_all add: p(2) erase_pending_def)
qed (use assms in simp)

lemma holder_ready:
  assumes "dp_ok d" "i \<in> set (holders d)"
  shows "length (queue (arrivals d i)) < capacity (arrivals d i)"
  using dp_okD(4,5) [OF assms(1), of i] assms(2) by (simp add: arrival_load_def)

lemma timer_ready:
  assumes "dp_ok d" "timer d i = Armed"
  shows "length (queue (arrivals d i)) < capacity (arrivals d i)"
  using dp_okD(4,5) [OF assms(1), of i] assms(2) by (simp add: arrival_load_def)

lemma register_ok:
  assumes "dp_ok d" "\<forall>i \<ge> next_channel d. timer d i = Unarmed"
  shows "dp_ok (snd (register_response_stream subj addr ctx buf d))"
proof -
  let ?i = "next_channel d"
  let ?p = "\<lparr>pd_ctx = ctx, pd_fulfill = ?i, recv_buffer_count = buf\<rparr>"
  have new: "?i \<notin> set (holders d)" using dp_okD(3) [OF assms(1)] by blast
  let ?d1 = "d\<lparr>next_channel := ?i + 1, arrivals := (arrivals d)(?i := make_channel 2)\<rparr>"
  have lt: "i < ?i + 1" if "i \<in> set (holders d)" for i using dp_okD(3) [OF assms(1) that] by simp
  have load: "arrival_load ?d1 i \<le> 2" for i
    using dp_okD(5) [OF assms(1), of i] new by (cases "i = ?i") (simp_all add: arrival_load_def)
  have ok1: "dp_ok ?d1"
    using dp_okD(1,2,4) [OF assms(1)] lt load by (simp add: dp_ok_def)
  let ?d2 = "?d1\<lparr>pending := (subj, ?p) # pending d\<rparr>"
  have hs: "holders ?d2 = ?i # holders d" by (simp add: holders_def)
  have "dp_ok ?d2" if "map_of (pending d) subj = None"
    unfolding dp_ok_def hs
  proof (intro conjI ballI allI)
    show "distinct (?i # holders d)" using dp_okD(1) [OF assms(1)] new by simp
    show "distinct (map fst (pending ?d2))"
      using dp_okD(2) [OF assms(1)] that by (simp add: map_of_eq_None_iff)
    show "capacity (arrivals ?d2 i) = 2" for i using dp_okD(4) [OF assms(1), of i] by simp
    show "arrival_load ?d2 i \<le> 2" for i
      using dp_okD(5) [OF assms(1), of i] hs by (cases "i = ?i") (simp_all add: arrival_load_def)
    show "i < next_channel ?d2" if "i \<in> set (?i # holders d)" for i using lt that by auto
  qed
  with ok1 show ?thesis by (simp add: register_response_stream_def Let_def)
qed

lemma deregister_ok: "dp_ok d \<Longrightarrow> dp_ok (deregister subj d)"
  by (simp add: deregister_def dp_ok_erase split: option.split)

lemma dp_ok_timer:
  assumes "dp_ok d" "t = TimerOver \<or> timer d i \<noteq> TimerOver"
  shows "dp_ok (d\<lparr>timer := (timer d)(i := t)\<rparr>)"
proof (rule dp_ok_shrink [OF assms(1)])
  show "arrival_load (d\<lparr>timer := (timer d)(i := t)\<rparr>) k \<le> arrival_load d k" for k
    using assms(2) by (auto simp: arrival_load_def of_bool_def)
qed (use dp_okD(1,2) [OF assms(1)] in simp_all)

lemma recv_ok:
  assumes "dp_ok d"
  shows "dp_ok (snd (recv_arrival i d))"
proof (rule dp_ok_shrink [OF assms])
  show "arrival_load (snd (recv_arrival i d)) k \<le> arrival_load d k" for k
    using recv_queue [of 0 "arrivals d i"]
    by (simp add: arrival_load_def recv_arrival_def case_prod_unfold Let_def)
qed (use dp_okD(1,2) [OF assms] in \<open>simp_all add: recv_arrival_def case_prod_unfold Let_def\<close>)

lemma fire_ok:
  assumes "dp_ok d" "timer d i = Armed" "fire_timer i d = Some d'"
  shows "dp_ok d'"
proof -
  obtain d1 where d1: "send_arrival (ArrivalError ''timed out waiting for the worker's call-home'') i d = Some d1"
    "d' = end_timer i d1"
    using assms(3) by (auto simp: fire_timer_def)
  obtain s where s: "d1 = d\<lparr>arrivals := (arrivals d)(i := s)\<rparr>" "capacity s = capacity (arrivals d i)"
    "length (queue s) \<le> length (queue (arrivals d i)) + 1"
    using send_arrival_Some [OF d1(1)] by blast
  have "dp_ok (d1\<lparr>timer := (timer d1)(i := TimerOver)\<rparr>)"
  proof (rule dp_ok_shrink [OF assms(1)])
    show "arrival_load (d1\<lparr>timer := (timer d1)(i := TimerOver)\<rparr>) k \<le> arrival_load d k" for k
      using s assms(2) by (simp add: arrival_load_def)
  qed (use s dp_okD(1,2) [OF assms(1)] in simp_all)
  then show ?thesis by (simp add: d1(2) end_timer_def)
qed

lemma conclude_ok:
  assumes "dp_ok d" "i \<in> set (claimed d)" "conclude_claim i a d = Some d'"
  shows "dp_ok d'"
proof -
  have i: "i \<in> set (holders d)" using assms(2) by (simp add: holders_def)
  have "i \<notin> pd_fulfill ` snd ` set (pending d)"
    using dp_okD(1) [OF assms(1)] assms(2) by (auto simp: holders_def image_comp)
  then have "filter (\<lambda>k. k \<noteq> i) (map (pd_fulfill \<circ> snd) (pending d)) = map (pd_fulfill \<circ> snd) (pending d)"
    by (intro filter_True) auto
  then have hs: "holders (remove_claim i e) = filter (\<lambda>k. k \<noteq> i) (holders d)"
    if "pending e = pending d" "claimed e = claimed d" for e
    using that by (simp add: holders_def remove_claim_def)
  have sent: "dp_ok (remove_claim i e)" if e: "send_arrival b i d = Some e" for b e
  proof -
    obtain s where s: "e = d\<lparr>arrivals := (arrivals d)(i := s)\<rparr>" using send_arrival_Some [OF e] by blast
    show ?thesis
      by (rule dp_ok_send [OF assms(1) e i]) (use s hs dp_okD(2) [OF assms(1)] in \<open>simp_all add: remove_claim_def\<close>)
  qed
  have none: "dp_ok (remove_claim i d)"
  proof (rule dp_ok_shrink [OF assms(1)])
    show "arrival_load (remove_claim i d) k \<le> arrival_load d k" for k
      using hs [of d] by (auto simp: arrival_load_def remove_claim_def of_bool_def)
  qed (use hs [of d] dp_okD(1,2) [OF assms(1)] in \<open>auto simp: remove_claim_def\<close>)
  show ?thesis
    using assms(3) sent none
    by (auto simp: conclude_claim_def release_fulfill_def split: option.splits StreamArrival.splits)
qed

lemma fail_pending_run:
  assumes "distinct (map (pd_fulfill \<circ> snd) ps)"
    and "\<And>p. p \<in> set ps \<Longrightarrow> length (queue (arrivals d (pd_fulfill (snd p)))) < capacity (arrivals d (pd_fulfill (snd p)))"
  shows "\<exists>A. fail_pending ps d = Some (d\<lparr>arrivals := A\<rparr>) \<and> (\<forall>i. capacity (A i) = capacity (arrivals d i)
     \<and> length (queue (A i)) \<le> length (queue (arrivals d i)) + of_bool (i \<in> (pd_fulfill \<circ> snd) ` set ps))"
  using assms
proof (induction ps arbitrary: d)
  case Nil
  show ?case by (intro exI [of _ "arrivals d"]) simp
next
  case (Cons e ps)
  obtain subj p where e: "e = (subj, p)" by (cases e)
  let ?i = "pd_fulfill p"
  obtain d1 where d1: "send_arrival (ArrivalError ''data plane shutting down'') ?i d = Some d1"
    using send_arrival_ready [of d ?i] Cons.prems(2) [of e] e by auto
  obtain s where s: "d1 = d\<lparr>arrivals := (arrivals d)(?i := s)\<rparr>" "capacity s = capacity (arrivals d ?i)"
    "length (queue s) \<le> length (queue (arrivals d ?i)) + 1"
    using send_arrival_Some [OF d1] by blast
  have new: "?i \<notin> (pd_fulfill \<circ> snd) ` set ps" using Cons.prems(1) e by simp
  have "\<exists>A. fail_pending ps d1 = Some (d1\<lparr>arrivals := A\<rparr>) \<and> (\<forall>i. capacity (A i) = capacity (arrivals d1 i)
     \<and> length (queue (A i)) \<le> length (queue (arrivals d1 i)) + of_bool (i \<in> (pd_fulfill \<circ> snd) ` set ps))"
  proof (rule Cons.IH)
    show "distinct (map (pd_fulfill \<circ> snd) ps)" using Cons.prems(1) by (simp add: comp_def)
    fix q assume q: "q \<in> set ps"
    then have "pd_fulfill (snd q) \<noteq> ?i" using new by force
    then show "length (queue (arrivals d1 (pd_fulfill (snd q)))) < capacity (arrivals d1 (pd_fulfill (snd q)))"
      using Cons.prems(2) [of q] q s(1) by simp
  qed
  then obtain A where A: "fail_pending ps d1 = Some (d1\<lparr>arrivals := A\<rparr>)"
    "\<And>i. capacity (A i) = capacity (arrivals d1 i)"
    "\<And>i. length (queue (A i)) \<le> length (queue (arrivals d1 i)) + of_bool (i \<in> (pd_fulfill \<circ> snd) ` set ps)"
    by blast
  have "capacity (A i) = capacity (arrivals d i) \<and> length (queue (A i))
      \<le> length (queue (arrivals d i)) + of_bool (i \<in> (pd_fulfill \<circ> snd) ` set (e # ps))" for i
    using A(2,3) [of i] s new e by (cases "i = ?i") simp_all
  then show ?case using A(1) d1 s(1) e by (intro exI [of _ A]) simp
qed

lemma stop_runs:
  assumes "dp_ok d" "\<not> dp_stopping d"
  shows "\<exists>d'. dp_stop d = Some d' \<and> dp_ok d' \<and> timer d' = timer d \<and> next_channel d' = next_channel d"
proof -
  have hd: "distinct (map (pd_fulfill \<circ> snd) (pending d))"
    using dp_okD(1) [OF assms(1)] by (simp add: holders_def)
  have "length (queue (arrivals d (pd_fulfill (snd p)))) < capacity (arrivals d (pd_fulfill (snd p)))"
    if "p \<in> set (pending d)" for p
    using holder_ready [OF assms(1)] that by (simp add: holders_def)
  from fail_pending_run [OF hd this] obtain A where A: "fail_pending (pending d) d = Some (d\<lparr>arrivals := A\<rparr>)"
    "\<And>i. capacity (A i) = capacity (arrivals d i)"
    "\<And>i. length (queue (A i)) \<le> length (queue (arrivals d i)) + of_bool (i \<in> (pd_fulfill \<circ> snd) ` set (pending d))"
    by blast
  let ?e = "d\<lparr>arrivals := A, dp_stopping := True, pending := []\<rparr>"
  have "i \<notin> set (claimed d)" if "i \<in> (pd_fulfill \<circ> snd) ` set (pending d)" for i
    using dp_okD(1) [OF assms(1)] that by (auto simp: holders_def)
  then have load: "arrival_load ?e i \<le> arrival_load d i" for i
    using A(3) [of i] by (auto simp: arrival_load_def holders_def of_bool_def split: if_splits)
  have ok: "dp_ok ?e"
  proof (rule dp_ok_shrink [OF assms(1)])
    show "distinct (holders ?e)" using dp_okD(1) [OF assms(1)] by (simp add: holders_def)
    show "set (holders ?e) \<subseteq> set (holders d)" by (simp add: holders_def)
  qed (simp_all add: load A(2))
  have "dp_ok (release_all ps e) = dp_ok e \<and> timer (release_all ps e) = timer e
      \<and> next_channel (release_all ps e) = next_channel e" for ps e
    unfolding release_all_def by (induction ps arbitrary: e) simp_all
  then show ?thesis using A(1) assms(2) ok by (simp add: dp_stop_def)
qed

lemma next_channel_simps [simp]:
  "next_channel (deregister subj d) = next_channel d" "timer (deregister subj d) = timer d"
  "next_channel (snd (claim_stream j frame d)) = next_channel d"
  "timer (snd (claim_stream j frame d)) = timer d"
  "next_channel (snd (recv_arrival i d)) = next_channel d" "timer (snd (recv_arrival i d)) = timer d"
  "next_channel (remove_claim i d) = next_channel d" "timer (remove_claim i d) = timer d"
  "next_channel (snd (register_response_stream subj addr ctx buf d)) = next_channel d + 1"
  "timer (snd (register_response_stream subj addr ctx buf d)) = timer d"
  by (simp_all add: deregister_def erase_pending_def claim_stream_def recv_arrival_def remove_claim_def
      register_response_stream_def Let_def case_prod_unfold split: option.split)

lemma send_arrival_frame:
  "send_arrival a i d = Some d' \<Longrightarrow> next_channel d' = next_channel d \<and> timer d' = timer d"
  by (erule send_arrival_Some) simp

lemma conclude_frame:
  "conclude_claim i a d = Some d' \<Longrightarrow> next_channel d' = next_channel d \<and> timer d' = timer d"
  by (auto simp: conclude_claim_def release_fulfill_def dest!: send_arrival_frame
      split: option.splits StreamArrival.splits)

lemma fire_frame:
  "fire_timer i d = Some d' \<Longrightarrow> next_channel d' = next_channel d \<and> timer d' = (timer d)(i := TimerOver)"
  by (auto simp: fire_timer_def end_timer_def dest!: send_arrival_frame)

lemma dp_reach_ok: "dp_reach d \<Longrightarrow> dp_ok d \<and> (\<forall>i \<ge> next_channel d. timer d i = Unarmed)"
proof (induction rule: dp_reach.induct)
  case dp_init
  show ?case by (simp add: dp_ok_def dp_new_def holders_def arrival_load_def)
next
  case (dp_register d subj addr ctx buf)
  then show ?case using register_ok by simp
next
  case (dp_conclude d i a d')
  then show ?case using conclude_ok [of d i a d'] conclude_frame [of i a d d'] by simp
next
  case (dp_arm d i)
  then show ?case by (auto simp: arm_timer_def intro: dp_ok_timer)
next
  case (dp_fire d i d')
  then have "i < next_channel d" by (metis not_le timer_state.distinct(1))
  with dp_fire show ?case using fire_ok [of d i d'] fire_frame [of i d d'] by simp
next
  case (dp_cancel d i)
  then have "i < next_channel d" by (metis not_le timer_state.distinct(1))
  with dp_cancel show ?case by (simp add: end_timer_def dp_ok_timer)
next
  case (dp_shutdown d d')
  show ?case
  proof (cases "dp_stopping d")
    case False
    then show ?thesis using stop_runs [of d] dp_shutdown by auto
  qed (use dp_shutdown in \<open>simp add: dp_stop_def\<close>)
qed (simp_all add: deregister_ok claim_ok release_fulfill_def recv_ok drop_registered_def)

text \<open>No thread of the server or of the timer ever blocks on an arrival channel.\<close>

lemma arrivals_never_block:
  assumes "dp_reach d"
  shows "i \<in> set (claimed d) \<Longrightarrow> \<exists>d'. conclude_claim i a d = Some d'"
    and "timer d i = Armed \<Longrightarrow> \<exists>d'. fire_timer i d = Some d'"
    and "\<exists>d'. dp_stop d = Some d'"
proof -
  note ok = dp_reach_ok [OF assms, THEN conjunct1]
  show "\<exists>d'. conclude_claim i a d = Some d'" if "i \<in> set (claimed d)"
  proof -
    have "\<exists>d'. send_arrival b i d = Some d'" for b
      using send_arrival_ready [OF holder_ready [OF ok]] that by (simp add: holders_def)
    then show ?thesis by (auto simp: conclude_claim_def split: option.split StreamArrival.split)
  qed
  show "\<exists>d'. fire_timer i d = Some d'" if "timer d i = Armed"
    using send_arrival_ready [OF timer_ready [OF ok that]] by (auto simp: fire_timer_def)
  show "\<exists>d'. dp_stop d = Some d'"
    using stop_runs [OF ok] by (cases "dp_stopping d") (auto simp: dp_stop_def)
qed

text \<open>
  A connection that ends before the prologue does not end the wait of the requester: the channel
  stays open through the sender the requester holds, and a receiver parks.
\<close>

lemma lost_claim_keeps_waiting:
  assumes "arrivals d i = add_sender (make_channel 2)"
  shows "\<exists>d'. conclude_claim i None d = Some d' \<and> fst (recv_arrival i d') = []"
  using assms
  by (simp add: conclude_claim_def release_fulfill_def remove_claim_def recv_arrival_def release_sender_def
      add_sender_def make_channel_def add_receiver_def ch_new_def recv_def Let_def)

section \<open>The relay loop\<close>

text \<open>
  One open stream.  \<open>inflight\<close> are the frames the worker has written and the connection has not
  read, \<open>written\<close> all frames the worker has written after its prologue, \<open>link\<close> is the channel to
  the client with its history, and \<open>outcome\<close> says how the relay loop ended.
\<close>

datatype relay_end = Finished | ConnLost | ConsumerGone

record stream_run =
  inflight :: "TwoPartMessage list"
  written :: "TwoPartMessage list"
  link :: "string chan_run"
  to_worker :: "ControlKind list"
  outcome :: "relay_end option"

definition stream_new :: "nat \<Rightarrow> stream_run" where
  "stream_new cap = \<lparr>inflight = [], written = [],
     link = \<lparr>chan = make_channel cap, accepted = [], receipts = []\<rparr>, to_worker = [], outcome = None\<rparr>"

text \<open>The loop ends and destroys its sender.\<close>

definition end_relay :: "relay_end \<Rightarrow> stream_run \<Rightarrow> stream_run option" where
  "end_relay why r = map_option (\<lambda>l. r\<lparr>link := l, outcome := Some why\<rparr>) (chan_step DropSender (link r))"

text \<open>
  One iteration: it is not enabled while there is no frame or the channel is full.  When the client
  has dropped its receiver, the worker is told to stop.
\<close>

definition relay_step :: "wire_json \<Rightarrow> stream_run \<Rightarrow> stream_run option" where
  "relay_step j r =
     (if outcome r \<noteq> None then None
      else case inflight r of
        [] \<Rightarrow> None
      | frame # rest \<Rightarrow>
          (let r1 = r\<lparr>inflight := rest\<rparr> in
           case relay_frame j frame of
             RelayEnd \<Rightarrow> end_relay Finished r1
           | RelaySkip \<Rightarrow> Some r1
           | RelayData b \<Rightarrow>
               (case chan_step (Send b) (link r) of
                  None \<Rightarrow> None
                | Some l \<Rightarrow>
                    if closed (chan (link r))
                    then end_relay ConsumerGone (r1\<lparr>link := l, to_worker := to_worker r @ [KillFrame]\<rparr>)
                    else Some (r1\<lparr>link := l\<rparr>))))"

inductive stream_reach :: "wire_json \<Rightarrow> nat \<Rightarrow> stream_run \<Rightarrow> bool" for j cap where
  st_open: "stream_reach j cap (stream_new cap)"
| st_write: "stream_reach j cap r \<Longrightarrow>
    stream_reach j cap (r\<lparr>inflight := inflight r @ [f], written := written r @ [f]\<rparr>)"
| st_relay: "stream_reach j cap r \<Longrightarrow> relay_step j r = Some r' \<Longrightarrow> stream_reach j cap r'"
| st_lost: "stream_reach j cap r \<Longrightarrow> outcome r = None \<Longrightarrow> end_relay ConnLost r = Some r' \<Longrightarrow>
    stream_reach j cap r'"
| st_signal: "stream_reach j cap r \<Longrightarrow> stream_reach j cap (r\<lparr>to_worker := to_worker r @ [k]\<rparr>)"
| st_recv: "stream_reach j cap r \<Longrightarrow> opn \<in> {Recv h, SyncRecv, DropReceiver} \<Longrightarrow>
    chan_step opn (link r) = Some l \<Longrightarrow> stream_reach j cap (r\<lparr>link := l\<rparr>)"

text \<open>The data of a sequence of frames, up to the one that ends the loop.\<close>

fun payloads :: "wire_json \<Rightarrow> TwoPartMessage list \<Rightarrow> string list" where
  "payloads j [] = []"
| "payloads j (f # fs) =
     (case relay_frame j f of
        RelayEnd \<Rightarrow> []
      | RelayData b \<Rightarrow> b # payloads j fs
      | RelaySkip \<Rightarrow> payloads j fs)"

definition no_end :: "wire_json \<Rightarrow> TwoPartMessage list \<Rightarrow> bool" where
  "no_end j fs \<longleftrightarrow> (\<forall>f \<in> set fs. relay_frame j f \<noteq> RelayEnd)"

lemma payloads_append: "no_end j fs \<Longrightarrow> payloads j (fs @ gs) = payloads j fs @ payloads j gs"
  by (induction fs) (auto simp: no_end_def split: relay.split)

lemma payloads_prefix: "prefix (payloads j fs) (payloads j (fs @ gs))"
  by (induction fs) (auto split: relay.split)

lemma payloads_ended: "\<not> no_end j fs \<Longrightarrow> payloads j (fs @ gs) = payloads j fs"
  by (induction fs) (auto simp: no_end_def split: relay.split)

text \<open>What has been accepted by the channel, of the frames \<open>gone\<close> that the loop has read.\<close>

fun relayed :: "wire_json \<Rightarrow> relay_end option \<Rightarrow> TwoPartMessage list \<Rightarrow> TwoPartMessage list \<Rightarrow> string chan_run \<Rightarrow> bool" where
  "relayed j None gone fs l \<longleftrightarrow> no_end j gone \<and> accepted l = payloads j gone \<and> 0 < senders (chan l)"
| "relayed j (Some Finished) gone fs l \<longleftrightarrow> \<not> no_end j fs \<and> accepted l = payloads j fs"
| "relayed j (Some ConnLost) gone fs l \<longleftrightarrow> prefix (accepted l) (payloads j fs)"
| "relayed j (Some ConsumerGone) gone fs l \<longleftrightarrow> prefix (accepted l) (payloads j fs)"

definition stream_ok :: "wire_json \<Rightarrow> stream_run \<Rightarrow> bool" where
  "stream_ok j r \<longleftrightarrow> chan_ok (link r)
     \<and> (\<exists>gone. written r = gone @ inflight r \<and> relayed j (outcome r) gone (written r) (link r))"

lemma relayed_write: "relayed j w gone fs l \<Longrightarrow> relayed j w gone (fs @ [f]) l"
  using payloads_prefix [of j fs "[f]"] payloads_ended [of j fs "[f]"]
  by (cases "(j, w, gone, fs, l)" rule: relayed.cases)
    (auto simp: no_end_def intro: prefix_order.trans)

lemma relayed_prefix: "relayed j w gone (gone @ rest) l \<Longrightarrow> prefix (accepted l) (payloads j (gone @ rest))"
  using payloads_prefix [of j gone rest]
  by (cases "(j, w, gone, gone @ rest, l)" rule: relayed.cases) auto

lemma relayed_cong:
  "relayed j w gone fs l \<Longrightarrow> accepted l' = accepted l \<Longrightarrow> senders (chan l') = senders (chan l) \<Longrightarrow>
     relayed j w gone fs l'"
  by (cases "(j, w, gone, fs, l)" rule: relayed.cases) auto

lemma chan_step_frame:
  assumes "chan_step opn l = Some l'"
  shows "opn \<in> {Recv h, SyncRecv, DropReceiver, DropSender} \<Longrightarrow> accepted l' = accepted l"
    and "opn \<in> {Recv h, SyncRecv, DropReceiver, Send v} \<Longrightarrow> senders (chan l') = senders (chan l)"
    and "opn = Send v \<Longrightarrow> accepted l' = accepted l @ (if closed (chan l) then [] else [v])"
  using assms
  by (auto simp: chan_step_def chan_defs Let_def split: list.splits option.splits if_splits)

lemma end_relay_Some:
  assumes "end_relay why r = Some r'"
  obtains l where "chan_step DropSender (link r) = Some l" "r' = r\<lparr>link := l, outcome := Some why\<rparr>"
    "accepted l = accepted (link r)"
  using assms chan_step_frame(1) [of DropSender "link r"] by (auto simp: end_relay_def)

lemma stream_ok_relay:
  assumes "stream_ok j r" "relay_step j r = Some r'"
  shows "stream_ok j r'"
proof -
  obtain gone where ok: "chan_ok (link r)" and w: "written r = gone @ inflight r"
    and rel: "relayed j (outcome r) gone (written r) (link r)"
    using assms(1) unfolding stream_ok_def by blast
  obtain f rest where f: "inflight r = f # rest" and out: "outcome r = None"
    using assms(2) by (auto simp: relay_step_def split: if_splits list.splits)
  have acc: "no_end j gone" "accepted (link r) = payloads j gone" "0 < senders (chan (link r))"
    using rel out by simp_all
  have w': "written r = (gone @ [f]) @ rest" using w f by simp
  show ?thesis
  proof (cases "relay_frame j f")
    case RelayEnd
    then have "end_relay Finished (r\<lparr>inflight := rest\<rparr>) = Some r'"
      using assms(2) f out by (simp add: relay_step_def Let_def)
    then obtain l where l: "chan_step DropSender (link r) = Some l" "accepted l = accepted (link r)"
      "r' = r\<lparr>inflight := rest, link := l, outcome := Some Finished\<rparr>"
      by (auto elim: end_relay_Some)
    have "\<not> no_end j (written r)" using w' RelayEnd by (auto simp: no_end_def)
    moreover have "payloads j (written r) = payloads j gone"
      using payloads_append [OF acc(1), of "f # rest"] w f RelayEnd by simp
    ultimately show ?thesis
      using l w' acc(2) chan_step_ok [OF l(1) ok] by (auto simp: stream_ok_def)
  next
    case RelaySkip
    then have "r' = r\<lparr>inflight := rest\<rparr>" using assms(2) f out by (simp add: relay_step_def Let_def)
    moreover have "relayed j None (gone @ [f]) (written r) (link r)"
      using acc RelaySkip payloads_append [OF acc(1), of "[f]"] by (auto simp: no_end_def)
    ultimately show ?thesis using w' ok out by (auto simp: stream_ok_def)
  next
    case (RelayData b)
    then obtain l where l: "chan_step (Send b) (link r) = Some l"
      using assms(2) f out by (auto simp: relay_step_def Let_def split: option.splits)
    note frame = chan_step_frame(2) [OF l, of _ b] chan_step_frame(3) [OF l refl]
    show ?thesis
    proof (cases "closed (chan (link r))")
      case True
      then have "end_relay ConsumerGone (r\<lparr>inflight := rest, link := l, to_worker := to_worker r @ [KillFrame]\<rparr>) = Some r'"
        using assms(2) f out l RelayData by (simp add: relay_step_def Let_def)
      then obtain l' where l': "chan_step DropSender l = Some l'" "accepted l' = accepted l"
        "r' = r\<lparr>inflight := rest, link := l', to_worker := to_worker r @ [KillFrame], outcome := Some ConsumerGone\<rparr>"
        by (auto elim: end_relay_Some)
      have "prefix (accepted l') (payloads j (written r))"
        using l'(2) frame(2) True acc(2) payloads_prefix [of j gone "inflight r"] w by simp
      then show ?thesis
        using l' w' chan_step_ok [OF l'(1) chan_step_ok [OF l ok]] by (auto simp: stream_ok_def)
    next
      case False
      then have "r' = r\<lparr>inflight := rest, link := l\<rparr>"
        using assms(2) f out l RelayData by (simp add: relay_step_def Let_def)
      moreover have "relayed j None (gone @ [f]) (written r) l"
        using acc RelayData False frame payloads_append [OF acc(1), of "[f]"] by (auto simp: no_end_def)
      ultimately show ?thesis using w' chan_step_ok [OF l ok] out by (auto simp: stream_ok_def)
    qed
  qed
qed

lemma stream_reach_ok: "stream_reach j cap r \<Longrightarrow> stream_ok j r \<and> capacity (chan (link r)) = cap"
proof (induction rule: stream_reach.induct)
  case st_open
  show ?case
    by (simp add: stream_ok_def stream_new_def no_end_def chan_ok_def make_channel_def ch_new_def chan_defs)
next
  case (st_write r f)
  then show ?case using relayed_write by (fastforce simp: stream_ok_def)
next
  case (st_relay r r')
  then have "capacity (chan (link r')) = capacity (chan (link r))"
    by (auto simp: relay_step_def Let_def elim!: end_relay_Some dest!: chan_step_capacity
        split: if_splits list.splits relay.splits option.splits)
  then show ?case using st_relay stream_ok_relay [of j r r'] by simp
next
  case (st_lost r r')
  obtain gone where ok: "chan_ok (link r)" and w: "written r = gone @ inflight r"
    and rel: "relayed j (outcome r) gone (written r) (link r)"
    using st_lost.IH unfolding stream_ok_def by blast
  obtain l where l: "chan_step DropSender (link r) = Some l" "accepted l = accepted (link r)"
    "r' = r\<lparr>link := l, outcome := Some ConnLost\<rparr>"
    using st_lost.hyps(3) by (rule end_relay_Some)
  have "prefix (accepted l) (payloads j (written r))"
    using relayed_prefix [of j "outcome r" gone "inflight r" "link r"] rel w l(2) by simp
  then show ?case
    using l w chan_step_ok [OF l(1) ok] chan_step_capacity [OF l(1)] st_lost.IH by (auto simp: stream_ok_def)
next
  case (st_signal r k)
  then show ?case by (simp add: stream_ok_def)
next
  case (st_recv r opn h l)
  have "accepted l = accepted (link r)" "senders (chan l) = senders (chan (link r))"
    using chan_step_frame(1,2) [OF st_recv.hyps(3), of h] st_recv.hyps(2) by auto
  then show ?case
    using st_recv.IH relayed_cong chan_step_ok [OF st_recv.hyps(3)] chan_step_capacity [OF st_recv.hyps(3)]
    by (auto simp: stream_ok_def)
qed

text \<open>The stream does not deadlock: either the loop can move on, or the client has something to read.\<close>

lemma relay_progress:
  assumes "stream_reach j cap r" "0 < cap" "outcome r = None" "inflight r \<noteq> []"
  shows "(\<exists>r'. relay_step j r = Some r') \<or> (\<exists>l. chan_step SyncRecv (link r) = Some l)"
proof -
  obtain gone where rel: "relayed j None gone (written r) (link r)"
    using stream_reach_ok [OF assms(1)] assms(3) by (auto simp: stream_ok_def)
  have cap: "capacity (chan (link r)) = cap" using stream_reach_ok [OF assms(1)] by simp
  obtain f rest where f: "inflight r = f # rest" using assms(4) by (cases "inflight r") auto
  have drop: "\<exists>l'. chan_step DropSender l = Some l'" if "0 < senders (chan l)" for l :: "string chan_run"
    using that by (auto simp: chan_step_def Let_def split: prod.split)
  show ?thesis
  proof (cases "relay_frame j f")
    case (RelayData b)
    show ?thesis
    proof (cases "chan_step (Send b) (link r)")
      case None
      then have "\<not> push_ready (chan (link r))" by (auto simp: chan_step_def ch_send_def split: if_splits prod.splits)
      then have "queue (chan (link r)) \<noteq> []" using cap assms(2) by (auto simp: push_ready_def)
      then show ?thesis by (auto simp: chan_step_def sync_recv_def neq_Nil_conv)
    next
      case (Some l)
      then have "\<exists>l'. chan_step DropSender l = Some l'"
        using drop [of l] chan_step_frame(2) [OF Some, of _ b] rel by simp
      then show ?thesis using Some RelayData f assms(3) by (auto simp: relay_step_def end_relay_def Let_def)
    qed
  next
    case RelayEnd
    then show ?thesis using drop [of "link r"] rel f assms(3) by (auto simp: relay_step_def end_relay_def Let_def)
  next
    case RelaySkip
    then show ?thesis using f assms(3) by (simp add: relay_step_def Let_def)
  qed
qed

section \<open>Properties\<close>

text \<open>C27.  Under any interleaving of the worker writing frames, the relay loop, lost connections,
  signals and the client reading or dropping its stream, the client has received a prefix of the
  data frames the worker wrote before its sentinel, in order; at most the configured number of
  frames is buffered; the client is told that the stream ended only after it received everything
  that was accepted for it; and when the loop ended with the sentinel it has then received every
  data frame.\<close>

theorem response_stream_delivery:
  assumes "stream_reach j cap r"
  shows "prefix (values_of (receipts (link r))) (payloads j (written r))
    \<and> length (queue (chan (link r))) \<le> cap
    \<and> (None \<in> set (receipts (link r)) \<longrightarrow> values_of (receipts (link r)) = accepted (link r))
    \<and> (None \<in> set (receipts (link r)) \<and> outcome r = Some Finished
         \<longrightarrow> values_of (receipts (link r)) = payloads j (written r))"
proof -
  obtain gone where ok: "chan_ok (link r)" and w: "written r = gone @ inflight r"
    and rel: "relayed j (outcome r) gone (written r) (link r)"
    using stream_reach_ok [OF assms] unfolding stream_ok_def by blast
  have "prefix (accepted (link r)) (payloads j (written r))"
    using relayed_prefix [of j "outcome r" gone "inflight r" "link r"] rel w by simp
  moreover have "prefix (values_of (receipts (link r))) (accepted (link r))"
    using ok by (auto simp: chan_ok_def)
  ultimately have "prefix (values_of (receipts (link r))) (payloads j (written r))"
    by (rule prefix_order.trans [rotated])
  moreover have "length (queue (chan (link r))) \<le> cap"
    using ok stream_reach_ok [OF assms] by (auto simp: chan_ok_def)
  moreover have "values_of (receipts (link r)) = accepted (link r)" if "None \<in> set (receipts (link r))"
    using ok that by (simp add: chan_ok_def)
  moreover have "accepted (link r) = payloads j (written r)" if "outcome r = Some Finished"
    using rel that by simp
  ultimately show ?thesis by simp
qed

definition demo_json :: wire_json where
  "demo_json = \<lparr>
     dump_handshake = (\<lambda>h. (case hs_stream_type h of ResponseStream \<Rightarrow> CHR ''r'' | RequestStream \<Rightarrow> CHR ''q'') # hs_subject h),
     parse_handshake = (\<lambda>s. case s of [] \<Rightarrow> None
        | c # t \<Rightarrow> Some \<lparr>hs_subject = t, hs_stream_type = (if c = CHR ''r'' then ResponseStream else RequestStream)\<rparr>),
     dump_prologue = (\<lambda>p. case p of None \<Rightarrow> Inr ''n''
        | Some e \<Rightarrow> if list_all (\<lambda>c. of_char c < (128 :: nat)) e then Inr (CHR ''e'' # e) else Inl ''invalid UTF-8''),
     parse_prologue = (\<lambda>s. case s of [] \<Rightarrow> None | c # t \<Rightarrow> Some (if c = CHR ''e'' then Some t else None)),
     dump_control = (\<lambda>k. case k of StopFrame \<Rightarrow> ''s'' | KillFrame \<Rightarrow> ''k'' | Sentinel \<Rightarrow> ''z''),
     parse_control = (\<lambda>s. if s = ''s'' then Some StopFrame else if s = ''k'' then Some KillFrame
        else if s = ''z'' then Some Sentinel else None)\<rparr>"

lemma demo_json_ok: "wire_json_ok demo_json"
  by (auto simp: wire_json_ok_def json_ok_def lossless_def demo_json_def CallHomeHandshake.equality
      split: StreamKind.split option.splits ControlKind.split if_splits)

text \<open>A stream of two data frames and the sentinel through a channel that buffers one.\<close>

lemma demo_run:
  "\<exists>r. stream_reach demo_json 1 r \<and> written r = [from_data ''a'', from_data ''b'', from_header ''z'']
     \<and> receipts (link r) = [Some ''a'', Some ''b'', None] \<and> outcome r = Some Finished"
proof -
  define w where "w = (\<lambda>f (r :: stream_run). r\<lparr>inflight := inflight r @ [f], written := written r @ [f]\<rparr>)"
  define r1 where "r1 = w (from_header ''z'') (w (from_data ''b'') (w (from_data ''a'') (stream_new 1)))"
  define rcv where "rcv = (\<lambda>r :: stream_run. r\<lparr>link := the (chan_step SyncRecv (link r))\<rparr>)"
  define r2 where "r2 = rcv (the (relay_step demo_json r1))"
  define r3 where "r3 = rcv (the (relay_step demo_json r2))"
  define r4 where "r4 = rcv (the (relay_step demo_json r3))"
  note defs = r1_def r2_def r3_def r4_def w_def rcv_def stream_new_def relay_step_def relay_frame_def
    from_data_def from_header_def has_header_def has_data_def demo_json_def end_relay_def chan_step_def
    chan_defs make_channel_def ch_new_def Let_def
  have 1: "stream_reach demo_json 1 r1" unfolding r1_def w_def by (intro st_write st_open)
  have rc: "stream_reach demo_json 1 (rcv (the (relay_step demo_json r)))"
    if a: "stream_reach demo_json 1 r" "relay_step demo_json r \<noteq> None"
      "chan_step SyncRecv (link (the (relay_step demo_json r))) \<noteq> None" for r
  proof -
    obtain y l where y: "relay_step demo_json r = Some y" "chan_step SyncRecv (link y) = Some l"
      using a(2,3) by auto
    show ?thesis using st_recv [OF st_relay [OF a(1) y(1)] _ y(2)] y by (simp add: rcv_def)
  qed
  have 2: "stream_reach demo_json 1 r2" unfolding r2_def by (rule rc [OF 1]) (simp_all add: defs)
  have 3: "stream_reach demo_json 1 r3" unfolding r3_def by (rule rc [OF 2]) (simp_all add: defs)
  have 4: "stream_reach demo_json 1 r4" unfolding r4_def by (rule rc [OF 3]) (simp_all add: defs)
  have "written r4 = [from_data ''a'', from_data ''b'', from_header ''z'']
     \<and> receipts (link r4) = [Some ''a'', Some ''b'', None] \<and> outcome r4 = Some Finished"
    by (simp add: defs)
  with 4 show ?thesis by blast
qed

theorem response_stream_delivery_witness:
  "\<exists>r. stream_reach demo_json 1 r \<and> None \<in> set (receipts (link r)) \<and> outcome r = Some Finished
     \<and> values_of (receipts (link r)) = payloads demo_json [from_data ''a'', from_data ''b'', from_header ''z'']"
proof -
  obtain r where "stream_reach demo_json 1 r" "written r = [from_data ''a'', from_data ''b'', from_header ''z'']"
    "receipts (link r) = [Some ''a'', Some ''b'', None]" "outcome r = Some Finished"
    using demo_run by blast
  with response_stream_delivery [OF this(1)] show ?thesis by (intro exI [of _ r]) auto
qed

end
