(* ===== verification/Ingress.thy ===== *)
theory Ingress
  imports DataPlane
begin

text \<open>
  The two ends of a response stream: the sender and the request handler of a worker
  (\<open>StreamSender\<close> in \<^verbatim>\<open>transports/data_plane.cpp\<close>, \<open>EngineIngress\<close> in \<^verbatim>\<open>component/serve.h\<close>) and the
  calls of a client (\<^verbatim>\<open>component/client.h\<close>).  Engines, the parsing of requests and the conversion of
  items to and from JSON, which may throw, are parameters.  The properties compose them with the relay of the data
  plane: what a remote call returns, on success and on every error path.
\<close>

section \<open>The sender of a worker\<close>

text \<open>
  The socket of a \<open>StreamSender\<close> accepts frames until it breaks: \<open>ss_limit\<close> is the number of
  frames it accepts, if it ever breaks.
\<close>

record StreamSender =
  ss_out :: "TwoPartMessage list"
  ss_limit :: "nat option"
  prologue_sent :: bool
  ss_finished :: bool

definition ss_write :: "TwoPartMessage \<Rightarrow> StreamSender \<Rightarrow> bool \<times> StreamSender" where
  "ss_write f s =
     (if (case ss_limit s of None \<Rightarrow> True | Some n \<Rightarrow> length (ss_out s) < n)
      then (True, s\<lparr>ss_out := ss_out s @ [f]\<rparr>) else (False, s))"

text \<open>
  \<open>connect\<close>: \<open>reachable k\<close> tells whether attempt \<open>k\<close> to reach the address succeeds, \<open>authed\<close>
  whether the authentication frame could be sent.
\<close>

definition ss_connect ::
  "wire_json \<Rightarrow> string \<Rightarrow> ConnectionInfo \<Rightarrow> (nat \<Rightarrow> bool) \<Rightarrow> bool \<Rightarrow> nat option \<Rightarrow> StreamSender option" where
  "ss_connect j ctx_id info reachable authed limit =
     (if ci_transport info \<noteq> ''tcp'' \<or> ci_stream_type info \<noteq> ResponseStream then None
      else if ci_context_id info \<noteq> ctx_id then None
      else if \<not> list_ex reachable [0..<3] then None
      else if \<not> authed then None
      else let (ok, s) = ss_write (from_header (dump_handshake j
                 \<lparr>hs_subject = ci_subject info, hs_stream_type = ResponseStream\<rparr>))
                 \<lparr>ss_out = [], ss_limit = limit, prologue_sent = False, ss_finished = False\<rparr>
           in if ok then Some s else None)"

text \<open>The prologue counts as sent before its text is produced, which may throw.\<close>

definition send_prologue :: "wire_json \<Rightarrow> string option \<Rightarrow> StreamSender \<Rightarrow> (string + bool) \<times> StreamSender" where
  "send_prologue j err s =
     (let s1 = s\<lparr>prologue_sent := True\<rparr> in
      case dump_prologue j err of
        Inl e \<Rightarrow> (Inl e, s1)
      | Inr t \<Rightarrow> (let (ok, s2) = ss_write (from_header t) s1 in (Inr ok, s2)))"

definition ss_send :: "string \<Rightarrow> StreamSender \<Rightarrow> bool \<times> StreamSender" where
  "ss_send bytes s = ss_write (from_data bytes) s"

definition ss_finish :: "wire_json \<Rightarrow> StreamSender \<Rightarrow> StreamSender" where
  "ss_finish j s =
     (if ss_finished s then s
      else snd (ss_write (from_header (dump_control j Sentinel)) (s\<lparr>ss_finished := True\<rparr>)))"

text \<open>The reader thread: the signals it raises for the frames that arrive from the requester.\<close>

datatype signal = SignalStop | SignalKill

fun reader_signals :: "wire_json \<Rightarrow> TwoPartMessage list \<Rightarrow> signal list" where
  "reader_signals j [] = []"
| "reader_signals j (f # fs) =
     (if \<not> has_header f then reader_signals j fs
      else case parse_control j (header f) of
        None \<Rightarrow> []
      | Some StopFrame \<Rightarrow> SignalStop # reader_signals j fs
      | Some KillFrame \<Rightarrow> SignalKill # reader_signals j fs
      | Some Sentinel \<Rightarrow> reader_signals j fs)"

fun as_signal :: "ControlKind \<Rightarrow> signal option" where
  "as_signal StopFrame = Some SignalStop"
| "as_signal KillFrame = Some SignalKill"
| "as_signal Sentinel = None"

lemma reader_relays_signals:
  assumes "wire_json_ok j"
  shows "reader_signals j (map (from_header \<circ> dump_control j) ks) = List.map_filter as_signal ks"
proof (induction ks)
  case (Cons k ks)
  have "parse_control j (dump_control j k) = Some k" "dump_control j k \<noteq> []"
    using assms by (simp_all add: wire_json_ok_def json_ok_def)
  with Cons show ?case
    by (cases k) (simp_all add: from_header_def has_header_def List.map_filter_simps)
qed (simp add: List.map_filter_simps)

section \<open>The ingress of a worker\<close>

record Stats =
  requests :: u64
  errors :: u64
  inflight_count :: u64

text \<open>
  A stream of the engine: its items, each with the kill flag as it is seen when the item arrives,
  and the exception it ends with, if any.
\<close>

record 'r engine_stream =
  items :: "('r \<times> bool) list"
  raises :: "string option"

text \<open>
  The pump: whether it asked the engine to stop, the exception that ended the stream, and the
  sender.  With \<open>unary\<close> the first item is the last; an item that cannot be dumped ends the stream
  with an exception.
\<close>

fun pump :: "('r \<Rightarrow> string + string) \<Rightarrow> bool \<Rightarrow> ('r \<times> bool) list \<Rightarrow> string option \<Rightarrow> StreamSender
    \<Rightarrow> (bool \<times> string option) \<times> StreamSender" where
  "pump dump unary [] raised s = ((False, raised), s)"
| "pump dump unary ((x, killed) # xs) raised s =
     (if killed then ((False, None), s)
      else case dump x of
        Inl e \<Rightarrow> ((False, Some e), s)
      | Inr bytes \<Rightarrow>
          (let (ok, s1) = ss_send bytes s
           in if \<not> ok then ((True, None), s1)
              else if unary then ((True, None), s1)
              else pump dump unary xs raised s1))"

definition quote :: string where
  "quote = [CHR 0x27]"

text \<open>
  \<open>handle\<close> once the requester is reached: the exception that leaves it, whether the error counter
  was advanced, and the sender.  The destructor of the sender finishes the stream on every path.
\<close>

definition handle_connected ::
  "wire_json \<Rightarrow> (string \<Rightarrow> string + 'q) \<Rightarrow> ('r \<Rightarrow> string + string) \<Rightarrow> ('q \<Rightarrow> string + 'r engine_stream)
     \<Rightarrow> RequestControlMessage \<Rightarrow> string \<Rightarrow> StreamSender \<Rightarrow> (string option \<times> bool) \<times> StreamSender" where
  "handle_connected j parse dump engine control payload s =
     (let refuse = (\<lambda>msg. case send_prologue j (Some msg) s of
                       (Inl e, s1) \<Rightarrow> ((Some e, True), ss_finish j s1)
                     | (Inr _, s1) \<Rightarrow> ((None, True), ss_finish j s1)) in
      if request_type control \<noteq> ''single_in''
      then refuse (''request_type '' @ quote @ request_type control @ quote @ '' is not supported (single_in only)'')
      else case parse payload of
        Inl e \<Rightarrow> refuse (''invalid request payload: '' @ e)
      | Inr q \<Rightarrow>
          (case engine q of
             Inl e \<Rightarrow> refuse e
           | Inr stream \<Rightarrow>
               (case send_prologue j None s of
                  (Inl e, s1) \<Rightarrow> ((Some e, False), ss_finish j s1)
                | (Inr _, s1) \<Rightarrow>
                    (let ((stop, raised), s2) = pump dump (response_type control = ''single_out'')
                                                  (items stream) (raises stream) s1
                     in ((raised, False), ss_finish j s2)))))"

text \<open>\<open>handle\<close>; the guard counts the request in and out on every path.\<close>

definition ingress_handle ::
  "wire_json \<Rightarrow> (string \<Rightarrow> string + 'q) \<Rightarrow> ('r \<Rightarrow> string + string) \<Rightarrow> ('q \<Rightarrow> string + 'r engine_stream)
     \<Rightarrow> RequestControlMessage \<Rightarrow> string \<Rightarrow> StreamSender option \<Rightarrow> Stats
     \<Rightarrow> (string option \<times> StreamSender option) \<times> Stats" where
  "ingress_handle j parse dump engine control payload conn st =
     (let st1 = st\<lparr>requests := requests st + 1, inflight_count := inflight_count st + 1\<rparr>;
          leave = (\<lambda>st. st\<lparr>inflight_count := inflight_count st - 1\<rparr>)
      in case conn of
        None \<Rightarrow> ((None, None), leave (st1\<lparr>errors := errors st1 + 1\<rparr>))
      | Some s \<Rightarrow>
          (let ((raised, err), s1) = handle_connected j parse dump engine control payload s
           in ((raised, Some s1), leave (if err then st1\<lparr>errors := errors st1 + 1\<rparr> else st1))))"

section \<open>The client\<close>

text \<open>
  The first half of \<open>call\<close>: the return path is registered, then the request is dispatched;
  \<open>dispatch\<close> is the exception of that, if any.  \<open>queue\<close> dispatches through the work queue and takes
  the registration back when that fails.
\<close>

definition client_call ::
  "string \<Rightarrow> string \<Rightarrow> string \<Rightarrow> nat \<Rightarrow> (ConnectionInfo \<Rightarrow> exn option) \<Rightarrow> DataPlane
     \<Rightarrow> (ConnectionInfo \<times> nat) res \<times> DataPlane" where
  "client_call subj addr ctx_id buffer dispatch d =
     (let ((info, i), d1) = register_response_stream subj addr ctx_id buffer d
      in case dispatch info of
           Some e \<Rightarrow> (Inl e, drop_registered i d1)
         | None \<Rightarrow> (Inr (info, i), d1))"

definition client_queue ::
  "string \<Rightarrow> string \<Rightarrow> string \<Rightarrow> nat \<Rightarrow> (ConnectionInfo \<Rightarrow> exn option) \<Rightarrow> DataPlane
     \<Rightarrow> (ConnectionInfo \<times> nat) res \<times> DataPlane" where
  "client_queue subj addr ctx_id buffer dispatch d =
     (let ((info, i), d1) = register_response_stream subj addr ctx_id buffer d
      in case dispatch info of
           Some e \<Rightarrow> (Inl e, drop_registered i (deregister subj d1))
         | None \<Rightarrow> (Inr (info, i), d1))"

text \<open>The second half, \<open>await_arrival\<close>, when the arrival channel has delivered \<open>a\<close>.\<close>

definition await_arrival :: "string \<Rightarrow> nat \<Rightarrow> StreamArrival option \<Rightarrow> DataPlane \<Rightarrow> unit res \<times> DataPlane" where
  "await_arrival subj i a d =
     (let d1 = (if timer d i = Armed then end_timer i d else d) in
      case a of
        None \<Rightarrow> (Inl (RuntimeError ''data plane shut down while awaiting response stream''), d1)
      | Some (ArrivalError e) \<Rightarrow> (Inl (RuntimeError (''remote generate failed: '' @ e)), deregister subj d1)
      | Some ArrivalStream \<Rightarrow> (Inr (), d1))"

text \<open>
  \<open>typed_stream\<close> over the bytes received: undecodable items are dropped.  The request is killed when
  the consumer leaves before the end.
\<close>

definition typed_stream :: "(string \<Rightarrow> 'r option) \<Rightarrow> string list \<Rightarrow> 'r list" where
  "typed_stream parse bs = List.map_filter parse bs"

definition abandon_kills :: "string option list \<Rightarrow> bool" where
  "abandon_kills rs \<longleftrightarrow> None \<notin> set rs"

definition unary_result :: "'r list \<Rightarrow> 'r res" where
  "unary_result rs = (case rs of [] \<Rightarrow> Inl (RuntimeError ''unary call produced no response'') | x # _ \<Rightarrow> Inr x)"

lemma register_pending:
  assumes "\<not> dp_stopping d" "map_of (pending d) subj = None"
    and "register_response_stream subj addr ctx buf d = ((info, i), d1)"
  shows "map_of (pending d1) subj = Some \<lparr>pd_ctx = ctx, pd_fulfill = i, recv_buffer_count = buf\<rparr>"
    and "erase_pending subj d1 = d1\<lparr>pending := pending d\<rparr>"
    and "ci_subject info = subj" "ci_transport info = ''tcp''" "ci_stream_type info = ResponseStream"
    "ci_context_id info = ctx"
proof -
  have "filter (\<lambda>e. fst e \<noteq> subj) (pending d) = pending d"
    using assms(2) by (auto simp: filter_id_conv map_of_eq_None_iff)
  then show "erase_pending subj d1 = d1\<lparr>pending := pending d\<rparr>"
    using assms by (auto simp: register_response_stream_def Let_def erase_pending_def)
qed (use assms in \<open>auto simp: register_response_stream_def Let_def\<close>)

text \<open>
  A failed dispatch: \<open>queue\<close> leaves the table of pending streams as it was, \<open>call\<close> leaves its entry
  behind.
\<close>

lemma failed_dispatch:
  assumes "\<not> dp_stopping d" "map_of (pending d) subj = None" "\<And>info. dispatch info = Some e"
  shows "pending (snd (client_queue subj addr ctx buf dispatch d)) = pending d"
    and "map_of (pending (snd (client_call subj addr ctx buf dispatch d))) subj \<noteq> None"
proof -
  obtain info i d1 where reg: "register_response_stream subj addr ctx buf d = ((info, i), d1)"
    by (metis prod.exhaust)
  note p = register_pending [OF assms(1,2) reg]
  show "pending (snd (client_queue subj addr ctx buf dispatch d)) = pending d"
    using p(1,2) reg assms(3) by (simp add: client_queue_def drop_registered_def deregister_def)
  show "map_of (pending (snd (client_call subj addr ctx buf dispatch d))) subj \<noteq> None"
    using p(1) reg assms(3) by (simp add: client_call_def drop_registered_def)
qed

section \<open>What the worker writes\<close>

lemma ss_write_open:
  "ss_limit s = None \<Longrightarrow> ss_write f s = (True, s\<lparr>ss_out := ss_out s @ [f]\<rparr>)"
  by (simp add: ss_write_def)

text \<open>
  The items that are sent when nobody kills the request: all, or the first, up to one that cannot be
  dumped.
\<close>

definition sent_items :: "('r \<Rightarrow> string + string) \<Rightarrow> bool \<Rightarrow> ('r \<times> bool) list \<Rightarrow> 'r list" where
  "sent_items dump unary xs = takeWhile (\<lambda>x. \<not> isl (dump x)) (map fst (if unary then take 1 xs else xs))"

lemma sent_items_printed:
  "list_all (\<lambda>(x, _). \<not> isl (dump x)) xs \<Longrightarrow> sent_items dump unary xs = map fst (if unary then take 1 xs else xs)"
  by (induction xs) (auto simp: sent_items_def)

lemma pump_open:
  "ss_limit s = None \<Longrightarrow> list_all (\<lambda>(x, killed). \<not> killed) xs \<Longrightarrow>
     snd (pump dump unary xs raised s)
       = s\<lparr>ss_out := ss_out s @ map (from_data \<circ> projr \<circ> dump) (sent_items dump unary xs)\<rparr>"
proof (induction xs arbitrary: s)
  case (Cons e xs)
  obtain x k where e: "e = (x, k)" by (cases e)
  then have k: "\<not> k" using Cons.prems by simp
  show ?case
  proof (cases "dump x")
    case (Inl m)
    then show ?thesis using e k by (simp add: sent_items_def)
  next
    case (Inr b)
    let ?s = "s\<lparr>ss_out := ss_out s @ [from_data b]\<rparr>"
    have step: "ss_send b s = (True, ?s)" using Cons.prems by (simp add: ss_send_def ss_write_open)
    show ?thesis using step e k Inr Cons.IH [of ?s] Cons.prems by (cases unary) (simp_all add: sent_items_def)
  qed
qed (simp add: sent_items_def)

lemma prologue_out:
  assumes "ss_limit s = None" "dump_prologue j p = Inr t"
  shows "send_prologue j p s = (Inr True, s\<lparr>prologue_sent := True, ss_out := ss_out s @ [from_header t]\<rparr>)"
  using assms by (simp add: send_prologue_def ss_write_open)

lemma finish_out:
  "ss_limit s = None \<Longrightarrow> \<not> ss_finished s \<Longrightarrow>
   ss_out (ss_finish j s) = ss_out s @ [from_header (dump_control j Sentinel)]"
  by (simp add: ss_finish_def ss_write_open)

text \<open>
  A request is refused with a message when its type is not supported, when it cannot be parsed and
  when the engine fails.
\<close>

definition refusal :: "(string \<Rightarrow> string + 'q) \<Rightarrow> ('q \<Rightarrow> string + 'r engine_stream) \<Rightarrow> RequestControlMessage
    \<Rightarrow> string \<Rightarrow> string option" where
  "refusal parse engine control payload =
     (if request_type control \<noteq> ''single_in''
      then Some (''request_type '' @ quote @ request_type control @ quote @ '' is not supported (single_in only)'')
      else case parse payload of
        Inl e \<Rightarrow> Some (''invalid request payload: '' @ e)
      | Inr q \<Rightarrow> (case engine q of Inl e \<Rightarrow> Some e | Inr _ \<Rightarrow> None))"

lemma handle_refused:
  assumes "refusal parse engine control payload = Some msg"
  shows "handle_connected j parse dump engine control payload s
     = (case send_prologue j (Some msg) s of
          (Inl e, s1) \<Rightarrow> ((Some e, True), ss_finish j s1) | (Inr _, s1) \<Rightarrow> ((None, True), ss_finish j s1))"
  using assms by (auto simp: refusal_def handle_connected_def Let_def split: if_splits sum.splits)

lemma handle_served:
  assumes "request_type control = ''single_in''" "parse payload = Inr q" "engine q = Inr stream"
    and "list_all (\<lambda>(x, killed). \<not> killed) (items stream)" "ss_limit s = None" "\<not> ss_finished s"
    and t: "dump_prologue j None = Inr t"
  shows "ss_out (snd (handle_connected j parse dump engine control payload s))
     = ss_out s @ from_header t
        # map (from_data \<circ> projr \<circ> dump) (sent_items dump (response_type control = ''single_out'') (items stream))
        @ [from_header (dump_control j Sentinel)]"
proof -
  let ?u = "response_type control = ''single_out''"
  let ?s = "s\<lparr>prologue_sent := True, ss_out := ss_out s @ [from_header t]\<rparr>"
  have "snd (pump dump ?u (items stream) (raises stream) ?s)
     = ?s\<lparr>ss_out := ss_out ?s @ map (from_data \<circ> projr \<circ> dump) (sent_items dump ?u (items stream))\<rparr>"
    using pump_open [of ?s "items stream" dump ?u "raises stream"] assms(4,5) by simp
  then show ?thesis
    using assms by (simp add: handle_connected_def Let_def case_prod_unfold finish_out prologue_out [OF assms(5) t])
qed

text \<open>
  An exception in the middle of a stream leaves no trace on the wire: the requester sees the same
  frames as for a stream that ended there.
\<close>

lemma raised_stream_ends_cleanly:
  assumes "request_type control = ''single_in''" "parse payload = Inr q" "engine q = Inr stream"
    and "engine' q = Inr (stream\<lparr>raises := e\<rparr>)"
    and "list_all (\<lambda>(x, killed). \<not> killed) (items stream)" "ss_limit s = None" "\<not> ss_finished s"
    and "dump_prologue j None = Inr t"
  shows "ss_out (snd (handle_connected j parse dump engine' control payload s))
     = ss_out (snd (handle_connected j parse dump engine control payload s))"
  using handle_served [of control parse payload q engine stream s j t dump]
    handle_served [of control parse payload q engine' "stream\<lparr>raises := e\<rparr>" s j t dump] assms by simp

lemma ss_connect_open:
  assumes "ci_transport info = ''tcp''" "ci_stream_type info = ResponseStream" "ci_context_id info = ctx"
    and "ss_connect j ctx info reachable authed None = Some s"
  shows "ss_out s = [from_header (dump_handshake j \<lparr>hs_subject = ci_subject info, hs_stream_type = ResponseStream\<rparr>)]"
    and "ss_limit s = None" "\<not> ss_finished s"
  using assms by (auto simp: ss_connect_def ss_write_open split: if_splits)

section \<open>What the requester makes of it\<close>

lemma claim_registered:
  assumes "wire_json_ok j" "map_of (pending d) subj = Some p"
  shows "fst (claim_stream j (from_header (dump_handshake j \<lparr>hs_subject = subj, hs_stream_type = ResponseStream\<rparr>)) d)
     = Some p"
  using assms by (simp add: claim_stream_def wire_json_ok_def json_ok_def from_header_def has_header_def)

lemma open_prologue:
  assumes "wire_json_ok j" "dump_prologue j p = Inr t"
  shows "open_stream j (from_header t) = Some (case p of None \<Rightarrow> ArrivalStream | Some e \<Rightarrow> ArrivalError e)"
  using assms
  by (simp add: open_stream_def wire_json_ok_def lossless_def from_header_def has_header_def split: option.split)

lemma payloads_items:
  assumes "wire_json_ok j" "[] \<notin> set bs"
  shows "payloads j (map from_data bs @ from_header (dump_control j Sentinel) # rest) = bs"
  using assms(2)
proof (induction bs)
  case Nil
  show ?case
    using assms(1) by (simp add: relay_frame_def wire_json_ok_def json_ok_def from_header_def has_header_def)
next
  case (Cons x xs)
  then show ?case by (auto simp: relay_frame_def from_data_def has_header_def has_data_def)
qed

lemma typed_stream_sent:
  assumes "lossless dump parse"
  shows "typed_stream parse (map (projr \<circ> dump) (sent_items dump unary xs)) = sent_items dump unary xs"
    and "[] \<notin> set (map (projr \<circ> dump) (sent_items dump unary xs))"
proof -
  have ok: "parse (projr (dump x)) = Some x \<and> projr (dump x) \<noteq> []" if "x \<in> set (sent_items dump unary xs)" for x
    using that assms set_takeWhileD [of x "\<lambda>x. \<not> isl (dump x)"]
    by (cases "dump x") (auto simp: sent_items_def lossless_def)
  have "(\<forall>x\<in>set ys. parse (projr (dump x)) = Some x) \<Longrightarrow> typed_stream parse (map (projr \<circ> dump) ys) = ys" for ys
    by (induction ys) (simp_all add: typed_stream_def List.map_filter_simps)
  with ok show "typed_stream parse (map (projr \<circ> dump) (sent_items dump unary xs)) = sent_items dump unary xs"
    by blast
  show "[] \<notin> set (map (projr \<circ> dump) (sent_items dump unary xs))" using ok by (force simp: image_iff)
qed

text \<open>
  A refusal whose message cannot be dumped: the exception leaves the handler, the sentinel of the
  destructor is the second frame, and a requester that reads it as a prologue without an error takes
  the refused request for a stream without items.
\<close>

lemma unprintable_refusal_looks_empty:
  assumes "refusal parse engine control payload = Some msg" "dump_prologue j (Some msg) = Inl e"
    and "ss_limit s = None" "\<not> ss_finished s"
    and j: "wire_json_ok j" "parse_prologue j (dump_control j Sentinel) = Some None"
  shows "fst (handle_connected j parse dump engine control payload s) = (Some e, True)"
    and "ss_out (snd (handle_connected j parse dump engine control payload s))
       = ss_out s @ [from_header (dump_control j Sentinel)]"
    and "open_stream j (from_header (dump_control j Sentinel)) = Some ArrivalStream"
proof -
  have "send_prologue j (Some msg) s = (Inl e, s\<lparr>prologue_sent := True\<rparr>)"
    using assms(2) by (simp add: send_prologue_def)
  with handle_refused [OF assms(1), of j dump s] assms(3,4)
  show "fst (handle_connected j parse dump engine control payload s) = (Some e, True)"
    "ss_out (snd (handle_connected j parse dump engine control payload s))
       = ss_out s @ [from_header (dump_control j Sentinel)]"
    by (simp_all add: finish_out)
  show "open_stream j (from_header (dump_control j Sentinel)) = Some ArrivalStream"
    using j by (simp add: open_stream_def wire_json_ok_def json_ok_def from_header_def has_header_def)
qed

section \<open>Properties\<close>

text \<open>C25.  A remote call end to end.  The client registered its return path and the request names it;
  the worker reaches the requester, the engine produces a stream that nobody kills.  Then the first
  frame claims exactly that registration, the second opens the stream, and whatever the
  interleaving of worker, relay and client, a client that has been told the stream is over and did
  not lose the connection has received exactly the items of the engine in order, or the first one
  for a unary call, up to the first item that cannot be dumped as JSON; all of them when every item
  can be dumped.  JSON text is only assumed to be read back as what was dumped.\<close>

theorem remote_call_delivers:
  assumes json: "wire_json_ok j" "lossless dump parse_item"
    and reg: "\<not> dp_stopping d" "map_of (pending d) subj = None"
      "register_response_stream subj addr (rc_id control) buf d = ((connection_info control, i), d1)"
    and conn: "ss_connect j (rc_id control) (connection_info control) reachable authed None = Some s"
    and req: "request_type control = ''single_in''" "parse payload = Inr q" "engine q = Inr stream"
      "list_all (\<lambda>(x, killed). \<not> killed) (items stream)"
    and frames: "ss_out (snd (handle_connected j parse dump engine control payload s)) = f1 # f2 # written r"
    and run: "stream_reach j buf r" "None \<in> set (receipts (link r))" "outcome r = Some Finished"
  shows "fst (claim_stream j f1 d1) = Some \<lparr>pd_ctx = rc_id control, pd_fulfill = i, recv_buffer_count = buf\<rparr>
    \<and> open_stream j f2 = Some ArrivalStream
    \<and> typed_stream parse_item (values_of (receipts (link r)))
        = sent_items dump (response_type control = ''single_out'') (items stream)
    \<and> (list_all (\<lambda>(x, _). \<not> isl (dump x)) (items stream) \<longrightarrow>
         typed_stream parse_item (values_of (receipts (link r)))
           = map fst (if response_type control = ''single_out'' then take 1 (items stream) else items stream))"
proof -
  let ?u = "response_type control = ''single_out''"
  let ?bs = "map (projr \<circ> dump) (sent_items dump ?u (items stream))"
  note p = register_pending [OF reg]
  note s = ss_connect_open [OF p(4,5,6) conn]
  from json(1) obtain t where t: "dump_prologue j None = Inr t" by (auto simp: wire_json_ok_def)
  have out: "f1 # f2 # written r = ss_out s @ from_header t
        # map from_data ?bs @ [from_header (dump_control j Sentinel)]"
    using handle_served [of control parse payload q engine stream s j t dump] req s(2,3) t frames by (simp add: o_assoc)
  have f: "f1 = from_header (dump_handshake j \<lparr>hs_subject = subj, hs_stream_type = ResponseStream\<rparr>)"
    "f2 = from_header t" "written r = map from_data ?bs @ [from_header (dump_control j Sentinel)]"
    using out s(1) p(3) by simp_all
  obtain gone where "chan_ok (link r)" "relayed j (outcome r) gone (written r) (link r)"
    using stream_reach_ok [OF run(1)] unfolding stream_ok_def by blast
  then have "values_of (receipts (link r)) = payloads j (written r)"
    using run(2,3) by (simp add: chan_ok_def)
  also have "\<dots> = ?bs"
    unfolding f(3) by (rule payloads_items [OF json(1) typed_stream_sent(2) [OF json(2)]])
  finally have "typed_stream parse_item (values_of (receipts (link r))) = sent_items dump ?u (items stream)"
    using typed_stream_sent(1) [OF json(2)] by simp
  then show ?thesis
    using f(1,2) claim_registered [OF json(1) p(1)] open_prologue [OF json(1) t]
      sent_items_printed [of dump "items stream" ?u] by simp
qed

definition demo_control :: "RequestControlMessage" where
  "demo_control = \<lparr>rc_id = ''id'', request_type = ''single_in'', response_type = ''many_out'',
     connection_info = \<lparr>ci_transport = ''tcp'', ci_address = ''h:1'', ci_subject = ''sub'',
       ci_context_id = ''id'', ci_stream_type = ResponseStream\<rparr>\<rparr>"

theorem remote_call_delivers_witness:
  "\<exists>r. stream_reach demo_json 1 r \<and> None \<in> set (receipts (link r)) \<and> outcome r = Some Finished
     \<and> typed_stream (\<lambda>s. case s of [c] \<Rightarrow> Some c | _ \<Rightarrow> None) (values_of (receipts (link r))) = ''ab''"
proof -
  obtain r where r: "stream_reach demo_json 1 r" "written r = [from_data ''a'', from_data ''b'', from_header ''z'']"
    "receipts (link r) = [Some ''a'', Some ''b'', None]" "outcome r = Some Finished"
    using demo_run by blast
  let ?dump = "\<lambda>c :: char. (Inr [c] :: string + string)"
  let ?engine = "\<lambda>q :: string. (Inr \<lparr>items = [(CHR ''a'', False), (CHR ''b'', False)], raises = None\<rparr>
      :: string + char engine_stream)"
  let ?parse = "(Inr :: string \<Rightarrow> string + string)"
  let ?s = "the (ss_connect demo_json ''id'' (connection_info demo_control) (\<lambda>_. True) True None)"
  let ?reg = "register_response_stream ''sub'' ''h:1'' (rc_id demo_control) 1 dp_new"
  have j: "lossless ?dump (\<lambda>s. case s of [c] \<Rightarrow> Some c | _ \<Rightarrow> None)" by (simp add: lossless_def)
  have reg: "\<not> dp_stopping dp_new" "map_of (pending dp_new) ''sub'' = None"
    "?reg = ((connection_info demo_control, 0), snd ?reg)"
    by (simp_all add: dp_new_def register_response_stream_def demo_control_def Let_def)
  have conn: "ss_connect demo_json (rc_id demo_control) (connection_info demo_control) (\<lambda>_. True) True None = Some ?s"
    by (simp add: ss_connect_def demo_control_def ss_write_def upt_rec)
  have out: "ss_out (snd (handle_connected demo_json ?parse ?dump ?engine demo_control ''q'' ?s))
     = from_header ''rsub'' # from_header ''n'' # written r"
    by (simp add: r(2) upt_rec ss_connect_def demo_control_def ss_write_def handle_connected_def send_prologue_def
        ss_send_def ss_finish_def demo_json_def)
  show ?thesis
    using remote_call_delivers [OF demo_json_ok j reg conn _ refl refl _ out r(1)] r
    by (auto simp: demo_control_def sent_items_def)
qed

text \<open>C26.  Errors of a remote call.  When the type of the request is not supported, the payload
  cannot be parsed or the engine fails, and the message of the refusal can be dumped as JSON (it is
  valid UTF-8), the worker answers with that message: the requester's call fails with it, the stream
  carries no data, the worker counts one error, and no request stays counted as in flight.  When the
  message cannot be dumped, the exception of the dump leaves the handler; the worker still counts one
  error and nothing in flight.\<close>

theorem remote_call_error:
  assumes json: "wire_json_ok j"
    and reg: "\<not> dp_stopping d" "map_of (pending d) subj = None"
      "register_response_stream subj addr (rc_id control) buf d = ((connection_info control, i), d1)"
    and conn: "ss_connect j (rc_id control) (connection_info control) reachable authed None = Some s"
    and err: "refusal parse engine control payload = Some msg"
    and handled: "ingress_handle j parse dump engine control payload (Some s) st = ((raised, Some s'), st')"
  shows "st' = st\<lparr>requests := requests st + 1, errors := errors st + 1\<rparr>
    \<and> (case dump_prologue j (Some msg) of
         Inl e \<Rightarrow> raised = Some e
       | Inr _ \<Rightarrow> raised = None
          \<and> (\<exists>f1 f2. ss_out s' = [f1, f2, from_header (dump_control j Sentinel)]
             \<and> fst (claim_stream j f1 d1) = Some \<lparr>pd_ctx = rc_id control, pd_fulfill = i, recv_buffer_count = buf\<rparr>
             \<and> fst (await_arrival subj i (open_stream j f2) d1) = Inl (RuntimeError (''remote generate failed: '' @ msg))
             \<and> payloads j [from_header (dump_control j Sentinel)] = []))"
proof -
  note p = register_pending [OF reg]
  note s = ss_connect_open [OF p(4,5,6) conn]
  let ?f1 = "from_header (dump_handshake j \<lparr>hs_subject = subj, hs_stream_type = ResponseStream\<rparr>)"
  note handle = handled [unfolded ingress_handle_def handle_refused [OF err]]
  show ?thesis
  proof (cases "dump_prologue j (Some msg)")
    case (Inl e)
    with handle show ?thesis by (auto simp: Let_def send_prologue_def)
  next
    case (Inr t)
    note sent = prologue_out [OF s(2) Inr]
    have st: "raised = None" "st' = st\<lparr>requests := requests st + 1, errors := errors st + 1\<rparr>"
      "ss_out s' = [?f1, from_header t, from_header (dump_control j Sentinel)]"
      using handle s p(3) by (auto simp: Let_def sent finish_out)
    have "payloads j [from_header (dump_control j Sentinel)] = []"
      using payloads_items [OF json, of "[]" "[]"] by simp
    moreover have "fst (await_arrival subj i (open_stream j (from_header t)) d1)
        = Inl (RuntimeError (''remote generate failed: '' @ msg))"
      using open_prologue [OF json Inr] by (simp add: await_arrival_def Let_def)
    ultimately show ?thesis using Inr st claim_registered [OF json p(1)] by auto
  qed
qed

theorem remote_call_error_witness:
  "refusal (Inr :: string \<Rightarrow> string + string) (\<lambda>_. Inl ''boom'' :: string + char engine_stream) demo_control ''q'' = Some ''boom''
   \<and> fst (await_arrival ''sub'' 0 (open_stream demo_json (from_header ''eboom''))
        (snd (register_response_stream ''sub'' ''h:1'' ''id'' 1 dp_new)))
      = Inl (RuntimeError ''remote generate failed: boom'')"
proof -
  let ?reg = "register_response_stream ''sub'' ''h:1'' (rc_id demo_control) 1 dp_new"
  let ?s = "the (ss_connect demo_json ''id'' (connection_info demo_control) (\<lambda>_. True) True None)"
  let ?engine = "\<lambda>_ :: string. (Inl ''boom'' :: string + char engine_stream)"
  let ?parse = "(Inr :: string \<Rightarrow> string + string)" and ?dump = "\<lambda>c :: char. (Inr [c] :: string + string)"
  let ?st = "\<lparr>requests = 0, errors = 0, inflight_count = 0\<rparr>"
  have reg: "\<not> dp_stopping dp_new" "map_of (pending dp_new) ''sub'' = None"
    "?reg = ((connection_info demo_control, 0), snd ?reg)"
    by (simp_all add: dp_new_def register_response_stream_def demo_control_def Let_def)
  have conn: "ss_connect demo_json (rc_id demo_control) (connection_info demo_control) (\<lambda>_. True) True None = Some ?s"
    by (simp add: ss_connect_def demo_control_def ss_write_def upt_rec)
  have err: "refusal ?parse ?engine demo_control ''q'' = Some ''boom''"
    by (simp add: refusal_def demo_control_def)
  have d: "dump_prologue demo_json (Some ''boom'') = Inr ''eboom''" by (simp add: demo_json_def)
  let ?s' = "\<lparr>ss_out = [from_header ''rsub'', from_header ''eboom'', from_header ''z''], ss_limit = None,
    prologue_sent = True, ss_finished = True\<rparr>"
  have "ingress_handle demo_json ?parse ?dump ?engine demo_control ''q'' (Some ?s) ?st
      = ((None, Some ?s'), \<lparr>requests = 1, errors = 1, inflight_count = 0\<rparr>)"
    by (simp add: ingress_handle_def handle_refused [OF err] upt_rec ss_connect_def ss_write_def
        send_prologue_def ss_finish_def Let_def d) (simp add: demo_json_def demo_control_def)
  from remote_call_error [OF demo_json_ok reg conn err this] err show ?thesis
    by (simp add: d) (auto simp: demo_control_def)
qed

end
