(* ===== verification/Endpoint.thy ===== *)
theory Endpoint
  imports InProcess Signals
begin

text \<open>
  The component layer (\<^verbatim>\<open>component/info.h\<close>, \<^verbatim>\<open>component/distributed_runtime.cpp\<close>, the routing
  half of \<^verbatim>\<open>component/client.h\<close>): names of namespaces, components and endpoints and the discovery
  keys and subjects built from them, the live set of instances a client folds from a discovery
  watch, and the choice of an instance for a request.  Reading an \<open>EndpointInfo\<close> from JSON is a
  parameter.  The lemmas show that keys and subjects of different instances differ, which keys a
  watch of an endpoint sees, that the live set is exactly what the store has, and that no waiter
  misses a change of it.
\<close>

section \<open>Names\<close>

definition name_char :: "char \<Rightarrow> bool" where
  "name_char c \<longleftrightarrow> (CHR ''a'' \<le> c \<and> c \<le> CHR ''z'') \<or> (CHR ''0'' \<le> c \<and> c \<le> CHR ''9'')
     \<or> c = CHR ''-'' \<or> c = CHR ''_''"

definition validate_name :: "string \<Rightarrow> string \<Rightarrow> unit res" where
  "validate_name name what =
     rbind (throw_if (name = []) (InvalidArgument (what @ '' must not be empty'')))
       (\<lambda>_. throw_if (\<not> list_all name_char name)
              (InvalidArgument (what @ '' has invalid character: '' @ name)))"

text \<open>\<open>hex_id\<close> prints the identifier as an unsigned 64-bit number.\<close>

definition hex_id :: "int \<Rightarrow> string" where
  "hex_id i = hex_nat (unat (word_of_int i :: u64))"

record Namespace =
  ns_name :: string

record Component =
  cp_namespace :: Namespace
  cp_name :: string

record ServiceEndpoint =
  ep_component :: Component
  ep_name :: string

definition Namespace_new :: "string \<Rightarrow> Namespace res" where
  "Namespace_new name = rbind (validate_name name ''namespace'') (\<lambda>_. Inr \<lparr>ns_name = name\<rparr>)"

definition Component_new :: "Namespace \<Rightarrow> string \<Rightarrow> Component res" where
  "Component_new ns name =
     rbind (validate_name name ''component'') (\<lambda>_. Inr \<lparr>cp_namespace = ns, cp_name = name\<rparr>)"

definition Endpoint_new :: "Component \<Rightarrow> string \<Rightarrow> ServiceEndpoint res" where
  "Endpoint_new c name =
     rbind (validate_name name ''endpoint'') (\<lambda>_. Inr \<lparr>ep_component = c, ep_name = name\<rparr>)"

definition ns_event_subject :: "Namespace \<Rightarrow> string \<Rightarrow> string" where
  "ns_event_subject n ev = ns_name n @ ''.events.'' @ ev"

definition component_prefix :: "Component \<Rightarrow> string" where
  "component_prefix c = ns_name (cp_namespace c) @ ''/components/'' @ cp_name c"

definition component_path :: "Component \<Rightarrow> string" where
  "component_path c = ns_name (cp_namespace c) @ ''.'' @ cp_name c"

definition component_event_subject :: "Component \<Rightarrow> string \<Rightarrow> string" where
  "component_event_subject c ev = ns_name (cp_namespace c) @ ''.'' @ cp_name c @ ''.events.'' @ ev"

definition endpoint_prefix :: "ServiceEndpoint \<Rightarrow> string" where
  "endpoint_prefix e = component_prefix (ep_component e) @ ''/'' @ ep_name e"

definition instance_key :: "ServiceEndpoint \<Rightarrow> int \<Rightarrow> string" where
  "instance_key e i = endpoint_prefix e @ '':'' @ hex_id i"

definition subject_for :: "ServiceEndpoint \<Rightarrow> int \<Rightarrow> string" where
  "subject_for e i = ns_name (cp_namespace (ep_component e)) @ ''/'' @ cp_name (ep_component e) @ ''/''
     @ ep_name e @ '':'' @ hex_id i"

definition queue_subject :: "ServiceEndpoint \<Rightarrow> string" where
  "queue_subject e = ns_name (cp_namespace (ep_component e)) @ ''/'' @ cp_name (ep_component e) @ ''/''
     @ ep_name e @ '':queue''"

definition stats_subject :: "string \<Rightarrow> string" where
  "stats_subject subject = subject @ ''/stats''"

section \<open>Keys and subjects are unambiguous\<close>

definition valid_name :: "string \<Rightarrow> bool" where
  "valid_name n \<longleftrightarrow> n \<noteq> [] \<and> list_all name_char n"

definition endpoint_ok :: "ServiceEndpoint \<Rightarrow> bool" where
  "endpoint_ok e \<longleftrightarrow> valid_name (ns_name (cp_namespace (ep_component e)))
     \<and> valid_name (cp_name (ep_component e)) \<and> valid_name (ep_name e)"

lemma validate_name_iff [simp]: "validate_name n w = Inr u \<longleftrightarrow> valid_name n"
  by (auto simp: validate_name_def valid_name_def)

text \<open>Endpoints built through the constructors are valid, and invalid names are refused.\<close>

lemma endpoint_construction:
  "rbind (Namespace_new a) (\<lambda>n. rbind (Component_new n b) (\<lambda>c. Endpoint_new c d)) = Inr e \<longleftrightarrow>
     endpoint_ok e \<and> e = \<lparr>ep_component = \<lparr>cp_namespace = \<lparr>ns_name = a\<rparr>, cp_name = b\<rparr>, ep_name = d\<rparr>"
  by (auto simp: Namespace_new_def Component_new_def Endpoint_new_def endpoint_ok_def)

lemma sep_inj:
  "c \<notin> set a \<Longrightarrow> c \<notin> set b \<Longrightarrow> a @ c # x = b @ c # y \<longleftrightarrow> a = b \<and> x = y"
proof (induction a arbitrary: b)
  case Nil
  then show ?case by (cases b) auto
next
  case (Cons d a)
  then show ?case by (cases b) auto
qed

lemma prefix_before_sep: "c \<notin> set a \<Longrightarrow> prefix a (b @ c # x) \<longleftrightarrow> prefix a b"
  by (auto simp: prefix_append prefix_Cons)

lemma valid_name_no_sep:
  "valid_name n \<Longrightarrow> CHR ''/'' \<notin> set n \<and> CHR '':'' \<notin> set n \<and> CHR ''.'' \<notin> set n"
  by (auto simp: valid_name_def list_all_iff name_char_def less_eq_char_def)

definition int64 :: "int \<Rightarrow> bool" where
  "int64 i \<longleftrightarrow> - (2 ^ 63) \<le> i \<and> i < 2 ^ 63"

lemma hex_id_inj:
  assumes "int64 i" "int64 j" "hex_id i = hex_id j"
  shows "i = j"
proof -
  have "(word_of_int i :: u64) = word_of_int j"
    using hex_nat_inj [OF assms(3) [unfolded hex_id_def]] by (simp only: word_unat_eq_iff)
  then have "2 ^ 64 dvd i - j"
    by (simp add: word_of_int_eq_iff take_bit_eq_mod mod_eq_dvd_iff)
  then have "i - j = 0 \<or> 2 ^ 64 \<le> \<bar>i - j\<bar>"
    using dvd_imp_le_int [of "i - j" "2 ^ 64"] by auto
  then show ?thesis using assms(1,2) by (auto simp: int64_def)
qed

lemma hex_id_no_sep: "CHR ''/'' \<notin> set (hex_id i) \<and> CHR '':'' \<notin> set (hex_id i) \<and> CHR ''q'' \<notin> set (hex_id i)"
  using hex_nat_chars [of "unat (word_of_int i :: u64)"] by (auto simp: hex_id_def)

lemmas key_defs = instance_key_def endpoint_prefix_def component_prefix_def subject_for_def
  queue_subject_def stats_subject_def

lemma endpoint_eqI:
  fixes e e' :: ServiceEndpoint
  shows "ns_name (cp_namespace (ep_component e)) = ns_name (cp_namespace (ep_component e'))
     \<Longrightarrow> cp_name (ep_component e) = cp_name (ep_component e') \<Longrightarrow> ep_name e = ep_name e' \<Longrightarrow> e = e'"
  by (simp add: ServiceEndpoint.equality Component.equality Namespace.equality)

lemma instance_key_inj:
  assumes "endpoint_ok e" "endpoint_ok e'" "int64 i" "int64 j" "instance_key e i = instance_key e' j"
  shows "e = e' \<and> i = j"
proof -
  note v = assms(1,2) [unfolded endpoint_ok_def, THEN conjunct1, THEN valid_name_no_sep]
    assms(1,2) [unfolded endpoint_ok_def, THEN conjunct2, THEN conjunct1, THEN valid_name_no_sep]
    assms(1,2) [unfolded endpoint_ok_def, THEN conjunct2, THEN conjunct2, THEN valid_name_no_sep]
  show ?thesis
    using assms(5) v by (auto simp: key_defs sep_inj intro: endpoint_eqI hex_id_inj [OF assms(3,4)])
qed

lemma subject_for_inj:
  assumes "endpoint_ok e" "endpoint_ok e'" "int64 i" "int64 j" "subject_for e i = subject_for e' j"
  shows "e = e' \<and> i = j"
proof -
  note v = assms(1,2) [unfolded endpoint_ok_def, THEN conjunct1, THEN valid_name_no_sep]
    assms(1,2) [unfolded endpoint_ok_def, THEN conjunct2, THEN conjunct1, THEN valid_name_no_sep]
    assms(1,2) [unfolded endpoint_ok_def, THEN conjunct2, THEN conjunct2, THEN valid_name_no_sep]
  show ?thesis
    using assms(5) v by (auto simp: key_defs sep_inj intro: endpoint_eqI hex_id_inj [OF assms(3,4)])
qed

text \<open>The comment in the source: the queue subject cannot collide with instance subjects.\<close>

lemma queue_subject_distinct:
  assumes "endpoint_ok e" "endpoint_ok e'"
  shows "queue_subject e \<noteq> subject_for e' i"
proof
  assume eq: "queue_subject e = subject_for e' i"
  note v = assms [unfolded endpoint_ok_def, THEN conjunct1, THEN valid_name_no_sep]
    assms [unfolded endpoint_ok_def, THEN conjunct2, THEN conjunct1, THEN valid_name_no_sep]
    assms [unfolded endpoint_ok_def, THEN conjunct2, THEN conjunct2, THEN valid_name_no_sep]
  have "''queue'' = hex_id i" using eq v by (auto simp: key_defs sep_inj)
  then show False using hex_id_no_sep [of i] by (metis list.set_intros(1))
qed

lemma stats_subject_distinct:
  assumes "endpoint_ok e" "endpoint_ok e'"
  shows "stats_subject (subject_for e i) \<noteq> subject_for e' j"
proof
  assume eq: "stats_subject (subject_for e i) = subject_for e' j"
  note v = assms [unfolded endpoint_ok_def, THEN conjunct1, THEN valid_name_no_sep]
    assms [unfolded endpoint_ok_def, THEN conjunct2, THEN conjunct1, THEN valid_name_no_sep]
    assms [unfolded endpoint_ok_def, THEN conjunct2, THEN conjunct2, THEN valid_name_no_sep]
  have "hex_id i @ ''/stats'' = hex_id j" using eq v by (auto simp: key_defs sep_inj)
  then have "CHR ''/'' \<in> set (hex_id j)" by (metis in_set_conv_decomp)
  then show False using hex_id_no_sep [of j] by blast
qed

text \<open>
  What a watch of an endpoint sees.  The prefix has no terminator, so it also covers endpoints of
  the same component whose name extends the name of the endpoint.
\<close>

lemma endpoint_prefix_covers:
  assumes "endpoint_ok e" "endpoint_ok e'"
  shows "prefix (endpoint_prefix e) (instance_key e' i)
     \<longleftrightarrow> ep_component e = ep_component e' \<and> prefix (ep_name e) (ep_name e')"
proof -
  note v = assms [unfolded endpoint_ok_def, THEN conjunct1, THEN valid_name_no_sep]
    assms [unfolded endpoint_ok_def, THEN conjunct2, THEN conjunct1, THEN valid_name_no_sep]
    assms [unfolded endpoint_ok_def, THEN conjunct2, THEN conjunct2, THEN valid_name_no_sep]
  have "prefix (ep_name e) (ep_name e' @ CHR '':'' # hex_id i) \<longleftrightarrow> prefix (ep_name e) (ep_name e')"
    using v by (intro prefix_before_sep) simp
  moreover have "prefix (endpoint_prefix e) (instance_key e' i)
     \<longleftrightarrow> ns_name (cp_namespace (ep_component e)) = ns_name (cp_namespace (ep_component e'))
       \<and> cp_name (ep_component e) = cp_name (ep_component e')
       \<and> prefix (ep_name e) (ep_name e' @ CHR '':'' # hex_id i)"
    using v by (auto simp: key_defs prefix_def sep_inj)
  ultimately show ?thesis
    by (auto intro: Component.equality Namespace.equality)
qed

lemma component_prefix_covers:
  assumes "endpoint_ok e" "endpoint_ok \<lparr>ep_component = c, ep_name = n\<rparr>"
  shows "prefix (component_prefix c @ ''/'') (instance_key e i) \<longleftrightarrow> ep_component e = c"
proof -
  note v = assms [unfolded endpoint_ok_def, THEN conjunct1, THEN valid_name_no_sep]
    assms [unfolded endpoint_ok_def, THEN conjunct2, THEN conjunct1, THEN valid_name_no_sep]
    assms [unfolded endpoint_ok_def, THEN conjunct2, THEN conjunct2, THEN valid_name_no_sep]
  show ?thesis
    using v by (auto simp: key_defs prefix_def sep_inj intro: Component.equality Namespace.equality)
qed

text \<open>An event of a component can have the subject of an event of its namespace.\<close>

lemma event_subjects_overlap:
  "component_event_subject \<lparr>cp_namespace = n, cp_name = ''events''\<rparr> ev
     = ns_event_subject n (''events.'' @ ev)"
  by (simp add: component_event_subject_def ns_event_subject_def)

section \<open>The live set of an endpoint\<close>

record EndpointInfo =
  namespace_name :: string
  ei_component :: string
  ei_endpoint :: string
  instance_id :: int
  transport :: string
  address :: string
  subject :: string
  description :: string
  version :: string

text \<open>
  \<open>events\<close> are all the events that ever were the \<open>changed\<close> event of the source; the last one is
  the current one.
\<close>

record InstanceSource =
  instances :: "(string \<times> EndpointInfo) list"
  src_closed :: bool
  events :: "AsyncEvent list"

definition source_new :: InstanceSource where
  "source_new = \<lparr>instances = [], src_closed = False, events = [ev_new]\<rparr>"

text \<open>
  \<open>bump_locked\<close> followed by \<open>set\<close> on the event it returned: the coroutines that resume.  A
  coroutine that reaches the old event between the two resumes either way.
\<close>

definition bump_changed :: "InstanceSource \<Rightarrow> nat list \<times> InstanceSource" where
  "bump_changed s = (fst (ev_fire (last (events s))),
     s\<lparr>events := butlast (events s) @ [snd (ev_fire (last (events s))), ev_new]\<rparr>)"

text \<open>One event of \<open>instance_watch_loop\<close>; \<open>parse\<close> reads an \<open>EndpointInfo\<close> from JSON.\<close>

fun watch_event :: "(string \<Rightarrow> EndpointInfo option) \<Rightarrow> WatchEvent \<Rightarrow> InstanceSource \<Rightarrow> nat list \<times> InstanceSource" where
  "watch_event parse (Put kv) s =
     (case parse (kv_value kv) of
        None \<Rightarrow> ([], s)
      | Some info \<Rightarrow> bump_changed (s\<lparr>instances := om_put (kv_key kv) info (instances s)\<rparr>))"
| "watch_event parse (Delete kv) s = bump_changed (s\<lparr>instances := om_del (kv_key kv) (instances s)\<rparr>)"

primrec instance_watch_loop ::
  "(string \<Rightarrow> EndpointInfo option) \<Rightarrow> WatchEvent list \<Rightarrow> InstanceSource \<Rightarrow> nat list \<times> InstanceSource" where
  "instance_watch_loop parse [] s = ([], s)"
| "instance_watch_loop parse (e # es) s =
     (let (woken, s1) = watch_event parse e s; (woken', s2) = instance_watch_loop parse es s1
      in (woken @ woken', s2))"

text \<open>The tail of the loop, when the stream of events has ended.\<close>

definition watch_closed :: "InstanceSource \<Rightarrow> nat list \<times> InstanceSource" where
  "watch_closed s = bump_changed (s\<lparr>src_closed := True, instances := []\<rparr>)"

definition source_snapshot :: "InstanceSource \<Rightarrow> EndpointInfo list" where
  "source_snapshot s = map snd (instances s)"

text \<open>
  One round of \<open>wait_nonempty\<close> and of \<open>wait_changed\<close>: under the lock the coroutine decides to
  return, to throw, or to await the event that is current at that moment; afterwards, without the
  lock, it parks on that event unless the event has been set meanwhile.
\<close>

datatype wait_result = Ready | Threw exn | Await nat

definition wait_nonempty :: "InstanceSource \<Rightarrow> wait_result" where
  "wait_nonempty s =
     (if instances s \<noteq> [] then Ready
      else if src_closed s then
        Threw (RuntimeError ''instance watch closed (discovery lost or shutting down)'')
      else Await (length (events s) - 1))"

definition wait_changed :: "InstanceSource \<Rightarrow> wait_result" where
  "wait_changed s = (if src_closed s then Ready else Await (length (events s) - 1))"

definition await_event :: "nat \<Rightarrow> nat \<Rightarrow> InstanceSource \<Rightarrow> bool \<times> InstanceSource" where
  "await_event g h s =
     (let (parked, e) = add_waiter h (events s ! g) in (parked, s\<lparr>events := (events s)[g := e]\<rparr>))"

subsection \<open>No change is missed\<close>

definition source_ok :: "InstanceSource \<Rightarrow> bool" where
  "source_ok s \<longleftrightarrow> om_ok (instances s) \<and> events s \<noteq> [] \<and> \<not> ev_set (last (events s))
     \<and> (\<forall>e \<in> set (butlast (events s)). ev_set e \<and> ev_waiters e = [])
     \<and> (src_closed s \<longrightarrow> instances s = [])"

lemma source_ok_new [inv_intros]: "source_ok source_new"
  by (simp add: source_ok_def source_new_def ev_new_def)

lemma source_ok_bump:
  assumes "source_ok s"
  shows "source_ok (snd (bump_changed s))"
proof -
  have "butlast (butlast (events s) @ [x, y]) = butlast (events s) @ [x]" for x y
    by (simp add: butlast_append)
  then show ?thesis using assms by (auto simp: source_ok_def bump_changed_def ev_fire_def ev_new_def)
qed

lemma bump_fields [simp]:
  "instances (snd (bump_changed s)) = instances s" "src_closed (snd (bump_changed s)) = src_closed s"
  by (simp_all add: bump_changed_def)

lemma source_ok_instances: "source_ok s \<Longrightarrow> \<not> src_closed s \<Longrightarrow> om_ok m \<Longrightarrow> source_ok (s\<lparr>instances := m\<rparr>)"
  by (simp add: source_ok_def)

lemma watch_event_open [simp]: "src_closed (snd (watch_event parse e s)) = src_closed s"
  by (cases e) (simp_all split: option.split)

lemma source_ok_event [inv_intros]:
  "source_ok s \<Longrightarrow> \<not> src_closed s \<Longrightarrow> source_ok (snd (watch_event parse e s))"
  by (cases e)
    (auto intro!: source_ok_bump source_ok_instances simp: source_ok_def [of s] split: option.split)

lemma source_ok_closed [inv_intros]: "source_ok s \<Longrightarrow> source_ok (snd (watch_closed s))"
  unfolding watch_closed_def by (rule source_ok_bump) (simp add: source_ok_def)

lemma source_ok_await [inv_intros]:
  assumes "source_ok s" "g < length (events s)"
  shows "source_ok (snd (await_event g h s))"
proof -
  obtain es e where es: "events s = es @ [e]" using assms(1) by (metis source_ok_def rev_exhaust)
  show ?thesis
  proof (cases "g < length es")
    case True
    then have "events s ! g \<in> set es" using es by (simp add: nth_append)
    then have "ev_set (events s ! g)" using assms(1) es by (simp add: source_ok_def)
    then show ?thesis using assms(1) by (simp add: await_event_def add_waiter_def)
  next
    case False
    then have "g = length es" using assms(2) es by simp
    then show ?thesis
      using assms(1) es by (simp add: source_ok_def await_event_def add_waiter_def Let_def)
  qed
qed

text \<open>
  A coroutine that decided to wait resumes with the next change: when the source changed before it
  reached the event it does not park, and when it parks the next change wakes it.
\<close>

lemma change_before_parking:
  assumes "source_ok s" "wait_nonempty s = Await g"
  shows "\<not> fst (await_event g h (snd (bump_changed (s\<lparr>instances := m\<rparr>))))"
proof -
  obtain es e where es: "events s = es @ [e]" using assms(1) by (metis source_ok_def rev_exhaust)
  have "g = length es" using assms(2) es by (simp add: wait_nonempty_def split: if_splits)
  then show ?thesis using es by (simp add: bump_changed_def await_event_def add_waiter_def ev_fire_def Let_def)
qed

lemma change_after_parking:
  assumes "source_ok s" "wait_nonempty s = Await g"
  shows "fst (await_event g h s)"
    and "h \<in> set (fst (bump_changed ((snd (await_event g h s))\<lparr>instances := m\<rparr>)))"
proof -
  obtain es e where es: "events s = es @ [e]" using assms(1) by (metis source_ok_def rev_exhaust)
  have g: "g = length es" using assms(2) es by (simp add: wait_nonempty_def split: if_splits)
  have "\<not> ev_set e" using assms(1) es by (simp add: source_ok_def)
  then show "fst (await_event g h s)"
    and "h \<in> set (fst (bump_changed ((snd (await_event g h s))\<lparr>instances := m\<rparr>)))"
    using es g by (simp_all add: bump_changed_def await_event_def add_waiter_def ev_fire_def Let_def)
qed

subsection \<open>The live set is what the store has\<close>

lemma instance_watch_loop_ok:
  "source_ok s \<Longrightarrow> \<not> src_closed s \<Longrightarrow>
     source_ok (snd (instance_watch_loop parse es s)) \<and> \<not> src_closed (snd (instance_watch_loop parse es s))"
proof (induction es arbitrary: s)
  case (Cons e es)
  then show ?case using Cons.IH [OF source_ok_event] by (simp add: Let_def case_prod_unfold)
qed simp

definition parses :: "(string \<Rightarrow> EndpointInfo option) \<Rightarrow> WatchEvent \<Rightarrow> bool" where
  "parses parse e \<longleftrightarrow> (case e of Put kv \<Rightarrow> parse (kv_value kv) \<noteq> None | Delete kv \<Rightarrow> True)"

definition parsed :: "(string \<Rightarrow> EndpointInfo option) \<Rightarrow> view \<Rightarrow> string \<Rightarrow> EndpointInfo option" where
  "parsed parse v k = Option.bind (v k) (\<lambda>kv. parse (kv_value kv))"

lemma watch_event_replay:
  assumes "source_ok s" "parses parse e" "map_of (instances s) = parsed parse v"
  shows "map_of (instances (snd (watch_event parse e s))) = parsed parse (apply_ev e v)"
  using assms
  by (cases e) (auto simp: source_ok_def parses_def map_of_put map_of_del parsed_def fun_eq_iff)

lemma instance_watch_loop_replay:
  "source_ok s \<Longrightarrow> \<not> src_closed s \<Longrightarrow> list_all (parses parse) es \<Longrightarrow> map_of (instances s) = parsed parse v
     \<Longrightarrow> map_of (instances (snd (instance_watch_loop parse es s))) = parsed parse (replay es v)"
proof (induction es arbitrary: s v)
  case (Cons e es)
  then have "map_of (instances (snd (watch_event parse e s))) = parsed parse (apply_ev e v)"
    by (intro watch_event_replay) simp_all
  with Cons show ?case by (simp add: Let_def case_prod_unfold source_ok_event)
qed simp

lemma live_set_replay:
  assumes "list_all (parses parse) es"
  shows "map_of (instances (snd (instance_watch_loop parse es source_new))) = parsed parse (replay es (\<lambda>_. None))"
  using instance_watch_loop_replay [OF source_ok_new _ assms, of "\<lambda>_. None"]
  by (simp add: source_new_def parsed_def fun_eq_iff)

text \<open>A value that cannot be parsed leaves the previous entry of its key in the live set.\<close>

lemma unparsable_keeps_entry:
  "parse (kv_value kv) = None \<Longrightarrow> watch_event parse (Put kv) s = ([], s)"
  by simp

section \<open>One source per endpoint\<close>

text \<open>
  The registry of the distributed runtime holds its sources weakly: \<open>alive\<close> tells whether a source
  still has a holder.  \<open>source_prefix\<close> is the prefix the watch of a source was started with.
\<close>

record SourceRegistry =
  sources :: "string \<Rightarrow> nat option"
  alive :: "nat \<Rightarrow> bool"
  source_prefix :: "nat \<Rightarrow> string"
  next_source :: nat

definition registry_new :: SourceRegistry where
  "registry_new = \<lparr>sources = (\<lambda>_. None), alive = (\<lambda>_. False), source_prefix = (\<lambda>_. []), next_source = 0\<rparr>"

text \<open>The lookup at both ends of \<open>instance_source_impl\<close>, each under the lock.\<close>

definition find_source :: "string \<Rightarrow> SourceRegistry \<Rightarrow> nat option \<times> SourceRegistry" where
  "find_source p r =
     (case sources r p of
        None \<Rightarrow> (None, r)
      | Some i \<Rightarrow> if alive r i then (Some i, r) else (None, r\<lparr>sources := (sources r)(p := None)\<rparr>))"

definition publish_source :: "string \<Rightarrow> SourceRegistry \<Rightarrow> nat \<times> SourceRegistry" where
  "publish_source p r =
     (case find_source p r of
        (Some i, r1) \<Rightarrow> (i, r1)
      | (None, r1) \<Rightarrow>
          let i = next_source r1
          in (i, r1\<lparr>sources := (sources r1)(p \<mapsto> i), alive := (alive r1)(i := True),
                   source_prefix := (source_prefix r1)(i := p), next_source := i + 1\<rparr>))"

definition drop_source :: "nat \<Rightarrow> SourceRegistry \<Rightarrow> SourceRegistry" where
  "drop_source i r = r\<lparr>alive := (alive r)(i := False)\<rparr>"

inductive registry_reach :: "SourceRegistry \<Rightarrow> bool" where
  reg_new: "registry_reach registry_new"
| reg_find: "registry_reach r \<Longrightarrow> registry_reach (snd (find_source p r))"
| reg_publish: "registry_reach r \<Longrightarrow> registry_reach (snd (publish_source p r))"
| reg_drop: "registry_reach r \<Longrightarrow> registry_reach (drop_source i r)"

definition registry_ok :: "SourceRegistry \<Rightarrow> bool" where
  "registry_ok r \<longleftrightarrow> (\<forall>i. alive r i \<longrightarrow> i < next_source r \<and> sources r (source_prefix r i) = Some i)
     \<and> (\<forall>p i. sources r p = Some i \<longrightarrow> i < next_source r \<and> source_prefix r i = p)"

lemma find_source_ok: "registry_ok r \<Longrightarrow> registry_ok (snd (find_source p r))"
  by (auto simp: registry_ok_def find_source_def split: option.split)

lemma find_source_None:
  assumes "find_source p r = (None, r1)"
  shows "sources r1 p = None" "next_source r1 = next_source r"
  using assms by (auto simp: find_source_def split: option.splits if_splits)

lemma publish_source_ok:
  assumes "registry_ok r"
  shows "registry_ok (snd (publish_source p r))"
proof (cases "find_source p r")
  case (Pair x r1)
  then have ok: "registry_ok r1" using find_source_ok [OF assms, of p] by simp
  show ?thesis
  proof (cases x)
    case None
    let ?i = "next_source r1"
    have live: "i < ?i \<and> sources r1 (source_prefix r1 i) = Some i \<and> source_prefix r1 i \<noteq> p"
      if "alive r1 i" for i
      using ok that find_source_None(1) [of p r r1] Pair None by (auto simp: registry_ok_def)
    have named: "i < ?i \<and> source_prefix r1 i = q" if "sources r1 q = Some i" for q i
      using ok that by (simp add: registry_ok_def)
    have r2: "snd (publish_source p r) = r1\<lparr>sources := (sources r1)(p \<mapsto> ?i), alive := (alive r1)(?i := True),
       source_prefix := (source_prefix r1)(?i := p), next_source := ?i + 1\<rparr>"
      using Pair None by (simp add: publish_source_def Let_def)
    show ?thesis unfolding r2 registry_ok_def
    proof (intro conjI allI impI, goal_cases)
      case (1 i)
      then show ?case using live [of i] by (cases "i = ?i") simp_all
    next
      case (2 i)
      then show ?case using live [of i] by (cases "i = ?i") simp_all
    next
      case (3 q i)
      then show ?case using named [of q i] by (cases "q = p") simp_all
    next
      case (4 q i)
      then show ?case using named [of q i] by (cases "q = p") auto
    qed
  qed (use ok Pair in \<open>simp add: publish_source_def\<close>)
qed

text \<open>Two live sources of the same endpoint are the same source.\<close>

lemma registry_reach_ok: "registry_reach r \<Longrightarrow> registry_ok r"
proof (induction rule: registry_reach.induct)
  case (reg_drop r i)
  then show ?case by (auto simp: registry_ok_def drop_source_def)
qed (simp_all add: find_source_ok publish_source_ok, simp add: registry_ok_def registry_new_def)

lemma one_live_source:
  "registry_reach r \<Longrightarrow> alive r i \<Longrightarrow> alive r j \<Longrightarrow> source_prefix r i = source_prefix r j \<Longrightarrow> i = j"
  using registry_reach_ok [of r] by (metis registry_ok_def option.inject)

section \<open>Routing\<close>

definition no_instances :: "ServiceEndpoint \<Rightarrow> exn" where
  "no_instances e = RuntimeError (''no live instances for endpoint '' @ endpoint_prefix e)"

text \<open>\<open>r\<close> is the number the random generator returns.\<close>

definition pick_random :: "u64 \<Rightarrow> ServiceEndpoint \<Rightarrow> EndpointInfo list \<Rightarrow> EndpointInfo res" where
  "pick_random r e infos = (if infos = [] then Inl (no_instances e) else Inr (infos ! (unat r mod length infos)))"

text \<open>The counter of the client advances only when there is an instance.\<close>

definition pick_round_robin :: "ServiceEndpoint \<Rightarrow> EndpointInfo list \<Rightarrow> u64 \<Rightarrow> EndpointInfo res \<times> u64" where
  "pick_round_robin e infos counter =
     (if infos = [] then (Inl (no_instances e), counter)
      else (Inr (infos ! (unat counter mod length infos)), counter + 1))"

definition pick_direct :: "int \<Rightarrow> ServiceEndpoint \<Rightarrow> EndpointInfo list \<Rightarrow> EndpointInfo res" where
  "pick_direct i e infos =
     (case find (\<lambda>info. instance_id info = i) infos of
        Some info \<Rightarrow> Inr info
      | None \<Rightarrow> Inl (RuntimeError (''instance '' @ hex_id i @ '' not found for endpoint '' @ endpoint_prefix e)))"

definition instance_ids :: "InstanceSource \<Rightarrow> int list" where
  "instance_ids s = map instance_id (source_snapshot s)"

lemma picks_live:
  "pick_random r e infos = Inr x \<Longrightarrow> x \<in> set infos"
  "fst (pick_round_robin e infos c) = Inr x \<Longrightarrow> x \<in> set infos"
  "pick_direct i e infos = Inr x \<Longrightarrow> x \<in> set infos \<and> instance_id x = i"
  by (auto simp: pick_random_def pick_round_robin_def pick_direct_def find_Some_iff
      split: if_splits option.splits)

primrec round_robins :: "ServiceEndpoint \<Rightarrow> EndpointInfo list \<Rightarrow> nat \<Rightarrow> u64 \<Rightarrow> EndpointInfo res list \<times> u64" where
  "round_robins e infos 0 c = ([], c)"
| "round_robins e infos (Suc n) c =
     (let (x, c1) = pick_round_robin e infos c; (xs, c2) = round_robins e infos n c1 in (x # xs, c2))"

lemma round_robins_eq:
  "infos \<noteq> [] \<Longrightarrow> unat c + n < 2 ^ 64 \<Longrightarrow>
     fst (round_robins e infos n c) = map (\<lambda>j. Inr (infos ! (j mod length infos))) [unat c..<unat c + n]"
proof (induction n arbitrary: c)
  case (Suc n)
  have "unat (c + 1) = unat c + 1" using unat_advance [of c 1] Suc.prems(2) by simp
  with Suc show ?case by (simp add: pick_round_robin_def case_prod_unfold Let_def upt_rec [of "unat c"])
qed simp

text \<open>
  As long as the live set does not change, any \<open>length infos\<close> consecutive calls go to every
  instance once.
\<close>

lemma round_robin_fair:
  assumes "infos \<noteq> []" "unat c + length infos < 2 ^ 64"
  shows "set (fst (round_robins e infos (length infos) c)) = Inr ` set infos"
proof -
  have "(\<lambda>j. j mod length infos) ` {unat c..<unat c + length infos} = {0..<length infos}"
  proof (intro equalityI subsetI)
    fix k assume "k \<in> {0..<length infos}"
    then obtain j where "j < length infos" "(unat c + j) mod length infos = k"
      using cover_mod [of k "length infos" "unat c"] by auto
    then show "k \<in> (\<lambda>j. j mod length infos) ` {unat c..<unat c + length infos}" by force
  qed (use assms(1) in auto)
  then have "(!) infos ` (\<lambda>j. j mod length infos) ` {unat c..<unat c + length infos} = set infos"
    by (simp add: nth_image)
  moreover have "set (fst (round_robins e infos (length infos) c))
     = Inr ` (!) infos ` (\<lambda>j. j mod length infos) ` {unat c..<unat c + length infos}"
    by (simp only: round_robins_eq [OF assms] set_map set_upt image_image)
  ultimately show ?thesis by simp
qed

section \<open>Listing and scraping\<close>

definition list_instances :: "(string \<Rightarrow> EndpointInfo option) \<Rightarrow> Component \<Rightarrow> Store \<Rightarrow> EndpointInfo list" where
  "list_instances parse c s =
     List.map_filter (\<lambda>kv. parse (kv_value kv)) (kv_get_prefix (component_prefix c @ ''/'') s)"

record 'j EndpointStats =
  st_info :: EndpointInfo
  st_ok :: bool
  st_error :: string
  st_stats :: "'j option"

text \<open>\<open>query\<close> stands for \<open>dispatch_query\<close> followed by the parsing of its answer.\<close>

definition scrape_one :: "(string \<Rightarrow> string \<Rightarrow> string \<Rightarrow> string + 'j) \<Rightarrow> EndpointInfo \<Rightarrow> 'j EndpointStats" where
  "scrape_one query info =
     (case query (address info) (stats_subject (subject info)) ''{}'' of
        Inr j \<Rightarrow> \<lparr>st_info = info, st_ok = True, st_error = [], st_stats = Some j\<rparr>
      | Inl e \<Rightarrow> \<lparr>st_info = info, st_ok = False, st_error = e, st_stats = None\<rparr>)"

text \<open>The answers arrive in the order in which the queries finish.\<close>

definition scrape_stats :: "(string \<Rightarrow> string \<Rightarrow> string \<Rightarrow> string + 'j) \<Rightarrow> EndpointInfo list \<Rightarrow> 'j EndpointStats list" where
  "scrape_stats query finished = map (scrape_one query) finished"

lemma list_instances_mem:
  assumes "om_ok (kvs s)"
  shows "info \<in> set (list_instances parse c s)
     \<longleftrightarrow> (\<exists>k kv. map_of (kvs s) k = Some kv \<and> prefix (component_prefix c @ ''/'') k
            \<and> parse (kv_value kv) = Some info)"
proof -
  have d: "map_of (kvs s) k = Some kv \<longleftrightarrow> (k, kv) \<in> set (kvs s)" for k kv
    using assms by (simp add: om_ok_def)
  have "set (kv_get_prefix p s) = {kv. \<exists>k. (k, kv) \<in> set (kvs s) \<and> prefix p k}" for p
    by (force simp: kv_get_prefix_def om_scan_filter [OF assms])
  then have "info \<in> set (list_instances parse c s)
     \<longleftrightarrow> (\<exists>kv. (\<exists>k. (k, kv) \<in> set (kvs s) \<and> prefix (component_prefix c @ ''/'') k)
            \<and> parse (kv_value kv) = Some info)"
    by (simp add: list_instances_def List.map_filter_def image_iff) (metis option.sel option.distinct(1))
  then show ?thesis unfolding d by blast
qed

section \<open>Properties\<close>

text \<open>C30.  Names are unambiguous.  For endpoints with valid names and 64-bit instance numbers,
  the discovery key and the subject of an instance determine the endpoint and the instance; the
  work queue subject of an endpoint and the statistics subject of an instance are never the subject
  of an instance.  A listing of a component covers exactly the instances of that component.  A
  watch of an endpoint covers exactly the instances of the endpoints of the same component whose
  name starts with the name of the endpoint.\<close>

theorem subjects_unambiguous:
  assumes "endpoint_ok e" "endpoint_ok e'" "int64 i" "int64 j"
  shows "(instance_key e i = instance_key e' j \<longleftrightarrow> e = e' \<and> i = j)
    \<and> (subject_for e i = subject_for e' j \<longleftrightarrow> e = e' \<and> i = j)
    \<and> queue_subject e \<noteq> subject_for e' j
    \<and> stats_subject (subject_for e i) \<noteq> subject_for e' j
    \<and> (prefix (component_prefix (ep_component e) @ ''/'') (instance_key e' j)
         \<longleftrightarrow> ep_component e' = ep_component e)
    \<and> (prefix (endpoint_prefix e) (instance_key e' j)
         \<longleftrightarrow> ep_component e = ep_component e' \<and> prefix (ep_name e) (ep_name e'))"
proof (intro conjI)
  have "endpoint_ok \<lparr>ep_component = ep_component e, ep_name = ep_name e\<rparr>" using assms(1) by (simp add: endpoint_ok_def)
  then show "prefix (component_prefix (ep_component e) @ ''/'') (instance_key e' j)
     \<longleftrightarrow> ep_component e' = ep_component e"
    by (rule component_prefix_covers [OF assms(2)])
qed (use assms instance_key_inj subject_for_inj queue_subject_distinct stats_subject_distinct
    endpoint_prefix_covers in blast)+

theorem subjects_unambiguous_witness:
  "\<exists>e e'. endpoint_ok e \<and> endpoint_ok e' \<and> int64 10 \<and> int64 (-1)
     \<and> instance_key e 10 = ''dyn/components/worker/gen:a'' \<and> e \<noteq> e'
     \<and> instance_key e 10 \<noteq> instance_key e' (-1)
     \<and> prefix (endpoint_prefix e) (instance_key e' (-1))"
proof -
  define c where "c = \<lparr>cp_namespace = \<lparr>ns_name = ''dyn''\<rparr>, cp_name = ''worker''\<rparr>"
  define e where "e = \<lparr>ep_component = c, ep_name = ''gen''\<rparr>"
  define e' where "e' = \<lparr>ep_component = c, ep_name = ''generate''\<rparr>"
  have ok: "endpoint_ok e" "endpoint_ok e'" "int64 10" "int64 (-1)"
    by (simp_all add: e_def e'_def c_def endpoint_ok_def valid_name_def name_char_def less_eq_char_def
        int64_def)
  have key: "instance_key e 10 = ''dyn/components/worker/gen:a''"
    unfolding e_def c_def by code_simp
  have "e \<noteq> e'" "ep_component e = ep_component e'" "prefix (ep_name e) (ep_name e')"
    by (simp_all add: e_def e'_def)
  then show ?thesis using subjects_unambiguous [OF ok] ok key by metis
qed

text \<open>C29.  A client's live set is what discovery has.  Start the watch of an endpoint on any store
  that operations can lead to and let any operations follow.  When every value put under the prefix
  is readable, folding the events of the watch gives exactly the instances the store now has under
  the prefix, each with its current description, and a call to a particular instance finds it
  exactly when the store has a description with that number.\<close>

theorem live_set_in_sync:
  assumes "kv_get_and_watch_prefix (endpoint_prefix e) (fold step ops new_store) = (w, s)"
    and "DropWatch w \<notin> set ops'"
    and "list_all (parses parse) (sk_sent (watch_sinks (fold step ops' s) w))"
  shows "let src = snd (instance_watch_loop parse (sk_sent (watch_sinks (fold step ops' s) w)) source_new);
             now = under (endpoint_prefix e) (map_of (kvs (fold step ops' s)))
         in map_of (instances src) = parsed parse now
          \<and> ((\<exists>info. pick_direct i e (source_snapshot src) = Inr info)
               \<longleftrightarrow> (\<exists>k info. parsed parse now k = Some info \<and> instance_id info = i))"
proof -
  let ?es = "sk_sent (watch_sinks (fold step ops' s) w)"
  let ?src = "snd (instance_watch_loop parse ?es source_new)"
  let ?now = "under (endpoint_prefix e) (map_of (kvs (fold step ops' s)))"
  have eq: "map_of (instances ?src) = parsed parse ?now"
    using live_set_replay [OF assms(3)] watch_replay [OF assms(1,2)] by simp
  have "distinct (map fst (instances ?src))"
    using instance_watch_loop_ok [OF source_ok_new] by (simp add: source_new_def source_ok_def om_ok_def)
  then have "(\<exists>x \<in> set (source_snapshot ?src). instance_id x = i)
      \<longleftrightarrow> (\<exists>k info. map_of (instances ?src) k = Some info \<and> instance_id info = i)"
    by (force simp: source_snapshot_def)
  moreover have "(\<exists>info. pick_direct i e xs = Inr info) \<longleftrightarrow> (\<exists>x \<in> set xs. instance_id x = i)" for xs
    by (force simp: pick_direct_def find_None_iff find_Some_iff in_set_conv_nth split: option.split)
  ultimately show ?thesis using eq by (simp add: Let_def)
qed

definition demo_info :: EndpointInfo where
  "demo_info = \<lparr>namespace_name = ''n'', ei_component = ''c'', ei_endpoint = ''e'', instance_id = 1,
     transport = ''dyn-tcp'', address = ''h:1'', subject = ''n/c/e:1'', description = [], version = []\<rparr>"

definition demo_endpoint :: ServiceEndpoint where
  "demo_endpoint = \<lparr>ep_component = \<lparr>cp_namespace = \<lparr>ns_name = ''n''\<rparr>, cp_name = ''c''\<rparr>, ep_name = ''e''\<rparr>"

theorem live_set_in_sync_witness:
  "\<exists>s. kv_get_and_watch_prefix (endpoint_prefix demo_endpoint) (fold step [MakeLease False] new_store) = (0, s)
     \<and> DropWatch 0 \<notin> set [Create (instance_key demo_endpoint 1) ''x'' (Some 1)]
     \<and> list_all (parses (\<lambda>v. Some demo_info))
         (sk_sent (watch_sinks (fold step [Create (instance_key demo_endpoint 1) ''x'' (Some 1)] s) 0))
     \<and> (\<exists>info. pick_direct 1 demo_endpoint (source_snapshot (snd (instance_watch_loop (\<lambda>v. Some demo_info)
         (sk_sent (watch_sinks (fold step [Create (instance_key demo_endpoint 1) ''x'' (Some 1)] s) 0))
         source_new))) = Inr info)"
proof -
  let ?p = "endpoint_prefix demo_endpoint"
  define s where "s = snd (kv_get_and_watch_prefix ?p (fold step [MakeLease False] new_store))"
  let ?t = "fold step [Create (instance_key demo_endpoint 1) ''x'' (Some 1)] s"
  have 1: "kv_get_and_watch_prefix ?p (fold step [MakeLease False] new_store) = (0, s)"
    by (simp add: s_def new_store_def make_lease_def kv_get_and_watch_prefix_def Let_def)
  have 2: "DropWatch 0 \<notin> set [Create (instance_key demo_endpoint 1) ''x'' (Some 1)]" by simp
  have 3: "list_all (parses (\<lambda>v. Some demo_info)) (sk_sent (watch_sinks ?t 0))"
    by (simp add: list_all_iff parses_def split: WatchEvent.split)
  have "map_of (kvs ?t) ''n/components/c/e:1'' \<noteq> None" unfolding s_def by code_simp
  moreover have "prefix ?p ''n/components/c/e:1''" by code_simp
  ultimately have "\<exists>k info. parsed (\<lambda>v. Some demo_info) (under ?p (map_of (kvs ?t))) k = Some info
      \<and> instance_id info = 1"
    by (intro exI [of _ "''n/components/c/e:1''"]) (auto simp: parsed_def under_def demo_info_def)
  then show ?thesis using 1 2 3 live_set_in_sync [OF 1 2 3, of 1] by (auto simp: Let_def)
qed

end
