(* ===== verification/ControlPlane.thy ===== *)
theory ControlPlane
  imports DataPlane Endpoint
begin

text \<open>
  The control plane (\<^verbatim>\<open>transports/control_plane.cpp\<close>), the shared-secret authentication
  (\<^verbatim>\<open>transports/auth.cpp\<close>) and the registration of a served endpoint (\<open>serve_impl\<close> of
  \<^verbatim>\<open>component/serve.h\<close>).  A handler is a number, a query handler a function that may throw, the
  outcome of talking to a socket a parameter.  The lemmas show that the comparison of secrets is
  equality, that a dispatch succeeds exactly when the subject is served and hands over the request
  unchanged, how often a request can be sent, and that a failed registration leaves no trace.
\<close>

section \<open>Authentication\<close>

text \<open>\<open>constant_time_equal\<close>, on bytes.\<close>

definition constant_time_equal :: "string \<Rightarrow> string \<Rightarrow> bool" where
  "constant_time_equal a b =
     (if length a \<noteq> length b then False
      else fold (\<lambda>(x, y) acc. acc OR (of_char x XOR of_char y)) (zip a b) (0 :: u8) = 0)"

record TokenState =
  token :: "string option"
  env_loaded :: bool

text \<open>\<open>get\<close>, with the value of the environment variable; an empty variable counts as unset.\<close>

definition token_get :: "string option \<Rightarrow> TokenState \<Rightarrow> string option \<times> TokenState" where
  "token_get env s =
     (let s1 = (if env_loaded s then s
                else \<lparr>token = (case env of Some v \<Rightarrow> if v \<noteq> [] then Some v else token s | None \<Rightarrow> token s),
                      env_loaded = True\<rparr>)
      in (token s1, s1))"

definition set_token :: "string option \<Rightarrow> TokenState \<Rightarrow> TokenState" where
  "set_token t s = s\<lparr>env_loaded := True, token := t\<rparr>"

text \<open>The frames \<open>send\<close> writes, and whether \<open>expect\<close> accepts the first frame it reads, if any.\<close>

definition auth_send :: "(string \<Rightarrow> string) \<Rightarrow> string option \<Rightarrow> TwoPartMessage list" where
  "auth_send dump tok = (case tok of None \<Rightarrow> [] | Some t \<Rightarrow> [from_header (dump t)])"

definition auth_expect :: "(string \<Rightarrow> string option) \<Rightarrow> string option \<Rightarrow> TwoPartMessage option \<Rightarrow> bool" where
  "auth_expect parse tok frame =
     (case tok of
        None \<Rightarrow> True
      | Some t \<Rightarrow>
          (case frame of
             None \<Rightarrow> False
           | Some f \<Rightarrow> has_header f \<and>
               (case parse (header f) of None \<Rightarrow> False | Some p \<Rightarrow> constant_time_equal p t)))"

lemma of_char_u8_inj: "(of_char x :: u8) = of_char y \<longleftrightarrow> x = y"
proof
  have u: "unat (of_char c :: u8) = (of_char c :: nat)" for c
  proof -
    have m: "(of_char c :: nat) mod 256 = of_char c" by (rule mod_less) (rule nat_of_char_less_256)
    have "(of_char c :: u8) = of_nat (of_char c)" by (simp add: of_nat_of_char)
    then have "unat (of_char c :: u8) = (of_char c :: nat) mod 2 ^ 8" by (simp only: unat_of_nat len_num1 len_bit0) simp
    with m show ?thesis by simp
  qed
  assume "(of_char x :: u8) = of_char y"
  then have "(of_char x :: nat) = of_char y" using u by metis
  then show "x = y" by simp
qed simp

lemma xor_zero_iff: "(v :: u8) XOR w = 0 \<longleftrightarrow> v = w"
proof
  assume "v XOR w = 0"
  then have "v XOR (v XOR w) = v" by simp
  then show "v = w" by (simp flip: xor.assoc)
qed simp

lemma fold_or_zero:
  "fold (\<lambda>(x, y) acc. acc OR (of_char x XOR of_char y)) ps (w :: u8) = 0
     \<longleftrightarrow> w = 0 \<and> (\<forall>(x, y) \<in> set ps. x = y)"
proof (induction ps arbitrary: w)
  case (Cons p ps)
  obtain x y where p: "p = (x, y)" by (cases p)
  have "w OR (of_char x XOR of_char y) = 0 \<longleftrightarrow> w = 0 \<and> x = y"
    by (simp add: or_eq_0_iff xor_zero_iff of_char_u8_inj)
  then show ?case using Cons p by auto
qed simp

lemma constant_time_equal_iff: "constant_time_equal a b \<longleftrightarrow> a = b"
proof (cases "length a = length b")
  case True
  have "(\<forall>(x, y) \<in> set (zip a b). x = y) \<longleftrightarrow> a = b"
    using True by (induction a b rule: list_induct2) auto
  then show ?thesis using True by (simp add: constant_time_equal_def fold_or_zero)
qed (auto simp: constant_time_equal_def)

text \<open>A peer is let in exactly when it presents the configured secret, or none is configured.\<close>

lemma auth_gate:
  assumes "json_ok dump parse"
  shows "auth_expect parse tok (case auth_send dump tok' of [] \<Rightarrow> None | f # _ \<Rightarrow> Some f)
     \<longleftrightarrow> tok = None \<or> tok = tok'"
  using assms
  by (cases tok; cases tok')
    (auto simp: auth_expect_def auth_send_def json_ok_def from_header_def has_header_def
      constant_time_equal_iff)

section \<open>The server\<close>

record DispatchHeader =
  dh_subject :: string
  dh_control :: RequestControlMessage

record DispatchAck =
  ack_ok :: bool
  ack_error :: string

record ControlState =
  cs_stopping :: bool
  handlers :: "string \<Rightarrow> nat option"
  queries :: "string \<Rightarrow> (string \<Rightarrow> string res) option"

definition control_new :: ControlState where
  "control_new = \<lparr>cs_stopping = False, handlers = (\<lambda>_. None), queries = (\<lambda>_. None)\<rparr>"

definition register_handler :: "string \<Rightarrow> nat \<Rightarrow> ControlState \<Rightarrow> ControlState" where
  "register_handler subj h s = s\<lparr>handlers := (handlers s)(subj \<mapsto> h)\<rparr>"

definition unregister_handler :: "string \<Rightarrow> ControlState \<Rightarrow> ControlState" where
  "unregister_handler subj s = s\<lparr>handlers := (handlers s)(subj := None)\<rparr>"

definition register_query :: "string \<Rightarrow> (string \<Rightarrow> string res) \<Rightarrow> ControlState \<Rightarrow> ControlState" where
  "register_query subj q s = s\<lparr>queries := (queries s)(subj \<mapsto> q)\<rparr>"

definition unregister_query :: "string \<Rightarrow> ControlState \<Rightarrow> ControlState" where
  "unregister_query subj s = s\<lparr>queries := (queries s)(subj := None)\<rparr>"

text \<open>\<open>dumph\<close>, \<open>parseh\<close> convert headers and \<open>dumpa\<close>, \<open>parsea\<close> acknowledgements.\<close>

definition ack_frame :: "(DispatchAck \<Rightarrow> string) \<Rightarrow> bool \<Rightarrow> string \<Rightarrow> string \<Rightarrow> TwoPartMessage" where
  "ack_frame dumpa ok err payload = from_parts (dumpa \<lparr>ack_ok = ok, ack_error = err\<rparr>) payload"

text \<open>
  One request on a connection: the connection closes, or it answers and perhaps spawns a handler
  with the control message and the payload.
\<close>

datatype control_result = CloseConn | Answer TwoPartMessage "(nat \<times> RequestControlMessage \<times> string) option"

definition control_request ::
  "(DispatchAck \<Rightarrow> string) \<Rightarrow> (string \<Rightarrow> DispatchHeader option) \<Rightarrow> TwoPartMessage \<Rightarrow> ControlState \<Rightarrow> control_result" where
  "control_request dumpa parseh frame s =
     (if \<not> has_header frame then CloseConn
      else case parseh (header frame) of
        None \<Rightarrow> CloseConn
      | Some h \<Rightarrow>
          (case handlers s (dh_subject h) of
             Some i \<Rightarrow> Answer (ack_frame dumpa True [] []) (Some (i, dh_control h, data frame))
           | None \<Rightarrow>
               (case queries s (dh_subject h) of
                  Some q \<Rightarrow> (case q (data frame) of
                               Inl e \<Rightarrow> CloseConn
                             | Inr p \<Rightarrow> Answer (ack_frame dumpa True [] p) None)
                | None \<Rightarrow> Answer (ack_frame dumpa False (''unknown subject: '' @ dh_subject h) []) None)))"

text \<open>
  The loop over the frames of a connection, each with the tables as they are when it is served:
  the answers and the spawned handlers.
\<close>

fun serve_control ::
  "(DispatchAck \<Rightarrow> string) \<Rightarrow> (string \<Rightarrow> DispatchHeader option) \<Rightarrow> (ControlState \<times> TwoPartMessage) list
     \<Rightarrow> TwoPartMessage list \<times> (nat \<times> RequestControlMessage \<times> string) list" where
  "serve_control dumpa parseh [] = ([], [])"
| "serve_control dumpa parseh ((s, f) # fs) =
     (case control_request dumpa parseh f s of
        CloseConn \<Rightarrow> ([], [])
      | Answer a job \<Rightarrow>
          (let (acks, jobs) = serve_control dumpa parseh fs
           in (a # acks, (case job of None \<Rightarrow> jobs | Some t \<Rightarrow> t # jobs))))"

section \<open>The connection pool and a round trip\<close>

definition kMaxIdlePerTarget :: nat where
  "kMaxIdlePerTarget = 8"

type_synonym conn_pool = "string \<Rightarrow> nat list"

definition pool_acquire :: "string \<Rightarrow> conn_pool \<Rightarrow> nat option \<times> conn_pool" where
  "pool_acquire addr p = (if p addr = [] then (None, p) else (Some (last (p addr)), p(addr := butlast (p addr))))"

definition pool_release :: "string \<Rightarrow> nat \<Rightarrow> conn_pool \<Rightarrow> conn_pool" where
  "pool_release addr s p = (if length (p addr) < kMaxIdlePerTarget then p(addr := p addr @ [s]) else p)"

text \<open>How an exchange on a socket turns out.\<close>

datatype exchange = WriteFailed | ReadThrew exn | NoAck | Acked TwoPartMessage

text \<open>
  An attempt on a fresh connection; \<open>connect\<close> is its socket, none when the peer cannot be reached,
  or the exception of a malformed address.  The last component are the sockets the request was
  written to.
\<close>

definition fresh_attempt ::
  "string \<Rightarrow> nat option res \<Rightarrow> bool \<Rightarrow> (nat \<Rightarrow> exchange) \<Rightarrow> (nat \<times> TwoPartMessage) res \<times> nat list" where
  "fresh_attempt addr connect authed exch =
     (case connect of
        Inl e \<Rightarrow> (Inl e, [])
      | Inr None \<Rightarrow> (Inl (RuntimeError (''control plane: cannot reach instance at '' @ addr)), [])
      | Inr (Some s) \<Rightarrow>
          if \<not> authed then (Inl (RuntimeError (''control plane: failed to authenticate to '' @ addr)), [])
          else case exch s of
            WriteFailed \<Rightarrow> (Inl (RuntimeError (''control plane: failed to send request to '' @ addr)), [])
          | ReadThrew e \<Rightarrow> (Inl e, [s])
          | NoAck \<Rightarrow> (Inl (RuntimeError (''control plane: no ack from '' @ addr @ '' (peer closed or timed out)'')), [s])
          | Acked m \<Rightarrow> (Inr (s, m), [s]))"

definition roundtrip ::
  "string \<Rightarrow> conn_pool \<Rightarrow> nat option res \<Rightarrow> bool \<Rightarrow> (nat \<Rightarrow> exchange)
     \<Rightarrow> ((nat \<times> TwoPartMessage) res \<times> nat list) \<times> conn_pool" where
  "roundtrip addr p connect authed exch =
     (case pool_acquire addr p of
        (None, p1) \<Rightarrow> (fresh_attempt addr connect authed exch, p1)
      | (Some s, p1) \<Rightarrow>
          (case exch s of
             Acked m \<Rightarrow> ((Inr (s, m), [s]), p1)
           | WriteFailed \<Rightarrow> (fresh_attempt addr connect authed exch, p1)
           | _ \<Rightarrow> (let (r, sent) = fresh_attempt addr connect authed exch in ((r, s # sent), p1))))"

text \<open>\<open>dispatch_request\<close> and \<open>dispatch_query\<close>; \<open>kind\<close> is the word in the error message.\<close>

definition finish_roundtrip ::
  "(string \<Rightarrow> DispatchAck option) \<Rightarrow> string \<Rightarrow> string \<Rightarrow> ((nat \<times> TwoPartMessage) res \<times> nat list) \<times> conn_pool
     \<Rightarrow> string res \<times> conn_pool" where
  "finish_roundtrip parsea kind addr = (\<lambda>((r, sent), p).
     case r of
       Inl e \<Rightarrow> (Inl e, p)
     | Inr (s, m) \<Rightarrow>
         (case parsea (header m) of
            None \<Rightarrow> (Inl (RuntimeError ''json''), p)
          | Some a \<Rightarrow>
              if \<not> ack_ok a then (Inl (RuntimeError (''control plane: '' @ kind @ '' rejected: '' @ ack_error a)), p)
              else (Inr (data m), pool_release addr s p)))"

definition dispatch_request ::
  "(string \<Rightarrow> DispatchAck option) \<Rightarrow> string \<Rightarrow> conn_pool \<Rightarrow> nat option res \<Rightarrow> bool \<Rightarrow> (nat \<Rightarrow> exchange)
     \<Rightarrow> unit res \<times> conn_pool" where
  "dispatch_request parsea addr p connect authed exch =
     (let (r, p1) = finish_roundtrip parsea ''dispatch'' addr (roundtrip addr p connect authed exch)
      in (rbind r (\<lambda>_. Inr ()), p1))"

definition dispatch_query ::
  "(string \<Rightarrow> DispatchAck option) \<Rightarrow> string \<Rightarrow> conn_pool \<Rightarrow> nat option res \<Rightarrow> bool \<Rightarrow> (nat \<Rightarrow> exchange)
     \<Rightarrow> string res \<times> conn_pool" where
  "dispatch_query parsea addr p connect authed exch =
     finish_roundtrip parsea ''query'' addr (roundtrip addr p connect authed exch)"

lemma pool_bounded:
  assumes "\<forall>a. length (p a) \<le> kMaxIdlePerTarget"
  shows "\<forall>a. length (snd (pool_acquire addr p) a) \<le> kMaxIdlePerTarget"
    and "\<forall>a. length (pool_release addr s p a) \<le> kMaxIdlePerTarget"
proof -
  have "length (p addr) - Suc 0 \<le> kMaxIdlePerTarget" using assms by (meson diff_le_self le_trans)
  then show "\<forall>a. length (snd (pool_acquire addr p) a) \<le> kMaxIdlePerTarget"
    using assms by (auto simp: pool_acquire_def)
  show "\<forall>a. length (pool_release addr s p a) \<le> kMaxIdlePerTarget"
    using assms by (auto simp: pool_release_def)
qed

text \<open>
  A request is written at most twice, and the second time only after a pooled connection took it
  and no acknowledgement came back.  So a slow acknowledgement on a pooled connection, which the
  receive timeout turns into a failed read, makes the request run twice.
\<close>

lemma roundtrip_sends:
  "length (snd (fst (roundtrip addr p connect authed exch))) \<le> 2"
  "length (snd (fst (roundtrip addr p connect authed exch))) = 2 \<Longrightarrow>
     \<exists>s. fst (pool_acquire addr p) = Some s \<and> (exch s = NoAck \<or> (\<exists>e. exch s = ReadThrew e))"
proof -
  have f: "length (snd (fresh_attempt addr connect authed exch)) \<le> 1"
    by (auto simp: fresh_attempt_def split: sum.split option.split exchange.split)
  then show "length (snd (fst (roundtrip addr p connect authed exch))) \<le> 2"
    by (auto simp: roundtrip_def case_prod_unfold Let_def split: option.split exchange.split)
  show "\<exists>s. fst (pool_acquire addr p) = Some s \<and> (exch s = NoAck \<or> (\<exists>e. exch s = ReadThrew e))"
    if "length (snd (fst (roundtrip addr p connect authed exch))) = 2"
    using f that
    by (auto simp: roundtrip_def case_prod_unfold Let_def split: option.splits exchange.splits)
qed

lemma slow_ack_sends_twice:
  assumes "p addr = [s]" "exch s = ReadThrew e" "exch s' = Acked m" "s \<noteq> s'"
  shows "fst (roundtrip addr p (Inr (Some s')) True exch) = (Inr (s', m), [s, s'])"
  using assms by (simp add: roundtrip_def pool_acquire_def fresh_attempt_def)

section \<open>Serving an endpoint\<close>

definition endpoint_info :: "ServiceEndpoint \<Rightarrow> int \<Rightarrow> string \<Rightarrow> string \<Rightarrow> string \<Rightarrow> EndpointInfo" where
  "endpoint_info e lease addr desc ver =
     \<lparr>namespace_name = ns_name (cp_namespace (ep_component e)), ei_component = cp_name (ep_component e),
      ei_endpoint = ep_name e, instance_id = lease, transport = ''dyn-tcp'', address = addr,
      subject = subject_for e lease,
      description = (if desc = [] then ''dynamo-cpp endpoint '' @ component_path (ep_component e) @ ''.'' @ ep_name e
                     else desc),
      version = ver\<rparr>"

text \<open>
  \<open>serve_impl\<close> up to the wait for the lease: the handlers are registered, the queue is joined, and
  the instance is created in discovery, bound to the lease; when that fails everything is undone.
  \<open>serve_end\<close> is what follows the wait.
\<close>

definition serve_begin ::
  "(EndpointInfo \<Rightarrow> string) \<Rightarrow> ServiceEndpoint \<Rightarrow> int \<Rightarrow> EndpointInfo \<Rightarrow> bool \<Rightarrow> nat \<Rightarrow> (string \<Rightarrow> string res)
     \<Rightarrow> ControlState \<Rightarrow> Store \<Rightarrow> unit res \<times> ControlState \<times> Store" where
  "serve_begin dumpi e lease info queue_group h q cs st =
     (let subj = subject_for e lease;
          cs1 = register_query (stats_subject subj) q (register_handler subj h cs);
          (sink, st1) = (if queue_group then subscribe (queue_subject e) st else (0, st));
          (r, st2) = kv_create (instance_key e lease) (dumpi info) (Some lease) st1
      in case r of
           Inl ex \<Rightarrow> (Inl ex, unregister_query (stats_subject subj) (unregister_handler subj cs1),
                      if queue_group then drop_subscription sink st2 else st2)
         | Inr _ \<Rightarrow> (Inr (), cs1, st2))"

definition serve_end :: "ServiceEndpoint \<Rightarrow> int \<Rightarrow> ControlState \<Rightarrow> ControlState" where
  "serve_end e lease cs =
     unregister_query (stats_subject (subject_for e lease)) (unregister_handler (subject_for e lease) cs)"

lemmas control_defs = register_handler_def unregister_handler_def register_query_def unregister_query_def

text \<open>A registration that fails leaves the tables of the control plane and the keys as they were.\<close>

lemma serve_failure_undone:
  assumes "serve_begin dumpi e lease info queue_group h q cs st = (Inl ex, cs', st')"
    and "handlers cs (subject_for e lease) = None" "queries cs (stats_subject (subject_for e lease)) = None"
  shows "cs' = cs" "kvs st' = kvs st"
proof -
  obtain sink st1 where sub: "(if queue_group then subscribe (queue_subject e) st else (0, st)) = (sink, st1)"
    by (metis prod.exhaust)
  have kv1: "kvs st1 = kvs st" using sub by (auto simp: subscribe_def Let_def split: if_splits)
  obtain r st2 where k: "kv_create (instance_key e lease) (dumpi info) (Some lease) st1 = (r, st2)"
    by (metis prod.exhaust)
  have st2: "r = Inl ex" "kvs st' = kvs st2"
    "cs' = serve_end e lease (register_query (stats_subject (subject_for e lease)) q (register_handler (subject_for e lease) h cs))"
    using assms(1)
    by (auto simp: serve_begin_def serve_end_def Let_def sub k drop_subscription_def split: sum.splits)
  have "(handlers cs)(subject_for e lease := None) = handlers cs"
    "(queries cs)(stats_subject (subject_for e lease) := None) = queries cs"
    using assms(2,3) by (simp_all add: fun_eq_iff)
  then show "cs' = cs" using st2(3) by (cases cs) (simp add: serve_end_def control_defs)
  show "kvs st' = kvs st"
    using st2(1,2) k kv1
    by (cases "instance_key e lease" "dumpi info" "Some lease" st1 rule: kv_create_cases) auto
qed

lemma serve_success:
  assumes "serve_begin dumpi e lease info queue_group h q cs st = (Inr (), cs', st')" "om_ok (kvs st)"
  shows "handlers cs' (subject_for e lease) = Some h"
    and "\<exists>kv. map_of (kvs st') (instance_key e lease) = Some kv \<and> kv_value kv = dumpi info \<and> kv_lease_id kv = lease"
proof -
  obtain sink st1 where sub: "(if queue_group then subscribe (queue_subject e) st else (0, st)) = (sink, st1)"
    by (metis prod.exhaust)
  have kv1: "om_ok (kvs st1)" using sub assms(2) by (auto simp: subscribe_def Let_def split: if_splits)
  obtain r st2 where k: "kv_create (instance_key e lease) (dumpi info) (Some lease) st1 = (r, st2)"
    by (metis prod.exhaust)
  have c: "kv_create (instance_key e lease) (dumpi info) (Some lease) st1 = (Inr (), st')"
    "cs' = register_query (stats_subject (subject_for e lease)) q (register_handler (subject_for e lease) h cs)"
    using assms(1) k by (auto simp: serve_begin_def Let_def sub split: sum.splits)
  show "handlers cs' (subject_for e lease) = Some h" using c(2) by (simp add: control_defs)
  show "\<exists>kv. map_of (kvs st') (instance_key e lease) = Some kv \<and> kv_value kv = dumpi info \<and> kv_lease_id kv = lease"
    using c(1) kv1
    by (cases "instance_key e lease" "dumpi info" "Some lease" st1 rule: kv_create_cases)
      (auto simp: kvs_commit_write map_of_put lease_arg_def)
qed

section \<open>Properties\<close>

text \<open>What a request meets on a connection to a server with tables \<open>cs\<close>.\<close>

definition talk :: "(DispatchAck \<Rightarrow> string) \<Rightarrow> (string \<Rightarrow> DispatchHeader option) \<Rightarrow> TwoPartMessage \<Rightarrow> ControlState
    \<Rightarrow> nat \<Rightarrow> exchange" where
  "talk dumpa parseh frame cs s =
     (case control_request dumpa parseh frame cs of CloseConn \<Rightarrow> NoAck | Answer a job \<Rightarrow> Acked a)"

lemma dispatch_answered:
  assumes "json_ok dumpa parsea" "\<And>s. exch s = Acked (ack_frame dumpa ok err payload)"
  shows "fst (dispatch_request parsea addr p (Inr (Some s)) True exch)
     = (if ok then Inr () else Inl (RuntimeError (''control plane: dispatch rejected: '' @ err)))"
  using assms
  by (simp add: dispatch_request_def finish_roundtrip_def roundtrip_def fresh_attempt_def json_ok_def
      ack_frame_def from_parts_def case_prod_unfold Let_def split: option.split)

text \<open>C28.  A served instance can be found and called.  After an endpoint was registered, discovery has
  its description under its key, bound to its lease; a request dispatched to the subject in that
  description is acknowledged and handed to the handler of the endpoint with its control message and
  payload unchanged; and after serving ended the same dispatch is rejected as an unknown subject.\<close>

theorem served_instance_answers:
  assumes serve: "serve_begin dumpi e lease info queue_group h q cs st = (Inr (), cs', st')" "om_ok (kvs st)"
    and info: "info = endpoint_info e lease addr desc ver" "queries cs (subject_for e lease) = None"
    and json: "parsei (dumpi info) = Some info" "json_ok dumpa parsea"
    and hdr: "parseh (dumph hdr) = Some hdr" "dumph hdr \<noteq> []" "dh_subject hdr = subject info"
  shows "(\<exists>kv. map_of (kvs st') (instance_key e lease) = Some kv \<and> kv_lease_id kv = lease
            \<and> parsei (kv_value kv) = Some info)
    \<and> (\<exists>ack. control_request dumpa parseh (from_parts (dumph hdr) payload) cs'
            = Answer ack (Some (h, dh_control hdr, payload)))
    \<and> fst (dispatch_request parsea addr p (Inr (Some s)) True
            (talk dumpa parseh (from_parts (dumph hdr) payload) cs')) = Inr ()
    \<and> fst (dispatch_request parsea addr p (Inr (Some s)) True
            (talk dumpa parseh (from_parts (dumph hdr) payload) (serve_end e lease cs')))
        = Inl (RuntimeError (''control plane: dispatch rejected: unknown subject: '' @ subject_for e lease))"
proof -
  let ?f = "from_parts (dumph hdr) payload" and ?subj = "subject_for e lease"
  have subj: "dh_subject hdr = ?subj" using hdr(3) info(1) by (simp add: endpoint_info_def)
  have frame: "has_header ?f" "header ?f = dumph hdr" "data ?f = payload"
    using hdr(2) by (simp_all add: has_header_def from_parts_def)
  have up: "control_request dumpa parseh ?f cs' = Answer (ack_frame dumpa True [] []) (Some (h, dh_control hdr, payload))"
    using serve_success(1) [OF serve] frame hdr(1) subj by (simp add: control_request_def)
  have "stats_subject ?subj \<noteq> ?subj" by (simp add: stats_subject_def)
  moreover have "queries cs' ?subj = queries cs ?subj \<or> ?subj = stats_subject ?subj"
    using serve(1) by (auto simp: serve_begin_def Let_def control_defs case_prod_unfold split: sum.splits)
  ultimately have "queries (serve_end e lease cs') ?subj = None" "handlers (serve_end e lease cs') ?subj = None"
    using info(2) by (auto simp: serve_end_def control_defs)
  then have down: "control_request dumpa parseh ?f (serve_end e lease cs')
      = Answer (ack_frame dumpa False (''unknown subject: '' @ ?subj) []) None"
    using frame hdr(1) subj by (simp add: control_request_def)
  have "fst (dispatch_request parsea addr p (Inr (Some s)) True (talk dumpa parseh ?f cs')) = Inr ()"
    using dispatch_answered [OF json(2), of "talk dumpa parseh ?f cs'" True "[]" "[]"] up by (simp add: talk_def)
  moreover have "fst (dispatch_request parsea addr p (Inr (Some s)) True (talk dumpa parseh ?f (serve_end e lease cs')))
      = Inl (RuntimeError (''control plane: dispatch rejected: unknown subject: '' @ ?subj))"
    using dispatch_answered [OF json(2), of "talk dumpa parseh ?f (serve_end e lease cs')" False "''unknown subject: '' @ ?subj" "[]"]
      down by (simp add: talk_def)
  ultimately show ?thesis using up serve_success(2) [OF serve] json(1) by auto
qed

theorem served_instance_answers_witness:
  "\<exists>cs' st'. serve_begin (\<lambda>_. ''i'') demo_endpoint 1 (endpoint_info demo_endpoint 1 ''h:1'' [] ''0.1.0'') False 7 Inr
       control_new (fold step [MakeLease False] new_store) = (Inr (), cs', st')
     \<and> fst (dispatch_request (\<lambda>s. case s of [] \<Rightarrow> None | c # t \<Rightarrow> Some \<lparr>ack_ok = (c = CHR ''t''), ack_error = t\<rparr>)
          ''h:1'' (\<lambda>_. []) (Inr (Some 3)) True
          (talk (\<lambda>a. (if ack_ok a then CHR ''t'' else CHR ''f'') # ack_error a)
             (\<lambda>_. Some \<lparr>dh_subject = subject_for demo_endpoint 1, dh_control =
                \<lparr>rc_id = [], request_type = [], response_type = [], connection_info = undefined\<rparr>\<rparr>)
             (from_parts ''h'' ''p'') cs')) = Inr ()"
proof -
  define ctl :: RequestControlMessage where
    "ctl = \<lparr>rc_id = [], request_type = [], response_type = [], connection_info = undefined\<rparr>"
  define hdr where "hdr = \<lparr>dh_subject = subject_for demo_endpoint 1, dh_control = ctl\<rparr>"
  define info where "info = endpoint_info demo_endpoint 1 ''h:1'' [] ''0.1.0''"
  let ?st = "fold step [MakeLease False] new_store"
  let ?dumpa = "\<lambda>a. (if ack_ok a then CHR ''t'' else CHR ''f'') # ack_error a"
  let ?parsea = "\<lambda>s. case s of [] \<Rightarrow> None | c # t \<Rightarrow> Some \<lparr>ack_ok = (c = CHR ''t''), ack_error = t\<rparr>"
  define res where "res = serve_begin (\<lambda>_. ''i'') demo_endpoint 1 info False 7 Inr control_new ?st"
  have "fst res = Inr ()" "om_ok (kvs ?st)"
    by (simp_all add: res_def serve_begin_def kv_create_def new_store_def make_lease_def lease_arg_def Let_def)
  then obtain cs' st' where res: "serve_begin (\<lambda>_. ''i'') demo_endpoint 1 info False 7 Inr control_new ?st = (Inr (), cs', st')"
    and ok: "om_ok (kvs ?st)"
    unfolding res_def by (metis prod.exhaust fst_conv)
  have j: "json_ok ?dumpa ?parsea" by (simp add: json_ok_def)
  have q: "queries control_new (subject_for demo_endpoint 1) = None" by (simp add: control_new_def)
  have s: "dh_subject hdr = subject info" by (simp add: hdr_def info_def endpoint_info_def)
  show ?thesis
    using served_instance_answers [OF res ok info_def q, of "\<lambda>_. Some info" ?dumpa ?parsea "\<lambda>_. Some hdr" "\<lambda>_. ''h''" hdr
        "''p''" "\<lambda>_. []" 3, OF refl j refl _ s] res
    unfolding hdr_def ctl_def info_def by blast
qed

end
