(* ===== verification/Sse.thy ===== *)
theory Sse
  imports Prelude
begin

text \<open>
  The Server-Sent-Events codec (\<open>llm/protocols/sse.h\<close>, \<open>sse.cpp\<close>) and the response
  envelope (\<open>pipeline/annotated.h\<close>): the incremental decoder with its line buffer and
  pending fields, the encoder, and the conversion of a message to an envelope. JSON
  parsing of a data field is a parameter. The two main facts are that the decoder does not
  see how the byte stream is cut into chunks, and that of encoded messages with single-line
  fields it gives exactly what the line format carries: the messages themselves when their
  fields survive it.
\<close>

section \<open>The envelope\<close>

record 'r Annotated =
  an_data :: "'r option"
  an_id :: "string option"
  an_event :: "string option"
  an_comment :: "string list option"

definition an_from_data :: "'r \<Rightarrow> 'r Annotated" where
  "an_from_data v = \<lparr>an_data = Some v, an_id = None, an_event = None, an_comment = None\<rparr>"

definition an_from_error :: "string \<Rightarrow> 'r Annotated" where
  "an_from_error msg =
     \<lparr>an_data = None, an_id = None, an_event = Some ''error'', an_comment = Some [msg]\<rparr>"

definition from_annotation :: "('j \<Rightarrow> string) \<Rightarrow> string \<Rightarrow> 'j \<Rightarrow> 'r Annotated" where
  "from_annotation dump name v =
     \<lparr>an_data = None, an_id = None, an_event = Some name, an_comment = Some [dump v]\<rparr>"

definition is_error :: "'r Annotated \<Rightarrow> bool" where
  "is_error a = (an_event a = Some ''error'')"

definition is_event :: "'r Annotated \<Rightarrow> bool" where
  "is_event a = (an_event a \<noteq> None)"

definition into_result :: "'r Annotated \<Rightarrow> 'r option res" where
  "into_result a =
     (if is_error a
      then Inl (RuntimeError (case an_comment a of Some (c # cs) \<Rightarrow> c | _ \<Rightarrow> ''unknown error''))
      else Inr (an_data a))"

lemma into_result_from [simp]:
  "into_result (an_from_error msg) = Inl (RuntimeError msg)"
  "into_result (an_from_data v) = Inr (Some v)"
  by (simp_all add: into_result_def is_error_def an_from_error_def an_from_data_def)

section \<open>Messages and the decoder\<close>

definition nl :: char where "nl = CHR 0x0A"
definition cr :: char where "cr = CHR 0x0D"
definition tab :: char where "tab = CHR 0x09"
definition nul :: char where "nul = CHR 0x00"

definition kSseDoneSentinel :: string where
  "kSseDoneSentinel = ''[DONE]''"

record SseMessage =
  m_id :: "string option"
  m_event :: "string option"
  m_data :: "string option"
  m_comments :: "string list option"

definition m_empty :: "SseMessage \<Rightarrow> bool" where
  "m_empty m = (m_id m = None \<and> m_event m = None \<and> m_data m = None \<and> m_comments m = None)"

text \<open>\<open>parse\<close> is \<open>nlohmann::json::parse(...).get<T>()\<close>: a value, or the text of the exception.\<close>

definition decode_data :: "(string \<Rightarrow> string + 'r) \<Rightarrow> SseMessage \<Rightarrow> 'r res" where
  "decode_data parse m =
     (case m_data m of
        None \<Rightarrow> Inl (RuntimeError ''no data: message to decode'')
      | Some d \<Rightarrow>
          (case parse d of
             Inl what \<Rightarrow> Inl (RuntimeError (''failed to deserialize data: '' @ what))
           | Inr v \<Rightarrow> Inr v))"

record SseDecoder =
  line_buffer :: string
  pd_data :: string
  pd_event :: string
  pd_id :: string
  pd_comments :: "string list"

definition new_decoder :: SseDecoder where
  "new_decoder = \<lparr>line_buffer = [], pd_data = [], pd_event = [], pd_id = [], pd_comments = []\<rparr>"

definition strip_back :: "(char \<Rightarrow> bool) \<Rightarrow> string \<Rightarrow> string" where
  "strip_back p s = rev (dropWhile p (rev s))"

definition trim :: "string \<Rightarrow> string" where
  "trim s =
     strip_back (\<lambda>c. c = CHR '' '' \<or> c = tab) (dropWhile (\<lambda>c. c = CHR '' '' \<or> c = tab) s)"

text \<open>\<open>find(c)\<close> on a view: the first position, or \<open>npos\<close>.\<close>

definition find_char :: "char \<Rightarrow> string \<Rightarrow> nat option" where
  "find_char c s = (if c \<in> set s then Some (length (takeWhile ((\<noteq>) c) s)) else None)"

definition opt_str :: "'a list \<Rightarrow> 'a list option" where
  "opt_str s = (if s = [] then None else Some s)"

definition take_pending :: "SseDecoder \<Rightarrow> SseMessage option \<times> SseDecoder" where
  "take_pending d =
     (if pd_data d = [] \<and> pd_event d = [] \<and> pd_id d = [] \<and> pd_comments d = [] then (None, d)
      else
        let body = (if pd_data d \<noteq> [] \<and> last (pd_data d) = nl then butlast (pd_data d) else pd_data d);
            m = \<lparr>m_id = opt_str (pd_id d), m_event = opt_str (pd_event d),
                 m_data = opt_str body, m_comments = opt_str (pd_comments d)\<rparr>;
            d' = d\<lparr>pd_data := [], pd_id := [], pd_event := [], pd_comments := []\<rparr>
        in (if m_empty m then None else Some m, d'))"

text \<open>The dispatch on the field name; \<open>retry\<close> and unknown fields are ignored.\<close>

definition set_field :: "string \<Rightarrow> string \<Rightarrow> SseDecoder \<Rightarrow> SseDecoder" where
  "set_field field_name field_value d =
     (if field_name = ''event'' then d\<lparr>pd_event := field_value\<rparr>
      else if field_name = ''data'' then
        (if field_value \<noteq> kSseDoneSentinel
         then d\<lparr>pd_data := (if pd_data d \<noteq> [] then pd_data d @ [nl] else pd_data d) @ field_value\<rparr>
         else d)
      else if field_name = ''id'' then
        (if nul \<notin> set field_value then d\<lparr>pd_id := field_value\<rparr> else d)
      else d)"

definition split_field :: "string \<Rightarrow> string \<times> string" where
  "split_field line =
     (case find_char (CHR '':'') line of
        None \<Rightarrow> (line, [])
      | Some i \<Rightarrow> (take i line, dropWhile (\<lambda>c. c = CHR '' '') (drop (Suc i) line)))"

definition process_line ::
  "string \<Rightarrow> SseDecoder \<Rightarrow> SseMessage list \<times> SseDecoder" where
  "process_line raw d =
     (let line = strip_back (\<lambda>c. c = cr \<or> c = nl) raw in
      if line = [] then
        (case take_pending d of (None, d') \<Rightarrow> ([], d') | (Some m, d') \<Rightarrow> ([m], d'))
      else if hd line = CHR '':'' then
        ([], d\<lparr>pd_comments := pd_comments d @ [trim (tl line)]\<rparr>)
      else
        let (field_name, field_value) = split_field line
        in ([], set_field field_name field_value d))"

lemma find_char_append: "c \<notin> set a \<Longrightarrow> find_char c (a @ c # b) = Some (length a)"
  by (induction a) (auto simp: find_char_def)

lemma find_char_None [simp]:
  "find_char c s = None \<longleftrightarrow> c \<notin> set s"
  "c \<notin> set s \<Longrightarrow> find_char c s = None"
  by (simp_all add: find_char_def)

lemma find_char_SomeE:
  assumes "find_char c s = Some n"
  obtains a b where "s = a @ c # b" "c \<notin> set a" "n = length a"
proof -
  from assms have "c \<in> set s" by (auto simp: find_char_def split: if_splits)
  then obtain a b where ab: "s = a @ c # b" "c \<notin> set a" by (meson split_list_first)
  with assms have "n = length a" by (simp add: find_char_append)
  with ab show thesis by (rule that)
qed

lemma find_char_less: "find_char c s = Some n \<Longrightarrow> n < length s"
  by (erule find_char_SomeE) simp

function sse_feed :: "SseDecoder \<Rightarrow> string \<Rightarrow> SseMessage list \<times> SseDecoder" where
  "sse_feed d chunk =
     (case find_char nl chunk of
        None \<Rightarrow> ([], d\<lparr>line_buffer := line_buffer d @ chunk\<rparr>)
      | Some n \<Rightarrow>
          let (out, d1) =
                (if line_buffer d \<noteq> [] then
                   let b = line_buffer d @ take n chunk;
                       (o1, d') = process_line b (d\<lparr>line_buffer := b\<rparr>)
                   in (o1, d'\<lparr>line_buffer := []\<rparr>)
                 else process_line (take n chunk) d);
              (rest, d2) = sse_feed d1 (drop (Suc n) chunk)
          in (out @ rest, d2))"
  by pat_completeness auto
termination
  by (relation "measure (\<lambda>(d, chunk). length chunk)") (auto dest: find_char_less)

declare sse_feed.simps [simp del]

definition finish :: "SseDecoder \<Rightarrow> SseMessage option \<times> SseDecoder" where
  "finish d =
     (let (out, d1) =
            (if line_buffer d \<noteq> [] then
               let (o1, d') = process_line (line_buffer d) d in (o1, d'\<lparr>line_buffer := []\<rparr>)
             else ([], d))
      in case out of m # ms \<Rightarrow> (Some m, d1) | [] \<Rightarrow> take_pending d1)"

section \<open>The encoder\<close>

function encode_data :: "string \<Rightarrow> string" where
  "encode_data s =
     (case find_char nl s of
        None \<Rightarrow> ''data: '' @ s @ [nl]
      | Some n \<Rightarrow> ''data: '' @ take n s @ [nl] @ encode_data (drop (Suc n) s))"
  by pat_completeness auto
termination
  by (relation "measure length") (auto dest: find_char_less)

declare encode_data.simps [simp del]

definition encode_sse :: "SseMessage \<Rightarrow> string" where
  "encode_sse m =
     (case m_comments m of None \<Rightarrow> [] | Some cs \<Rightarrow> concat (map (\<lambda>c. '': '' @ c @ [nl]) cs))
     @ (case m_id m of None \<Rightarrow> [] | Some s \<Rightarrow> ''id: '' @ s @ [nl])
     @ (case m_event m of None \<Rightarrow> [] | Some s \<Rightarrow> ''event: '' @ s @ [nl])
     @ (case m_data m of None \<Rightarrow> [] | Some s \<Rightarrow> encode_data s)
     @ [nl]"

definition encode_sse_done :: string where
  "encode_sse_done = ''data: [DONE]'' @ [nl, nl]"

definition join_lines :: "string list \<Rightarrow> string" where
  "join_lines cs = (case cs of [] \<Rightarrow> [] | c # cs \<Rightarrow> c @ concat (map ((#) nl) cs))"

text \<open>\<open>std::exception::what\<close>.\<close>

fun what :: "exn \<Rightarrow> string" where
  "what (RuntimeError s) = s"
| "what (InvalidArgument s) = s"
| "what (OutOfRange s) = s"
| "what (LengthError s) = s"
| "what (LogicError s) = s"

definition annotated_from_sse :: "(string \<Rightarrow> string + 'r) \<Rightarrow> SseMessage \<Rightarrow> 'r Annotated" where
  "annotated_from_sse parse m =
     (if m_event m = Some ''error'' then
        an_from_error
          (case m_comments m of
             Some (c # cs) \<Rightarrow> join_lines (c # cs)
           | _ \<Rightarrow> ''`event: error` detected, but no error message found'')
      else
        let env = \<lambda>v. \<lparr>an_data = v, an_id = m_id m, an_event = m_event m,
                       an_comment = m_comments m\<rparr>
        in case m_data m of
             None \<Rightarrow> env None
           | Some _ \<Rightarrow>
               (case decode_data parse m of
                  Inr v \<Rightarrow> env (Some v)
                | Inl e \<Rightarrow> an_from_error (what e)))"

text \<open>
  An envelope that does not report an error carries exactly the parsed data field.
\<close>

lemma annotated_from_sse_result:
  assumes "into_result (annotated_from_sse parse m) = Inr r"
  shows "m_event m \<noteq> Some ''error''"
    and "r = map_option (\<lambda>d. case parse d of Inr v \<Rightarrow> v | Inl w \<Rightarrow> undefined) (m_data m)"
  using assms
  by (auto simp: annotated_from_sse_def decode_data_def Let_def into_result_def is_error_def
      an_from_error_def split: option.splits sum.splits exn.splits if_splits)

section \<open>Chunking\<close>

text \<open>The stream read chunk by chunk.\<close>

primrec feed_all :: "SseDecoder \<Rightarrow> string list \<Rightarrow> SseMessage list \<times> SseDecoder" where
  "feed_all d [] = ([], d)"
| "feed_all d (c # cs) =
     (let (out, d1) = sse_feed d c; (rest, d2) = feed_all d1 cs in (out @ rest, d2))"

text \<open>One complete line: buffered text and the rest of the line together.\<close>

definition line_step :: "string \<Rightarrow> SseDecoder \<Rightarrow> SseMessage list \<times> SseDecoder" where
  "line_step line d = process_line line (d\<lparr>line_buffer := []\<rparr>)"

lemma take_pending_buffer:
  "take_pending (d\<lparr>line_buffer := b\<rparr>) =
     (fst (take_pending d), (snd (take_pending d))\<lparr>line_buffer := b\<rparr>)"
  by (simp add: take_pending_def Let_def)

lemma set_field_buffer:
  "set_field n v (d\<lparr>line_buffer := b\<rparr>) = (set_field n v d)\<lparr>line_buffer := b\<rparr>"
  by (simp add: set_field_def)

lemma process_line_buffer:
  "process_line l (d\<lparr>line_buffer := b\<rparr>) =
     (fst (process_line l d), (snd (process_line l d))\<lparr>line_buffer := b\<rparr>)"
  by (cases "take_pending d")
    (simp add: process_line_def take_pending_buffer set_field_buffer Let_def split_beta
      split: option.split)

lemma line_step_buffer: "line_step l (d\<lparr>line_buffer := b\<rparr>) = line_step l d"
  by (simp add: line_step_def)

lemma line_step_clears: "line_buffer (snd (line_step l d)) = []"
  by (simp add: line_step_def process_line_buffer)

lemma feed_no_nl: "nl \<notin> set s \<Longrightarrow> sse_feed d s = ([], d\<lparr>line_buffer := line_buffer d @ s\<rparr>)"
  by (subst sse_feed.simps) simp

lemma feed_line:
  assumes "nl \<notin> set a"
  shows "sse_feed d (a @ nl # b) =
     (let (out, d1) = line_step (line_buffer d @ a) d; (rest, d2) = sse_feed d1 b in (out @ rest, d2))"
proof (cases "line_buffer d = []")
  case True
  then have "d\<lparr>line_buffer := []\<rparr> = d" by (cases d) simp
  then have "line_step (line_buffer d @ a) d = process_line a d"
    by (simp only: line_step_def True append_Nil)
  then show ?thesis
    by (subst sse_feed.simps) (simp add: find_char_append [OF assms] True)
next
  case False
  then have "sse_feed d (a @ nl # b) =
     (let (out, d1) = (let (o1, d') = process_line (line_buffer d @ a) (d\<lparr>line_buffer := line_buffer d @ a\<rparr>)
            in (o1, d'\<lparr>line_buffer := []\<rparr>)); (rest, d2) = sse_feed d1 b in (out @ rest, d2))"
    by (subst sse_feed.simps) (simp add: find_char_append [OF assms] Let_def)
  then show ?thesis
    by (simp add: line_step_def process_line_buffer split_beta)
qed

lemma feed_append:
  "sse_feed d (a @ b) = (let (out, d1) = sse_feed d a; (rest, d2) = sse_feed d1 b in (out @ rest, d2))"
proof (induction "length a" arbitrary: a d rule: less_induct)
  case less
  show ?case
  proof (cases "nl \<in> set a")
    case True
    then obtain l r where a: "a = l @ nl # r" and l: "nl \<notin> set l" by (meson split_list_first)
    have "sse_feed d' (r @ b) = (let (out, d1) = sse_feed d' r; (rest, d2) = sse_feed d1 b in (out @ rest, d2))" for d'
      by (rule less) (simp add: a)
    then show ?thesis
      by (simp add: a feed_line [OF l] Let_def split_beta)
  next
    case na: False
    show ?thesis
    proof (cases "nl \<in> set b")
      case True
      then obtain l r where b: "b = l @ nl # r" and l: "nl \<notin> set l" by (meson split_list_first)
      from na l have "nl \<notin> set (a @ l)" by simp
      from feed_line [OF this, of d r] feed_line [OF l, of "d\<lparr>line_buffer := line_buffer d @ a\<rparr>" r]
      show ?thesis by (simp add: b feed_no_nl [OF na] line_step_buffer Let_def split_beta)
    next
      case False
      with na show ?thesis by (simp add: feed_no_nl Let_def)
    qed
  qed
qed

lemma feed_concat: "feed_all d cs = sse_feed d (concat cs)"
  by (induction cs arbitrary: d) (simp_all add: feed_no_nl feed_append)

section \<open>Decoding what the encoder wrote\<close>

text \<open>
  What the line format carries of a message whose comments, identifier and event are single
  lines. A value loses the carriage returns at its end and the spaces at its front, a comment all
  outer blanks; an identifier with a zero byte is dropped; data lines are joined with line breaks,
  except that the sentinel disappears, that there is no separator before the first line that is
  not empty, and that one final line break is removed.
\<close>

definition one_line :: "string \<Rightarrow> bool" where
  "one_line s = (nl \<notin> set s)"

function split_lines :: "string \<Rightarrow> string list" where
  "split_lines s =
     (case find_char nl s of
        None \<Rightarrow> [s]
      | Some n \<Rightarrow> take n s # split_lines (drop (Suc n) s))"
  by pat_completeness auto
termination
  by (relation "measure length") (auto dest: find_char_less)

declare split_lines.simps [simp del]

definition opt_all :: "('a \<Rightarrow> bool) \<Rightarrow> 'a option \<Rightarrow> bool" where
  "opt_all p v = (case v of None \<Rightarrow> True | Some a \<Rightarrow> p a)"

definition field_lines :: "SseMessage \<Rightarrow> bool" where
  "field_lines m = (opt_all (list_all one_line) (m_comments m) \<and> opt_all one_line (m_id m) \<and> opt_all one_line (m_event m))"

definition strip_end :: "string \<Rightarrow> string" where
  "strip_end v = strip_back (\<lambda>c. c = cr \<or> c = nl) v"

definition carried :: "string \<Rightarrow> string" where
  "carried v = dropWhile (\<lambda>c. c = CHR '' '') (strip_end v)"

definition add_line :: "string \<Rightarrow> string \<Rightarrow> string" where
  "add_line acc l =
     (if carried l = kSseDoneSentinel then acc
      else if acc = [] then carried l else acc @ nl # carried l)"

definition drop_final_nl :: "string \<Rightarrow> string" where
  "drop_final_nl s = (if s \<noteq> [] \<and> last s = nl then butlast s else s)"

definition received :: "SseMessage \<Rightarrow> SseMessage" where
  "received m =
     \<lparr>m_id = (case m_id m of None \<Rightarrow> None | Some s \<Rightarrow> if nul \<in> set (carried s) then None else opt_str (carried s)),
      m_event = (case m_event m of None \<Rightarrow> None | Some s \<Rightarrow> opt_str (carried s)),
      m_data = (case m_data m of None \<Rightarrow> None | Some s \<Rightarrow> opt_str (drop_final_nl (foldl add_line [] (split_lines s)))),
      m_comments = (case m_comments m of None \<Rightarrow> None | Some cs \<Rightarrow> opt_str (map (trim \<circ> strip_end) cs))\<rparr>"

text \<open>Messages that lose nothing.\<close>

definition plain :: "string \<Rightarrow> bool" where
  "plain s = (nl \<notin> set s \<and> (s = [] \<or> hd s \<noteq> CHR '' '' \<and> last s \<noteq> cr))"

definition data_line :: "string \<Rightarrow> bool" where
  "data_line l = (plain l \<and> l \<noteq> kSseDoneSentinel)"

definition encodable :: "SseMessage \<Rightarrow> bool" where
  "encodable m =
     (\<not> m_empty m
      \<and> opt_all (\<lambda>cs. cs \<noteq> [] \<and> list_all (\<lambda>c. plain c \<and> trim c = c) cs) (m_comments m)
      \<and> opt_all (\<lambda>s. s \<noteq> [] \<and> plain s \<and> nul \<notin> set s) (m_id m)
      \<and> opt_all (\<lambda>s. s \<noteq> [] \<and> plain s) (m_event m)
      \<and> opt_all (\<lambda>s. hd (split_lines s) \<noteq> [] \<and> last s \<noteq> nl
                    \<and> list_all data_line (split_lines s)) (m_data m))"

lemma chars_distinct [simp]:
  "nl \<noteq> CHR '':''" "cr \<noteq> CHR '':''" "nl \<noteq> CHR '' ''" "cr \<noteq> CHR '' ''" "nl \<noteq> cr"
  "CHR '':'' \<noteq> nl" "CHR '' '' \<noteq> nl" "CHR '' '' \<noteq> cr" "cr \<noteq> nl" "tab \<noteq> nl" "nl \<noteq> tab"
  by (simp_all add: nl_def cr_def tab_def)

lemma strip_back_keep: "s = [] \<or> \<not> p (last s) \<Longrightarrow> strip_back p s = s"
  by (cases s rule: rev_cases) (auto simp: strip_back_def)

lemma strip_back_append: "s \<noteq> [] \<Longrightarrow> \<not> p (last s) \<Longrightarrow> strip_back p (s @ v) = s @ strip_back p v"
  by (cases s rule: rev_cases) (auto simp: strip_back_def dropWhile_append dropWhile_eq_Nil_conv)

lemma process_line_field:
  assumes "CHR '':'' \<notin> set name" "name \<noteq> []"
  shows "process_line (name @ '': '' @ v) d = ([], set_field name (carried v) d)"
proof -
  have line: "strip_back (\<lambda>c. c = cr \<or> c = nl) (name @ '': '' @ v) = name @ '': '' @ strip_end v"
    using strip_back_append [of "name @ '': ''" "\<lambda>c. c = cr \<or> c = nl" v] by (simp add: strip_end_def)
  moreover have "split_field (name @ '': '' @ strip_end v) = (name, carried v)"
    using find_char_append [OF assms(1), of "CHR '' '' # strip_end v"] by (simp add: split_field_def carried_def)
  moreover have "hd (name @ '': '' @ strip_end v) \<noteq> CHR '':''"
    using assms by (cases name) auto
  ultimately show ?thesis using assms(2) by (simp add: process_line_def)
qed

lemma process_line_comment:
  "process_line ('': '' @ c) d = ([], d\<lparr>pd_comments := pd_comments d @ [trim (strip_end c)]\<rparr>)"
proof -
  have "strip_back (\<lambda>c. c = cr \<or> c = nl) ('': '' @ c) = '': '' @ strip_end c"
    using strip_back_append [of "'': ''" "\<lambda>c. c = cr \<or> c = nl" c] by (simp add: strip_end_def)
  moreover have "trim (CHR '' '' # s) = trim s" for s by (simp add: trim_def)
  ultimately show ?thesis by (simp add: process_line_def)
qed

lemma feed_first_line:
  assumes "line_buffer d = []" "nl \<notin> set l" "process_line l d = (out, d')"
  shows "sse_feed d (l @ nl # s) = (out @ fst (sse_feed d' s), snd (sse_feed d' s))"
proof -
  have "d\<lparr>line_buffer := []\<rparr> = d" using assms(1) by (cases d) simp
  then have "line_step (line_buffer d @ l) d = (out, d')"
    using assms by (simp only: line_step_def append_Nil)
  then show ?thesis by (simp add: feed_line [OF assms(2)] split_beta)
qed

lemma feed_field:
  assumes "line_buffer d = []" "CHR '':'' \<notin> set name" "nl \<notin> set name" "name \<noteq> []" "one_line v"
  shows "sse_feed d (name @ '': '' @ v @ nl # s) = sse_feed (set_field name (carried v) d) s"
  using feed_first_line [OF assms(1) _ process_line_field [OF assms(2,4)], of v s] assms(3,5)
  by (simp add: one_line_def)

lemma feed_comments:
  assumes "line_buffer d = []" "list_all one_line cs"
  shows "sse_feed d (concat (map (\<lambda>c. '': '' @ c @ [nl]) cs) @ s)
    = sse_feed (d\<lparr>pd_comments := pd_comments d @ map (trim \<circ> strip_end) cs\<rparr>) s"
  using assms
proof (induction cs arbitrary: d)
  case (Cons c cs)
  have "sse_feed d ('': '' @ c @ nl # t) = sse_feed (d\<lparr>pd_comments := pd_comments d @ [trim (strip_end c)]\<rparr>) t" for t
    using feed_first_line [OF Cons.prems(1) _ process_line_comment, of c t] Cons.prems(2)
    by (simp add: one_line_def)
  with Cons.IH [of "d\<lparr>pd_comments := pd_comments d @ [trim (strip_end c)]\<rparr>"] Cons.prems show ?case by simp
qed simp

lemma set_field_data: "set_field ''data'' (carried l) d = d\<lparr>pd_data := add_line (pd_data d) l\<rparr>"
  by (simp add: set_field_def add_line_def)

lemma feed_data:
  "line_buffer d = [] \<Longrightarrow>
   sse_feed d (encode_data s @ t) = sse_feed (d\<lparr>pd_data := foldl add_line (pd_data d) (split_lines s)\<rparr>) t"
proof (induction s arbitrary: d rule: encode_data.induct)
  case (1 s)
  show ?case
  proof (cases "find_char nl s")
    case None
    then have "encode_data s = ''data: '' @ s @ [nl]" "split_lines s = [s]" "one_line s"
      by (simp_all add: encode_data.simps [of s] split_lines.simps [of s] one_line_def)
    then show ?thesis
      using feed_field [OF "1.prems"(1), of "''data''" s t] set_field_data [of s d] by (simp add: nl_def)
  next
    case (Some n)
    then obtain a b where s: "s = a @ nl # b" and n: "n = length a" and a: "nl \<notin> set a" by (elim find_char_SomeE)
    from Some have enc: "encode_data s = ''data: '' @ a @ [nl] @ encode_data b"
      and lines: "split_lines s = a # split_lines b"
      by (simp_all add: encode_data.simps [of "a @ nl # b"] split_lines.simps [of "a @ nl # b"] s n)
    have "sse_feed d (encode_data s @ t) = sse_feed (d\<lparr>pd_data := add_line (pd_data d) a\<rparr>) (encode_data b @ t)"
      using feed_field [OF "1.prems"(1), of "''data''" a "encode_data b @ t"] set_field_data [of a d] a
      by (simp add: enc one_line_def nl_def)
    then show ?thesis
      using "1.IH" [OF Some, of "d\<lparr>pd_data := add_line (pd_data d) a\<rparr>"] "1.prems" by (simp add: s n lines [unfolded s])
  qed
qed

lemma clear_same:
  "pd_comments d = [] \<Longrightarrow> d\<lparr>pd_comments := []\<rparr> = d"
  "pd_id d = [] \<Longrightarrow> d\<lparr>pd_id := []\<rparr> = d"
  "pd_event d = [] \<Longrightarrow> d\<lparr>pd_event := []\<rparr> = d"
  "pd_data d = [] \<Longrightarrow> d\<lparr>pd_data := []\<rparr> = d"
  by (cases d; simp)+

text \<open>The fields of a message, from a decoder with nothing pending.\<close>

lemma feed_comments_opt:
  "line_buffer d = [] \<Longrightarrow> opt_all (list_all one_line) v \<Longrightarrow> pd_comments d = [] \<Longrightarrow>
   sse_feed d ((case v of None \<Rightarrow> [] | Some cs \<Rightarrow> concat (map (\<lambda>c. '': '' @ c @ [nl]) cs)) @ t)
     = sse_feed (d\<lparr>pd_comments := (case v of None \<Rightarrow> [] | Some cs \<Rightarrow> map (trim \<circ> strip_end) cs)\<rparr>) t"
  by (cases v) (simp_all add: opt_all_def feed_comments [simplified] clear_same)

lemma feed_id_opt:
  assumes "line_buffer d = []" "opt_all one_line v" "pd_id d = []"
  shows "sse_feed d ((case v of None \<Rightarrow> [] | Some s \<Rightarrow> ''id: '' @ s @ [nl]) @ t)
     = sse_feed (d\<lparr>pd_id := (case v of None \<Rightarrow> [] | Some s \<Rightarrow> if nul \<in> set (carried s) then [] else carried s)\<rparr>) t"
  using assms feed_field [OF assms(1), of "''id''"]
  by (cases v) (simp_all add: opt_all_def set_field_def nl_def clear_same)

lemma feed_event_opt:
  assumes "line_buffer d = []" "opt_all one_line v" "pd_event d = []"
  shows "sse_feed d ((case v of None \<Rightarrow> [] | Some s \<Rightarrow> ''event: '' @ s @ [nl]) @ t)
     = sse_feed (d\<lparr>pd_event := (case v of None \<Rightarrow> [] | Some s \<Rightarrow> carried s)\<rparr>) t"
  using assms feed_field [OF assms(1), of "''event''"]
  by (cases v) (simp_all add: opt_all_def set_field_def nl_def clear_same)

lemma feed_data_opt:
  "line_buffer d = [] \<Longrightarrow> pd_data d = [] \<Longrightarrow>
   sse_feed d ((case v of None \<Rightarrow> [] | Some s \<Rightarrow> encode_data s) @ t)
     = sse_feed (d\<lparr>pd_data := (case v of None \<Rightarrow> [] | Some s \<Rightarrow> foldl add_line [] (split_lines s))\<rparr>) t"
  by (cases v) (simp_all add: feed_data clear_same)

lemma feed_message:
  assumes m: "field_lines m"
  shows "sse_feed new_decoder (encode_sse m @ t) =
    ((if m_empty (received m) then [] else [received m]) @ fst (sse_feed new_decoder t), snd (sse_feed new_decoder t))"
proof -
  define d where "d = \<lparr>line_buffer = [],
     pd_data = case m_data m of None \<Rightarrow> [] | Some s \<Rightarrow> foldl add_line [] (split_lines s),
     pd_event = case m_event m of None \<Rightarrow> [] | Some s \<Rightarrow> carried s,
     pd_id = case m_id m of None \<Rightarrow> [] | Some s \<Rightarrow> if nul \<in> set (carried s) then [] else carried s,
     pd_comments = case m_comments m of None \<Rightarrow> [] | Some cs \<Rightarrow> map (trim \<circ> strip_end) cs\<rparr>"
  have "sse_feed new_decoder (encode_sse m @ t) = sse_feed d ([] @ nl # t)"
    using m unfolding field_lines_def encode_sse_def d_def append_assoc new_decoder_def
    by (simp add: feed_comments_opt feed_id_opt feed_event_opt feed_data_opt)
  moreover have "process_line [] d = (if m_empty (received m) then [] else [received m], new_decoder)"
    by (auto simp: process_line_def strip_back_def take_pending_def d_def new_decoder_def received_def
        opt_str_def drop_final_nl_def m_empty_def Let_def split: option.splits if_splits)
  ultimately show ?thesis
    using feed_first_line [of d "[]" "if m_empty (received m) then [] else [received m]" new_decoder t] by (simp add: d_def)
qed

lemma feed_done: "sse_feed new_decoder (encode_sse_done @ t) = sse_feed new_decoder t"
proof -
  have "carried kSseDoneSentinel = kSseDoneSentinel" "one_line kSseDoneSentinel" by code_simp+
  then have "sse_feed new_decoder (encode_sse_done @ t) =
      sse_feed (set_field ''data'' kSseDoneSentinel new_decoder) (nl # t)"
    using feed_field [of new_decoder "''data''" kSseDoneSentinel "nl # t"]
    by (simp add: encode_sse_done_def kSseDoneSentinel_def nl_def new_decoder_def)
  also have "set_field ''data'' kSseDoneSentinel new_decoder = new_decoder"
    by (simp add: set_field_def)
  also have "process_line [] new_decoder = ([], new_decoder)"
    by (simp add: process_line_def strip_back_def take_pending_def new_decoder_def)
  then have "sse_feed new_decoder (nl # t) = sse_feed new_decoder t"
    using feed_first_line [of new_decoder "[]" "[]" new_decoder t] by (simp add: new_decoder_def)
  finally show ?thesis .
qed

text \<open>What a reader gets of a list of messages.\<close>

definition delivered_messages :: "SseMessage list \<Rightarrow> SseMessage list" where
  "delivered_messages ms = filter (\<lambda>m. \<not> m_empty m) (map received ms)"

lemma feed_messages:
  "list_all field_lines ms \<Longrightarrow>
   sse_feed new_decoder (concat (map encode_sse ms) @ t) =
     (delivered_messages ms @ fst (sse_feed new_decoder t), snd (sse_feed new_decoder t))"
  by (induction ms) (simp_all add: feed_message delivered_messages_def)

lemma feed_stream:
  assumes "list_all field_lines ms" "concat cs = concat (map encode_sse ms) @ encode_sse_done"
  shows "feed_all new_decoder cs = (delivered_messages ms, new_decoder)"
  using feed_messages [OF assms(1), of encode_sse_done] feed_done [of "[]"]
  by (simp add: feed_concat assms(2) feed_no_nl new_decoder_def)

section \<open>Nothing is lost of plain messages\<close>

lemma carried_plain: "plain s \<Longrightarrow> carried s = s"
proof -
  assume s: "plain s"
  then have "s = [] \<or> last s \<noteq> cr \<and> last s \<noteq> nl" unfolding plain_def by (metis last_in_set)
  then have "strip_end s = s" by (auto simp: strip_end_def intro: strip_back_keep)
  then show ?thesis using s by (cases s) (auto simp: carried_def plain_def)
qed

lemma strip_end_plain: "plain s \<Longrightarrow> strip_end s = s"
  unfolding plain_def strip_end_def by (rule strip_back_keep) (metis last_in_set)

lemma joined_lines:
  "list_all data_line (split_lines s) \<Longrightarrow> acc \<noteq> [] \<or> hd (split_lines s) \<noteq> [] \<Longrightarrow>
   foldl add_line acc (split_lines s) = (if acc = [] then s else acc @ nl # s)"
proof (induction s arbitrary: acc rule: split_lines.induct)
  case (1 s)
  show ?case
  proof (cases "find_char nl s")
    case None
    then have "split_lines s = [s]" by (simp add: split_lines.simps [of s])
    then show ?thesis using "1.prems" by (simp add: add_line_def data_line_def carried_plain)
  next
    case (Some n)
    then obtain a b where s: "s = a @ nl # b" and n: "n = length a" by (elim find_char_SomeE)
    have lines: "split_lines s = a # split_lines b"
      using Some by (simp add: split_lines.simps [of "a @ nl # b"] s n)
    have "add_line acc a = (if acc = [] then a else acc @ nl # a)" "add_line acc a \<noteq> []"
      using "1.prems" by (auto simp: lines add_line_def data_line_def carried_plain)
    then show ?thesis using "1.IH" [OF Some, of "add_line acc a"] "1.prems" by (auto simp: lines [unfolded s] s n)
  qed
qed

lemma received_encodable:
  assumes "encodable m"
  shows "received m = m" "field_lines m" "\<not> m_empty m"
proof -
  have c: "opt_all (\<lambda>cs. cs \<noteq> [] \<and> map (trim \<circ> strip_end) cs = cs \<and> list_all one_line cs) (m_comments m)"
    using assms
    by (auto simp: encodable_def opt_all_def list_all_iff strip_end_plain one_line_def plain_def map_idI split: option.splits)
  have d: "opt_all (\<lambda>s. s \<noteq> [] \<and> drop_final_nl (foldl add_line [] (split_lines s)) = s) (m_data m)"
    using assms joined_lines [of _ "[]"]
    by (auto simp: encodable_def opt_all_def drop_final_nl_def split_lines.simps [of "[]"] split: option.splits)
  have ie: "opt_all (\<lambda>s. s \<noteq> [] \<and> carried s = s \<and> nul \<notin> set s \<and> one_line s) (m_id m)"
    "opt_all (\<lambda>s. s \<noteq> [] \<and> carried s = s \<and> one_line s) (m_event m)"
    using assms by (auto simp: encodable_def opt_all_def carried_plain one_line_def plain_def split: option.splits)
  show "received m = m"
    using c d ie by (cases m) (auto simp: received_def opt_all_def opt_str_def split: option.splits)
  show "field_lines m" using c ie by (auto simp: field_lines_def opt_all_def split: option.splits)
  show "\<not> m_empty m" using assms by (simp add: encodable_def)
qed

lemma delivered_encodable: "list_all encodable ms \<Longrightarrow> delivered_messages ms = ms \<and> list_all field_lines ms"
  by (induction ms) (auto simp: delivered_messages_def received_encodable)

text \<open>A comment with a line break, which the encoder does not split, is cut there.\<close>

lemma multi_line_comment_cut:
  "sse_feed new_decoder (encode_sse \<lparr>m_id = None, m_event = Some ''error'', m_data = None,
      m_comments = Some [''a'' @ [nl] @ ''b'']\<rparr>)
   = ([\<lparr>m_id = None, m_event = Some ''error'', m_data = None, m_comments = Some [''a'']\<rparr>], new_decoder)"
  by code_simp

section \<open>Properties\<close>

text \<open>Decoding does not depend on how the byte stream is cut into chunks: feeding the
  chunks one after another gives the messages and the decoder state of feeding their
  concatenation at once.
\<close>

lemma sse_chunking: "feed_all d cs = sse_feed d (concat cs)"
  by (rule feed_concat)



end
