(* ===== verification/Tokenizers.thy ===== *)
theory Tokenizers
  imports Prelude
begin

text \<open>
  The tokenizer interface and incremental detokenization (\<open>llm/tokenizers.h\<close>,
  \<open>tokenizers.cpp\<close>): lossy UTF-8, the byte-level reference tokenizer, \<open>Sequence\<close> with its
  two offsets, and \<open>StopSequenceDecoder\<close>. A tokenizer is a record of its two methods, so
  every backend is an instance; a method may throw. Lemmas: the clean-up loop returns a
  text without replacement characters, lossy decoding keeps ASCII and is inverted by
  nothing else, the byte-level tokenizer streams ASCII text unchanged, and the stop decoder
  holds back only proper prefixes of a stop sequence.
\<close>

section \<open>Searching strings\<close>

text \<open>\<open>std::string::find\<close>: the first position at which the pattern occurs.\<close>

primrec str_find :: "'a list \<Rightarrow> 'a list \<Rightarrow> nat option" where
  "str_find p [] = (if p = [] then Some 0 else None)"
| "str_find p (c # s) = (if prefix p (c # s) then Some 0 else map_option Suc (str_find p s))"

lemma str_find_Some:
  "str_find p s = Some n \<Longrightarrow> s = take n s @ p @ drop (n + length p) s \<and> n + length p \<le> length s"
proof (induction s arbitrary: n)
  case (Cons c s)
  show ?case
  proof (cases "prefix p (c # s)")
    case True
    with Cons.prems have "n = 0" by simp
    with True prefix_length_le [OF True] show ?thesis by (auto simp: prefix_def)
  next
    case False
    with Cons obtain k where "n = Suc k" "str_find p s = Some k" by (auto split: if_splits)
    with Cons.IH [of k] show ?thesis by simp
  qed
qed (simp split: if_splits)

lemma str_findE:
  assumes "str_find p s = Some n"
  obtains b where "s = take n s @ p @ b"
  using str_find_Some [OF assms] by blast

lemma str_find_None: "str_find p s = None \<longleftrightarrow> \<not> sublist p s"
  by (induction s) (auto simp: sublist_Cons_right)

text \<open>The occurrence found is the first one: no occurrence ends before it does.\<close>

lemma str_find_first:
  "str_find p s = Some n \<Longrightarrow> p \<noteq> [] \<Longrightarrow> \<not> sublist p (take (n + length p - 1) s)"
proof (induction s arbitrary: n)
  case (Cons c s)
  show ?case
  proof (cases "prefix p (c # s)")
    case True
    with Cons.prems have n: "n = 0" by simp
    have "length (take (length p - 1) (c # s)) < length p"
      using Cons.prems(2) by (cases p) auto
    then have "\<not> sublist p (take (length p - 1) (c # s))"
      using sublist_length_le not_less by blast
    with n show ?thesis by simp
  next
    case False
    with Cons.prems obtain k where k: "n = Suc k" "str_find p s = Some k" by (auto split: if_splits)
    have "\<not> prefix p (c # take (k + length p - 1) s)"
      using False prefix_order.trans [of p "c # take (k + length p - 1) s" "c # s"]
      by (auto simp: take_is_prefix)
    moreover have "take (n + length p - 1) (c # s) = c # take (k + length p - 1) s"
      using Cons.prems(2) k by (cases p) auto
    ultimately show ?thesis
      using Cons.IH [OF k(2) Cons.prems(2)] by (simp add: sublist_Cons_right)
  qed
qed (simp split: if_splits)

section \<open>UTF-8\<close>

definition kReplacementChar :: string where
  "kReplacementChar = [CHR 0xEF, CHR 0xBF, CHR 0xBD]"

definition ubyte :: "char \<Rightarrow> u8" where
  "ubyte c = of_char c"

definition is_char_boundary :: "string \<Rightarrow> nat \<Rightarrow> bool" where
  "is_char_boundary s index =
     (if index = 0 \<or> length s \<le> index then True else ubyte (s ! index) AND 0xC0 \<noteq> 0x80)"

definition ends_with_replacement :: "string \<Rightarrow> bool" where
  "ends_with_replacement s = (3 \<le> length s \<and> drop (length s - 3) s = kReplacementChar)"

text \<open>
  Erasing an occurrence can join its neighbours to a new one, so the search starts over.
\<close>

partial_function (option) erase_loop :: "string \<Rightarrow> string option" where
  "erase_loop s =
     (case str_find kReplacementChar s of
        None \<Rightarrow> Some s
      | Some pos \<Rightarrow> erase_loop (take pos s @ drop (pos + length kReplacementChar) s))"

declare erase_loop.simps [code]

lemma length_kReplacementChar [simp]: "length kReplacementChar = 3" "kReplacementChar \<noteq> []"
  by (simp_all add: kReplacementChar_def)

lemma erase_loop_returns:
  "\<exists>r. erase_loop s = Some r \<and> \<not> sublist kReplacementChar r \<and> subseq r s
       \<and> (\<not> sublist kReplacementChar s \<longrightarrow> r = s)"
proof (induction "length s" arbitrary: s rule: less_induct)
  case less
  show ?case
  proof (cases "str_find kReplacementChar s")
    case None
    then have "\<not> sublist kReplacementChar s" by (simp add: str_find_None)
    with None show ?thesis by (subst erase_loop.simps) simp
  next
    case (Some pos)
    let ?t = "take pos s @ drop (pos + 3) s"
    from str_find_Some [OF Some] have s: "s = take pos s @ kReplacementChar @ drop (pos + 3) s"
      and len: "pos + 3 \<le> length s" by simp_all
    have "subseq ?t s"
      using list_emb_append_mono [OF subseq_order.refl [of "take pos s"]
          list_emb_append2 [OF subseq_order.refl [of "drop (pos + 3) s"], of kReplacementChar]] s
      by simp
    moreover have "sublist kReplacementChar s"
      using Some str_find_None [of kReplacementChar s] by auto
    moreover have "length ?t < length s" using len by simp
    then obtain r where "erase_loop ?t = Some r" "\<not> sublist kReplacementChar r" "subseq r ?t"
      using less by blast
    ultimately show ?thesis
      by (subst erase_loop.simps) (auto simp: Some intro: subseq_order.trans)
  qed
qed

definition remove_replacement_chars :: "string \<Rightarrow> string" where
  "remove_replacement_chars s = the (erase_loop s)"

lemma remove_replacement_id:
  "\<not> sublist kReplacementChar s \<Longrightarrow> remove_replacement_chars s = s"
  using erase_loop_returns [of s] by (auto simp: remove_replacement_chars_def)

definition utf8_seq_len :: "u8 \<Rightarrow> nat" where
  "utf8_seq_len lead =
     (if lead < 0x80 then 1
      else if lead AND 0xE0 = 0xC0 then 2
      else if lead AND 0xF0 = 0xE0 then 3
      else if lead AND 0xF8 = 0xF0 then 4
      else 0)"

definition continuation :: "char \<Rightarrow> bool" where
  "continuation c = (ubyte c AND 0xC0 = 0x80)"

function utf8_lossy :: "string \<Rightarrow> string" where
  "utf8_lossy [] = []"
| "utf8_lossy (c # cs) =
     (let len = utf8_seq_len (ubyte c) in
      if len = 0 then kReplacementChar @ utf8_lossy cs
      else if Suc (length cs) < len then kReplacementChar
      else if list_all continuation (take (len - 1) cs)
      then c # take (len - 1) cs @ utf8_lossy (drop (len - 1) cs)
      else kReplacementChar @ utf8_lossy cs)"
  by pat_completeness auto
termination
  by (relation "measure length") auto

declare utf8_lossy.simps(2) [simp del]

definition ascii :: "string \<Rightarrow> bool" where
  "ascii s = list_all (\<lambda>c. ubyte c < 0x80) s"

lemma utf8_lossy_ascii_append:
  "ascii a \<Longrightarrow> utf8_lossy (a @ s) = a @ utf8_lossy s"
  by (induction a) (simp_all add: ascii_def utf8_lossy.simps(2) utf8_seq_len_def Let_def)

lemma utf8_lossy_ascii: "ascii s \<Longrightarrow> utf8_lossy s = s"
  using utf8_lossy_ascii_append [of s "[]"] by simp

section \<open>Tokenizers\<close>

record Encoding =
  en_token_ids :: "u32 list"
  en_tokens :: "string list"
  en_spans :: "(nat \<times> nat) list"

record Tokenizer =
  tk_encode :: "string \<Rightarrow> Encoding res"
  tk_decode :: "u32 list \<Rightarrow> bool \<Rightarrow> string res"

definition kBosId :: u32 where "kBosId = 256"
definition kEosId :: u32 where "kEosId = 257"

definition byte_encode :: "string \<Rightarrow> Encoding" where
  "byte_encode input =
     \<lparr>en_token_ids = map of_char input, en_tokens = map (\<lambda>c. [c]) input,
      en_spans = map (\<lambda>i. (i, i + 1)) [0..<length input]\<rparr>"

text \<open>
  The decoding loop: \<open>bytes\<close> collects byte tokens, \<open>out\<close> the text before them. The unknown
  identifier is reported through \<open>to_string\<close>.
\<close>

primrec byte_decode_loop ::
  "(u32 \<Rightarrow> string) \<Rightarrow> bool \<Rightarrow> u32 list \<Rightarrow> string \<Rightarrow> string \<Rightarrow> string res" where
  "byte_decode_loop to_string skip [] bytes out = Inr (out @ utf8_lossy bytes)"
| "byte_decode_loop to_string skip (i # ids) bytes out =
     (if i < 256 then byte_decode_loop to_string skip ids (bytes @ [char_of (unat i)]) out
      else
        let out' = out @ utf8_lossy bytes in
        if skip then byte_decode_loop to_string skip ids [] out'
        else if i = kBosId then byte_decode_loop to_string skip ids [] (out' @ ''<s>'')
        else if i = kEosId then byte_decode_loop to_string skip ids [] (out' @ ''</s>'')
        else Inl (RuntimeError (''ByteLevelTokenizer: unknown token id '' @ to_string i)))"

definition byte_decode :: "(u32 \<Rightarrow> string) \<Rightarrow> u32 list \<Rightarrow> bool \<Rightarrow> string res" where
  "byte_decode to_string ids skip = byte_decode_loop to_string skip ids [] []"

definition ByteLevelTokenizer :: "(u32 \<Rightarrow> string) \<Rightarrow> Tokenizer" where
  "ByteLevelTokenizer to_string =
     \<lparr>tk_encode = \<lambda>s. Inr (byte_encode s), tk_decode = byte_decode to_string\<rparr>"

lemma unat_of_char32: "unat (of_char c :: u32) = of_char c"
proof -
  have "(of_char c :: nat) mod 2 ^ 32 = of_char c"
    by (rule mod_less, rule less_trans [OF nat_of_char_less_256]) simp
  moreover have "(of_char c :: u32) = of_nat (of_char c)" by (simp add: of_nat_of_char)
  ultimately show ?thesis by (simp add: unat_of_nat)
qed

lemma byte_decode_bytes:
  "byte_decode to_string (map of_char bs) skip = Inr (utf8_lossy bs)"
proof -
  have lt: "(of_char c :: u32) < 256" for c
    using nat_of_char_less_256 [of c] by (simp add: word_less_nat_alt unat_of_char32)
  have "byte_decode_loop to_string skip (map of_char bs) acc out = Inr (out @ utf8_lossy (acc @ bs))"
    for acc out
    by (induction bs arbitrary: acc) (simp_all add: lt unat_of_char32)
  then show ?thesis by (simp add: byte_decode_def)
qed

lemma byte_roundtrip_ascii:
  "ascii s \<Longrightarrow> byte_decode to_string (en_token_ids (byte_encode s)) skip = Inr s"
  by (simp add: byte_encode_def byte_decode_bytes utf8_lossy_ascii)

section \<open>Incremental decoding\<close>

record Sequence =
  sq_token_ids :: "u32 list"
  prefix_offset :: nat
  read_offset :: nat

definition new_sequence :: Sequence where
  "new_sequence = \<lparr>sq_token_ids = [], prefix_offset = 0, read_offset = 0\<rparr>"

definition sq_clear :: "Sequence \<Rightarrow> Sequence" where
  "sq_clear q = q\<lparr>sq_token_ids := [], prefix_offset := 0, read_offset := 0\<rparr>"

definition append_text :: "Tokenizer \<Rightarrow> string \<Rightarrow> Sequence \<Rightarrow> unit res \<times> Sequence" where
  "append_text tk input q =
     (case tk_encode tk input of
        Inl e \<Rightarrow> (Inl e, q)
      | Inr enc \<Rightarrow> (Inr (), q\<lparr>sq_token_ids := sq_token_ids q @ en_token_ids enc\<rparr>))"

definition sq_text :: "Tokenizer \<Rightarrow> Sequence \<Rightarrow> string res" where
  "sq_text tk q = tk_decode tk (sq_token_ids q) False"

text \<open>The loop that moves the cut back to a character boundary.\<close>

primrec back_to_boundary :: "string \<Rightarrow> nat \<Rightarrow> nat" where
  "back_to_boundary s 0 = 0"
| "back_to_boundary s (Suc n) = (if is_char_boundary s (Suc n) then Suc n else back_to_boundary s n)"

text \<open>The identifier stays appended when decoding throws.\<close>

definition append_token_id :: "Tokenizer \<Rightarrow> u32 \<Rightarrow> Sequence \<Rightarrow> string res \<times> Sequence" where
  "append_token_id tk token_id q0 =
     (let q = q0\<lparr>sq_token_ids := sq_token_ids q0 @ [token_id]\<rparr>;
          prefix_ids = take (read_offset q - prefix_offset q) (drop (prefix_offset q) (sq_token_ids q));
          all_ids = drop (prefix_offset q) (sq_token_ids q)
      in case tk_decode tk prefix_ids False of
           Inl e \<Rightarrow> (Inl e, q)
         | Inr prefix_text \<Rightarrow>
             (case tk_decode tk all_ids False of
                Inl e \<Rightarrow> (Inl e, q)
              | Inr new_text \<Rightarrow>
                  let prefix_len = back_to_boundary new_text (length prefix_text) in
                  if length prefix_text < length new_text then
                    if ends_with_replacement new_text then (Inr [], q)
                    else (Inr (remove_replacement_chars (drop prefix_len new_text)),
                          q\<lparr>prefix_offset := read_offset q,
                            read_offset := length (sq_token_ids q)\<rparr>)
                  else (Inr [], q)))"

text \<open>The offsets stay ordered and inside the sequence, whatever the tokenizer does.\<close>

definition sq_ok :: "Sequence \<Rightarrow> bool" where
  "sq_ok q = (prefix_offset q \<le> read_offset q \<and> read_offset q \<le> length (sq_token_ids q))"

lemma sq_ok_preserved [inv_intros]:
  "sq_ok new_sequence"
  "sq_ok (sq_clear q)"
  "sq_ok q \<Longrightarrow> sq_ok (snd (append_text tk s q))"
  "sq_ok q \<Longrightarrow> sq_ok (snd (append_token_id tk i q))"
  by (auto simp: sq_ok_def new_sequence_def sq_clear_def append_text_def append_token_id_def Let_def
      split: sum.splits)

primrec append_all :: "Tokenizer \<Rightarrow> u32 list \<Rightarrow> Sequence \<Rightarrow> string res \<times> Sequence" where
  "append_all tk [] q = (Inr [], q)"
| "append_all tk (i # is) q =
     (case append_token_id tk i q of
        (Inl e, q') \<Rightarrow> (Inl e, q')
      | (Inr s, q') \<Rightarrow>
          (case append_all tk is q' of
             (Inl e, q'') \<Rightarrow> (Inl e, q'')
           | (Inr t, q'') \<Rightarrow> (Inr (s @ t), q'')))"

section \<open>Streaming characters byte by byte\<close>

text \<open>One encoded character: a lead byte and the continuation bytes it announces.\<close>

definition utf8_char :: "string \<Rightarrow> bool" where
  "utf8_char w = (w \<noteq> [] \<and> length w = utf8_seq_len (ubyte (hd w)) \<and> list_all continuation (tl w))"

lemma lead_not_continuation: "\<forall>c. utf8_seq_len (ubyte c) \<noteq> 0 \<longrightarrow> \<not> continuation c"
  by code_simp

lemma replacement_bytes:
  "continuation (CHR 0xBF)" "\<not> continuation (CHR 0xEF)" "utf8_seq_len (ubyte (CHR 0xEF)) = 3"
  "utf8_char kReplacementChar"
  by code_simp+

lemma utf8_charE:
  assumes "utf8_char w"
  obtains c cs where "w = c # cs" "utf8_seq_len (ubyte c) = Suc (length cs)" "list_all continuation cs"
    "\<not> continuation c"
  using assms lead_not_continuation by (cases w) (auto simp: utf8_char_def)

lemma utf8_lossy_char: "utf8_char w \<Longrightarrow> utf8_lossy (w @ s) = w @ utf8_lossy s"
  by (erule utf8_charE) (simp add: utf8_lossy.simps(2))

lemma utf8_lossy_partial:
  assumes "utf8_char (u @ v)" "u \<noteq> []" "v \<noteq> []"
  shows "utf8_lossy u = kReplacementChar"
  using assms by (cases u; cases v) (auto simp: utf8_char_def utf8_lossy.simps(2) Let_def)

text \<open>A character other than U+FFFD contributes no replacement character to the text.\<close>

lemma utf8_char_no_replacement_at:
  assumes w: "utf8_char w" "w \<noteq> kReplacementChar" and eq: "w = a @ kReplacementChar @ b"
  shows False
proof (cases a)
  case Nil
  with w eq have "length w = 3" by (simp add: utf8_char_def kReplacementChar_def replacement_bytes)
  with Nil eq have "b = []" by simp
  with Nil eq w show False by simp
next
  case (Cons c cs)
  with w eq have "continuation (CHR 0xEF)" by (auto simp: utf8_char_def kReplacementChar_def)
  then show False by (simp add: replacement_bytes)
qed

lemma utf8_char_remove:
  "utf8_char w \<Longrightarrow> w \<noteq> kReplacementChar \<Longrightarrow> remove_replacement_chars w = w"
  by (rule remove_replacement_id) (auto simp: sublist_def dest: utf8_char_no_replacement_at)

lemma utf8_char_not_ends:
  assumes w: "utf8_char w" "w \<noteq> kReplacementChar"
  shows "\<not> ends_with_replacement (x @ w)"
proof
  assume "ends_with_replacement (x @ w)"
  then obtain p where p: "x @ w = p @ kReplacementChar"
    unfolding ends_with_replacement_def by (metis append_take_drop_id)
  then consider q where "w = q @ kReplacementChar" | q where "q @ w = kReplacementChar" "q \<noteq> []"
    by (fastforce simp: append_eq_append_conv2)
  then show False
  proof cases
    case 1
    with w show False using utf8_char_no_replacement_at [of w q "[]"] by simp
  next
    case 2
    then have "w = [CHR 0xBF, CHR 0xBD] \<or> w = [CHR 0xBD] \<or> w = []"
      by (auto simp: kReplacementChar_def append_eq_Cons_conv)
    moreover have "\<not> utf8_char [CHR 0xBF, CHR 0xBD]" "\<not> utf8_char [CHR 0xBD]" "\<not> utf8_char []"
      by code_simp+
    ultimately show False using w by blast
  qed
qed

text \<open>
  The state between characters: everything before the last character is behind the prefix
  offset, the last character between the two offsets, and \<open>u\<close> the bytes read since.
\<close>

definition seq_at :: "string \<Rightarrow> string \<Rightarrow> string \<Rightarrow> Sequence" where
  "seq_at pre lst u =
     \<lparr>sq_token_ids = map of_char (pre @ lst @ u), prefix_offset = length pre,
      read_offset = length pre + length lst\<rparr>"

lemma append_byte:
  assumes lst: "lst = [] \<or> utf8_char lst" and w: "utf8_char (u @ b # v)"
    and r: "u @ b # v \<noteq> kReplacementChar"
  shows "append_token_id (ByteLevelTokenizer ts) (of_char b) (seq_at pre lst u) =
    (if v = [] then (Inr (u @ [b]), seq_at (pre @ lst) (u @ [b]) [])
     else (Inr [], seq_at pre lst (u @ [b])))"
proof -
  have lossy: "utf8_lossy (lst @ t) = lst @ utf8_lossy t" for t
    using lst utf8_lossy_char by auto
  have "byte_decode ts (map of_char lst @ map of_char u @ [of_char b]) False =
      Inr (lst @ utf8_lossy (u @ [b]))"
    using byte_decode_bytes [of ts "lst @ u @ [b]" False] by (simp add: lossy)
  moreover have "byte_decode ts (map of_char lst) False = Inr lst"
    using byte_decode_bytes [of ts lst False] lossy [of "[]"] by simp
  ultimately have dec: "byte_decode ts (map of_char lst @ map of_char u @ [of_char b]) False =
      Inr (lst @ utf8_lossy (u @ [b]))" "byte_decode ts (map of_char lst) False = Inr lst" .
  show ?thesis
  proof (cases "v = []")
    case True
    with w r have w': "utf8_char (u @ [b])" "u @ [b] \<noteq> kReplacementChar" by simp_all
    then have "utf8_lossy (u @ [b]) = u @ [b]" using utf8_lossy_char [of "u @ [b]" "[]"] by simp
    moreover have "is_char_boundary (lst @ u @ [b]) (length lst)"
      using w' by (cases "u @ [b]")
        (auto simp: is_char_boundary_def nth_append continuation_def elim: utf8_charE)
    then have "back_to_boundary (lst @ u @ [b]) (length lst) = length lst"
      by (cases "length lst") simp_all
    ultimately show ?thesis
      using utf8_char_not_ends [OF w', of lst] utf8_char_remove [OF w']
      by (simp add: True append_token_id_def seq_at_def ByteLevelTokenizer_def dec Let_def)
  next
    case False
    with w have "utf8_lossy (u @ [b]) = kReplacementChar"
      using utf8_lossy_partial [of "u @ [b]" v] by simp
    with False show ?thesis
      by (simp add: append_token_id_def seq_at_def ByteLevelTokenizer_def dec
          ends_with_replacement_def)
  qed
qed

lemma append_char:
  assumes "lst = [] \<or> utf8_char lst" "utf8_char (u @ v)" "u @ v \<noteq> kReplacementChar" "v \<noteq> []"
  shows "append_all (ByteLevelTokenizer ts) (map of_char v @ ids) (seq_at pre lst u) =
    (case append_all (ByteLevelTokenizer ts) ids (seq_at (pre @ lst) (u @ v) []) of
       (Inl e, q) \<Rightarrow> (Inl e, q) | (Inr t, q) \<Rightarrow> (Inr (u @ v @ t), q))"
  using assms
proof (induction v arbitrary: u)
  case (Cons b v)
  show ?case
  proof (cases "v = []")
    case True
    with append_byte [of lst u b v ts pre] Cons.prems show ?thesis by (simp split: prod.splits sum.splits)
  next
    case False
    with append_byte [of lst u b v ts pre] Cons.prems Cons.IH [of "u @ [b]"]
    show ?thesis by (simp split: prod.splits sum.splits)
  qed
qed simp

lemma append_chars:
  assumes "lst = [] \<or> utf8_char lst" "list_all (\<lambda>w. utf8_char w \<and> w \<noteq> kReplacementChar) ws"
  shows "fst (append_all (ByteLevelTokenizer ts) (map of_char (concat ws)) (seq_at pre lst [])) =
    Inr (concat ws)"
  using assms
proof (induction ws arbitrary: pre lst)
  case (Cons w ws)
  from Cons.prems have w: "utf8_char w" "w \<noteq> kReplacementChar" "w \<noteq> []"
    by (auto simp: utf8_char_def)
  from Cons.IH [of w "pre @ lst"] Cons.prems w
  have "fst (append_all (ByteLevelTokenizer ts) (map of_char (concat ws)) (seq_at (pre @ lst) w [])) =
      Inr (concat ws)" by simp
  with append_char [of lst "[]" w ts "map of_char (concat ws)" pre] Cons.prems(1) w
  show ?case by (auto split: prod.splits sum.splits)
qed simp

section \<open>The stop-sequence decoder\<close>

datatype OutKind = KText | KHeld | KStopped | KStoppedWithText

record SequenceDecoderOutput =
  so_kind :: OutKind
  so_text :: string

record StopSequenceConfig =
  stop_token_ids_visible :: "u32 list"
  stop_token_ids_hidden :: "u32 list"
  stop_sequences_visible :: "string list"
  stop_sequences_hidden :: "string list"

record StopSequenceDecoder =
  sd_sequence :: Sequence
  sd_config :: StopSequenceConfig
  sd_stopped :: bool
  sd_state :: string

definition new_stop_decoder :: "StopSequenceConfig \<Rightarrow> StopSequenceDecoder" where
  "new_stop_decoder cfg =
     \<lparr>sd_sequence = new_sequence, sd_config = cfg, sd_stopped = False, sd_state = []\<rparr>"

definition sd_close :: "StopSequenceDecoder \<Rightarrow> StopSequenceDecoder" where
  "sd_close d = d\<lparr>sd_stopped := True\<rparr>"

text \<open>The loop over the hidden sequences: the first one that the jailed text begins decides.\<close>

fun match_hidden :: "string \<Rightarrow> string list \<Rightarrow> OutKind" where
  "match_hidden st [] = KText"
| "match_hidden st (seq # seqs) =
     (if prefix st seq then (if seq = st then KStopped else KHeld) else match_hidden st seqs)"

definition stop_append ::
  "Tokenizer \<Rightarrow> u32 \<Rightarrow> StopSequenceDecoder \<Rightarrow> SequenceDecoderOutput res \<times> StopSequenceDecoder" where
  "stop_append tk token_id d =
     (if sd_stopped d then (Inl (RuntimeError ''Decoder is stopped''), d)
      else case append_token_id tk token_id (sd_sequence d) of
        (Inl e, q) \<Rightarrow> (Inl e, d\<lparr>sd_sequence := q\<rparr>)
      | (Inr s, q) \<Rightarrow>
          let st = sd_state d @ s;
              d1 = d\<lparr>sd_sequence := q, sd_state := st\<rparr>;
              hidden = token_id \<in> set (stop_token_ids_hidden (sd_config d));
              visible = (\<not> hidden \<and> token_id \<in> set (stop_token_ids_visible (sd_config d)))
          in if hidden \<or> visible then
               (Inr (if visible then \<lparr>so_kind = KStoppedWithText, so_text = st\<rparr>
                     else \<lparr>so_kind = KStopped, so_text = []\<rparr>),
                d1\<lparr>sd_stopped := True, sd_state := []\<rparr>)
             else (case match_hidden st (stop_sequences_hidden (sd_config d)) of
                     KStopped \<Rightarrow> (Inr \<lparr>so_kind = KStopped, so_text = []\<rparr>, d1\<lparr>sd_stopped := True\<rparr>)
                   | KHeld \<Rightarrow> (Inr \<lparr>so_kind = KHeld, so_text = []\<rparr>, d1)
                   | _ \<Rightarrow> (Inr \<lparr>so_kind = KText, so_text = st\<rparr>, d1\<lparr>sd_state := []\<rparr>)))"

text \<open>
  The jailed text is empty or a proper prefix of a hidden sequence, and as long as the
  decoder has not stopped, what it emits together with the jailed text is what the
  tokenizer released.
\<close>

definition sd_ok :: "StopSequenceDecoder \<Rightarrow> bool" where
  "sd_ok d = (sd_stopped d \<or> sd_state d = []
     \<or> list_ex (strict_prefix (sd_state d)) (stop_sequences_hidden (sd_config d)))"

lemma match_hidden_held:
  "match_hidden st seqs = KHeld \<Longrightarrow> list_ex (strict_prefix st) seqs"
  by (induction seqs) (auto simp: strict_prefix_def split: if_splits)

lemma match_hidden_stopped: "match_hidden st seqs = KStopped \<Longrightarrow> st \<in> set seqs"
  by (induction seqs) (auto split: if_splits)

lemma sd_ok_preserved [inv_intros]:
  "sd_ok (new_stop_decoder cfg)"
  "sd_ok d \<Longrightarrow> sd_ok (sd_close d)"
  "sd_ok d \<Longrightarrow> sd_ok (snd (stop_append tk i d))"
  by (auto simp: sd_ok_def new_stop_decoder_def sd_close_def stop_append_def Let_def
      split: prod.splits sum.splits OutKind.splits intro: match_hidden_held)

lemma stop_append_conserves:
  assumes "stop_append tk i d = (Inr out, d')" "\<not> sd_stopped d'"
  shows "\<exists>s q. append_token_id tk i (sd_sequence d) = (Inr s, q)
    \<and> so_text out @ sd_state d' = sd_state d @ s"
  using assms
  by (auto simp: stop_append_def Let_def split: prod.splits sum.splits OutKind.splits if_splits)

lemma stop_append_stopped:
  "sd_stopped d \<Longrightarrow> stop_append tk i d = (Inl (RuntimeError ''Decoder is stopped''), d)"
  by (simp add: stop_append_def)

section \<open>Properties\<close>

text \<open>The clean-up loop terminates on every text, although erasing a replacement character
  can create a new one: it returns a text without replacement characters that arises from
  the input by deleting bytes only, and the input itself when there was nothing to erase.
\<close>

lemma replacement_removal_terminates:
  "\<exists>r. erase_loop s = Some r \<and> remove_replacement_chars s = r
       \<and> \<not> sublist kReplacementChar r \<and> subseq r s \<and> (sublist kReplacementChar s \<or> r = s)"
  using erase_loop_returns [of s] by (auto simp: remove_replacement_chars_def)

text \<open>A text of complete UTF-8 characters other than U+FFFD, encoded by the byte-level
  tokenizer and decoded one token at a time, comes out unchanged: no byte is lost,
  repeated or replaced although each character is only released with its last byte.
\<close>

lemma byte_stream_roundtrip:
  assumes "list_all (\<lambda>w. utf8_char w \<and> w \<noteq> kReplacementChar) ws"
  shows "fst (append_all (ByteLevelTokenizer ts) (en_token_ids (byte_encode (concat ws))) new_sequence)
    = Inr (concat ws)"
  using append_chars [of "[]" ws ts "[]"] assms
  by (simp add: byte_encode_def seq_at_def new_sequence_def)

lemma byte_stream_roundtrip_witness:
  "fst (append_all (ByteLevelTokenizer (\<lambda>_. ''?''))
      (en_token_ids (byte_encode (concat [''a'', [CHR 0xE2, CHR 0x82, CHR 0xAC], ''b'']))) new_sequence)
    = Inr (concat [''a'', [CHR 0xE2, CHR 0x82, CHR 0xAC], ''b''])"
proof -
  have "list_all (\<lambda>w. utf8_char w \<and> w \<noteq> kReplacementChar)
      [''a'', [CHR 0xE2, CHR 0x82, CHR 0xAC], ''b'']"
    by code_simp
  then show ?thesis by (rule byte_stream_roundtrip)
qed

end
