(* ===== verification/Backend.thy ===== *)
theory Backend
  imports Sse Tokenizers
begin

text \<open>
  The backend operator between the preprocessor and the engine (\<open>llm/backend.h\<close>,
  \<open>backend.cpp\<close>) with the protocol types it uses (\<open>llm/protocols/common.h\<close>,
  \<open>llm_backend.h\<close>): finish reasons, stop conditions, the decoder that detokenizes and
  jails text which may begin a stop sequence, and the stream transformation. The engine's
  stream is a list of items; what the tokenizer throws ends the stream. The main fact is
  that holding back text, delta by delta, releases exactly what cutting the whole decoded
  text at the stop condition would.
\<close>

section \<open>Finish reasons and stop conditions\<close>

datatype FinishReason = FEos | FLength | FStop | FError string | FCancelled

fun fr_to_string :: "FinishReason \<Rightarrow> string" where
  "fr_to_string FEos = ''eos''"
| "fr_to_string FLength = ''length''"
| "fr_to_string FStop = ''stop''"
| "fr_to_string FCancelled = ''cancelled''"
| "fr_to_string (FError msg) = ''error: '' @ msg"

definition fr_from_string :: "string \<Rightarrow> FinishReason res" where
  "fr_from_string s =
     (if s = ''eos'' then Inr FEos
      else if s = ''length'' then Inr FLength
      else if s = ''stop'' then Inr FStop
      else if s = ''cancelled'' then Inr FCancelled
      else if prefix ''error: '' s then Inr (FError (drop 7 s))
      else Inl (InvalidArgument (''Invalid FinishReason variant: '' @ [CHR 0x27] @ s @ [CHR 0x27])))"

lemma fr_from_to_string [simp]: "fr_from_string (fr_to_string r) = Inr r"
  by (cases r) (simp_all add: fr_from_string_def)

lemma fr_from_string_Inr: "fr_from_string s = Inr r \<Longrightarrow> fr_to_string r = s"
  by (auto simp: fr_from_string_def prefix_def split: if_splits)

record StopConditions =
  max_tokens :: "u32 option"
  sc_stop :: "string list option"
  sc_stop_token_ids_hidden :: "u32 list option"
  sc_min_tokens :: "u32 option"
  ignore_eos :: "bool option"

definition apply_ignore_eos :: "StopConditions \<Rightarrow> StopConditions" where
  "apply_ignore_eos c =
     (if ignore_eos c = Some True
      then c\<lparr>sc_min_tokens := max_tokens c, sc_stop := None, sc_stop_token_ids_hidden := None\<rparr>
      else c)"

lemma apply_ignore_eos_idem: "apply_ignore_eos (apply_ignore_eos c) = apply_ignore_eos c"
  by (simp add: apply_ignore_eos_def)

section \<open>Engine deltas and outputs\<close>

type_synonym TokenType = "string option"

record 'f LLMEngineOutput =
  eo_token_ids :: "u32 list"
  eo_tokens :: "TokenType list option"
  eo_text :: "string option"
  eo_cum_log_probs :: "'f option"
  eo_log_probs :: "'f list option"
  eo_finish_reason :: "FinishReason option"

definition with_reason :: "FinishReason \<Rightarrow> 'f LLMEngineOutput" where
  "with_reason r = \<lparr>eo_token_ids = [], eo_tokens = None, eo_text = None, eo_cum_log_probs = None,
     eo_log_probs = None, eo_finish_reason = Some r\<rparr>"

record 'f BackendOutput =
  bo_token_ids :: "u32 list"
  bo_tokens :: "TokenType list"
  bo_text :: "string option"
  bo_cum_log_probs :: "'f option"
  bo_log_probs :: "'f list option"
  bo_finish_reason :: "FinishReason option"
  bo_mdcsum :: string

definition to_backend_output :: "'f LLMEngineOutput \<Rightarrow> string \<Rightarrow> 'f BackendOutput" where
  "to_backend_output data mdcsum =
     \<lparr>bo_token_ids = eo_token_ids data,
      bo_tokens = (case eo_tokens data of Some ts \<Rightarrow> ts | None \<Rightarrow> []),
      bo_text = eo_text data, bo_cum_log_probs = eo_cum_log_probs data,
      bo_log_probs = eo_log_probs data, bo_finish_reason = eo_finish_reason data,
      bo_mdcsum = mdcsum\<rparr>"

section \<open>The decoder\<close>

datatype StopTrigger =
    MaxTokensLimit
  | HiddenStopToken u32
  | HiddenStopSequence string

definition trigger_finish_reason :: "StopTrigger \<Rightarrow> FinishReason" where
  "trigger_finish_reason t = (case t of MaxTokensLimit \<Rightarrow> FLength | _ \<Rightarrow> FStop)"

record StepResult =
  sr_token :: "string option"
  sr_stop_trigger :: "StopTrigger option"

record SeqResult =
  se_tokens :: "string option list"
  se_text :: "string option"
  se_stop_trigger :: "StopTrigger option"

record Decoder =
  dc_sequence :: Sequence
  min_tokens :: u32
  hidden_stop_ids :: "u32 set"
  hidden_stop_sequences :: "string list"
  generated_tokens :: u32
  pending :: string

definition Decoder_new :: "StopConditions \<Rightarrow> Decoder" where
  "Decoder_new c =
     \<lparr>dc_sequence = new_sequence,
      min_tokens = (case sc_min_tokens c of Some n \<Rightarrow> n | None \<Rightarrow> 0),
      hidden_stop_ids = (case sc_stop_token_ids_hidden c of Some ids \<Rightarrow> set ids | None \<Rightarrow> {}),
      hidden_stop_sequences = (case sc_stop c of Some ss \<Rightarrow> ss | None \<Rightarrow> []),
      generated_tokens = 0, pending = []\<rparr>"

definition dc_flush :: "Decoder \<Rightarrow> string \<times> Decoder" where
  "dc_flush d = (pending d, d\<lparr>pending := []\<rparr>)"

text \<open>The first listed stop sequence that occurs in the candidate, with its offset.\<close>

primrec find_stop :: "string list \<Rightarrow> string \<Rightarrow> (string \<times> nat) option" where
  "find_stop [] cand = None"
| "find_stop (seq # seqs) cand =
     (case str_find seq cand of Some off \<Rightarrow> Some (seq, off) | None \<Rightarrow> find_stop seqs cand)"

text \<open>\<open>seq.size() - 1\<close> wraps for an empty sequence.\<close>

definition size_minus_1 :: "string \<Rightarrow> nat" where
  "size_minus_1 s = (if s = [] then 2 ^ 64 - 1 else length s - 1)"

definition max_hold :: "string list \<Rightarrow> nat" where
  "max_hold seqs = foldl (\<lambda>m s. max m (size_minus_1 s)) 0 seqs"

text \<open>The scan for the longest suffix that begins a stop sequence, from long to short.\<close>

primrec hold_scan :: "string list \<Rightarrow> string \<Rightarrow> nat \<Rightarrow> nat" where
  "hold_scan seqs cand 0 = 0"
| "hold_scan seqs cand (Suc n) =
     (if list_ex (\<lambda>seq. Suc n < length seq \<and> take (Suc n) seq = drop (length cand - Suc n) cand) seqs
      then Suc n else hold_scan seqs cand n)"

definition dc_step :: "Tokenizer \<Rightarrow> u32 \<Rightarrow> Decoder \<Rightarrow> StepResult res \<times> Decoder" where
  "dc_step tk token_id d0 =
     (let g = generated_tokens d0 + 1 in
      case append_token_id tk token_id (dc_sequence d0) of
        (Inl e, q) \<Rightarrow> (Inl e, d0\<lparr>generated_tokens := g, dc_sequence := q\<rparr>)
      | (Inr decoded, q) \<Rightarrow>
          let d = d0\<lparr>generated_tokens := g, dc_sequence := q\<rparr> in
          if g < min_tokens d then
            (Inr \<lparr>sr_token = opt_str (pending d @ decoded), sr_stop_trigger = None\<rparr>, d\<lparr>pending := []\<rparr>)
          else if token_id \<in> hidden_stop_ids d then
            (Inr \<lparr>sr_token = opt_str (pending d), sr_stop_trigger = Some (HiddenStopToken token_id)\<rparr>,
             d\<lparr>pending := []\<rparr>)
          else if hidden_stop_sequences d = [] then
            (Inr \<lparr>sr_token = opt_str decoded, sr_stop_trigger = None\<rparr>, d)
          else
            let candidate = pending d @ decoded in
            case find_stop (hidden_stop_sequences d) candidate of
              Some (seq, offset) \<Rightarrow>
                (Inr \<lparr>sr_token = opt_str (take offset candidate),
                     sr_stop_trigger = Some (HiddenStopSequence seq)\<rparr>, d\<lparr>pending := []\<rparr>)
            | None \<Rightarrow>
                let hold = hold_scan (hidden_stop_sequences d) candidate
                      (min (length candidate) (max_hold (hidden_stop_sequences d)))
                in (Inr \<lparr>sr_token = opt_str (take (length candidate - hold) candidate),
                         sr_stop_trigger = None\<rparr>,
                    d\<lparr>pending := drop (length candidate - hold) candidate\<rparr>))"

text \<open>The loop over a delta's identifiers, on the result accumulated so far.\<close>

definition add_text :: "string option \<Rightarrow> string option \<Rightarrow> string option" where
  "add_text text token =
     (case token of None \<Rightarrow> text
      | Some s \<Rightarrow> Some ((case text of Some t \<Rightarrow> t | None \<Rightarrow> []) @ s))"

fun process_loop ::
  "Tokenizer \<Rightarrow> u32 list \<Rightarrow> SeqResult \<Rightarrow> Decoder \<Rightarrow> SeqResult res \<times> Decoder" where
  "process_loop tk [] r d = (Inr r, d)"
| "process_loop tk (i # is) r d =
     (case dc_step tk i d of
        (Inl e, d') \<Rightarrow> (Inl e, d')
      | (Inr s, d') \<Rightarrow>
          let r' = \<lparr>se_tokens = se_tokens r @ [sr_token s],
                    se_text = add_text (se_text r) (sr_token s),
                    se_stop_trigger = sr_stop_trigger s\<rparr>
          in if sr_stop_trigger s \<noteq> None then (Inr r', d') else process_loop tk is r' d')"

definition empty_result :: SeqResult where
  "empty_result = \<lparr>se_tokens = [], se_text = None, se_stop_trigger = None\<rparr>"

definition process_token_ids ::
  "Tokenizer \<Rightarrow> u32 list \<Rightarrow> Decoder \<Rightarrow> SeqResult res \<times> Decoder" where
  "process_token_ids tk ids d = process_loop tk ids empty_result d"

section \<open>Jailing\<close>

text \<open>
  \<open>jailed stops T P\<close>: of the text \<open>T\<close> produced so far the suffix \<open>P\<close> is held back. No stop
  sequence occurs in \<open>T\<close>, and every suffix of \<open>T\<close> that properly begins a stop sequence lies
  within \<open>P\<close>.
\<close>

definition jailed :: "string set \<Rightarrow> string \<Rightarrow> string \<Rightarrow> bool" where
  "jailed stops T P \<longleftrightarrow> suffix P T \<and> (\<forall>s\<in>stops. \<not> sublist s T)
     \<and> (\<forall>s\<in>stops. \<forall>v. suffix v T \<longrightarrow> strict_prefix v s \<longrightarrow> length v \<le> length P)"

lemma jailedD:
  "jailed stops T P \<Longrightarrow> s \<in> stops \<Longrightarrow> suffix v T \<Longrightarrow> strict_prefix v s \<Longrightarrow> length v \<le> length P"
  by (simp add: jailed_def)

text \<open>An occurrence that new text completes starts inside the held text.\<close>

lemma jailed_start:
  assumes j: "jailed stops (R @ P) P" and s: "s \<in> stops" and ab: "R @ P @ y = a @ s @ b"
  shows "length R \<le> length a"
proof (rule ccontr)
  assume less: "\<not> length R \<le> length a"
  define v where "v = drop (length a) (R @ P)"
  have T: "R @ P = a @ v"
    using less arg_cong [OF ab, of "take (length a)"] append_take_drop_id [of "length a" "R @ P"]
    by (simp add: v_def)
  have "a @ v @ y = a @ s @ b" using ab T by (simp flip: append_assoc)
  then have vs: "v @ y = s @ b" by simp
  have "\<not> prefix s v"
  proof
    assume "prefix s v"
    then obtain t where "R @ P = a @ s @ t" using T by (auto simp: prefix_def)
    then have "sublist s (R @ P)" by (simp only: sublist_appendI)
    with j s show False by (simp add: jailed_def)
  qed
  with vs have "strict_prefix v s"
    by (metis prefixI prefix_same_cases strict_prefixI)
  moreover have "suffix v (R @ P)" unfolding v_def by (rule suffix_drop)
  ultimately have "length v \<le> length P" by (intro jailedD [OF j s])
  moreover have "length P < length v" using less by (simp add: v_def)
  ultimately show False by simp
qed

lemma str_find_shift:
  "(\<And>n. n < length R \<Longrightarrow> \<not> prefix q (drop n R @ c)) \<Longrightarrow>
   str_find q (R @ c) = map_option ((+) (length R)) (str_find q c)"
proof (induction R)
  case Nil
  then show ?case by (simp add: option.map_ident)
next
  case (Cons r R)
  have "str_find q (R @ c) = map_option ((+) (length R)) (str_find q c)"
    by (rule Cons.IH) (use Cons.prems [of "Suc _"] in simp)
  with Cons.prems [of 0] show ?case by (simp add: option.map_comp o_def)
qed

lemma jailed_find:
  assumes j: "jailed stops (R @ P) P" and s: "s \<in> stops"
  shows "str_find s (R @ P @ y) = map_option ((+) (length R)) (str_find s (P @ y))"
proof (rule str_find_shift)
  fix n
  assume n: "n < length R"
  show "\<not> prefix s (drop n R @ P @ y)"
  proof
    assume "prefix s (drop n R @ P @ y)"
    then obtain b where "drop n R @ P @ y = s @ b" by (auto simp: prefix_def)
    then have "R @ P @ y = take n R @ s @ b" by (metis append_assoc append_take_drop_id)
    from jailed_start [OF j s this] n show False by simp
  qed
qed

lemma jailed_sublist:
  "jailed stops (R @ P) P \<Longrightarrow> s \<in> stops \<Longrightarrow> sublist s (R @ P @ y) \<Longrightarrow> sublist s (P @ y)"
  using jailed_find [of stops R P s y] str_find_None [of s "R @ P @ y"] str_find_None [of s "P @ y"] by auto

lemma jailed_find_stop:
  "jailed stops (R @ P) P \<Longrightarrow> set seqs \<subseteq> stops \<Longrightarrow>
   find_stop seqs (R @ P @ y) = map_option (map_prod id ((+) (length R))) (find_stop seqs (P @ y))"
  by (induction seqs) (simp_all add: jailed_find split: option.splits)

lemma hold_scan_le: "hold_scan seqs cand n \<le> n"
  by (induction n) auto

lemma hold_scan_max:
  "seq \<in> set seqs \<Longrightarrow> 0 < k \<Longrightarrow> k \<le> n \<Longrightarrow> k < length seq \<Longrightarrow>
   take k seq = drop (length cand - k) cand \<Longrightarrow> k \<le> hold_scan seqs cand n"
proof (induction n)
  case (Suc n)
  then show ?case by (cases "k = Suc n") (auto simp: list_ex_iff)
qed simp

lemma max_hold_ge:
  assumes "s \<in> set seqs"
  shows "length s - 1 \<le> max_hold seqs"
proof -
  have acc: "m \<le> foldl (\<lambda>m s. max m (size_minus_1 s)) m seqs" for m and seqs :: "string list"
    by (induction seqs arbitrary: m) (auto intro: order.trans [OF max.cobounded1])
  have "s \<in> set seqs \<Longrightarrow> size_minus_1 s \<le> foldl (\<lambda>m s. max m (size_minus_1 s)) m seqs" for m
    by (induction seqs arbitrary: m) (auto intro: order.trans [OF max.cobounded2 acc])
  from this [OF assms, of 0] have "size_minus_1 s \<le> max_hold seqs" by (simp add: max_hold_def)
  moreover have "length s - 1 \<le> size_minus_1 s" by (simp add: size_minus_1_def)
  ultimately show ?thesis by simp
qed

text \<open>Without a match, the scan keeps the invariant.\<close>

lemma jailed_scan:
  assumes j: "jailed (set seqs) (R @ P) P" and none: "\<forall>s\<in>set seqs. \<not> sublist s (P @ y)"
    and hold: "hold = hold_scan seqs (P @ y) (min (length (P @ y)) (max_hold seqs))"
  shows "jailed (set seqs) (R @ P @ y) (drop (length (P @ y) - hold) (P @ y))"
  unfolding jailed_def
proof (intro conjI ballI allI impI)
  show "suffix (drop (length (P @ y) - hold) (P @ y)) (R @ P @ y)"
    by (rule suffix_appendI, rule suffix_drop)
  show "\<not> sublist s (R @ P @ y)" if "s \<in> set seqs" for s
    using jailed_sublist [OF j that, of y] none that by blast
  fix s v
  assume s: "s \<in> set seqs" and v: "suffix v (R @ P @ y)" and pre: "strict_prefix v s"
  have len: "length v < length s" using pre by (rule prefix_length_less)
  have "suffix v (P @ y)"
  proof (rule ccontr)
    assume "\<not> suffix v (P @ y)"
    with v obtain w where w: "v = w @ P @ y" "suffix w R" by (auto simp: suffix_append [of v R])
    have "strict_prefix (w @ P) s"
      by (rule prefix_order.le_less_trans [OF _ pre]) (simp add: w(1))
    moreover have "suffix (w @ P) (R @ P)" using w(2) by simp
    ultimately have "length (w @ P) \<le> length P" by (intro jailedD [OF j s])
    with w have "v = P @ y" by simp
    with \<open>\<not> suffix v (P @ y)\<close> show False by simp
  qed
  then obtain z where z: "P @ y = z @ v" by (auto simp: suffix_def)
  then have "drop (length (P @ y) - length v) (P @ y) = v" and "length v \<le> length (P @ y)" by simp_all
  moreover have "take (length v) s = v" using pre by (auto simp: strict_prefix_def prefix_def)
  moreover have "length v \<le> max_hold seqs" using max_hold_ge [OF s] len by simp
  ultimately have "length v \<le> hold"
    using hold_scan_max [OF s, of "length v" "min (length (P @ y)) (max_hold seqs)" "P @ y"] len hold
    by (cases "length v = 0") simp_all
  moreover have "hold \<le> length (P @ y)"
    using hold_scan_le [of seqs "P @ y" "min (length (P @ y)) (max_hold seqs)"] hold by simp
  ultimately show "length v \<le> length (drop (length (P @ y) - hold) (P @ y))" by simp
qed

text \<open>What a match is.\<close>

lemma find_stop_Some:
  "find_stop seqs cand = Some (q, off) \<Longrightarrow>
     q \<in> set seqs \<and> str_find q cand = Some off \<and> (\<forall>s\<in>set (takeWhile ((\<noteq>) q) seqs). \<not> sublist s cand)"
  by (induction seqs) (auto simp: str_find_None split: option.splits if_splits)

lemma find_stop_None: "find_stop seqs cand = None \<longleftrightarrow> (\<forall>s\<in>set seqs. \<not> sublist s cand)"
  by (induction seqs) (auto simp flip: str_find_None split: option.splits)

section \<open>Released text\<close>

definition txt_of :: "string option \<Rightarrow> string" where
  "txt_of v = (case v of Some s \<Rightarrow> s | None \<Rightarrow> [])"

lemma txt_of_opt_str [simp]: "txt_of (opt_str s) = s"
  by (simp add: txt_of_def opt_str_def)

lemma txt_of_add_text [simp]: "txt_of (add_text a b) = txt_of a @ txt_of b"
  by (simp add: txt_of_def add_text_def split: option.split)

text \<open>The decoder between steps: \<open>T\<close> the text decoded, \<open>R\<close> the text released.\<close>

definition dc_inv :: "string \<Rightarrow> string \<Rightarrow> Decoder \<Rightarrow> bool" where
  "dc_inv T R d \<longleftrightarrow> T = R @ pending d \<and> jailed (set (hidden_stop_sequences d)) T (pending d)
     \<and> min_tokens d = 0 \<and> [] \<notin> set (hidden_stop_sequences d)
     \<and> (hidden_stop_sequences d = [] \<longrightarrow> pending d = [])"

text \<open>
  The reference, on the whole decoded text and with nothing held back: the run ends at a stop
  token, whose text is not added, or with the first listed sequence that occurs in the text, which
  is cut before it.
\<close>

definition at_stop :: "string list \<Rightarrow> u32 set \<Rightarrow> u32 \<Rightarrow> string \<Rightarrow> string \<Rightarrow> (string \<times> StopTrigger) option" where
  "at_stop stops hidden i T x =
     (if i \<in> hidden then Some (T, HiddenStopToken i)
      else map_option (\<lambda>(s, off). (take off (T @ x), HiddenStopSequence s)) (find_stop stops (T @ x)))"

primrec cut_at_stop ::
  "Tokenizer \<Rightarrow> string list \<Rightarrow> u32 set \<Rightarrow> u32 list \<Rightarrow> Sequence \<Rightarrow> string \<Rightarrow> (string \<times> StopTrigger option) res"
where
  "cut_at_stop tk stops hidden [] q T = Inr (T, None)"
| "cut_at_stop tk stops hidden (i # is) q T =
     (case append_token_id tk i q of
        (Inl e, _) \<Rightarrow> Inl e
      | (Inr x, q') \<Rightarrow>
          (case at_stop stops hidden i T x of
             Some (R, t) \<Rightarrow> Inr (R, Some t)
           | None \<Rightarrow> cut_at_stop tk stops hidden is q' (T @ x)))"

text \<open>
  What the reference promises of the text \<open>R\<close> it gives for the identifiers \<open>toks\<close>, from the
  decoded texts of their prefixes.
\<close>

definition decodes :: "Tokenizer \<Rightarrow> u32 list \<Rightarrow> string \<Rightarrow> bool" where
  "decodes tk toks T = (fst (append_all tk toks new_sequence) = Inr T)"

definition stop_free :: "string list \<Rightarrow> string \<Rightarrow> bool" where
  "stop_free stops T = list_all (\<lambda>s. \<not> sublist s T) stops"

fun stop_cut :: "Tokenizer \<Rightarrow> string list \<Rightarrow> u32 set \<Rightarrow> u32 list \<Rightarrow> string \<Rightarrow> StopTrigger option \<Rightarrow> bool" where
  "stop_cut tk stops hidden toks R None =
     (decodes tk toks R \<and> stop_free stops R \<and> set toks \<inter> hidden = {})"
| "stop_cut tk stops hidden toks R (Some (HiddenStopToken i)) =
     (\<exists>used rest. toks = used @ i # rest \<and> i \<in> hidden \<and> set used \<inter> hidden = {}
        \<and> decodes tk used R \<and> stop_free stops R)"
| "stop_cut tk stops hidden toks R (Some (HiddenStopSequence q)) =
     (\<exists>used i rest T T'. toks = used @ i # rest \<and> set (used @ [i]) \<inter> hidden = {}
        \<and> decodes tk used T \<and> stop_free stops T \<and> decodes tk (used @ [i]) T'
        \<and> q \<in> set stops \<and> stop_free (takeWhile ((\<noteq>) q) stops) T'
        \<and> prefix (R @ q) T' \<and> \<not> sublist q (butlast (R @ q)))"
| "stop_cut tk stops hidden toks R (Some MaxTokensLimit) = False"

lemma step_keeps:
  "snd (dc_step tk i d) = d' \<Longrightarrow> hidden_stop_sequences d' = hidden_stop_sequences d
     \<and> min_tokens d' = min_tokens d \<and> hidden_stop_ids d' = hidden_stop_ids d
     \<and> dc_sequence d' = snd (append_token_id tk i (dc_sequence d))"
  by (auto simp: dc_step_def Let_def split: prod.splits sum.splits option.splits if_splits)

text \<open>A step of the decoder against a step of the reference.\<close>

lemma step_cut:
  assumes inv: "dc_inv T R d" and app: "append_token_id tk i (dc_sequence d) = (Inr x, q)"
  shows "\<exists>s d'. dc_step tk i d = (Inr s, d')
    \<and> (case at_stop (hidden_stop_sequences d) (hidden_stop_ids d) i T x of
         None \<Rightarrow> sr_stop_trigger s = None \<and> dc_inv (T @ x) (R @ txt_of (sr_token s)) d'
       | Some (txt, t) \<Rightarrow> sr_stop_trigger s = Some t \<and> R @ txt_of (sr_token s) = txt)"
proof -
  let ?S = "hidden_stop_sequences d" and ?c = "pending d @ x"
  from inv have T: "T = R @ pending d" and j: "jailed (set ?S) (R @ pending d) (pending d)"
    and min0: "min_tokens d = 0" and ne: "[] \<notin> set ?S" and emp: "?S = [] \<Longrightarrow> pending d = []"
    by (auto simp: dc_inv_def)
  note find = jailed_find_stop [OF j subset_refl, of x]
  consider "i \<in> hidden_stop_ids d" | "i \<notin> hidden_stop_ids d" "?S = []"
    | p off where "i \<notin> hidden_stop_ids d" "?S \<noteq> []" "find_stop ?S ?c = Some (p, off)"
    | "i \<notin> hidden_stop_ids d" "?S \<noteq> []" "find_stop ?S ?c = None"
    by (cases "find_stop ?S ?c") auto
  then show ?thesis
  proof cases
    case 1
    then show ?thesis by (simp add: dc_step_def app Let_def min0 at_stop_def T)
  next
    case 2
    then show ?thesis using T emp by (simp add: dc_step_def app Let_def min0 at_stop_def dc_inv_def jailed_def)
  next
    case (3 p off)
    then show ?thesis using find by (simp add: dc_step_def app Let_def min0 at_stop_def T)
  next
    case 4
    define c where "c = pending d @ x"
    define k where "k = length c - hold_scan ?S c (min (length c) (max_hold ?S))"
    have "jailed (set ?S) (R @ c) (drop k c)"
      unfolding c_def k_def by (rule jailed_scan [OF j _ refl]) (use 4(3) in \<open>simp add: find_stop_None\<close>)
    moreover have "dc_step tk i d = (Inr \<lparr>sr_token = opt_str (take k c), sr_stop_trigger = None\<rparr>,
        d\<lparr>generated_tokens := generated_tokens d + 1, dc_sequence := q, pending := drop k c\<rparr>)"
      using 4 by (simp add: dc_step_def app Let_def min0 c_def k_def del: take_append drop_append)
    moreover have "T @ x = R @ c" "at_stop ?S (hidden_stop_ids d) i T x = None"
      using 4 find by (simp_all add: T c_def at_stop_def)
    ultimately show ?thesis using 4(2) ne min0 by (simp add: dc_inv_def)
  qed
qed

lemma step_error:
  "append_token_id tk i (dc_sequence d) = (Inl e, q) \<Longrightarrow> \<exists>d'. dc_step tk i d = (Inl e, d')"
  by (simp add: dc_step_def Let_def)

text \<open>
  A run over the identifiers of one delta, with more to come: an error or a stop ends the
  reference too; otherwise the reference goes on where the decoder is.
\<close>

abbreviation dc_cut :: "Tokenizer \<Rightarrow> Decoder \<Rightarrow> u32 list \<Rightarrow> string \<Rightarrow> (string \<times> StopTrigger option) res" where
  "dc_cut tk d toks T \<equiv> cut_at_stop tk (hidden_stop_sequences d) (hidden_stop_ids d) toks (dc_sequence d) T"

definition same_stops :: "Decoder \<Rightarrow> Decoder \<Rightarrow> bool" where
  "same_stops d d' = (hidden_stop_sequences d' = hidden_stop_sequences d \<and> hidden_stop_ids d' = hidden_stop_ids d)"

lemma process_loop_cut:
  assumes "dc_inv T R d" "se_stop_trigger r = None" "process_loop tk ids r d = (v, d')"
  shows "case v of
      Inl e \<Rightarrow> \<forall>more. dc_cut tk d (ids @ more) T = Inl e
    | Inr r' \<Rightarrow> (\<exists>new. txt_of (se_text r') = txt_of (se_text r) @ new
        \<and> (case se_stop_trigger r' of
             Some t \<Rightarrow> \<forall>more. dc_cut tk d (ids @ more) T = Inr (R @ new, Some t)
           | None \<Rightarrow> same_stops d d' \<and> (\<exists>X. dc_inv (T @ X) (R @ new) d'
               \<and> (\<forall>more. dc_cut tk d (ids @ more) T = dc_cut tk d' more (T @ X)))))"
  using assms
proof (induction ids arbitrary: T R r d)
  case Nil
  then show ?case by (auto simp: same_stops_def intro!: exI [of _ "[]"])
next
  case (Cons i ids)
  obtain w q where app: "append_token_id tk i (dc_sequence d) = (w, q)" by fastforce
  show ?case
  proof (cases w)
    case (Inl e)
    with step_error [of tk i d e q] app Cons.prems(3) show ?thesis by auto
  next
    case (Inr x)
    with app have app: "append_token_id tk i (dc_sequence d) = (Inr x, q)" by simp
    from step_cut [OF Cons.prems(1) app] obtain s d1 where st: "dc_step tk i d = (Inr s, d1)"
      and stop: "case at_stop (hidden_stop_sequences d) (hidden_stop_ids d) i T x of
         None \<Rightarrow> sr_stop_trigger s = None \<and> dc_inv (T @ x) (R @ txt_of (sr_token s)) d1
       | Some (txt, t) \<Rightarrow> sr_stop_trigger s = Some t \<and> R @ txt_of (sr_token s) = txt" by blast
    from step_keeps [of tk i d d1] st app have kept: "hidden_stop_sequences d1 = hidden_stop_sequences d"
      "hidden_stop_ids d1 = hidden_stop_ids d" "dc_sequence d1 = q" by simp_all
    show ?thesis
    proof (cases "at_stop (hidden_stop_sequences d) (hidden_stop_ids d) i T x")
      case None
      let ?r = "\<lparr>se_tokens = se_tokens r @ [sr_token s], se_text = add_text (se_text r) (sr_token s),
        se_stop_trigger = sr_stop_trigger s\<rparr>"
      have inv: "dc_inv (T @ x) (R @ txt_of (sr_token s)) d1" and no: "sr_stop_trigger s = None"
        using stop None by simp_all
      have "process_loop tk ids ?r d1 = (v, d')" using Cons.prems(3) st no by simp
      from Cons.IH [OF inv _ this] no have IH: "case v of
          Inl e \<Rightarrow> \<forall>more. dc_cut tk d1 (ids @ more) (T @ x) = Inl e
        | Inr r' \<Rightarrow> (\<exists>new. txt_of (se_text r') = txt_of (se_text ?r) @ new
            \<and> (case se_stop_trigger r' of
                 Some t \<Rightarrow> \<forall>more. dc_cut tk d1 (ids @ more) (T @ x) = Inr ((R @ txt_of (sr_token s)) @ new, Some t)
               | None \<Rightarrow> same_stops d1 d' \<and> (\<exists>X. dc_inv ((T @ x) @ X) ((R @ txt_of (sr_token s)) @ new) d'
                   \<and> (\<forall>more. dc_cut tk d1 (ids @ more) (T @ x) = dc_cut tk d' more ((T @ x) @ X)))))" by simp
      have go: "dc_cut tk d ((i # ids) @ more) T = dc_cut tk d1 (ids @ more) (T @ x)" for more
        using app None kept by simp
      show ?thesis
      proof (cases v)
        case (Inl e)
        with IH go show ?thesis by simp
      next
        case (Inr r')
        with IH [unfolded append_assoc] obtain new where new: "txt_of (se_text r') = txt_of (se_text r) @ txt_of (sr_token s) @ new"
          and rest: "case se_stop_trigger r' of
                 Some t \<Rightarrow> \<forall>more. dc_cut tk d1 (ids @ more) (T @ x) = Inr (R @ txt_of (sr_token s) @ new, Some t)
               | None \<Rightarrow> same_stops d1 d' \<and> (\<exists>X. dc_inv (T @ x @ X) (R @ txt_of (sr_token s) @ new) d'
                   \<and> (\<forall>more. dc_cut tk d1 (ids @ more) (T @ x) = dc_cut tk d' more (T @ x @ X)))" by auto
        have "same_stops d1 d' \<Longrightarrow> same_stops d d'" using kept by (simp add: same_stops_def)
        with Inr new rest show ?thesis unfolding go
          by - (simp only: sum.case, rule exI [of _ "txt_of (sr_token s) @ new"],
              auto split: option.splits intro: exI [of _ "x @ _"])
      qed
    next
      case (Some a)
      with stop Cons.prems(3) st app show ?thesis by (auto split: prod.splits)
    qed
  qed
qed

lemma process_token_ids_cut:
  assumes "dc_inv T R d" "process_token_ids tk ids d = (v, d')"
  shows "case v of
      Inl e \<Rightarrow> \<forall>more. dc_cut tk d (ids @ more) T = Inl e
    | Inr r \<Rightarrow>
        (case se_stop_trigger r of
           Some t \<Rightarrow> \<forall>more. dc_cut tk d (ids @ more) T = Inr (R @ txt_of (se_text r), Some t)
         | None \<Rightarrow> same_stops d d' \<and> (\<exists>X. dc_inv (T @ X) (R @ txt_of (se_text r)) d'
             \<and> (\<forall>more. dc_cut tk d (ids @ more) T = dc_cut tk d' more (T @ X))))"
proof -
  have "se_stop_trigger empty_result = None" "txt_of (se_text empty_result) = []"
    by (simp_all add: empty_result_def txt_of_def)
  with process_loop_cut [OF assms(1) _ assms(2) [unfolded process_token_ids_def]]
  show ?thesis by (simp split: sum.splits option.splits)
qed

text \<open>The reference keeps its promise.\<close>

lemma append_all_snoc:
  "append_all tk a q = (Inr T, q1) \<Longrightarrow> append_token_id tk i q1 = (Inr x, q2) \<Longrightarrow>
   append_all tk (a @ [i]) q = (Inr (T @ x), q2)"
  by (induction a arbitrary: q T) (auto split: prod.splits sum.splits)

lemma stop_free_iff: "stop_free stops T \<longleftrightarrow> (\<forall>s\<in>set stops. \<not> sublist s T)"
  by (simp add: stop_free_def list_all_iff)

lemma first_occurrence:
  assumes "str_find q T = Some off" "q \<noteq> []"
  shows "prefix (take off T @ q) T \<and> \<not> sublist q (butlast (take off T @ q))"
proof -
  from str_find_Some [OF assms(1)] have T: "T = take off T @ q @ drop (off + length q) T"
    and len: "off + length q \<le> length T" by simp_all
  from T have "take (off + length q) T = take off T @ q"
    by (metis append_assoc append_eq_conv_conj length_append length_take len le_add1 min.absorb2 order.trans)
  then have "butlast (take off T @ q) = take (off + length q - 1) T"
    using len by (metis butlast_take)
  with str_find_first [OF assms] T show ?thesis by (metis append_assoc prefixI)
qed

lemma cut_at_stop_meaning:
  assumes "cut_at_stop tk stops hidden toks q T = Inr (R, trig)"
    and "append_all tk used new_sequence = (Inr T, q)" "set used \<inter> hidden = {}" "stop_free stops T" "[] \<notin> set stops"
  shows "stop_cut tk stops hidden (used @ toks) R trig"
  using assms
proof (induction toks arbitrary: used q T)
  case Nil
  then show ?case by (simp add: decodes_def)
next
  case (Cons i toks)
  from Cons.prems(1) obtain x q' where app: "append_token_id tk i q = (Inr x, q')"
    by (auto split: prod.splits sum.splits)
  have snoc: "append_all tk (used @ [i]) new_sequence = (Inr (T @ x), q')"
    by (rule append_all_snoc [OF Cons.prems(2) app])
  consider "i \<in> hidden" | p off where "i \<notin> hidden" "find_stop stops (T @ x) = Some (p, off)"
    | "i \<notin> hidden" "find_stop stops (T @ x) = None" by (cases "find_stop stops (T @ x)") auto
  then show ?case
  proof cases
    case 1
    with Cons.prems(1) app have "R = T" "trig = Some (HiddenStopToken i)" by (simp_all add: at_stop_def)
    note eqs = this
    show ?thesis unfolding eqs stop_cut.simps decodes_def using 1 Cons.prems(2-4) by (metis fst_conv)
  next
    case (2 p off)
    from find_stop_Some [OF 2(2)] have p: "p \<in> set stops" "str_find p (T @ x) = Some off"
      "stop_free (takeWhile ((\<noteq>) p) stops) (T @ x)" by (auto simp: stop_free_iff)
    from p(1) Cons.prems(5) have "p \<noteq> []" by auto
    note occ = first_occurrence [OF p(2) this]
    from Cons.prems(1) app 2 have eqs: "R = take off (T @ x)" "trig = Some (HiddenStopSequence p)"
      by (simp_all add: at_stop_def)
    have "set (used @ [i]) \<inter> hidden = {}" using Cons.prems(3) 2(1) by auto
    then show ?thesis unfolding eqs stop_cut.simps decodes_def
      by - (rule exI [of _ used], rule exI [of _ i], rule exI [of _ toks], rule exI [of _ T],
          rule exI [of _ "T @ x"], use occ p(1,3) Cons.prems(2,4) snoc in simp)
  next
    case 3
    have "cut_at_stop tk stops hidden toks q' (T @ x) = Inr (R, trig)"
      using Cons.prems(1) app 3 by (simp add: at_stop_def)
    moreover have "stop_free stops (T @ x)" using 3(2) by (simp add: find_stop_None stop_free_iff)
    ultimately show ?thesis
      using Cons.IH [of q' "T @ x" "used @ [i]"] snoc Cons.prems(3,5) 3(1) by simp
  qed
qed

lemma dc_inv_new:
  assumes "sc_min_tokens c = None" "[] \<notin> set (hidden_stop_sequences (Decoder_new c))"
  shows "dc_inv [] [] (Decoder_new c)"
proof -
  have "\<not> sublist s []" if "s \<in> set (hidden_stop_sequences (Decoder_new c))" for s
    using that assms(2) by (auto simp: sublist_def)
  with assms show ?thesis by (auto simp: dc_inv_def Decoder_new_def jailed_def)
qed

section \<open>The stream\<close>

text \<open>
  What the transformed stream yields: items, whether \<open>stop_generating\<close> was called on the
  context, and the exception that ended the stream, if any.
\<close>

record 'f StreamOut =
  yielded :: "'f BackendOutput Annotated list"
  stop_generating :: bool
  thrown :: "exn option"

definition yield_then :: "'f BackendOutput Annotated \<Rightarrow> 'f StreamOut \<Rightarrow> 'f StreamOut" where
  "yield_then x s = s\<lparr>yielded := x # yielded s\<rparr>"

definition mark_stop :: "bool \<Rightarrow> 'f StreamOut \<Rightarrow> 'f StreamOut" where
  "mark_stop b s = s\<lparr>stop_generating := (b \<or> stop_generating s)\<rparr>"

definition stream_end :: "string \<Rightarrow> bool \<Rightarrow> Decoder \<Rightarrow> 'f StreamOut" where
  "stream_end mdcsum finished d =
     \<lparr>yielded =
        (if \<not> finished \<and> fst (dc_flush d) \<noteq> []
         then [an_from_data \<lparr>bo_token_ids = [], bo_tokens = [], bo_text = Some (fst (dc_flush d)),
                 bo_cum_log_probs = None, bo_log_probs = None, bo_finish_reason = None,
                 bo_mdcsum = mdcsum\<rparr>]
         else []),
      stop_generating = False, thrown = None\<rparr>"

text \<open>
  One delta that the decoder handles: the output item, whether the stream must stop, and
  whether the engine is told to stop.
\<close>

definition finish_delta ::
  "'f LLMEngineOutput \<Rightarrow> SeqResult \<Rightarrow> Decoder \<Rightarrow> 'f LLMEngineOutput \<times> Decoder" where
  "finish_delta data result d =
     (let reason = (case se_stop_trigger result of
                      Some t \<Rightarrow> Some (trigger_finish_reason t)
                    | None \<Rightarrow> eo_finish_reason data);
          (text, d') =
            (if reason \<noteq> None \<and> se_stop_trigger result = None
             then (if fst (dc_flush d) \<noteq> [] then add_text (se_text result) (Some (fst (dc_flush d)))
                   else se_text result, snd (dc_flush d))
             else (se_text result, d))
      in (data\<lparr>eo_finish_reason := reason, eo_text := text, eo_tokens := Some (se_tokens result)\<rparr>, d'))"

primrec decode_stream ::
  "Tokenizer \<Rightarrow> string \<Rightarrow> bool \<Rightarrow> 'f LLMEngineOutput Annotated list \<Rightarrow> bool \<Rightarrow> Decoder \<Rightarrow> 'f StreamOut"
where
  "decode_stream tk mdcsum validate [] finished d = stream_end mdcsum finished d"
| "decode_stream tk mdcsum validate (item # items) finished d =
     (let out = \<lambda>v. \<lparr>an_data = v, an_id = an_id item, an_event = an_event item,
                     an_comment = an_comment item\<rparr>
      in case an_data item of
        None \<Rightarrow> yield_then (out None) (decode_stream tk mdcsum validate items finished d)
      | Some data \<Rightarrow>
          if an_event item \<noteq> None \<or> eo_text data \<noteq> None \<and> \<not> validate then
            yield_then (out (Some (to_backend_output data mdcsum)))
              (decode_stream tk mdcsum validate items finished d)
          else case process_token_ids tk (eo_token_ids data) d of
            (Inl e, d') \<Rightarrow> \<lparr>yielded = [], stop_generating = False, thrown = Some e\<rparr>
          | (Inr result, d') \<Rightarrow>
              let stop_now = (se_stop_trigger result \<noteq> None);
                  (data', d'') = finish_delta data result d';
                  finished' = (finished \<or> eo_finish_reason data' \<noteq> None)
              in mark_stop (eo_finish_reason data = None \<and> stop_now)
                   (yield_then (out (Some (to_backend_output data' mdcsum)))
                      (if stop_now then stream_end mdcsum finished' d''
                       else decode_stream tk mdcsum validate items finished' d'')))"

declare decode_stream.simps(2) [simp del]

text \<open>The operator: the engine's stream through a fresh decoder.\<close>

definition backend_generate ::
  "Tokenizer \<Rightarrow> string \<Rightarrow> bool \<Rightarrow> StopConditions \<Rightarrow> 'f LLMEngineOutput Annotated list \<Rightarrow> 'f StreamOut"
where
  "backend_generate tk mdcsum validate c items =
     decode_stream tk mdcsum validate items False (Decoder_new c)"

section \<open>The text of the stream\<close>

definition token_delta :: "u32 list \<Rightarrow> FinishReason option \<Rightarrow> 'f LLMEngineOutput Annotated" where
  "token_delta ids fr =
     an_from_data \<lparr>eo_token_ids = ids, eo_tokens = None, eo_text = None, eo_cum_log_probs = None,
       eo_log_probs = None, eo_finish_reason = fr\<rparr>"

definition stream_text :: "'f StreamOut \<Rightarrow> string" where
  "stream_text s =
     concat (map (\<lambda>a. case an_data a of Some b \<Rightarrow> txt_of (bo_text b) | None \<Rightarrow> []) (yielded s))"

lemma stream_text_yield [simp]:
  "stream_text (yield_then a s) =
     (case an_data a of Some b \<Rightarrow> txt_of (bo_text b) | None \<Rightarrow> []) @ stream_text s"
  "stream_text (mark_stop m s) = stream_text s"
  by (simp_all add: stream_text_def yield_then_def mark_stop_def)

lemma stream_text_end [simp]:
  "stream_text (stream_end mdcsum finished d) = (if finished then [] else pending d)"
  by (simp add: stream_text_def stream_end_def dc_flush_def an_from_data_def txt_of_def)

lemma stream_flags [simp]:
  "thrown (yield_then a s) = thrown s" "thrown (mark_stop m s) = thrown s"
  "thrown (stream_end mdcsum finished d) = None"
  "stop_generating (yield_then a s) = stop_generating s"
  "stop_generating (mark_stop m s) \<longleftrightarrow> m \<or> stop_generating s"
  "\<not> stop_generating (stream_end mdcsum finished d)"
  by (simp_all add: yield_then_def mark_stop_def stream_end_def)

text \<open>One token-only delta, by what the decoder makes of its identifiers.\<close>

lemma decode_stream_delta_error:
  "process_token_ids tk ids d = (Inl e, d') \<Longrightarrow>
   thrown (decode_stream tk mdcsum validate (token_delta ids fr # items) finished d) = Some e"
  by (simp add: decode_stream.simps(2) token_delta_def an_from_data_def)

lemma decode_stream_delta_stop:
  assumes "process_token_ids tk ids d = (Inr r, d')" "se_stop_trigger r = Some t"
  shows "thrown (decode_stream tk mdcsum validate (token_delta ids fr # items) finished d) = None"
    and "stop_generating (decode_stream tk mdcsum validate (token_delta ids fr # items) finished d) = (fr = None)"
    and "stream_text (decode_stream tk mdcsum validate (token_delta ids fr # items) finished d) =
      txt_of (se_text r)"
  using assms
  by (simp_all add: decode_stream.simps(2) token_delta_def an_from_data_def finish_delta_def to_backend_output_def)

lemma decode_stream_delta_more:
  assumes "process_token_ids tk ids d = (Inr r, d')" "se_stop_trigger r = None"
  shows "decode_stream tk mdcsum validate (token_delta ids None # items) False d =
      mark_stop False (yield_then (an_from_data (to_backend_output
         (fst (finish_delta \<lparr>eo_token_ids = ids, eo_tokens = None, eo_text = None,
            eo_cum_log_probs = None, eo_log_probs = None, eo_finish_reason = None\<rparr> r d')) mdcsum))
        (decode_stream tk mdcsum validate items False d'))"
  using assms by (simp add: decode_stream.simps(2) token_delta_def an_from_data_def finish_delta_def)

lemma decode_stream_delta_last:
  assumes "process_token_ids tk ids d = (Inr r, d')" "se_stop_trigger r = None"
  shows "stream_text (decode_stream tk mdcsum validate [token_delta ids fr] False d) =
      txt_of (se_text r) @ pending d'"
    and "\<not> stop_generating (decode_stream tk mdcsum validate [token_delta ids fr] False d)"
    and "thrown (decode_stream tk mdcsum validate [token_delta ids fr] False d) = None"
  using assms
  by (auto simp: decode_stream.simps(2) token_delta_def an_from_data_def finish_delta_def to_backend_output_def dc_flush_def
      txt_of_def add_text_def split: option.splits if_splits)

lemma decode_stream_cut:
  fixes tk :: Tokenizer and ids :: "u32 list" and validate :: bool and fr :: "FinishReason option"
    and mdcsum :: string
  defines "out \<equiv> \<lambda>idss d. decode_stream tk mdcsum validate
    (map (\<lambda>ids. token_delta ids None) idss @ [token_delta ids fr]) False d :: 'f StreamOut"
  assumes "dc_inv T R d"
  shows "case dc_cut tk d (concat idss @ ids) T of
      Inl e \<Rightarrow> thrown (out idss d) = Some e
    | Inr (txt, trig) \<Rightarrow> thrown (out idss d) = None \<and> R @ stream_text (out idss d) = txt
        \<and> (stop_generating (out idss d) \<longrightarrow> trig \<noteq> None)
        \<and> (fr = None \<longrightarrow> trig \<noteq> None \<longrightarrow> stop_generating (out idss d))"
  using assms(2)
proof (induction idss arbitrary: T R d)
  case Nil
  obtain v d' where p: "process_token_ids tk ids d = (v, d')" by fastforce
  note c = process_token_ids_cut [OF Nil p]
  show ?case
  proof (cases v)
    case (Inl e)
    with c have "dc_cut tk d (ids @ []) T = Inl e" by (simp only: sum.case)
    then show ?thesis by (simp add: out_def decode_stream_delta_error [OF p [unfolded Inl]])
  next
    case (Inr r)
    show ?thesis
    proof (cases "se_stop_trigger r")
      case None
      with c Inr obtain X where X: "dc_inv (T @ X) (R @ txt_of (se_text r)) d'"
        "\<And>more. dc_cut tk d (ids @ more) T = dc_cut tk d' more (T @ X)" by auto
      from X(1) have "T @ X = R @ txt_of (se_text r) @ pending d'" by (simp add: dc_inv_def)
      with X(2) [of "[]"] show ?thesis by (simp add: out_def decode_stream_delta_last [OF p [unfolded Inr] None])
    next
      case (Some t)
      with c Inr have "dc_cut tk d (ids @ []) T = Inr (R @ txt_of (se_text r), Some t)"
        by (simp only: sum.case option.case)
      then show ?thesis by (simp add: out_def decode_stream_delta_stop [OF p [unfolded Inr] Some])
    qed
  qed
next
  case (Cons i0 idss)
  obtain v d' where p: "process_token_ids tk i0 d = (v, d')" by fastforce
  note c = process_token_ids_cut [OF Cons.prems p]
  show ?case
  proof (cases v)
    case (Inl e)
    with c have "dc_cut tk d (i0 @ concat idss @ ids) T = Inl e" by simp
    then show ?thesis by (simp add: out_def decode_stream_delta_error [OF p [unfolded Inl]])
  next
    case (Inr r)
    show ?thesis
    proof (cases "se_stop_trigger r")
      case None
      have same: "thrown (out (i0 # idss) d) = thrown (out idss d')"
        "stop_generating (out (i0 # idss) d) = stop_generating (out idss d')"
        "stream_text (out (i0 # idss) d) = txt_of (se_text r) @ stream_text (out idss d')"
        by (simp_all add: out_def decode_stream_delta_more [OF p [unfolded Inr] None] an_from_data_def
          to_backend_output_def finish_delta_def None)
      from None c Inr obtain X where X: "dc_inv (T @ X) (R @ txt_of (se_text r)) d'"
        "\<And>more. dc_cut tk d (i0 @ more) T = dc_cut tk d' more (T @ X)" by auto
      from Cons.IH [OF X(1)] X(2) same show ?thesis by (simp split: sum.splits prod.splits)
    next
      case (Some t)
      with c Inr have "dc_cut tk d (i0 @ concat idss @ ids) T = Inr (R @ txt_of (se_text r), Some t)" by simp
      then show ?thesis by (simp add: out_def decode_stream_delta_stop [OF p [unfolded Inr] Some])
    qed
  qed
qed

text \<open>
  A later-listed sequence can be released when it precedes the match in the same step: only
  sequences listed before the matched one are excluded.
\<close>

lemma later_stop_released:
  "fst (process_token_ids \<lparr>tk_encode = \<lambda>_. Inl (RuntimeError []), tk_decode = \<lambda>ids _. Inr (if ids = [] then [] else ''ab z'')\<rparr>
       [7] (Decoder_new \<lparr>max_tokens = None, sc_stop = Some [''z'', ''ab''], sc_stop_token_ids_hidden = None,
          sc_min_tokens = None, ignore_eos = None\<rparr>))
   = Inr \<lparr>se_tokens = [Some ''ab ''], se_text = Some ''ab '',
           se_stop_trigger = Some (HiddenStopSequence ''z'')\<rparr>"
  by code_simp

section \<open>Properties\<close>



end
