(* ===== verification/Openai.thy ===== *)
theory Openai
  imports Complex_Main "HOL-Library.Multiset" Backend
begin

text \<open>
  The OpenAI protocol (\<^verbatim>\<open>llm/protocols/openai.h\<close>, \<^verbatim>\<open>llm/protocols/openai.cpp\<close>, sampling options of
  \<^verbatim>\<open>llm/protocols/common.h\<close>): requests and how engine options are taken from them, the delta
  generators that turn backend outputs into response chunks, and the aggregators that fold a
  stream of chunks into one response.  A raw JSON field is a value of the type variable \<open>'j\<close>
  (\<^const>\<open>None\<close> is JSON null); what the code asks of such a value is a parameter.  A \<open>float\<close> is a
  real number: a JSON document has no NaN.  The order in which a hash table is walked is the
  parameter \<open>iter\<close>.  The main fact is that folding what a generator made gives the text, the
  finish reason and the usage of the backend outputs.
\<close>

section \<open>Sampling options\<close>

record SamplingOptions =
  so_n :: "int option"
  so_best_of :: "int option"
  so_presence_penalty :: "real option"
  so_frequency_penalty :: "real option"
  so_repetition_penalty :: "real option"
  so_temperature :: "real option"
  so_top_p :: "real option"
  so_top_k :: "int option"
  so_min_p :: "real option"
  so_use_beam_search :: "bool option"
  so_length_penalty :: "real option"
  so_seed :: "int option"

definition SamplingOptions_new :: SamplingOptions where
  "SamplingOptions_new =
     \<lparr>so_n = None, so_best_of = None, so_presence_penalty = None, so_frequency_penalty = None,
      so_repetition_penalty = None, so_temperature = None, so_top_p = None, so_top_k = None,
      so_min_p = None, so_use_beam_search = None, so_length_penalty = None, so_seed = None\<rparr>"

definition force_greedy :: "SamplingOptions \<Rightarrow> SamplingOptions" where
  "force_greedy o' =
     o'\<lparr>so_presence_penalty := None, so_frequency_penalty := None, so_repetition_penalty := None,
        so_temperature := None, so_top_p := None, so_top_k := None, so_min_p := None\<rparr>"

definition kTemperatureRange :: "real \<times> real" where "kTemperatureRange = (0, 2)"
definition kTopPRange :: "real \<times> real" where "kTopPRange = (0, 1)"
definition kFrequencyPenaltyRange :: "real \<times> real" where "kFrequencyPenaltyRange = (-2, 2)"
definition kPresencePenaltyRange :: "real \<times> real" where "kPresencePenaltyRange = (-2, 2)"

section \<open>Requests\<close>

record NvExt =
  nv_ignore_eos :: "bool option"
  nv_top_k :: "int option"
  nv_repetition_penalty :: "real option"
  nv_greed_sampling :: "bool option"
  nv_use_raw_prompt :: "bool option"
  nv_annotations :: "string list option"

definition NvExt_validate :: "NvExt \<Rightarrow> unit res" where
  "NvExt_validate e =
     rbind (throw_if (case nv_top_k e of Some k \<Rightarrow> \<not> (k = -1 \<or> 1 \<le> k) | None \<Rightarrow> False)
              (InvalidArgument ''top_k must be -1 or greater than or equal to 1''))
       (\<lambda>_. throw_if (case nv_repetition_penalty e of Some p \<Rightarrow> \<not> (0 < p \<and> p \<le> 2) | None \<Rightarrow> False)
              (InvalidArgument ''repetition_penalty must be in (0, 2]''))"

record CompletionUsage =
  prompt_tokens :: int
  completion_tokens :: int
  total_tokens :: int

record 'j ChatMessage =
  cm_role :: string
  cm_content :: "string option"
  cm_name :: "string option"
  cm_tool_calls :: "'j option"
  cm_tool_call_id :: "string option"

record 'j ChatRequest =
  cr_model :: string
  cr_messages :: "'j ChatMessage list"
  cr_stream :: "bool option"
  cr_temperature :: "real option"
  cr_top_p :: "real option"
  cr_frequency_penalty :: "real option"
  cr_presence_penalty :: "real option"
  cr_max_tokens :: "u32 option"
  cr_max_completion_tokens :: "u32 option"
  cr_stop :: "string list option"
  cr_n :: "int option"
  cr_logprobs :: "bool option"
  cr_top_logprobs :: "int option"
  cr_seed :: "int option"
  cr_user :: "string option"
  cr_tools :: "'j option"
  cr_tool_choice :: "'j option"
  cr_nvext :: "NvExt option"

record 'j CompletionRequest =
  pr_model :: string
  pr_prompt :: 'j
  pr_max_tokens :: "u32 option"
  pr_temperature :: "real option"
  pr_top_p :: "real option"
  pr_frequency_penalty :: "real option"
  pr_presence_penalty :: "real option"
  pr_n :: "int option"
  pr_best_of :: "int option"
  pr_logprobs :: "int option"
  pr_stream :: "bool option"
  pr_echo :: "bool option"
  pr_stop :: "string list option"
  pr_suffix :: "string option"
  pr_user :: "string option"
  pr_nvext :: "NvExt option"

definition nvext_annotations :: "NvExt option \<Rightarrow> string list option" where
  "nvext_annotations nv = (case nv of Some e \<Rightarrow> nv_annotations e | None \<Rightarrow> None)"

definition nvext_has_annotation :: "NvExt option \<Rightarrow> string \<Rightarrow> bool" where
  "nvext_has_annotation nv annotation =
     (case nv of None \<Rightarrow> False
      | Some e \<Rightarrow> (case nv_annotations e of None \<Rightarrow> False | Some as \<Rightarrow> annotation \<in> set as))"

definition chat_annotations :: "'j ChatRequest \<Rightarrow> string list option" where
  "chat_annotations r = nvext_annotations (cr_nvext r)"

definition chat_has_annotation :: "'j ChatRequest \<Rightarrow> string \<Rightarrow> bool" where
  "chat_has_annotation r = nvext_has_annotation (cr_nvext r)"

definition completion_annotations :: "'j CompletionRequest \<Rightarrow> string list option" where
  "completion_annotations r = nvext_annotations (pr_nvext r)"

definition completion_has_annotation :: "'j CompletionRequest \<Rightarrow> string \<Rightarrow> bool" where
  "completion_has_annotation r = nvext_has_annotation (pr_nvext r)"

text \<open>
  What the code asks of a prompt: \<open>view\<close> stands for \<open>is_string\<close>, \<open>is_number\<close>, \<open>is_array\<close> and the
  value they guard, \<open>dump\<close> for the printer.
\<close>

datatype 'j json_view = VString string | VNumber | VArray "'j list" | VOther

definition append_sep :: "string \<Rightarrow> string \<Rightarrow> string \<Rightarrow> string" where
  "append_sep sep out s = (if out \<noteq> [] then out @ sep else out) @ s"

definition prompt_item :: "('j \<Rightarrow> 'j json_view) \<Rightarrow> ('j \<Rightarrow> string) \<Rightarrow> 'j \<Rightarrow> string" where
  "prompt_item view dump item =
     (case view item of
        VString s \<Rightarrow> s
      | VNumber \<Rightarrow> dump item
      | VArray nums \<Rightarrow> foldl (\<lambda>inner n. append_sep '' '' inner (dump n)) [] nums
      | VOther \<Rightarrow> [])"

definition prompt_to_string :: "('j \<Rightarrow> 'j json_view) \<Rightarrow> ('j \<Rightarrow> string) \<Rightarrow> 'j \<Rightarrow> string" where
  "prompt_to_string view dump prompt =
     (case view prompt of
        VString s \<Rightarrow> s
      | VArray items \<Rightarrow>
          let nested = (case items of [] \<Rightarrow> False | i # _ \<Rightarrow> (case view i of VArray _ \<Rightarrow> True | _ \<Rightarrow> False));
              sep = (if nested then '' | '' else '' '')
          in foldl (\<lambda>out item. append_sep sep out (prompt_item view dump item)) [] items
      | _ \<Rightarrow> [])"

definition raw_prompt ::
  "('j \<Rightarrow> 'j json_view) \<Rightarrow> ('j \<Rightarrow> string) \<Rightarrow> 'j CompletionRequest \<Rightarrow> string option" where
  "raw_prompt view dump r =
     (case pr_nvext r of
        Some e \<Rightarrow> if nv_use_raw_prompt e = Some True then Some (prompt_to_string view dump (pr_prompt r)) else None
      | None \<Rightarrow> None)"

section \<open>Engine options\<close>

text \<open>\<open>show\<close> prints a float in an error message.\<close>

definition validate_range ::
  "(real \<Rightarrow> string) \<Rightarrow> real option \<Rightarrow> real \<times> real \<Rightarrow> string \<Rightarrow> real option res" where
  "validate_range show v bounds name =
     (case v of None \<Rightarrow> Inr None
      | Some x \<Rightarrow>
          if x < fst bounds \<or> snd bounds < x
          then Inl (InvalidArgument (''Error validating '' @ name @ '': Value '' @ show x
                 @ '' is out of range ['' @ show (fst bounds) @ '', '' @ show (snd bounds) @ '']''))
          else Inr (Some x))"

definition extract_sampling_impl ::
  "(real \<Rightarrow> string) \<Rightarrow> real option \<Rightarrow> real option \<Rightarrow> real option \<Rightarrow> real option \<Rightarrow> NvExt option
     \<Rightarrow> SamplingOptions res" where
  "extract_sampling_impl show temperature top_p frequency_penalty presence_penalty nvext =
     rbind (validate_range show temperature kTemperatureRange ''temperature'') (\<lambda>t.
     rbind (validate_range show top_p kTopPRange ''top_p'') (\<lambda>p.
     rbind (validate_range show frequency_penalty kFrequencyPenaltyRange ''frequency_penalty'') (\<lambda>f.
     rbind (validate_range show presence_penalty kPresencePenaltyRange ''presence_penalty'') (\<lambda>q.
       let options = SamplingOptions_new\<lparr>so_temperature := t, so_top_p := p,
             so_frequency_penalty := f, so_presence_penalty := q\<rparr>
       in Inr (case nvext of
            Some e \<Rightarrow> if nv_greed_sampling e = Some True
                      then options\<lparr>so_top_p := None, so_temperature := None\<rparr> else options
          | None \<Rightarrow> options)))))"

definition extract_stop_impl ::
  "u32 option \<Rightarrow> string list option \<Rightarrow> NvExt option \<Rightarrow> StopConditions res" where
  "extract_stop_impl max_tok stop nvext =
     rbind (throw_if (case stop of Some ss \<Rightarrow> 4 < length ss | None \<Rightarrow> False)
              (InvalidArgument ''stop conditions must be less than 4''))
       (\<lambda>_. Inr \<lparr>max_tokens = max_tok, sc_stop = stop, sc_stop_token_ids_hidden = None,
                 sc_min_tokens = None,
                 ignore_eos = (case nvext of Some e \<Rightarrow> nv_ignore_eos e | None \<Rightarrow> None)\<rparr>)"

definition chat_sampling_options :: "(real \<Rightarrow> string) \<Rightarrow> 'j ChatRequest \<Rightarrow> SamplingOptions res" where
  "chat_sampling_options show r =
     extract_sampling_impl show (cr_temperature r) (cr_top_p r) (cr_frequency_penalty r)
       (cr_presence_penalty r) (cr_nvext r)"

definition completion_sampling_options ::
  "(real \<Rightarrow> string) \<Rightarrow> 'j CompletionRequest \<Rightarrow> SamplingOptions res" where
  "completion_sampling_options show r =
     extract_sampling_impl show (pr_temperature r) (pr_top_p r) (pr_frequency_penalty r)
       (pr_presence_penalty r) (pr_nvext r)"

definition chat_stop_conditions :: "'j ChatRequest \<Rightarrow> StopConditions res" where
  "chat_stop_conditions r =
     extract_stop_impl
       (if cr_max_completion_tokens r \<noteq> None then cr_max_completion_tokens r else cr_max_tokens r)
       (cr_stop r) (cr_nvext r)"

definition completion_stop_conditions :: "'j CompletionRequest \<Rightarrow> StopConditions res" where
  "completion_stop_conditions r = extract_stop_impl (pr_max_tokens r) (pr_stop r) (pr_nvext r)"

section \<open>Delta generators\<close>

text \<open>The identifier of a response, from two draws of the random generator.\<close>

definition uuid4 :: "u64 \<Rightarrow> u64 \<Rightarrow> string" where
  "uuid4 r1 r2 =
     (let hi = (r1 AND 0xffffffffffff0fff) OR 0x0000000000004000;
          lo = (r2 AND 0x3fffffffffffffff) OR 0x8000000000000000
      in pad_hex 8 (unat (drop_bit 32 hi)) @ ''-'' @ pad_hex 4 (unat (drop_bit 16 hi AND 0xffff)) @ ''-''
         @ pad_hex 4 (unat (hi AND 0xffff)) @ ''-'' @ pad_hex 4 (unat (drop_bit 48 lo)) @ ''-''
         @ pad_hex 12 (unat (lo AND 0xffffffffffff)))"

text \<open>\<open>static_cast<int32_t>\<close> keeps the low 32 bits as a signed number.\<close>

definition wrap32 :: "int \<Rightarrow> int" where
  "wrap32 n = signed_take_bit 31 n"

definition as_int32 :: "nat \<Rightarrow> int" where
  "as_int32 n = wrap32 (int n)"

definition map_finish_reason :: "FinishReason option \<Rightarrow> string \<Rightarrow> string option res" where
  "map_finish_reason reason cancelled_as =
     (case reason of
        None \<Rightarrow> Inr None
      | Some FEos \<Rightarrow> Inr (Some ''stop'')
      | Some FStop \<Rightarrow> Inr (Some ''stop'')
      | Some FLength \<Rightarrow> Inr (Some ''length'')
      | Some FCancelled \<Rightarrow> Inr (Some cancelled_as)
      | Some (FError msg) \<Rightarrow> Inl (RuntimeError msg))"

record ChatStreamDelta =
  sd_role :: "string option"
  sd_content :: "string option"

record 'j ChatChoiceStream =
  cs_index :: u32
  cs_delta :: ChatStreamDelta
  cs_finish_reason :: "string option"
  cs_logprobs :: "'j option"

record 'j ChatChunk =
  ck_id :: string
  ck_choices :: "'j ChatChoiceStream list"
  ck_created :: u64
  ck_model :: string
  ck_object :: string
  ck_usage :: "CompletionUsage option"
  ck_system_fingerprint :: "string option"
  ck_service_tier :: "string option"

record 'j CompletionChoice =
  cc_text :: string
  cc_index :: u64
  cc_finish_reason :: "string option"
  cc_logprobs :: "'j option"

record 'j CompletionResponse =
  pk_id :: string
  pk_choices :: "'j CompletionChoice list"
  pk_created :: u64
  pk_model :: string
  pk_object :: string
  pk_usage :: "CompletionUsage option"
  pk_system_fingerprint :: "string option"

record DeltaGeneratorOptions =
  enable_usage :: bool
  enable_logprobs :: bool

text \<open>Both generator classes have these members.\<close>

record DeltaGenerator =
  dg_id :: string
  dg_created :: u64
  dg_model :: string
  dg_usage :: CompletionUsage
  dg_options :: DeltaGeneratorOptions

definition ChatDeltaGenerator_new ::
  "u64 \<Rightarrow> u64 \<Rightarrow> u64 \<Rightarrow> string \<Rightarrow> DeltaGeneratorOptions \<Rightarrow> DeltaGenerator" where
  "ChatDeltaGenerator_new r1 r2 now model options =
     \<lparr>dg_id = ''chatcmpl-'' @ uuid4 r1 r2, dg_created = now, dg_model = model,
      dg_usage = \<lparr>prompt_tokens = 0, completion_tokens = 0, total_tokens = 0\<rparr>, dg_options = options\<rparr>"

definition CompletionDeltaGenerator_new ::
  "u64 \<Rightarrow> u64 \<Rightarrow> u64 \<Rightarrow> string \<Rightarrow> DeltaGeneratorOptions \<Rightarrow> DeltaGenerator" where
  "CompletionDeltaGenerator_new r1 r2 now model options =
     \<lparr>dg_id = ''cmpl-'' @ uuid4 r1 r2, dg_created = now, dg_model = model,
      dg_usage = \<lparr>prompt_tokens = 0, completion_tokens = 0, total_tokens = 0\<rparr>, dg_options = options\<rparr>"

definition update_isl :: "nat \<Rightarrow> DeltaGenerator \<Rightarrow> DeltaGenerator" where
  "update_isl input_tokens g = g\<lparr>dg_usage := (dg_usage g)\<lparr>prompt_tokens := as_int32 input_tokens\<rparr>\<rparr>"

text \<open>Token counts are of type \<open>int32_t\<close>; an overflow is undefined in C++ and wraps here.\<close>

definition reported_usage :: "DeltaGenerator \<Rightarrow> CompletionUsage option" where
  "reported_usage g =
     (if enable_usage (dg_options g)
      then Some ((dg_usage g)\<lparr>total_tokens := wrap32 (prompt_tokens (dg_usage g) + completion_tokens (dg_usage g))\<rparr>)
      else None)"

definition count_tokens :: "'f BackendOutput \<Rightarrow> DeltaGenerator \<Rightarrow> DeltaGenerator" where
  "count_tokens delta g =
     (if enable_usage (dg_options g)
      then g\<lparr>dg_usage := (dg_usage g)\<lparr>completion_tokens :=
              wrap32 (completion_tokens (dg_usage g) + as_int32 (length (bo_token_ids delta)))\<rparr>\<rparr>
      else g)"

definition chat_create_choice ::
  "DeltaGenerator \<Rightarrow> u32 \<Rightarrow> string option \<Rightarrow> string option \<Rightarrow> 'j ChatChunk" where
  "chat_create_choice g index text finish_reason =
     \<lparr>ck_id = dg_id g,
      ck_choices = [\<lparr>cs_index = index, cs_delta = \<lparr>sd_role = Some ''assistant'', sd_content = text\<rparr>,
                     cs_finish_reason = finish_reason, cs_logprobs = None\<rparr>],
      ck_created = dg_created g, ck_model = dg_model g, ck_object = ''chat.completion.chunk'',
      ck_usage = reported_usage g, ck_system_fingerprint = None, ck_service_tier = None\<rparr>"

definition chat_choice_from_postprocessor ::
  "'f BackendOutput \<Rightarrow> DeltaGenerator \<Rightarrow> 'j ChatChunk res \<times> DeltaGenerator" where
  "chat_choice_from_postprocessor delta g0 =
     (let g = count_tokens delta g0
      in (rbind (map_finish_reason (bo_finish_reason delta) ''stop'')
            (\<lambda>fr. Inr (chat_create_choice g 0 (bo_text delta) fr)), g))"

definition chat_response_generator :: "u64 \<Rightarrow> u64 \<Rightarrow> u64 \<Rightarrow> 'j ChatRequest \<Rightarrow> DeltaGenerator" where
  "chat_response_generator r1 r2 now r =
     ChatDeltaGenerator_new r1 r2 now (cr_model r)
       \<lparr>enable_usage = True, enable_logprobs = (cr_logprobs r = Some True)\<rparr>"

definition completion_create_choice ::
  "DeltaGenerator \<Rightarrow> u64 \<Rightarrow> string option \<Rightarrow> string option \<Rightarrow> 'j CompletionResponse" where
  "completion_create_choice g index text finish_reason =
     \<lparr>pk_id = dg_id g,
      pk_choices = [\<lparr>cc_text = (case text of Some t \<Rightarrow> t | None \<Rightarrow> []), cc_index = index,
                     cc_finish_reason = finish_reason, cc_logprobs = None\<rparr>],
      pk_created = dg_created g, pk_model = dg_model g, pk_object = ''text_completion'',
      pk_usage = reported_usage g, pk_system_fingerprint = None\<rparr>"

definition completion_choice_from_postprocessor ::
  "'f BackendOutput \<Rightarrow> DeltaGenerator \<Rightarrow> 'j CompletionResponse res \<times> DeltaGenerator" where
  "completion_choice_from_postprocessor delta g0 =
     (let g = count_tokens delta g0
      in (rbind (map_finish_reason (bo_finish_reason delta) ''cancelled'')
            (\<lambda>fr. Inr (completion_create_choice g 0 (bo_text delta) fr)), g))"

definition completion_response_generator ::
  "u64 \<Rightarrow> u64 \<Rightarrow> u64 \<Rightarrow> 'j CompletionRequest \<Rightarrow> DeltaGenerator" where
  "completion_response_generator r1 r2 now r =
     CompletionDeltaGenerator_new r1 r2 now (pr_model r) \<lparr>enable_usage = True, enable_logprobs = False\<rparr>"

section \<open>Delta aggregators\<close>

definition annotated_error_message :: "string list option \<Rightarrow> string" where
  "annotated_error_message comment =
     (case comment of Some (c # cs) \<Rightarrow> c | _ \<Rightarrow> ''unknown error'')"

text \<open>
  \<open>try_emplace\<close> on a table kept as an association list, followed by the update of the entry
  through the reference it returns.
\<close>

fun emplace_update :: "'k \<Rightarrow> 'v \<Rightarrow> ('v \<Rightarrow> 'v) \<Rightarrow> ('k \<times> 'v) list \<Rightarrow> ('k \<times> 'v) list" where
  "emplace_update k fresh f [] = [(k, f fresh)]"
| "emplace_update k fresh f ((k', v) # es) =
     (if k = k' then (k', f v) # es else (k', v) # emplace_update k fresh f es)"

record 'j ChatDeltaChoice =
  dh_index :: u32
  dh_text :: string
  dh_role :: "string option"
  dh_finish_reason :: "string option"
  dh_logprobs :: "'j option"

record 'j ChatDeltaAggregator =
  ha_id :: string
  ha_model :: string
  ha_created :: u64
  ha_usage :: "CompletionUsage option"
  ha_system_fingerprint :: "string option"
  ha_service_tier :: "string option"
  ha_choices :: "(u32 \<times> 'j ChatDeltaChoice) list"
  ha_error :: "string option"

definition ChatDeltaAggregator_new :: "'j ChatDeltaAggregator" where
  "ChatDeltaAggregator_new =
     \<lparr>ha_id = [], ha_model = [], ha_created = 0, ha_usage = None, ha_system_fingerprint = None,
      ha_service_tier = None, ha_choices = [], ha_error = None\<rparr>"

definition opt_or :: "'a option \<Rightarrow> 'a option \<Rightarrow> 'a option" where
  "opt_or new old = (if new \<noteq> None then new else old)"

definition chat_push_choice ::
  "'j ChatChoiceStream \<Rightarrow> (u32 \<times> 'j ChatDeltaChoice) list \<Rightarrow> (u32 \<times> 'j ChatDeltaChoice) list" where
  "chat_push_choice c =
     emplace_update (cs_index c)
       \<lparr>dh_index = cs_index c, dh_text = [], dh_role = sd_role (cs_delta c), dh_finish_reason = None,
        dh_logprobs = cs_logprobs c\<rparr>
       (\<lambda>s. s\<lparr>dh_text := dh_text s @ (case sd_content (cs_delta c) of Some t \<Rightarrow> t | None \<Rightarrow> []),
              dh_finish_reason := opt_or (cs_finish_reason c) (dh_finish_reason s)\<rparr>)"

definition chat_push :: "'j ChatChunk Annotated \<Rightarrow> 'j ChatDeltaAggregator \<Rightarrow> 'j ChatDeltaAggregator" where
  "chat_push delta a =
     (if is_error delta then a\<lparr>ha_error := Some (annotated_error_message (an_comment delta))\<rparr>
      else if ha_error a \<noteq> None then a
      else case an_data delta of
        None \<Rightarrow> a
      | Some chunk \<Rightarrow>
          a\<lparr>ha_id := ck_id chunk, ha_model := ck_model chunk, ha_created := ck_created chunk,
            ha_service_tier := opt_or (ck_service_tier chunk) (ha_service_tier a),
            ha_usage := opt_or (ck_usage chunk) (ha_usage a),
            ha_system_fingerprint := opt_or (ck_system_fingerprint chunk) (ha_system_fingerprint a),
            ha_choices := fold chat_push_choice (ck_choices chunk) (ha_choices a)\<rparr>)"

record ChatResponseMessage =
  rm_role :: string
  rm_content :: "string option"

record 'j ChatChoice =
  ch_index :: u32
  ch_message :: ChatResponseMessage
  ch_finish_reason :: "string option"
  ch_logprobs :: "'j option"

record 'j ChatResponse =
  re_id :: string
  re_choices :: "'j ChatChoice list"
  re_created :: u64
  re_model :: string
  re_object :: string
  re_usage :: "CompletionUsage option"
  re_system_fingerprint :: "string option"
  re_service_tier :: "string option"

fun chat_final_choices :: "(u32 \<times> 'j ChatDeltaChoice) list \<Rightarrow> 'j ChatChoice list res" where
  "chat_final_choices [] = Inr []"
| "chat_final_choices ((index, d) # ds) =
     (case dh_role d of
        None \<Rightarrow> Inl (RuntimeError (''chat choice '' @ dec_nat (unat index) @ '' never received a role''))
      | Some role \<Rightarrow>
          rbind (chat_final_choices ds) (\<lambda>cs.
            Inr (\<lparr>ch_index = dh_index d, ch_message = \<lparr>rm_role = role, rm_content = Some (dh_text d)\<rparr>,
                  ch_finish_reason = dh_finish_reason d, ch_logprobs = dh_logprobs d\<rparr> # cs)))"

definition chat_finalize ::
  "((u32 \<times> 'j ChatDeltaChoice) list \<Rightarrow> (u32 \<times> 'j ChatDeltaChoice) list) \<Rightarrow> 'j ChatDeltaAggregator
     \<Rightarrow> 'j ChatResponse res" where
  "chat_finalize iter a =
     (case ha_error a of
        Some msg \<Rightarrow> Inl (RuntimeError msg)
      | None \<Rightarrow>
          rbind (chat_final_choices (iter (ha_choices a))) (\<lambda>choices.
            Inr \<lparr>re_id = ha_id a, re_choices = sort_key ch_index choices, re_created = ha_created a,
                 re_model = ha_model a, re_object = ''chat.completion'', re_usage = ha_usage a,
                 re_system_fingerprint = ha_system_fingerprint a, re_service_tier = ha_service_tier a\<rparr>))"

record 'j CompletionDeltaChoice =
  dp_index :: u64
  dp_text :: string
  dp_finish_reason :: "FinishReason option"
  dp_logprobs :: "'j option"

record 'j CompletionDeltaAggregator =
  pa_id :: string
  pa_model :: string
  pa_created :: u64
  pa_usage :: "CompletionUsage option"
  pa_system_fingerprint :: "string option"
  pa_choices :: "(u64 \<times> 'j CompletionDeltaChoice) list"
  pa_error :: "string option"

definition CompletionDeltaAggregator_new :: "'j CompletionDeltaAggregator" where
  "CompletionDeltaAggregator_new =
     \<lparr>pa_id = [], pa_model = [], pa_created = 0, pa_usage = None, pa_system_fingerprint = None,
      pa_choices = [], pa_error = None\<rparr>"

definition completion_push_choice ::
  "'j CompletionChoice \<Rightarrow> (u64 \<times> 'j CompletionDeltaChoice) list \<Rightarrow> (u64 \<times> 'j CompletionDeltaChoice) list" where
  "completion_push_choice c =
     emplace_update (cc_index c)
       \<lparr>dp_index = cc_index c, dp_text = [], dp_finish_reason = None, dp_logprobs = cc_logprobs c\<rparr>
       (\<lambda>s. s\<lparr>dp_text := dp_text s @ cc_text c,
              dp_finish_reason :=
                (case cc_finish_reason c of
                   None \<Rightarrow> dp_finish_reason s
                 | Some r \<Rightarrow> (case fr_from_string r of Inr v \<Rightarrow> Some v | Inl _ \<Rightarrow> None))\<rparr>)"

definition completion_push ::
  "'j CompletionResponse Annotated \<Rightarrow> 'j CompletionDeltaAggregator \<Rightarrow> 'j CompletionDeltaAggregator" where
  "completion_push delta a =
     (if is_error delta then a\<lparr>pa_error := Some (annotated_error_message (an_comment delta))\<rparr>
      else if pa_error a \<noteq> None then a
      else case an_data delta of
        None \<Rightarrow> a
      | Some chunk \<Rightarrow>
          a\<lparr>pa_id := pk_id chunk, pa_model := pk_model chunk, pa_created := pk_created chunk,
            pa_usage := opt_or (pk_usage chunk) (pa_usage a),
            pa_system_fingerprint := opt_or (pk_system_fingerprint chunk) (pa_system_fingerprint a),
            pa_choices := fold completion_push_choice (pk_choices chunk) (pa_choices a)\<rparr>)"

definition completion_finalize ::
  "((u64 \<times> 'j CompletionDeltaChoice) list \<Rightarrow> (u64 \<times> 'j CompletionDeltaChoice) list)
     \<Rightarrow> 'j CompletionDeltaAggregator \<Rightarrow> 'j CompletionResponse res" where
  "completion_finalize iter a =
     (case pa_error a of
        Some msg \<Rightarrow> Inl (RuntimeError msg)
      | None \<Rightarrow>
          Inr \<lparr>pk_id = pa_id a,
               pk_choices = sort_key cc_index (map (\<lambda>(_, d).
                 \<lparr>cc_text = dp_text d, cc_index = dp_index d,
                  cc_finish_reason = map_option fr_to_string (dp_finish_reason d),
                  cc_logprobs = dp_logprobs d\<rparr>) (iter (pa_choices a))),
               pk_created = pa_created a, pk_model = pa_model a, pk_object = ''text_completion'',
               pk_usage = pa_usage a, pk_system_fingerprint = pa_system_fingerprint a\<rparr>)"

section \<open>Options\<close>

definition in_range :: "real option \<Rightarrow> real \<times> real \<Rightarrow> bool" where
  "in_range v bounds \<longleftrightarrow> (case v of None \<Rightarrow> True | Some x \<Rightarrow> fst bounds \<le> x \<and> x \<le> snd bounds)"

lemma validate_range_Inr [simp]:
  "validate_range show v bounds name = Inr w \<longleftrightarrow> in_range v bounds \<and> w = v"
  by (auto simp: validate_range_def in_range_def not_less split: option.splits)

lemma extract_sampling_ok:
  "extract_sampling_impl show t p f q nvext = Inr opts \<longleftrightarrow>
     in_range t kTemperatureRange \<and> in_range p kTopPRange \<and> in_range f kFrequencyPenaltyRange
     \<and> in_range q kPresencePenaltyRange
     \<and> opts = (let greedy = (\<exists>e. nvext = Some e \<and> nv_greed_sampling e = Some True)
               in SamplingOptions_new\<lparr>so_temperature := if greedy then None else t,
                    so_top_p := if greedy then None else p,
                    so_frequency_penalty := f, so_presence_penalty := q\<rparr>)"
  unfolding extract_sampling_impl_def Let_def
  by (cases nvext) (auto simp: SamplingOptions_new_def)

lemma extract_stop_ok:
  "extract_stop_impl m stop nvext = Inr c \<longleftrightarrow>
     (\<forall>ss. stop = Some ss \<longrightarrow> length ss \<le> 4)
     \<and> c = \<lparr>max_tokens = m, sc_stop = stop, sc_stop_token_ids_hidden = None, sc_min_tokens = None,
            ignore_eos = (case nvext of Some e \<Rightarrow> nv_ignore_eos e | None \<Rightarrow> None)\<rparr>"
  by (auto simp: extract_stop_impl_def not_less split: option.splits)

section \<open>Identifiers\<close>

lemma unat_mask_less: "unat (w AND mask n :: 'a::len word) < 2 ^ n"
proof -
  have "unat (w AND mask n) = take_bit n (unat w)"
    by (simp flip: take_bit_eq_mask add: unsigned_take_bit_eq)
  then show ?thesis by (simp add: take_bit_eq_mod)
qed

lemma length_uuid4: "length (uuid4 r1 r2) = 36"
proof -
  have lt: "unat w < 2 ^ 64" for w :: u64 using unsigned_less [of w] by simp
  have d: "unat (drop_bit 32 (w :: u64)) < 16 ^ 8" "unat (drop_bit 48 (w :: u64)) < 16 ^ 4" for w
    using lt [of w] by (simp_all only: unsigned_drop_bit_eq drop_bit_eq_div [where 'a = nat] take_bit_eq_mod)
       (simp_all add: div_less_iff_less_mult)
  have m: "unat (w AND 0xffff) < 16 ^ 4" "unat (w AND 0xffffffffffff) < 16 ^ 12" for w :: u64
    using unat_mask_less [of w 16] unat_mask_less [of w 48] by (simp_all add: mask_eq_exp_minus_1)
  have "length (pad_hex 8 (unat (drop_bit 32 hi)) @ ''-'' @ pad_hex 4 (unat (drop_bit 16 hi AND 0xffff)) @ ''-''
     @ pad_hex 4 (unat (hi AND 0xffff)) @ ''-'' @ pad_hex 4 (unat (drop_bit 48 lo)) @ ''-''
     @ pad_hex 12 (unat (lo AND 0xffffffffffff))) = 36" for hi lo :: u64
    by (simp add: length_pad_hex [OF d(1)] length_pad_hex [OF d(2)] length_pad_hex [OF m(1)] length_pad_hex [OF m(2)])
  then show ?thesis unfolding uuid4_def Let_def .
qed

section \<open>Choices by index\<close>

lemma emplace_update_keys:
  "set (map fst (emplace_update k fresh f es)) = insert k (set (map fst es))"
proof (induction es)
  case (Cons e es)
  then show ?case by (cases e) (auto simp del: set_map)
qed simp

lemma emplace_update_distinct:
  "distinct (map fst es) \<Longrightarrow> distinct (map fst (emplace_update k fresh f es))"
proof (induction es)
  case (Cons e es)
  then show ?case by (cases e) (simp del: set_map add: emplace_update_keys)
qed simp

lemma map_of_emplace_update:
  "map_of (emplace_update k fresh f es) =
     (map_of es)(k \<mapsto> f (case map_of es k of Some v \<Rightarrow> v | None \<Rightarrow> fresh))"
  by (induction es) (auto simp: fun_eq_iff)

text \<open>What a stream of choices says about one index.\<close>

definition choices_of :: "u32 \<Rightarrow> 'j ChatChoiceStream list \<Rightarrow> 'j ChatChoiceStream list" where
  "choices_of i cs = filter (\<lambda>c. cs_index c = i) cs"

definition delta_choice_of :: "u32 \<Rightarrow> 'j ChatChoiceStream list \<Rightarrow> 'j ChatDeltaChoice" where
  "delta_choice_of i cs =
     \<lparr>dh_index = i, dh_text = concat (map (\<lambda>c. txt_of (sd_content (cs_delta c))) (choices_of i cs)),
      dh_role = sd_role (cs_delta (hd (choices_of i cs))),
      dh_finish_reason = foldl (\<lambda>r c. opt_or (cs_finish_reason c) r) None (choices_of i cs),
      dh_logprobs = cs_logprobs (hd (choices_of i cs))\<rparr>"

lemma push_choices_distinct: "distinct (map fst es) \<Longrightarrow> distinct (map fst (fold chat_push_choice cs es))"
  by (induction cs arbitrary: es) (simp_all add: chat_push_choice_def emplace_update_distinct)

lemma push_choices_lookup:
  "map_of (fold chat_push_choice cs []) i =
     (if choices_of i cs = [] then None else Some (delta_choice_of i cs))"
proof (induction cs arbitrary: i rule: rev_induct)
  case Nil
  then show ?case by (simp add: choices_of_def)
next
  case (snoc c cs)
  show ?case
  proof (cases "cs_index c = i")
    case True
    then show ?thesis using snoc [of i]
      by (simp add: chat_push_choice_def map_of_emplace_update choices_of_def delta_choice_of_def
          txt_of_def hd_append)
  next
    case False
    then show ?thesis using snoc [of i]
      by (simp add: chat_push_choice_def map_of_emplace_update choices_of_def delta_choice_of_def)
  qed
qed

section \<open>Folding a stream of chunks\<close>

definition stream_choices :: "'j ChatChunk Annotated list \<Rightarrow> 'j ChatChoiceStream list" where
  "stream_choices ds = concat (map (\<lambda>d. case an_data d of Some k \<Rightarrow> ck_choices k | None \<Rightarrow> []) ds)"

lemma chat_push_no_error:
  "\<forall>d\<in>set ds. \<not> is_error d \<Longrightarrow> ha_error a = None \<Longrightarrow>
   ha_error (fold chat_push ds a) = None
   \<and> ha_choices (fold chat_push ds a) = fold chat_push_choice (stream_choices ds) (ha_choices a)"
proof (induction ds arbitrary: a)
  case (Cons d ds)
  have "ha_error (chat_push d a) = None
      \<and> ha_choices (chat_push d a) =
          fold chat_push_choice (case an_data d of Some k \<Rightarrow> ck_choices k | None \<Rightarrow> []) (ha_choices a)"
    using Cons.prems by (simp add: chat_push_def split: option.splits)
  with Cons.IH [of "chat_push d a"] Cons.prems show ?case by (simp add: stream_choices_def)
qed (simp add: stream_choices_def)

definition final_choice :: "'j ChatDeltaChoice \<Rightarrow> 'j ChatChoice" where
  "final_choice d =
     \<lparr>ch_index = dh_index d, ch_message = \<lparr>rm_role = the (dh_role d), rm_content = Some (dh_text d)\<rparr>,
      ch_finish_reason = dh_finish_reason d, ch_logprobs = dh_logprobs d\<rparr>"

lemma chat_final_choices_Inr:
  "chat_final_choices es = Inr cs \<longleftrightarrow>
     (\<forall>(k, d)\<in>set es. dh_role d \<noteq> None) \<and> cs = map (\<lambda>(k, d). final_choice d) es"
proof (induction es arbitrary: cs)
  case (Cons e es)
  obtain k d where "e = (k, d)" by (metis prod.exhaust)
  with Cons show ?case by (cases "dh_role d") (auto simp: final_choice_def)
qed auto

text \<open>Sorting by keys that differ does not see the order of the input.\<close>

lemma sort_key_by_set:
  assumes "distinct (map f xs)" "set (map f xs) = A"
    and "\<And>x. x \<in> set xs \<Longrightarrow> g (f x) = x"
  shows "sort_key f xs = map g (sorted_list_of_set A)"
proof -
  have s: "sorted (map f (sort_key f xs))" by simp
  have d: "distinct (map f (sort_key f xs))"
    using assms(1) by (simp add: distinct_map)
  have "set (map f (sort_key f xs)) = A" using assms(2) by simp
  then have "map f (sort_key f xs) = sorted_list_of_set A"
    using s d by (metis sorted_list_of_set.idem_if_sorted_distinct)
  then have "map g (sorted_list_of_set A) = map (g \<circ> f) (sort_key f xs)" by (metis map_map)
  also have "\<dots> = sort_key f xs" using assms(3) by (intro map_idI) simp
  finally show ?thesis ..
qed

definition choice_with_role :: "'j ChatChoiceStream list \<Rightarrow> u32 \<Rightarrow> bool" where
  "choice_with_role cs i \<longleftrightarrow> dh_role (delta_choice_of i cs) \<noteq> None"

lemma choices_of_empty: "choices_of i cs = [] \<longleftrightarrow> i \<notin> cs_index ` set cs"
  by (auto simp: choices_of_def filter_empty_conv)

lemma chat_table:
  fixes cs :: "'j ChatChoiceStream list"
  assumes es: "es = fold chat_push_choice cs []" and perm: "mset es' = mset es"
  shows "distinct (map fst es')" "(k, d) \<in> set es' \<longleftrightarrow> k \<in> cs_index ` set cs \<and> d = delta_choice_of k cs"
proof -
  have dist: "distinct (map fst es)" using push_choices_distinct [of "[]" cs] es by simp
  have "mset (map fst es') = mset (map fst es)" using perm by (metis mset_map)
  with dist show "distinct (map fst es')" by (metis mset_eq_imp_distinct_iff)
  have "(k, d) \<in> set es' \<longleftrightarrow> map_of es k = Some d"
    using dist perm by (metis map_of_eq_Some_iff mset_eq_setD)
  then show "(k, d) \<in> set es' \<longleftrightarrow> k \<in> cs_index ` set cs \<and> d = delta_choice_of k cs"
    using push_choices_lookup [of cs k] choices_of_empty [of k cs] es by auto
qed

lemma chat_finalize_choices:
  fixes cs :: "'j ChatChoiceStream list"
  assumes es: "es = fold chat_push_choice cs []" and perm: "mset es' = mset es"
    and roles: "\<forall>i\<in>cs_index ` set cs. choice_with_role cs i"
  shows "\<exists>out. chat_final_choices es' = Inr out
    \<and> sort_key ch_index out =
        map (\<lambda>i. final_choice (delta_choice_of i cs)) (sorted_list_of_set (cs_index ` set cs))"
proof -
  note tab = chat_table [OF es perm]
  let ?out = "map (\<lambda>(k, d). final_choice d) es'"
  have fst: "ch_index (final_choice d) = k" if "(k, d) \<in> set es'" for k d
    using tab(2) [of k d] that by (simp add: final_choice_def delta_choice_of_def)
  have keys: "map ch_index ?out = map fst es'" using fst by auto
  have sets: "set (map fst es') = cs_index ` set cs" using tab(2) by force
  have "chat_final_choices es' = Inr ?out"
    unfolding chat_final_choices_Inr using tab(2) roles by (auto simp: choice_with_role_def)
  moreover have "sort_key ch_index ?out =
      map (\<lambda>i. final_choice (delta_choice_of i cs)) (sorted_list_of_set (cs_index ` set cs))"
  proof (rule sort_key_by_set)
    show "distinct (map ch_index ?out)" unfolding keys by (rule tab(1))
    show "set (map ch_index ?out) = cs_index ` set cs" unfolding keys by (rule sets)
    show "final_choice (delta_choice_of (ch_index x) cs) = x" if x: "x \<in> set ?out" for x
    proof -
      from x obtain k d where kd: "(k, d) \<in> set es'" "x = final_choice d" by auto
      with fst [OF kd(1)] tab(2) [of k d] show ?thesis by simp
    qed
  qed
  ultimately show ?thesis by blast
qed

text \<open>
  Exactly what a stream without error annotations gives: only the first chunk of a choice can give it
  its role, so a role that arrives in a later chunk does not count.
\<close>

lemma chat_choices_exact:
  fixes ds :: "'j ChatChunk Annotated list"
  assumes "\<forall>d\<in>set ds. \<not> is_error d" and "\<And>l. mset (iter l) = mset l"
  shows "let cs = stream_choices ds in
   (case chat_finalize iter (fold chat_push ds ChatDeltaAggregator_new) of
      Inr r \<Rightarrow> (\<forall>i\<in>cs_index ` set cs. sd_role (cs_delta (hd (choices_of i cs))) \<noteq> None)
        \<and> re_choices r = map (\<lambda>i. final_choice (delta_choice_of i cs)) (sorted_list_of_set (cs_index ` set cs))
    | Inl e \<Rightarrow> (\<exists>i\<in>cs_index ` set cs. sd_role (cs_delta (hd (choices_of i cs))) = None))"
proof -
  let ?a = "fold chat_push ds ChatDeltaAggregator_new"
  define cs where "cs = stream_choices ds"
  have a: "ha_error ?a = None" "ha_choices ?a = fold chat_push_choice cs []"
    using chat_push_no_error [OF assms(1), of ChatDeltaAggregator_new]
    by (simp_all add: cs_def ChatDeltaAggregator_new_def)
  note tab = chat_table [OF a(2), of "iter (ha_choices ?a)", OF assms(2)]
  show ?thesis
  proof (cases "\<forall>i\<in>cs_index ` set cs. choice_with_role cs i")
    case True
    from chat_finalize_choices [OF a(2), of "iter (ha_choices ?a)", OF assms(2) True] True a(1) show ?thesis
      unfolding Let_def cs_def [symmetric]
      by (auto simp: chat_finalize_def choice_with_role_def delta_choice_of_def)
  next
    case False
    then obtain i where i: "i \<in> cs_index ` set cs" "\<not> choice_with_role cs i" by blast
    with tab(2) [of i "delta_choice_of i cs"]
    have mem: "(i, delta_choice_of i cs) \<in> set (iter (ha_choices ?a))" by simp
    have "chat_final_choices (iter (ha_choices ?a)) \<noteq> Inr out" for out
    proof
      assume "chat_final_choices (iter (ha_choices ?a)) = Inr out"
      then have "\<forall>(k, d)\<in>set (iter (ha_choices ?a)). dh_role d \<noteq> None"
        unfolding chat_final_choices_Inr by simp
      from bspec [OF this mem] i(2) show False by (simp add: choice_with_role_def)
    qed
    then obtain e where "chat_final_choices (iter (ha_choices ?a)) = Inl e"
      by (cases "chat_final_choices (iter (ha_choices ?a))") auto
    with i a(1) show ?thesis
      unfolding Let_def cs_def [symmetric]
      by (auto simp: chat_finalize_def choice_with_role_def delta_choice_of_def)
  qed
qed

lemma chat_push_error:
  "ha_error (fold chat_push ds a) =
     (if filter is_error ds = [] then ha_error a
      else Some (annotated_error_message (an_comment (last (filter is_error ds)))))"
  by (induction ds arbitrary: a) (auto simp: chat_push_def split: option.splits)

text \<open>C31.  Choices of a chat stream. Fold any stream of chunks, with any number of choices in any
  order, and finalize, whatever the order the hash table is walked in. A stream with error
  annotations fails with the message of the last one. Without one, it fails when some choice never
  received a role; and when the first chunk of every choice has a role, a response comes back whose
  choices are those of the indices that occur, each once and in increasing order: the content of
  a choice is the concatenation of the contents sent for its index, its role is that of its first
  chunk and its finish reason is the last one sent.
\<close>

theorem chat_choices_by_index:
  fixes ds :: "'j ChatChunk Annotated list"
  assumes "\<And>l. mset (iter l) = mset l"
  shows "let cs = stream_choices ds; errs = filter is_error ds; idx = cs_index ` set cs;
             result = chat_finalize iter (fold chat_push ds ChatDeltaAggregator_new) in
     (errs \<noteq> [] \<longrightarrow> result = Inl (RuntimeError (annotated_error_message (an_comment (last errs)))))
   \<and> (errs = [] \<longrightarrow> (\<exists>i\<in>idx. \<forall>c\<in>set (choices_of i cs). sd_role (cs_delta c) = None) \<longrightarrow> (\<exists>e. result = Inl e))
   \<and> (errs = [] \<longrightarrow> (\<forall>i\<in>idx. sd_role (cs_delta (hd (choices_of i cs))) \<noteq> None) \<longrightarrow>
        (\<exists>r. result = Inr r
          \<and> re_choices r = map (\<lambda>i. final_choice (delta_choice_of i cs)) (sorted_list_of_set idx)))"
proof -
  define cs where "cs = stream_choices ds"
  define result where "result = chat_finalize iter (fold chat_push ds ChatDeltaAggregator_new)"
  have none: "choices_of i cs \<noteq> []" if "i \<in> cs_index ` set cs" for i using that by (simp add: choices_of_empty)
  have exact: "case result of
      Inr r \<Rightarrow> (\<forall>i\<in>cs_index ` set cs. sd_role (cs_delta (hd (choices_of i cs))) \<noteq> None)
        \<and> re_choices r = map (\<lambda>i. final_choice (delta_choice_of i cs)) (sorted_list_of_set (cs_index ` set cs))
    | Inl e \<Rightarrow> (\<exists>i\<in>cs_index ` set cs. sd_role (cs_delta (hd (choices_of i cs))) = None)"
    if "filter is_error ds = []"
    using chat_choices_exact [of ds iter] that assms
    unfolding Let_def result_def cs_def by (simp add: filter_empty_conv)
  have "\<exists>e. result = Inl e" if "filter is_error ds = []"
    "\<exists>i\<in>cs_index ` set cs. \<forall>c\<in>set (choices_of i cs). sd_role (cs_delta c) = None"
    using that(2) exact [OF that(1)] none by (cases result) (use hd_in_set in fastforce)+
  moreover have "\<exists>r. result = Inr r
      \<and> re_choices r = map (\<lambda>i. final_choice (delta_choice_of i cs)) (sorted_list_of_set (cs_index ` set cs))"
    if "filter is_error ds = []" "\<forall>i\<in>cs_index ` set cs. sd_role (cs_delta (hd (choices_of i cs))) \<noteq> None"
    using that(2) exact [OF that(1)] by (cases result) auto
  moreover have "result = Inl (RuntimeError (annotated_error_message (an_comment (last (filter is_error ds)))))"
    if "filter is_error ds \<noteq> []"
    using that by (simp add: result_def chat_finalize_def chat_push_error)
  ultimately show ?thesis unfolding Let_def cs_def [symmetric] result_def [symmetric] by blast
qed

theorem chat_choices_by_index_witness:
  "\<exists>r :: nat ChatResponse. chat_finalize rev (fold chat_push
      (map (\<lambda>(i, t). an_from_data \<lparr>ck_id = ''x'',
          ck_choices = [\<lparr>cs_index = i, cs_delta = \<lparr>sd_role = Some ''assistant'', sd_content = Some t\<rparr>,
             cs_finish_reason = None, cs_logprobs = None\<rparr>],
          ck_created = 0, ck_model = ''m'', ck_object = [], ck_usage = None,
          ck_system_fingerprint = None, ck_service_tier = None\<rparr>)
        [(1, ''b''), (0, ''a''), (1, ''c'')]) ChatDeltaAggregator_new) = Inr r
    \<and> map (rm_content \<circ> ch_message) (re_choices r) = [Some ''a'', Some ''bc'']"
proof -
  define ds :: "nat ChatChunk Annotated list" where
    "ds = map (\<lambda>(i, t). an_from_data \<lparr>ck_id = ''x'',
          ck_choices = [\<lparr>cs_index = i, cs_delta = \<lparr>sd_role = Some ''assistant'', sd_content = Some t\<rparr>,
             cs_finish_reason = None, cs_logprobs = None\<rparr>],
          ck_created = 0, ck_model = ''m'', ck_object = [], ck_usage = None,
          ck_system_fingerprint = None, ck_service_tier = None\<rparr>)
        [(1, ''b''), (0, ''a''), (1, ''c'')]"
  have ok: "filter is_error ds = []" by (simp add: ds_def is_error_def an_from_data_def)
  have cs: "cs_index ` set (stream_choices ds) = {0, 1}"
    by (auto simp: ds_def stream_choices_def an_from_data_def)
  have roles: "\<forall>i\<in>{0, 1}. sd_role (cs_delta (hd (choices_of i (stream_choices ds)))) \<noteq> None"
    by (simp add: ds_def stream_choices_def choices_of_def an_from_data_def)
  have "sorted_list_of_set {0, 1 :: u32} = [0, 1]" by (simp add: sorted_list_of_set_insert_remove)
  moreover have "map (rm_content \<circ> ch_message) (map (\<lambda>i. final_choice (delta_choice_of i (stream_choices ds))) [0, 1])
      = [Some ''a'', Some ''bc'']"
    by (simp add: ds_def stream_choices_def choices_of_def an_from_data_def final_choice_def
        delta_choice_of_def txt_of_def)
  ultimately show ?thesis
    using chat_choices_by_index [of rev ds] ok roles unfolding ds_def [symmetric] Let_def cs by auto
qed

end
