(* ===== verification/Preprocessor.thy ===== *)
theory Preprocessor
  imports Openai
begin

text \<open>
  The preprocessor (\<^verbatim>\<open>llm/preprocessor.h\<close>, \<^verbatim>\<open>llm/preprocessor.cpp\<close>, \<^verbatim>\<open>llm/preprocessor/prompt.cpp\<close>) and
  the echo engine (\<^verbatim>\<open>llm/engines.cpp\<close>): a request is rendered to a prompt, tokenized and sent to
  the backend with its stop conditions; the backend outputs come back as response chunks.  The
  template library is a parameter (\<open>parse\<close>, \<open>apply\<close>), as are the date and the printing of JSON.  A
  stream is the list of its items and the exception that ends it, if any.  The main facts are
  that the unary response carries exactly the streamed text, for both response types, that an
  engine error ends the stream and becomes the error of the unary response, and that the echo
  pipeline returns the prompt.
\<close>

section \<open>Requests to the backend\<close>

record BackendInput =
  bi_token_ids :: "u32 list"
  bi_stop_conditions :: StopConditions
  bi_sampling_options :: SamplingOptions
  bi_eos_token_ids :: "u32 list"
  bi_mdc_sum :: "string option"
  bi_annotations :: "string list"

definition bi_has_annotation :: "BackendInput \<Rightarrow> string \<Rightarrow> bool" where
  "bi_has_annotation i annotation \<longleftrightarrow> list_ex (\<lambda>a. a = annotation) (bi_annotations i)"

section \<open>Prompt templates\<close>

text \<open>
  A message of the template input is an ordered JSON object: its fields in the order they are
  set. A field holds a string, null or a raw value.
\<close>

datatype 'j template_value = TString string | TNull | TRaw 'j

type_synonym 'j template_message = "(string \<times> 'j template_value) list"

record 'j ChatTemplateInput =
  ti_messages :: "'j template_message list"
  ti_tools :: "'j option"
  ti_add_generation_prompt :: bool

definition message_json :: "'j ChatMessage \<Rightarrow> 'j template_message" where
  "message_json m =
     [(''role'', TString (cm_role m)),
      (''content'', case cm_content m of Some c \<Rightarrow> TString c | None \<Rightarrow> TNull)]
     @ (case cm_name m of Some n \<Rightarrow> [(''name'', TString n)] | None \<Rightarrow> [])
     @ (case cm_tool_calls m of Some j \<Rightarrow> [(''tool_calls'', TRaw j)] | None \<Rightarrow> [])
     @ (case cm_tool_call_id m of Some i \<Rightarrow> [(''tool_call_id'', TString i)] | None \<Rightarrow> [])"

definition chat_template_input :: "'j ChatRequest \<Rightarrow> 'j ChatTemplateInput" where
  "chat_template_input r =
     \<lparr>ti_messages = map message_json (cr_messages r), ti_tools = cr_tools r,
      ti_add_generation_prompt = (cr_messages r = [] \<or> cm_role (last (cr_messages r)) = ''user'')\<rparr>"

definition completion_template_input ::
  "('j \<Rightarrow> 'j json_view) \<Rightarrow> ('j \<Rightarrow> string) \<Rightarrow> 'j CompletionRequest \<Rightarrow> 'j ChatTemplateInput" where
  "completion_template_input view dump r =
     \<lparr>ti_messages = [message_json \<lparr>cm_role = ''user'', cm_content = Some (prompt_to_string view dump (pr_prompt r)),
                       cm_name = None, cm_tool_calls = None, cm_tool_call_id = None\<rparr>],
      ti_tools = None, ti_add_generation_prompt = True\<rparr>"

definition kMonths :: "string list" where
  "kMonths = [''January'', ''February'', ''March'', ''April'', ''May'', ''June'', ''July'', ''August'',
     ''September'', ''October'', ''November'', ''December'']"

text \<open>The UTC date is given as day of the month, month from zero, and years since 1900.\<close>

definition llama3_datetime :: "nat \<times> nat \<times> nat \<Rightarrow> string" where
  "llama3_datetime date =
     (case date of (mday, mon, year) \<Rightarrow>
        (if mday < 10 then ''0'' else []) @ dec_nat mday @ '', '' @ kMonths ! mon @ '', '' @ dec_nat (1900 + year))"

record 't HfFormatter =
  hf_tmpl :: 't
  hf_tool_tmpl :: "'t option"
  hf_llama3_datetime :: bool
  hf_supports_add_generation_prompt :: bool

fun mixin_loop :: "string list \<Rightarrow> bool \<Rightarrow> bool res" where
  "mixin_loop [] dt = Inr dt"
| "mixin_loop (m # ms) dt =
     (if m = ''llama3_datetime'' then mixin_loop ms True
      else if m \<noteq> ''oai_chat'' then Inl (RuntimeError (''unknown prompt_context mixin: '' @ m))
      else mixin_loop ms dt)"

definition HfFormatter_new ::
  "(string \<Rightarrow> string \<Rightarrow> string \<Rightarrow> 't res) \<Rightarrow> string \<Rightarrow> string \<Rightarrow> string \<Rightarrow> string option \<Rightarrow> string list
     \<Rightarrow> 't HfFormatter res" where
  "HfFormatter_new parse chat_template bos eos tool_use prompt_context =
     rbind (throw_if (chat_template = []) (RuntimeError ''chat_template must not be empty'')) (\<lambda>_.
     let parsed = rbind (parse chat_template bos eos) (\<lambda>t.
           case tool_use of
             Some u \<Rightarrow> if u \<noteq> [] then rbind (parse u bos eos) (\<lambda>tt. Inr (t, Some tt)) else Inr (t, None)
           | None \<Rightarrow> Inr (t, None))
     in case parsed of
       Inl e \<Rightarrow> Inl (RuntimeError (''failed to parse chat template: '' @ what e))
     | Inr (t, tool) \<Rightarrow>
         rbind (mixin_loop prompt_context False) (\<lambda>dt.
           Inr \<lparr>hf_tmpl = t, hf_tool_tmpl = tool, hf_llama3_datetime = dt,
                hf_supports_add_generation_prompt =
                  (str_find ''add_generation_prompt'' chat_template \<noteq> None
                   \<and> (case tool of None \<Rightarrow> True
                       | Some _ \<Rightarrow> str_find ''add_generation_prompt'' (the tool_use) \<noteq> None))\<rparr>))"

definition hf_render ::
  "('t \<Rightarrow> 'j ChatTemplateInput \<Rightarrow> string option \<Rightarrow> string res) \<Rightarrow> nat \<times> nat \<times> nat \<Rightarrow> 't HfFormatter
     \<Rightarrow> 'j ChatTemplateInput \<Rightarrow> string res" where
  "hf_render apply_template today f input =
     (let datetime = (if hf_llama3_datetime f then Some (llama3_datetime today) else None);
          tmpl = (if ti_tools input \<noteq> None \<and> hf_tool_tmpl f \<noteq> None then the (hf_tool_tmpl f) else hf_tmpl f)
      in case apply_template tmpl input datetime of
        Inl e \<Rightarrow> Inl (RuntimeError (''failed to render chat template: '' @ what e))
      | Inr s \<Rightarrow> Inr s)"

section \<open>Preprocessing\<close>

definition kAnnotationFormattedPrompt :: string where
  "kAnnotationFormattedPrompt = ''formatted_prompt''"

definition kAnnotationTokenIds :: string where
  "kAnnotationTokenIds = ''token_ids''"

record 'j OpenAIPreprocessor =
  pp_render :: "'j ChatTemplateInput \<Rightarrow> string res"
  pp_tokenizer :: Tokenizer
  pp_eos_token_ids :: "u32 list"
  pp_mdcsum :: string

text \<open>Adding the model's end-of-sequence identifiers to the hidden stop identifiers.\<close>

definition add_missing :: "u32 list \<Rightarrow> u32 list \<Rightarrow> u32 list" where
  "add_missing eos hidden = foldl (\<lambda>hs e. if e \<in> set hs then hs else hs @ [e]) hidden eos"

definition with_eos :: "u32 list \<Rightarrow> StopConditions \<Rightarrow> StopConditions" where
  "with_eos eos c =
     (case sc_stop_token_ids_hidden c of
        Some hidden \<Rightarrow> c\<lparr>sc_stop_token_ids_hidden := Some (add_missing eos hidden)\<rparr>
      | None \<Rightarrow> c\<lparr>sc_stop_token_ids_hidden := Some eos\<rparr>)"

text \<open>
  The template over the two request types takes what it reads of the request: the \<open>nvext\<close> block,
  the raw prompt, the template input, and the extracted options. \<open>dump_ids\<close> prints the
  identifiers as JSON. The annotations are kept in the order of their names.
\<close>

definition preprocess_impl ::
  "(u32 list \<Rightarrow> string) \<Rightarrow> 'j OpenAIPreprocessor \<Rightarrow> NvExt option \<Rightarrow> string option \<Rightarrow> 'j ChatTemplateInput
     \<Rightarrow> StopConditions res \<Rightarrow> SamplingOptions res \<Rightarrow> (BackendInput \<times> (string \<times> string) list) res" where
  "preprocess_impl dump_ids pp nvext raw tinput stop sampling =
     (let use_raw_prompt = (case nvext of Some e \<Rightarrow> nv_use_raw_prompt e = Some True | None \<Rightarrow> False)
      in rbind (if use_raw_prompt
                then (case raw of Some p \<Rightarrow> Inr p | None \<Rightarrow> pp_render pp tinput)
                else pp_render pp tinput) (\<lambda>formatted_prompt.
         rbind (tk_encode (pp_tokenizer pp) formatted_prompt) (\<lambda>encoding.
         let annotations =
               (if nvext_has_annotation nvext kAnnotationFormattedPrompt
                then [(kAnnotationFormattedPrompt, formatted_prompt)] else [])
               @ (if nvext_has_annotation nvext kAnnotationTokenIds
                  then [(kAnnotationTokenIds, dump_ids (en_token_ids encoding))] else [])
         in rbind stop (\<lambda>stop_conditions0.
            let stop_conditions = apply_ignore_eos (with_eos (pp_eos_token_ids pp) stop_conditions0)
            in rbind sampling (\<lambda>options.
               Inr (\<lparr>bi_token_ids = en_token_ids encoding, bi_stop_conditions = stop_conditions,
                     bi_sampling_options = options,
                     bi_eos_token_ids =
                       (if ignore_eos stop_conditions = Some True then [] else pp_eos_token_ids pp),
                     bi_mdc_sum = Some (pp_mdcsum pp),
                     bi_annotations = (case nvext_annotations nvext of Some as \<Rightarrow> as | None \<Rightarrow> [])\<rparr>,
                    annotations))))))"

definition preprocess_chat ::
  "(real \<Rightarrow> string) \<Rightarrow> (u32 list \<Rightarrow> string) \<Rightarrow> 'j OpenAIPreprocessor \<Rightarrow> 'j ChatRequest
     \<Rightarrow> (BackendInput \<times> (string \<times> string) list) res" where
  "preprocess_chat show dump_ids pp r =
     preprocess_impl dump_ids pp (cr_nvext r) None (chat_template_input r)
       (chat_stop_conditions r) (chat_sampling_options show r)"

definition preprocess_completion ::
  "('j \<Rightarrow> 'j json_view) \<Rightarrow> ('j \<Rightarrow> string) \<Rightarrow> (real \<Rightarrow> string) \<Rightarrow> (u32 list \<Rightarrow> string) \<Rightarrow> 'j OpenAIPreprocessor
     \<Rightarrow> 'j CompletionRequest \<Rightarrow> (BackendInput \<times> (string \<times> string) list) res" where
  "preprocess_completion view dump show dump_ids pp r =
     preprocess_impl dump_ids pp (pr_nvext r) (raw_prompt view dump r) (completion_template_input view dump r)
       (completion_stop_conditions r) (completion_sampling_options show r)"

section \<open>Response streams\<close>

definition annotation_prologue :: "(string \<Rightarrow> string) \<Rightarrow> (string \<times> string) list \<Rightarrow> 'r Annotated list" where
  "annotation_prologue dump_str as = map (\<lambda>(name, value). from_annotation dump_str name value) as"

record 'r PostStream =
  ps_items :: "'r Annotated list"
  ps_stopped :: bool
  ps_thrown :: "exn option"

definition ps_yield :: "'r Annotated \<Rightarrow> 'r PostStream \<Rightarrow> 'r PostStream" where
  "ps_yield x s = s\<lparr>ps_items := x # ps_items s\<rparr>"

fun post_loop ::
  "('f BackendOutput \<Rightarrow> DeltaGenerator \<Rightarrow> 'r res \<times> DeltaGenerator) \<Rightarrow> 'f BackendOutput Annotated list
     \<Rightarrow> exn option \<Rightarrow> DeltaGenerator \<Rightarrow> 'r PostStream" where
  "post_loop choice_from [] thr g = \<lparr>ps_items = [], ps_stopped = False, ps_thrown = thr\<rparr>"
| "post_loop choice_from (item # items) thr g =
     (let out = \<lambda>v. \<lparr>an_data = v, an_id = an_id item, an_event = an_event item, an_comment = an_comment item\<rparr>
      in case an_data item of
        None \<Rightarrow> ps_yield (out None) (post_loop choice_from items thr g)
      | Some b \<Rightarrow>
          (case choice_from b g of
             (Inl e, g') \<Rightarrow> \<lparr>ps_items = [an_from_error (what e)], ps_stopped = True, ps_thrown = None\<rparr>
           | (Inr r, g') \<Rightarrow> ps_yield (out (Some r)) (post_loop choice_from items thr g')))"

definition transform_postprocessor_stream ::
  "('f BackendOutput \<Rightarrow> DeltaGenerator \<Rightarrow> 'r res \<times> DeltaGenerator) \<Rightarrow> 'f StreamOut \<Rightarrow> DeltaGenerator
     \<Rightarrow> 'r Annotated list \<Rightarrow> 'r PostStream" where
  "transform_postprocessor_stream choice_from input g prologue =
     (let s = post_loop choice_from (yielded input) (thrown input) g
      in s\<lparr>ps_items := prologue @ ps_items s, ps_stopped := (stop_generating input \<or> ps_stopped s)\<rparr>)"

definition chat_generate ::
  "(real \<Rightarrow> string) \<Rightarrow> (u32 list \<Rightarrow> string) \<Rightarrow> (string \<Rightarrow> string) \<Rightarrow> 'j OpenAIPreprocessor
     \<Rightarrow> u64 \<Rightarrow> u64 \<Rightarrow> u64 \<Rightarrow> 'j ChatRequest \<Rightarrow> (BackendInput \<Rightarrow> 'f StreamOut res)
     \<Rightarrow> 'j ChatChunk PostStream res" where
  "chat_generate show dump_ids dump_str pp r1 r2 now r next_engine =
     rbind (preprocess_chat show dump_ids pp r) (\<lambda>(input, annotations).
     let g = update_isl (length (bi_token_ids input)) (chat_response_generator r1 r2 now r)
     in rbind (next_engine input) (\<lambda>out.
        Inr (transform_postprocessor_stream chat_choice_from_postprocessor out g
               (annotation_prologue dump_str annotations))))"

definition completion_generate ::
  "('j \<Rightarrow> 'j json_view) \<Rightarrow> ('j \<Rightarrow> string) \<Rightarrow> (real \<Rightarrow> string) \<Rightarrow> (u32 list \<Rightarrow> string) \<Rightarrow> (string \<Rightarrow> string)
     \<Rightarrow> 'j OpenAIPreprocessor \<Rightarrow> u64 \<Rightarrow> u64 \<Rightarrow> u64 \<Rightarrow> 'j CompletionRequest
     \<Rightarrow> (BackendInput \<Rightarrow> 'f StreamOut res) \<Rightarrow> 'j CompletionResponse PostStream res" where
  "completion_generate view dump show dump_ids dump_str pp r1 r2 now r next_engine =
     rbind (preprocess_completion view dump show dump_ids pp r) (\<lambda>(input, annotations).
     let g = update_isl (length (bi_token_ids input)) (completion_response_generator r1 r2 now r)
     in rbind (next_engine input) (\<lambda>out.
        Inr (transform_postprocessor_stream completion_choice_from_postprocessor out g
               (annotation_prologue dump_str annotations))))"

text \<open>The backend operator in front of an engine.\<close>

definition backend_engine ::
  "Tokenizer \<Rightarrow> string \<Rightarrow> bool \<Rightarrow> (BackendInput \<Rightarrow> 'f LLMEngineOutput Annotated list res)
     \<Rightarrow> BackendInput \<Rightarrow> 'f StreamOut res" where
  "backend_engine tk mdcsum validate engine input =
     rbind (engine input) (\<lambda>items. Inr (backend_generate tk mdcsum validate (bi_stop_conditions input) items))"

section \<open>The echo engine\<close>

text \<open>\<open>stopped k\<close> is what \<open>is_stopped\<close> answers before the \<open>k\<close>-th token.\<close>

primrec echo_loop ::
  "(nat \<Rightarrow> bool) \<Rightarrow> u32 \<Rightarrow> u32 list \<Rightarrow> nat \<Rightarrow> u32 \<Rightarrow> 'f LLMEngineOutput Annotated list" where
  "echo_loop stopped max_tok [] k emitted = [an_from_data (with_reason FStop)]"
| "echo_loop stopped max_tok (token_id # ids) k emitted =
     (if stopped k then [an_from_data (with_reason FStop)]
      else if max_tok \<le> emitted then [an_from_data (with_reason FLength)]
      else token_delta [token_id] None # echo_loop stopped max_tok ids (Suc k) (emitted + 1))"

definition echo_generate :: "(nat \<Rightarrow> bool) \<Rightarrow> BackendInput \<Rightarrow> 'f LLMEngineOutput Annotated list res" where
  "echo_generate stopped input =
     Inr (echo_loop stopped (case max_tokens (bi_stop_conditions input) of Some n \<Rightarrow> n | None \<Rightarrow> - 1)
            (bi_token_ids input) 0 0)"

section \<open>What a response protocol promises\<close>

text \<open>
  A summary of the outputs seen so far: the text, the finish reason and the usage. A protocol has
  a generator of chunks and an aggregator; \<open>state g s\<close> is the aggregator that has folded outputs
  with the summary \<open>s\<close> (\<^const>\<open>None\<close> when there was none) made by the generator \<open>g\<close>.
\<close>

record Summary =
  su_text :: string
  su_reason :: "string option"
  su_usage :: "CompletionUsage option"

definition summary_add ::
  "DeltaGenerator \<Rightarrow> string option \<Rightarrow> string option \<Rightarrow> Summary option \<Rightarrow> Summary" where
  "summary_add g text fr s =
     (case s of
        None \<Rightarrow> \<lparr>su_text = txt_of text, su_reason = fr, su_usage = reported_usage g\<rparr>
      | Some t \<Rightarrow> \<lparr>su_text = su_text t @ txt_of text, su_reason = opt_or fr (su_reason t),
                   su_usage = opt_or (reported_usage g) (su_usage t)\<rparr>)"

definition output_reason :: "string \<Rightarrow> 'f BackendOutput \<Rightarrow> string option" where
  "output_reason cancelled_as b =
     (case map_finish_reason (bo_finish_reason b) cancelled_as of Inr fr \<Rightarrow> fr | Inl _ \<Rightarrow> None)"

primrec summary_of ::
  "string \<Rightarrow> 'f BackendOutput list \<Rightarrow> DeltaGenerator \<Rightarrow> Summary option \<Rightarrow> Summary option" where
  "summary_of c [] g s = s"
| "summary_of c (b # bs) g s =
     summary_of c bs (count_tokens b g)
       (Some (summary_add (count_tokens b g) (bo_text b) (output_reason c b) s))"

definition known_reasons :: "string option set" where
  "known_reasons = {None, Some ''stop'', Some ''length'', Some ''cancelled''}"

definition failed_output :: "'f BackendOutput \<Rightarrow> string option" where
  "failed_output b = (case bo_finish_reason b of Some (FError msg) \<Rightarrow> Some msg | _ \<Rightarrow> None)"

text \<open>An item of the backend's stream without an error.\<close>

definition clean_item :: "'f BackendOutput Annotated \<Rightarrow> bool" where
  "clean_item x \<longleftrightarrow> \<not> is_error x \<and> (\<forall>b. an_data x = Some b \<longrightarrow> failed_output b = None)"

definition outputs_of :: "'f BackendOutput Annotated list \<Rightarrow> 'f BackendOutput list" where
  "outputs_of items = concat (map (\<lambda>x. case an_data x of Some b \<Rightarrow> [b] | None \<Rightarrow> []) items)"

lemma map_finish_reason_clean:
  "failed_output b = None \<Longrightarrow> map_finish_reason (bo_finish_reason b) c = Inr (output_reason c b)"
  by (auto simp: failed_output_def output_reason_def map_finish_reason_def
      split: option.splits FinishReason.splits)

lemma map_finish_reason_failed:
  "failed_output b = Some msg \<Longrightarrow> map_finish_reason (bo_finish_reason b) c = Inl (RuntimeError msg)"
  by (auto simp: failed_output_def map_finish_reason_def split: option.splits FinishReason.splits)

lemma output_reason_known:
  "c \<in> {''stop'', ''cancelled''} \<Longrightarrow> output_reason c b \<in> known_reasons"
  by (auto simp: output_reason_def map_finish_reason_def known_reasons_def
      split: option.splits FinishReason.splits)

locale delta_protocol =
  fixes chunk :: "DeltaGenerator \<Rightarrow> string option \<Rightarrow> string option \<Rightarrow> 'r"
    and choice_from :: "'f BackendOutput \<Rightarrow> DeltaGenerator \<Rightarrow> 'r res \<times> DeltaGenerator"
    and push :: "'r Annotated \<Rightarrow> 'a \<Rightarrow> 'a"
    and state :: "DeltaGenerator \<Rightarrow> Summary option \<Rightarrow> 'a"
    and error_of :: "'a \<Rightarrow> string option"
    and cancelled_as :: string
  assumes choice_from: "choice_from b g =
      (rbind (map_finish_reason (bo_finish_reason b) cancelled_as)
         (\<lambda>fr. Inr (chunk (count_tokens b g) (bo_text b) fr)), count_tokens b g)"
    and cancelled: "cancelled_as \<in> {''stop'', ''cancelled''}"
    and push_chunk: "\<not> is_error x \<Longrightarrow> an_data x = Some (chunk g text fr) \<Longrightarrow> fr \<in> known_reasons \<Longrightarrow>
      push x (state g s) = state g (Some (summary_add g text fr s))"
    and state_count: "state (count_tokens b g) s = state g s"
    and push_skip: "\<not> is_error x \<Longrightarrow> an_data x = None \<Longrightarrow> push x a = a"
    and push_error: "is_error x \<Longrightarrow> error_of (push x a) = Some (annotated_error_message (an_comment x))"
begin

lemma post_clean:
  assumes "\<forall>x\<in>set items. clean_item x"
  shows "fold push (ps_items (post_loop choice_from items thr g)) (state g s) =
      state g (summary_of cancelled_as (outputs_of items) g s)"
    and "ps_stopped (post_loop choice_from items thr g) = False"
    and "ps_thrown (post_loop choice_from items thr g) = thr"
proof -
  have "fold push (ps_items (post_loop choice_from items thr g)) (state g s) =
      state g (summary_of cancelled_as (outputs_of items) g s)
    \<and> ps_stopped (post_loop choice_from items thr g) = False
    \<and> ps_thrown (post_loop choice_from items thr g) = thr"
    using assms
  proof (induction items arbitrary: g s)
    case (Cons x items)
    let ?out = "\<lambda>v. \<lparr>an_data = v, an_id = an_id x, an_event = an_event x, an_comment = an_comment x\<rparr>"
    have err: "\<not> is_error (?out v)" for v :: "'r option"
      using Cons.prems by (simp add: clean_item_def is_error_def)
    show ?case
    proof (cases "an_data x")
      case None
      with Cons err show ?thesis by (simp add: outputs_of_def ps_yield_def push_skip)
    next
      case (Some b)
      let ?g = "count_tokens b g"
      have b: "failed_output b = None" using Cons.prems Some by (simp add: clean_item_def)
      have "push (?out (Some (chunk ?g (bo_text b) (output_reason cancelled_as b)))) (state ?g s) =
          state ?g (Some (summary_add ?g (bo_text b) (output_reason cancelled_as b) s))"
        by (rule push_chunk) (use err output_reason_known [OF cancelled] in simp_all)
      with Some b Cons.IH [of ?g] Cons.prems show ?thesis
        by (simp add: choice_from map_finish_reason_clean ps_yield_def outputs_of_def state_count)
    qed
  qed (simp add: outputs_of_def)
  then show "fold push (ps_items (post_loop choice_from items thr g)) (state g s) =
      state g (summary_of cancelled_as (outputs_of items) g s)"
    and "ps_stopped (post_loop choice_from items thr g) = False"
    and "ps_thrown (post_loop choice_from items thr g) = thr" by simp_all
qed

lemma post_failed:
  assumes "\<forall>x\<in>set pre. clean_item x" "an_data bad = Some b" "failed_output b = Some msg"
  shows "ps_items (post_loop choice_from (pre @ bad # rest) thr g) =
      ps_items (post_loop choice_from pre None g) @ [an_from_error msg]"
    and "ps_stopped (post_loop choice_from (pre @ bad # rest) thr g)"
    and "ps_thrown (post_loop choice_from (pre @ bad # rest) thr g) = None"
proof -
  have "ps_items (post_loop choice_from (pre @ bad # rest) thr g) =
      ps_items (post_loop choice_from pre None g) @ [an_from_error msg]
    \<and> ps_stopped (post_loop choice_from (pre @ bad # rest) thr g)
    \<and> ps_thrown (post_loop choice_from (pre @ bad # rest) thr g) = None"
    using assms(1)
  proof (induction pre arbitrary: g)
    case Nil
    then show ?case using assms(2,3) by (simp add: choice_from map_finish_reason_failed)
  next
    case (Cons x pre)
    then show ?case
      by (cases "an_data x") (simp_all add: choice_from map_finish_reason_clean clean_item_def ps_yield_def)
  qed
  then show "ps_items (post_loop choice_from (pre @ bad # rest) thr g) =
      ps_items (post_loop choice_from pre None g) @ [an_from_error msg]"
    and "ps_stopped (post_loop choice_from (pre @ bad # rest) thr g)"
    and "ps_thrown (post_loop choice_from (pre @ bad # rest) thr g) = None" by simp_all
qed

lemma fold_prologue:
  "\<forall>x\<in>set prologue. \<not> is_error x \<and> an_data x = None \<Longrightarrow> fold push prologue a = a"
  by (induction prologue arbitrary: a) (simp_all add: push_skip)

lemma stream_clean:
  assumes "\<forall>x\<in>set (yielded out). clean_item x"
    and "\<forall>x\<in>set prologue. \<not> is_error x \<and> an_data x = None"
  shows "fold push (ps_items (transform_postprocessor_stream choice_from out g prologue)) (state g None) =
    state g (summary_of cancelled_as (outputs_of (yielded out)) g None)"
  by (simp add: transform_postprocessor_stream_def Let_def fold_prologue [OF assms(2)] post_clean(1) [OF assms(1)])

lemma stream_failed:
  assumes "\<forall>x\<in>set pre. clean_item x" "an_data bad = Some b" "failed_output b = Some msg"
    and "yielded out = pre @ bad # rest"
  shows "error_of (fold push (ps_items (transform_postprocessor_stream choice_from out g prologue)) a) = Some msg"
    and "ps_stopped (transform_postprocessor_stream choice_from out g prologue)"
    and "ps_thrown (transform_postprocessor_stream choice_from out g prologue) = None"
  by (simp_all add: transform_postprocessor_stream_def Let_def assms(4) post_failed [OF assms(1-3)]
      push_error is_error_def an_from_error_def annotated_error_message_def)

end

section \<open>The two protocols\<close>

definition chat_state :: "DeltaGenerator \<Rightarrow> Summary option \<Rightarrow> 'j ChatDeltaAggregator" where
  "chat_state g s =
     (case s of
        None \<Rightarrow> ChatDeltaAggregator_new
      | Some t \<Rightarrow>
          \<lparr>ha_id = dg_id g, ha_model = dg_model g, ha_created = dg_created g, ha_usage = su_usage t,
           ha_system_fingerprint = None, ha_service_tier = None,
           ha_choices = [(0, \<lparr>dh_index = 0, dh_text = su_text t, dh_role = Some ''assistant'',
                             dh_finish_reason = su_reason t, dh_logprobs = None\<rparr>)],
           ha_error = None\<rparr>)"

definition completion_state :: "DeltaGenerator \<Rightarrow> Summary option \<Rightarrow> 'j CompletionDeltaAggregator" where
  "completion_state g s =
     (case s of
        None \<Rightarrow> CompletionDeltaAggregator_new
      | Some t \<Rightarrow>
          \<lparr>pa_id = dg_id g, pa_model = dg_model g, pa_created = dg_created g, pa_usage = su_usage t,
           pa_system_fingerprint = None,
           pa_choices = [(0, \<lparr>dp_index = 0, dp_text = su_text t,
                             dp_finish_reason = (case su_reason t of None \<Rightarrow> None
                                | Some r \<Rightarrow> (case fr_from_string r of Inr v \<Rightarrow> Some v | Inl _ \<Rightarrow> None)),
                             dp_logprobs = None\<rparr>)],
           pa_error = None\<rparr>)"

lemma count_tokens_same [simp]:
  "dg_id (count_tokens b g) = dg_id g" "dg_model (count_tokens b g) = dg_model g"
  "dg_created (count_tokens b g) = dg_created g" "dg_options (count_tokens b g) = dg_options g"
  by (simp_all add: count_tokens_def)

interpretation chat: delta_protocol
  "\<lambda>g. chat_create_choice g 0" chat_choice_from_postprocessor chat_push chat_state ha_error "''stop''"
proof (unfold_locales, goal_cases)
  case (1 b g)
  then show ?case by (simp add: chat_choice_from_postprocessor_def Let_def)
next
  case (3 x g t fr s)
  then show ?case
    by (cases s) (simp_all add: chat_push_def chat_state_def chat_create_choice_def chat_push_choice_def
        ChatDeltaAggregator_new_def summary_add_def txt_of_def opt_or_def split: option.splits)
qed (simp_all add: chat_state_def chat_push_def split: option.splits)

interpretation completion: delta_protocol
  "\<lambda>g. completion_create_choice g 0" completion_choice_from_postprocessor completion_push completion_state
  pa_error "''cancelled''"
proof (unfold_locales, goal_cases)
  case (1 b g)
  then show ?case by (simp add: completion_choice_from_postprocessor_def Let_def)
next
  case (3 x g t fr s)
  then show ?case
    by (cases s) (auto simp: completion_push_def completion_state_def completion_create_choice_def
        completion_push_choice_def CompletionDeltaAggregator_new_def summary_add_def txt_of_def opt_or_def
        known_reasons_def fr_from_string_def split: option.splits)
qed (simp_all add: completion_state_def completion_push_def split: option.splits)

section \<open>Summaries in closed form\<close>

definition last_reason :: "string \<Rightarrow> 'f BackendOutput list \<Rightarrow> string option" where
  "last_reason c bs = foldl (\<lambda>r b. opt_or (output_reason c b) r) None bs"

definition usage_after :: "'f BackendOutput list \<Rightarrow> DeltaGenerator \<Rightarrow> CompletionUsage option" where
  "usage_after bs g = reported_usage (fold count_tokens bs g)"

lemma reported_usage_None: "reported_usage g = None \<longleftrightarrow> \<not> enable_usage (dg_options g)"
  by (simp add: reported_usage_def)

text \<open>The usage after \<open>n\<close> more tokens, kept in 32 bits.\<close>

definition usage_with :: "DeltaGenerator \<Rightarrow> nat \<Rightarrow> CompletionUsage option" where
  "usage_with g n =
     (if enable_usage (dg_options g)
      then Some \<lparr>prompt_tokens = prompt_tokens (dg_usage g),
                 completion_tokens = wrap32 (completion_tokens (dg_usage g) + int n),
                 total_tokens = wrap32 (prompt_tokens (dg_usage g) + completion_tokens (dg_usage g) + int n)\<rparr>
      else None)"

lemma wrap32_add: "wrap32 (wrap32 a + b) = wrap32 (a + b)" "wrap32 (a + wrap32 b) = wrap32 (a + b)"
  unfolding wrap32_def
  by (metis signed_take_bit_add signed_take_bit_signed_take_bit min.idem)+

lemma wrap32_small: "0 \<le> n \<Longrightarrow> n < 2 ^ 31 \<Longrightarrow> wrap32 n = n"
  by (simp add: wrap32_def signed_take_bit_int_eq_self)

lemma usage_with_small:
  assumes "enable_usage (dg_options g)" "0 \<le> prompt_tokens (dg_usage g)" "0 \<le> completion_tokens (dg_usage g)"
    and "prompt_tokens (dg_usage g) + completion_tokens (dg_usage g) + int n < 2 ^ 31"
  shows "usage_with g n = Some \<lparr>prompt_tokens = prompt_tokens (dg_usage g),
    completion_tokens = completion_tokens (dg_usage g) + int n,
    total_tokens = prompt_tokens (dg_usage g) + completion_tokens (dg_usage g) + int n\<rparr>"
  using assms wrap32_small [of "completion_tokens (dg_usage g) + int n"]
    wrap32_small [of "prompt_tokens (dg_usage g) + completion_tokens (dg_usage g) + int n"]
  by (simp add: usage_with_def)

definition tokens_of :: "'f BackendOutput list \<Rightarrow> nat" where
  "tokens_of bs = (\<Sum>b\<leftarrow>bs. length (bo_token_ids b))"

lemma fold_count_usage:
  "enable_usage (dg_options g) \<Longrightarrow> bs \<noteq> [] \<Longrightarrow>
   dg_usage (fold count_tokens bs g) =
     (dg_usage g)\<lparr>completion_tokens := wrap32 (completion_tokens (dg_usage g) + int (tokens_of bs))\<rparr>"
proof (induction bs arbitrary: g)
  case (Cons b bs)
  then show ?case
    by (cases "bs = []") (simp_all add: count_tokens_def as_int32_def tokens_of_def wrap32_add add.assoc)
qed simp

lemma fold_count_options [simp]: "dg_options (fold count_tokens bs g) = dg_options g"
  by (induction bs arbitrary: g) simp_all

lemma usage_after_with: "bs \<noteq> [] \<Longrightarrow> usage_after bs g = usage_with g (tokens_of bs)"
  by (simp add: usage_after_def usage_with_def reported_usage_def fold_count_usage wrap32_add add.assoc)

lemma summary_of_Some:
  "summary_of c bs g (Some t) =
     Some \<lparr>su_text = su_text t @ concat (map (\<lambda>b. txt_of (bo_text b)) bs),
           su_reason = foldl (\<lambda>r b. opt_or (output_reason c b) r) (su_reason t) bs,
           su_usage = (if bs = [] then su_usage t else opt_or (usage_after bs g) (su_usage t))\<rparr>"
proof (induction bs arbitrary: g t)
  case (Cons b bs)
  then show ?case
    by (cases "enable_usage (dg_options g)")
      (auto simp: summary_add_def usage_after_def opt_or_def reported_usage_None)
qed simp

lemma summary_of_None:
  assumes "bs \<noteq> []"
  shows "summary_of c bs g None =
     Some \<lparr>su_text = concat (map (\<lambda>b. txt_of (bo_text b)) bs), su_reason = last_reason c bs,
           su_usage = usage_after bs g\<rparr>"
proof -
  from assms obtain b bs' where bs: "bs = b # bs'" by (cases bs) auto
  show ?thesis
    by (cases "enable_usage (dg_options g)")
      (auto simp: bs summary_of_Some summary_add_def usage_after_def opt_or_def reported_usage_def last_reason_def)
qed

lemma stream_text_outputs: "stream_text s = concat (map (\<lambda>b. txt_of (bo_text b)) (outputs_of (yielded s)))"
proof -
  have "concat (map (\<lambda>a. case an_data a of Some b \<Rightarrow> txt_of (bo_text b) | None \<Rightarrow> []) xs) =
      concat (map (\<lambda>b. txt_of (bo_text b)) (outputs_of xs))" for xs :: "'a BackendOutput Annotated list"
    by (induction xs) (simp_all add: outputs_of_def split: option.splits)
  then show ?thesis by (simp add: stream_text_def)
qed

lemma last_reason_known: "c \<in> {''stop'', ''cancelled''} \<Longrightarrow> last_reason c bs \<in> known_reasons"
proof (induction bs rule: rev_induct)
  case (snoc b bs)
  then show ?case
    using output_reason_known [of c b] by (auto simp: last_reason_def opt_or_def)
qed (simp add: last_reason_def known_reasons_def)

lemma known_reason_roundtrip:
  "fr \<in> known_reasons \<Longrightarrow>
   map_option fr_to_string (case fr of None \<Rightarrow> None
     | Some r \<Rightarrow> (case fr_from_string r of Inr v \<Rightarrow> Some v | Inl _ \<Rightarrow> None)) = fr"
  by (auto simp: known_reasons_def fr_from_string_def)

lemma iter_singleton: "mset (iter [x]) = mset [x] \<Longrightarrow> iter [x] = [x]"
  by (metis mset_single_iff_right mset.simps mset_zero_iff add_mset_eq_singleton_iff mset_eq_length
      length_0_conv list.size(3) size_mset)

lemma annotation_prologue_skipped:
  "\<forall>x\<in>set as. fst x \<noteq> ''error'' \<Longrightarrow>
   \<forall>x\<in>set (annotation_prologue dump as). \<not> is_error x \<and> an_data x = None"
  by (auto simp: annotation_prologue_def from_annotation_def is_error_def)

text \<open>Each protocol's unary response for a stream without errors.\<close>

lemma chat_unary:
  fixes out :: "'f StreamOut" and iter :: "(u32 \<times> 'j ChatDeltaChoice) list \<Rightarrow> (u32 \<times> 'j ChatDeltaChoice) list"
  assumes "\<forall>x\<in>set (yielded out). clean_item x" and "outputs_of (yielded out) \<noteq> []"
    and "\<forall>x\<in>set as. fst x \<noteq> ''error''" and "\<And>l. mset (iter l) = mset l"
  shows "chat_finalize iter (fold chat_push
      (ps_items (transform_postprocessor_stream chat_choice_from_postprocessor out g (annotation_prologue dump as)))
      ChatDeltaAggregator_new) =
    Inr \<lparr>re_id = dg_id g,
         re_choices = [\<lparr>ch_index = 0, ch_message = \<lparr>rm_role = ''assistant'', rm_content = Some (stream_text out)\<rparr>,
            ch_finish_reason = last_reason ''stop'' (outputs_of (yielded out)), ch_logprobs = None\<rparr>],
         re_created = dg_created g, re_model = dg_model g, re_object = ''chat.completion'',
         re_usage = usage_after (outputs_of (yielded out)) g,
         re_system_fingerprint = None, re_service_tier = None\<rparr>"
proof -
  let ?s = "summary_of ''stop'' (outputs_of (yielded out)) g None"
  have "fold chat_push (ps_items (transform_postprocessor_stream chat_choice_from_postprocessor out g
      (annotation_prologue dump as))) (chat_state g None) = (chat_state g ?s :: 'j ChatDeltaAggregator)"
    by (rule chat.stream_clean [OF assms(1) annotation_prologue_skipped [OF assms(3)]])
  moreover have "iter [x] = [x]" for x using assms(4) by (simp add: iter_singleton)
  ultimately show ?thesis
    by (simp add: chat_state_def summary_of_None [OF assms(2)] chat_finalize_def stream_text_outputs)
qed

lemma completion_unary:
  fixes out :: "'f StreamOut"
    and iter :: "(u64 \<times> 'j CompletionDeltaChoice) list \<Rightarrow> (u64 \<times> 'j CompletionDeltaChoice) list"
  assumes "\<forall>x\<in>set (yielded out). clean_item x" and "outputs_of (yielded out) \<noteq> []"
    and "\<forall>x\<in>set as. fst x \<noteq> ''error''" and "\<And>l. mset (iter l) = mset l"
  shows "completion_finalize iter (fold completion_push
      (ps_items (transform_postprocessor_stream completion_choice_from_postprocessor out g (annotation_prologue dump as)))
      CompletionDeltaAggregator_new) =
    Inr \<lparr>pk_id = dg_id g,
         pk_choices = [\<lparr>cc_text = stream_text out, cc_index = 0,
            cc_finish_reason = last_reason ''cancelled'' (outputs_of (yielded out)), cc_logprobs = None\<rparr>],
         pk_created = dg_created g, pk_model = dg_model g, pk_object = ''text_completion'',
         pk_usage = usage_after (outputs_of (yielded out)) g, pk_system_fingerprint = None\<rparr>"
proof -
  let ?t = "summary_of ''cancelled'' (outputs_of (yielded out)) g None"
  have "fold completion_push (ps_items (transform_postprocessor_stream completion_choice_from_postprocessor
      out g (annotation_prologue dump as))) (completion_state g None) = (completion_state g ?t :: 'j CompletionDeltaAggregator)"
    by (rule completion.stream_clean [OF assms(1) annotation_prologue_skipped [OF assms(3)]])
  moreover have "iter [x] = [x]" for x using assms(4) by (simp add: iter_singleton)
  moreover note known_reason_roundtrip [OF last_reason_known, of "''cancelled''" "outputs_of (yielded out)"]
  ultimately show ?thesis
    by (simp add: completion_state_def summary_of_None [OF assms(2)] completion_finalize_def stream_text_outputs)
qed

section \<open>Properties\<close>

text \<open>C32.  A unary response is the stream it folds. Let the backend yield any items without errors
  and at least one output, with annotations before them. The chunks that the chat and the
  completion generators make of them, folded by their aggregators, give one choice whose text is
  the text of the backend's stream and whose finish reason is the last one the backend gave. The
  usage, where it is enabled, adds to the completion tokens the number of token identifiers of all outputs,
  and its total is that of prompt and completion tokens; the counts are kept in 32 bits, and
  are the plain sums when these are below \<open>2\<close> to the \<open>31\<close>.
\<close>

theorem unary_matches_stream:
  fixes out :: "'f StreamOut" and iter :: "(u32 \<times> 'j ChatDeltaChoice) list \<Rightarrow> (u32 \<times> 'j ChatDeltaChoice) list"
    and iter' :: "(u64 \<times> 'j CompletionDeltaChoice) list \<Rightarrow> (u64 \<times> 'j CompletionDeltaChoice) list"
  assumes "\<forall>x\<in>set (yielded out). clean_item x" and "outputs_of (yielded out) \<noteq> []"
    and "\<forall>x\<in>set as. fst x \<noteq> ''error''"
    and "\<And>l. mset (iter l) = mset l" and "\<And>l. mset (iter' l) = mset l"
  shows "chat_finalize iter (fold chat_push
      (ps_items (transform_postprocessor_stream chat_choice_from_postprocessor out g (annotation_prologue dump as)))
      ChatDeltaAggregator_new) =
    Inr \<lparr>re_id = dg_id g,
         re_choices = [\<lparr>ch_index = 0, ch_message = \<lparr>rm_role = ''assistant'', rm_content = Some (stream_text out)\<rparr>,
            ch_finish_reason = last_reason ''stop'' (outputs_of (yielded out)), ch_logprobs = None\<rparr>],
         re_created = dg_created g, re_model = dg_model g, re_object = ''chat.completion'',
         re_usage = usage_with g (\<Sum>b\<leftarrow>outputs_of (yielded out). length (bo_token_ids b)),
         re_system_fingerprint = None, re_service_tier = None\<rparr>
    \<and> completion_finalize iter' (fold completion_push
      (ps_items (transform_postprocessor_stream completion_choice_from_postprocessor out g (annotation_prologue dump as)))
      CompletionDeltaAggregator_new) =
    Inr \<lparr>pk_id = dg_id g,
         pk_choices = [\<lparr>cc_text = stream_text out, cc_index = 0,
            cc_finish_reason = last_reason ''cancelled'' (outputs_of (yielded out)), cc_logprobs = None\<rparr>],
         pk_created = dg_created g, pk_model = dg_model g, pk_object = ''text_completion'',
         pk_usage = usage_with g (\<Sum>b\<leftarrow>outputs_of (yielded out). length (bo_token_ids b)), pk_system_fingerprint = None\<rparr>
    \<and> (enable_usage (dg_options g) \<longrightarrow> 0 \<le> prompt_tokens (dg_usage g) \<longrightarrow> 0 \<le> completion_tokens (dg_usage g)
        \<longrightarrow> prompt_tokens (dg_usage g) + completion_tokens (dg_usage g) + int n < 2 ^ 31
        \<longrightarrow> usage_with g n = Some \<lparr>prompt_tokens = prompt_tokens (dg_usage g),
               completion_tokens = completion_tokens (dg_usage g) + int n,
               total_tokens = prompt_tokens (dg_usage g) + completion_tokens (dg_usage g) + int n\<rparr>)"
  using chat_unary [OF assms(1-4)] completion_unary [OF assms(1-3,5)] usage_with_small [of g n]
  unfolding usage_after_with [OF assms(2)] tokens_of_def by (intro conjI impI)

definition demo_output :: "u32 list \<Rightarrow> string \<Rightarrow> FinishReason option \<Rightarrow> nat BackendOutput" where
  "demo_output ids t fr =
     \<lparr>bo_token_ids = ids, bo_tokens = [], bo_text = Some t, bo_cum_log_probs = None, bo_log_probs = None,
      bo_finish_reason = fr, bo_mdcsum = []\<rparr>"

definition demo_generator :: DeltaGenerator where
  "demo_generator = update_isl 3 (ChatDeltaGenerator_new 1 2 7 ''m'' \<lparr>enable_usage = True, enable_logprobs = False\<rparr>)"

theorem unary_matches_stream_witness:
  "\<exists>r :: nat ChatResponse. chat_finalize rev (fold chat_push
      (ps_items (transform_postprocessor_stream chat_choice_from_postprocessor
        \<lparr>yielded = [an_from_data (demo_output [1, 2] ''ab'' None), an_from_data (demo_output [3] ''c'' (Some FEos))],
         stop_generating = False, thrown = None\<rparr> demo_generator (annotation_prologue id [(''token_ids'', ''[]'')])))
      ChatDeltaAggregator_new) = Inr r
    \<and> map (rm_content \<circ> ch_message) (re_choices r) = [Some ''abc'']
    \<and> re_usage r = Some \<lparr>prompt_tokens = 3, completion_tokens = 3, total_tokens = 6\<rparr>"
proof -
  define out :: "nat StreamOut" where
    "out = \<lparr>yielded = [an_from_data (demo_output [1, 2] ''ab'' None), an_from_data (demo_output [3] ''c'' (Some FEos))],
         stop_generating = False, thrown = None\<rparr>"
  have clean: "\<forall>x\<in>set (yielded out). clean_item x"
    by (simp add: out_def clean_item_def is_error_def an_from_data_def failed_output_def demo_output_def)
  have ne: "outputs_of (yielded out) \<noteq> []" by (simp add: out_def outputs_of_def an_from_data_def)
  have pro: "\<forall>x\<in>set [(''token_ids'', ''[]'')]. fst x \<noteq> ''error''" by simp
  have "stream_text out = ''abc''"
    by (simp add: out_def stream_text_def an_from_data_def demo_output_def txt_of_def)
  moreover have "(\<Sum>b\<leftarrow>outputs_of (yielded out). length (bo_token_ids b)) = 3"
    by (simp add: out_def outputs_of_def an_from_data_def demo_output_def)
  moreover have "usage_with demo_generator 3 = Some \<lparr>prompt_tokens = 3, completion_tokens = 3, total_tokens = 6\<rparr>"
    by (simp add: usage_with_def demo_generator_def update_isl_def ChatDeltaGenerator_new_def as_int32_def wrap32_small)
  ultimately show ?thesis
    using conjunct1 [OF unary_matches_stream [OF clean ne pro, where ?'j = nat and iter = rev and iter' = rev
        and g = demo_generator and dump = id]]
    unfolding out_def [symmetric] by simp
qed

text \<open>C33.  An engine error reaches the client. When the backend reports an error as finish reason,
  after any outputs without errors, the stream of chunks ends there with that error as its last
  item, whatever the backend would send later; the engine is told to stop; and folding the
  stream, for chats and completions, gives that error instead of a partial response.
\<close>

theorem engine_error_reported:
  fixes out :: "'f StreamOut" and iter :: "(u32 \<times> 'j ChatDeltaChoice) list \<Rightarrow> (u32 \<times> 'j ChatDeltaChoice) list"
    and iter' :: "(u64 \<times> 'j CompletionDeltaChoice) list \<Rightarrow> (u64 \<times> 'j CompletionDeltaChoice) list"
    and chats :: "'j ChatChunk PostStream" and completions :: "'j CompletionResponse PostStream"
  assumes "yielded out = pre @ bad # rest" and "\<forall>x\<in>set pre. clean_item x"
    and "an_data bad = Some b" and "bo_finish_reason b = Some (FError msg)"
    and "chats = transform_postprocessor_stream chat_choice_from_postprocessor out g prologue"
    and "completions = transform_postprocessor_stream completion_choice_from_postprocessor out g prologue'"
  shows "last (ps_items chats) = an_from_error msg \<and> ps_stopped chats \<and> ps_thrown chats = None
    \<and> chat_finalize iter (fold chat_push (ps_items chats) ChatDeltaAggregator_new) = Inl (RuntimeError msg)
    \<and> last (ps_items completions) = an_from_error msg \<and> ps_stopped completions \<and> ps_thrown completions = None
    \<and> completion_finalize iter' (fold completion_push (ps_items completions) CompletionDeltaAggregator_new)
        = Inl (RuntimeError msg)"
proof -
  have f: "failed_output b = Some msg" using assms(4) by (simp add: failed_output_def)
  have "last (ps_items chats) = an_from_error msg" "last (ps_items completions) = an_from_error msg"
    by (simp_all add: assms(1,5,6) transform_postprocessor_stream_def Let_def
        chat.post_failed(1) [OF assms(2,3) f] completion.post_failed(1) [OF assms(2,3) f])
  then show ?thesis
    unfolding assms(5,6)
    by (simp add: chat_finalize_def completion_finalize_def chat.stream_failed [OF assms(2,3) f assms(1)]
        completion.stream_failed [OF assms(2,3) f assms(1)])
qed

theorem engine_error_reported_witness:
  "chat_finalize rev (fold chat_push
      (ps_items (transform_postprocessor_stream chat_choice_from_postprocessor
        \<lparr>yielded = [an_from_data (demo_output [1] ''a'' None), an_from_data (demo_output [] [] (Some (FError ''oom'')))],
         stop_generating = False, thrown = None\<rparr> demo_generator []))
      (ChatDeltaAggregator_new :: nat ChatDeltaAggregator)) = Inl (RuntimeError ''oom'')"
proof -
  have clean: "\<forall>x\<in>set [an_from_data (demo_output [1] ''a'' None)]. clean_item x"
    by (simp add: clean_item_def is_error_def an_from_data_def failed_output_def demo_output_def)
  show ?thesis
    using engine_error_reported [where bad = "an_from_data (demo_output [] [] (Some (FError ''oom'')))"
        and b = "demo_output [] [] (Some (FError ''oom''))" and rest = "[]"
        and out = "\<lparr>yielded = [an_from_data (demo_output [1] ''a'' None),
          an_from_data (demo_output [] [] (Some (FError ''oom'')))], stop_generating = False, thrown = None\<rparr>"
        and msg = "''oom''" and g = demo_generator and prologue = "[]" and prologue' = "[]" and iter = rev and iter' = rev
        and ?'j = nat, OF _ clean _ _ refl refl]
    by (simp add: an_from_data_def demo_output_def)
qed

section \<open>The echo pipeline\<close>

text \<open>The last delta of the echo engine has a finish reason and no tokens.\<close>

lemma with_reason_delta: "an_from_data (with_reason r) = token_delta [] (Some r)"
  by (simp add: with_reason_def token_delta_def)

lemma echo_loop_unstopped:
  "unat emitted + length ids \<le> unat max_tok \<Longrightarrow>
    echo_loop (\<lambda>_. False) max_tok ids k emitted =
      map (\<lambda>i. token_delta [i] None) ids @ [token_delta [] (Some FStop)]"
proof (induction ids arbitrary: k emitted)
  case (Cons i ids)
  have lt: "unat emitted < unat max_tok" using Cons.prems by simp
  then have "unat (emitted + 1) = unat emitted + 1"
    using unsigned_less [of max_tok, where ?'a = nat] by (simp add: unat_word_ariths)
  moreover have "\<not> max_tok \<le> emitted" using lt by (simp add: word_le_nat_alt)
  ultimately show ?case using Cons by simp
qed (simp add: with_reason_delta)

text \<open>A decoder without stop sequences, past its minimum length, releases each token as it comes.\<close>

definition plain_decoder :: "Decoder \<Rightarrow> bool" where
  "plain_decoder d \<longleftrightarrow> min_tokens d = 0 \<and> hidden_stop_sequences d = [] \<and> pending d = []"

lemma plain_step:
  assumes "plain_decoder d" "i \<notin> hidden_stop_ids d"
    and "append_token_id tk i (dc_sequence d) = (Inr x, q)"
  shows "process_token_ids tk [i] d =
    (Inr \<lparr>se_tokens = [opt_str x], se_text = opt_str x, se_stop_trigger = None\<rparr>,
     d\<lparr>generated_tokens := generated_tokens d + 1, dc_sequence := q\<rparr>)"
  using assms by (simp add: process_token_ids_def dc_step_def plain_decoder_def empty_result_def Let_def
      add_text_def opt_str_def)

text \<open>What the backend yields for tokens that come one by one.\<close>

definition echo_output :: "string \<Rightarrow> u32 list \<Rightarrow> string option \<Rightarrow> TokenType list \<Rightarrow> FinishReason option \<Rightarrow> 'f BackendOutput" where
  "echo_output mdcsum ids t ts fr =
     \<lparr>bo_token_ids = ids, bo_tokens = ts, bo_text = t, bo_cum_log_probs = None, bo_log_probs = None,
      bo_finish_reason = fr, bo_mdcsum = mdcsum\<rparr>"

lemma echo_stream:
  fixes d :: Decoder
  assumes "plain_decoder d" "\<forall>i\<in>set ids. i \<notin> hidden_stop_ids d"
    and "fst (append_all tk ids (dc_sequence d)) = Inr X"
  shows "\<exists>bs :: 'f BackendOutput list.
    decode_stream tk mdcsum validate (map (\<lambda>i. token_delta [i] None) ids @ [token_delta [] (Some FStop)]) False d =
      \<lparr>yielded = map an_from_data (bs @ [echo_output mdcsum [] None [] (Some FStop)]),
       stop_generating = False, thrown = None\<rparr>
    \<and> map bo_token_ids bs = map (\<lambda>i. [i]) ids \<and> (\<forall>b\<in>set bs. bo_finish_reason b = None)
    \<and> concat (map (\<lambda>b. txt_of (bo_text b)) bs) = X"
  using assms
proof (induction ids arbitrary: d X)
  case Nil
  then have "process_token_ids tk [] d = (Inr empty_result, d)" "pending d = []"
    by (simp_all add: process_token_ids_def plain_decoder_def)
  with Nil show ?case
    by (intro exI [of _ "[]"])
      (simp add: decode_stream.simps(2) token_delta_def an_from_data_def finish_delta_def empty_result_def
        to_backend_output_def dc_flush_def stream_end_def mark_stop_def yield_then_def echo_output_def)
next
  case (Cons i ids)
  from Cons.prems(3) obtain x q Y where x: "append_token_id tk i (dc_sequence d) = (Inr x, q)"
    and Y: "fst (append_all tk ids q) = Inr Y" "X = x @ Y"
    by (auto split: prod.splits sum.splits)
  let ?d = "d\<lparr>generated_tokens := generated_tokens d + 1, dc_sequence := q\<rparr>"
  have p: "process_token_ids tk [i] d =
      (Inr \<lparr>se_tokens = [opt_str x], se_text = opt_str x, se_stop_trigger = None\<rparr>, ?d)"
    by (rule plain_step [OF Cons.prems(1) _ x]) (use Cons.prems(2) in simp)
  obtain bs :: "'f BackendOutput list" where bs:
    "decode_stream tk mdcsum validate (map (\<lambda>i. token_delta [i] None) ids @ [token_delta [] (Some FStop)]) False ?d =
      \<lparr>yielded = map an_from_data (bs @ [echo_output mdcsum [] None [] (Some FStop)]),
       stop_generating = False, thrown = None\<rparr>"
    "map bo_token_ids bs = map (\<lambda>i. [i]) ids" "\<forall>b\<in>set bs. bo_finish_reason b = None"
    "concat (map (\<lambda>b. txt_of (bo_text b)) bs) = Y"
    using Cons.IH [of ?d Y] Cons.prems Y by (auto simp: plain_decoder_def)
  show ?case
    by (rule exI [of _ "echo_output mdcsum [i] (opt_str x) [opt_str x] None # bs"])
      (use bs Y(2) in \<open>simp add: decode_stream_delta_more [OF p] finish_delta_def to_backend_output_def
        mark_stop_def yield_then_def echo_output_def\<close>)
qed

lemma echo_usage:
  assumes "map bo_token_ids bs = map (\<lambda>i. [i]) ids" "bo_token_ids b = []" "length ids < 2 ^ 30"
    and "g = update_isl (length ids) (chat_response_generator r1 r2 now r)"
  shows "usage_after (bs @ [b]) g =
    Some \<lparr>prompt_tokens = int (length ids), completion_tokens = int (length ids),
          total_tokens = 2 * int (length ids)\<rparr>"
proof -
  have "tokens_of bs = (\<Sum>i\<leftarrow>map bo_token_ids bs. length i)" by (simp add: tokens_of_def o_def)
  also have "\<dots> = length ids" unfolding assms(1) by (induction ids) simp_all
  finally have n: "tokens_of (bs @ [b]) = length ids" by (simp add: tokens_of_def assms(2))
  have g: "enable_usage (dg_options g)"
    "dg_usage g = \<lparr>prompt_tokens = int (length ids), completion_tokens = 0, total_tokens = 0\<rparr>"
    using assms(3)
    by (simp_all add: assms(4) update_isl_def chat_response_generator_def ChatDeltaGenerator_new_def
        as_int32_def wrap32_small)
  have "usage_after (bs @ [b]) g = usage_with g (length ids)" by (simp add: usage_after_with n)
  with usage_with_small [of g "length ids"] g assms(3) show ?thesis by simp
qed

text \<open>The request an echo pipeline sees, when nothing in it stops the generation early.\<close>

definition echoable :: "'j ChatRequest \<Rightarrow> nat \<Rightarrow> bool" where
  "echoable r n \<longleftrightarrow> cr_stop r = None \<and> (\<forall>e. cr_nvext r = Some e \<longrightarrow> nv_ignore_eos e \<noteq> Some True)
     \<and> (\<forall>m. (if cr_max_completion_tokens r \<noteq> None then cr_max_completion_tokens r else cr_max_tokens r) = Some m
          \<longrightarrow> n \<le> unat m)"

lemma echoable_stop_conditions:
  assumes "echoable r n"
  shows "\<exists>c. chat_stop_conditions r = Inr c \<and> sc_stop c = None \<and> ignore_eos c \<noteq> Some True
    \<and> sc_stop_token_ids_hidden c = None \<and> sc_min_tokens c = None
    \<and> (\<forall>m. max_tokens c = Some m \<longrightarrow> n \<le> unat m)"
  using assms by (cases "cr_nvext r") (auto simp: echoable_def chat_stop_conditions_def extract_stop_impl_def)

lemma echo_preprocess:
  assumes "echoable r n" "pp_render pp (chat_template_input r) = Inr text"
    and "tk_encode (pp_tokenizer pp) text = Inr enc" "chat_sampling_options show r = Inr opts"
  shows "\<exists>input as. preprocess_chat show dump_ids pp r = Inr (input, as) \<and> (\<forall>x\<in>set as. fst x \<noteq> ''error'')
    \<and> bi_token_ids input = en_token_ids enc
    \<and> sc_stop (bi_stop_conditions input) = None \<and> sc_min_tokens (bi_stop_conditions input) = None
    \<and> sc_stop_token_ids_hidden (bi_stop_conditions input) = Some (pp_eos_token_ids pp)
    \<and> (\<forall>m. max_tokens (bi_stop_conditions input) = Some m \<longrightarrow> n \<le> unat m)"
proof -
  from echoable_stop_conditions [OF assms(1)] obtain c where c: "chat_stop_conditions r = Inr c"
    "sc_stop c = None" "ignore_eos c \<noteq> Some True" "sc_stop_token_ids_hidden c = None"
    "sc_min_tokens c = None" "\<forall>m. max_tokens c = Some m \<longrightarrow> n \<le> unat m" by blast
  have "(if use then case None of Some p \<Rightarrow> Inr p | None \<Rightarrow> pp_render pp (chat_template_input r)
     else pp_render pp (chat_template_input r)) = Inr text" for use :: bool
    using assms(2) by simp
  with assms(3,4) c show ?thesis
    by (auto simp: preprocess_chat_def preprocess_impl_def with_eos_def apply_ignore_eos_def
        kAnnotationFormattedPrompt_def kAnnotationTokenIds_def)
qed

lemma outputs_of_data: "outputs_of (map an_from_data bs) = bs"
  by (induction bs) (simp_all add: outputs_of_def an_from_data_def)

lemma echo_backend:
  assumes ws: "list_all (\<lambda>w. utf8_char w \<and> w \<noteq> kReplacementChar) ws"
    and ids: "bi_token_ids input = map of_char (concat ws)" and short: "length (concat ws) < 2 ^ 31"
    and c: "sc_stop (bi_stop_conditions input) = None" "sc_min_tokens (bi_stop_conditions input) = None"
      "sc_stop_token_ids_hidden (bi_stop_conditions input) = Some eos" "\<forall>i\<in>set eos. 256 \<le> i"
      "\<forall>m. max_tokens (bi_stop_conditions input) = Some m \<longrightarrow> length (concat ws) \<le> unat m"
  shows "\<exists>bs :: 'f BackendOutput list.
    backend_engine (ByteLevelTokenizer ts) mdcsum validate (echo_generate (\<lambda>_. False)) input =
      Inr \<lparr>yielded = map an_from_data (bs @ [echo_output mdcsum [] None [] (Some FStop)]),
           stop_generating = False, thrown = None\<rparr>
    \<and> map bo_token_ids bs = map (\<lambda>i. [i]) (bi_token_ids input) \<and> (\<forall>b\<in>set bs. bo_finish_reason b = None)
    \<and> concat (map (\<lambda>b. txt_of (bo_text b)) bs) = concat ws"
proof -
  let ?c = "bi_stop_conditions input"
  let ?max = "case max_tokens ?c of Some n \<Rightarrow> n | None \<Rightarrow> - 1"
  have "length (concat ws) \<le> unat ?max"
  proof (cases "max_tokens ?c")
    case None
    then show ?thesis using short by (simp add: unsigned_minus_1_eq_mask mask_eq_exp_minus_1)
  qed (use c(5) in simp)
  then have echo: "(echo_generate (\<lambda>_. False) input :: 'f LLMEngineOutput Annotated list res) =
      Inr (map (\<lambda>i. token_delta [i] None) (bi_token_ids input) @ [token_delta [] (Some FStop)])"
    unfolding echo_generate_def using echo_loop_unstopped [of 0 "bi_token_ids input" ?max 0] ids by simp
  have plain: "plain_decoder (Decoder_new ?c)"
    using c(1,2) by (simp add: plain_decoder_def Decoder_new_def)
  have "(of_char b :: u32) \<notin> set eos" for b
  proof
    assume "(of_char b :: u32) \<in> set eos"
    then have "256 \<le> (of_char b :: u32)" using c(4) by blast
    then show False using nat_of_char_less_256 [of b] by (simp add: word_le_nat_alt unat_of_char32)
  qed
  then have hidden: "\<forall>i\<in>set (bi_token_ids input). i \<notin> hidden_stop_ids (Decoder_new ?c)"
    using c(3) ids by (auto simp: Decoder_new_def)
  have released: "fst (append_all (ByteLevelTokenizer ts) (bi_token_ids input) (dc_sequence (Decoder_new ?c))) = Inr (concat ws)"
    using append_chars [of "[]" ws ts "[]"] ws ids by (simp add: Decoder_new_def seq_at_def new_sequence_def)
  from echo_stream [OF plain hidden released, where mdcsum = mdcsum and validate = validate and ?'f = 'f] echo
  show ?thesis by (simp add: backend_engine_def backend_generate_def)
qed

text \<open>The echo pipeline answers with the prompt. Take a chat request whose prompt renders to
  complete UTF-8 characters other than U+FFFD, with valid sampling options and no early stop, and
  the echo engine behind the backend and the preprocessor, all with the byte-level tokenizer.
  The request is served, no exception ends the stream, and the unary response has one choice of
  the assistant whose content is the rendered prompt, finished by \<open>stop\<close>; the usage counts
  each byte of the prompt once as prompt and once as completion.
\<close>

lemma echo_chat_response:
  fixes iter :: "(u32 \<times> 'j ChatDeltaChoice) list \<Rightarrow> (u32 \<times> 'j ChatDeltaChoice) list"
    and engine :: "BackendInput \<Rightarrow> 'f StreamOut res"
  assumes "list_all (\<lambda>w. utf8_char w \<and> w \<noteq> kReplacementChar) ws" "length (concat ws) < 2 ^ 30"
    and "pp_render pp (chat_template_input r) = Inr (concat ws)" "pp_tokenizer pp = ByteLevelTokenizer ts"
    and "\<forall>i\<in>set (pp_eos_token_ids pp). 256 \<le> i" "chat_sampling_options show r = Inr opts"
    and "echoable r (length (concat ws))" "\<And>l. mset (iter l) = mset l"
    and "engine = backend_engine (ByteLevelTokenizer ts) (pp_mdcsum pp) validate (echo_generate (\<lambda>_. False))"
  shows "\<exists>ps resp. chat_generate show dump_ids dump_str pp r1 r2 now r engine = Inr ps \<and> ps_thrown ps = None
    \<and> chat_finalize iter (fold chat_push (ps_items ps) ChatDeltaAggregator_new) = Inr resp
    \<and> re_model resp = cr_model r
    \<and> re_choices resp = [\<lparr>ch_index = 0,
        ch_message = \<lparr>rm_role = ''assistant'', rm_content = Some (concat ws)\<rparr>,
        ch_finish_reason = Some ''stop'', ch_logprobs = None\<rparr>]
    \<and> re_usage resp = Some \<lparr>prompt_tokens = int (length (concat ws)),
        completion_tokens = int (length (concat ws)), total_tokens = 2 * int (length (concat ws))\<rparr>"
proof -
  have enc: "tk_encode (pp_tokenizer pp) (concat ws) = Inr (byte_encode (concat ws))"
    using assms(4) by (simp add: ByteLevelTokenizer_def)
  from echo_preprocess [OF assms(7,3) enc assms(6), of dump_ids] obtain input as where
    pre: "preprocess_chat show dump_ids pp r = Inr (input, as)" "\<forall>x\<in>set as. fst x \<noteq> ''error''"
    and ids: "bi_token_ids input = map of_char (concat ws)"
    and c: "sc_stop (bi_stop_conditions input) = None" "sc_min_tokens (bi_stop_conditions input) = None"
      "sc_stop_token_ids_hidden (bi_stop_conditions input) = Some (pp_eos_token_ids pp)"
      "\<forall>m. max_tokens (bi_stop_conditions input) = Some m \<longrightarrow> length (concat ws) \<le> unat m"
    by (auto simp: byte_encode_def)
  from echo_backend [OF assms(1) ids _ c(1,2,3) assms(5) c(4), where mdcsum = "pp_mdcsum pp"
      and validate = validate and ts = ts and ?'f = 'f] assms(2)
  obtain bs :: "'f BackendOutput list" where bs: "engine input =
      Inr \<lparr>yielded = map an_from_data (bs @ [echo_output (pp_mdcsum pp) [] None [] (Some FStop)]),
           stop_generating = False, thrown = None\<rparr>"
    "map bo_token_ids bs = map (\<lambda>i. [i]) (bi_token_ids input)" "\<forall>b\<in>set bs. bo_finish_reason b = None"
    "concat (map (\<lambda>b. txt_of (bo_text b)) bs) = concat ws" unfolding assms(9) by auto
  define last_b where "last_b = (echo_output (pp_mdcsum pp) [] None [] (Some FStop) :: 'f BackendOutput)"
  define out where "out = \<lparr>yielded = map an_from_data (bs @ [last_b]), stop_generating = False, thrown = None\<rparr>"
  define g where "g = update_isl (length (bi_token_ids input)) (chat_response_generator r1 r2 now r)"
  have outs: "outputs_of (yielded out) = bs @ [last_b]"
    unfolding out_def by (simp only: StreamOut.select_convs outputs_of_data)
  have clean: "\<forall>x\<in>set (yielded out). clean_item x"
    using bs(3) by (auto simp: out_def clean_item_def is_error_def an_from_data_def failed_output_def last_b_def echo_output_def)
  have released: "stream_text out = concat ws"
    unfolding stream_text_outputs outs using bs(4) by (simp add: last_b_def echo_output_def txt_of_def)
  have reason: "last_reason ''stop'' (bs @ [last_b]) = Some ''stop''"
    by (simp add: last_reason_def last_b_def echo_output_def output_reason_def map_finish_reason_def opt_or_def)
  have usage: "usage_after (bs @ [last_b]) g = Some \<lparr>prompt_tokens = int (length (concat ws)),
        completion_tokens = int (length (concat ws)), total_tokens = 2 * int (length (concat ws))\<rparr>"
    using echo_usage [OF bs(2), of last_b g r1 r2 now r] ids assms(2) by (simp add: g_def last_b_def echo_output_def)
  define ps :: "'j ChatChunk PostStream" where
    "ps = transform_postprocessor_stream chat_choice_from_postprocessor out g (annotation_prologue dump_str as)"
  have "chat_generate show dump_ids dump_str pp r1 r2 now r engine = Inr ps"
    using pre(1) bs(1) by (simp add: chat_generate_def ps_def g_def out_def last_b_def)
  moreover have "ps_thrown ps = None"
    by (simp add: ps_def transform_postprocessor_stream_def Let_def chat.post_clean(3) [OF clean]) (simp add: out_def)
  moreover have "dg_model g = cr_model r"
    by (simp add: g_def update_isl_def chat_response_generator_def ChatDeltaGenerator_new_def)
  moreover note chat_unary [OF clean _ pre(2) assms(8), of g dump_str]
  ultimately show ?thesis
    by (intro exI [of _ ps]) (auto simp: ps_def [symmetric] outs released reason usage)
qed

definition demo_chat :: "string \<Rightarrow> nat ChatRequest" where
  "demo_chat content =
     \<lparr>cr_model = ''m'', cr_messages = [\<lparr>cm_role = ''user'', cm_content = Some content, cm_name = None,
        cm_tool_calls = None, cm_tool_call_id = None\<rparr>],
      cr_stream = None, cr_temperature = Some 1, cr_top_p = None, cr_frequency_penalty = None,
      cr_presence_penalty = None, cr_max_tokens = None, cr_max_completion_tokens = None, cr_stop = None,
      cr_n = None, cr_logprobs = None, cr_top_logprobs = None, cr_seed = None, cr_user = None,
      cr_tools = None, cr_tool_choice = None, cr_nvext = None\<rparr>"

text \<open>A template that prints the content of every message.\<close>

definition demo_preprocessor :: "nat OpenAIPreprocessor" where
  "demo_preprocessor =
     \<lparr>pp_render = \<lambda>ti. Inr (concat (map (\<lambda>m. case map_of m ''content'' of Some (TString c) \<Rightarrow> c | _ \<Rightarrow> []) (ti_messages ti))),
      pp_tokenizer = ByteLevelTokenizer (\<lambda>_. []), pp_eos_token_ids = [kEosId], pp_mdcsum = ''sum''\<rparr>"

end
