(* ===== verification/Http.thy ===== *)
theory Http
  imports "HOL-Library.Char_ord" Sse
begin

text \<open>
  The HTTP server (\<^verbatim>\<open>llm/http/http_server.h\<close>, \<^verbatim>\<open>llm/http/http_server.cpp\<close>): the buffered line reader,
  the parsing of a request, the routes, and the writing of plain and chunked responses.  What the
  socket gives is the list of the byte strings that the calls of \<open>recv\<close> return; what it takes is
  the bytes sent until a call of \<open>send\<close> fails.  Handlers work on a state of type \<open>'s\<close>.  The lemmas
  show that the segmentation of the input is invisible, that a printed request is parsed back
  and leaves the next one in place, that serving a connection ends, and that a chunked body
  decodes to what was written.
\<close>

section \<open>Text\<close>

definition kMaxHeaderBytes :: nat where "kMaxHeaderBytes = 64 * 1024"
definition kMaxBodyBytes :: nat where "kMaxBodyBytes = 32 * 1024 * 1024"

definition tolower :: "char \<Rightarrow> char" where
  "tolower c = (if CHR ''A'' \<le> c \<and> c \<le> CHR ''Z'' then char_of (of_char c + 32 :: nat) else c)"

definition lowercase :: "string \<Rightarrow> string" where
  "lowercase s = map tolower s"

definition trim_sv :: "string \<Rightarrow> string" where
  "trim_sv s = strip_back (\<lambda>c. c = CHR '' '' \<or> c = tab \<or> c = cr) (dropWhile (\<lambda>c. c = CHR '' '' \<or> c = tab) s)"

definition status_text :: "nat \<Rightarrow> string" where
  "status_text status =
     (if status = 200 then ''OK''
      else if status = 400 then ''Bad Request''
      else if status = 404 then ''Not Found''
      else if status = 405 then ''Method Not Allowed''
      else if status = 500 then ''Internal Server Error''
      else if status = 503 then ''Service Unavailable''
      else ''Unknown'')"

text \<open>
  \<open>std::stoull\<close>: white space, a sign and the digits that follow; the rest of the text is ignored
  and a minus sign negates modulo the word size.
\<close>

definition is_space :: "char \<Rightarrow> bool" where
  "is_space c \<longleftrightarrow> c = CHR '' '' \<or> (CHR 0x09 \<le> c \<and> c \<le> CHR 0x0D)"

definition is_digit :: "char \<Rightarrow> bool" where
  "is_digit c \<longleftrightarrow> CHR ''0'' \<le> c \<and> c \<le> CHR ''9''"

definition dec_value :: "string \<Rightarrow> nat" where
  "dec_value ds = foldl (\<lambda>n c. 10 * n + (of_char c - 48)) 0 ds"

definition stoull :: "string \<Rightarrow> nat res" where
  "stoull s =
     (let s1 = dropWhile is_space s;
          neg = (case s1 of c # _ \<Rightarrow> c = CHR ''-'' | [] \<Rightarrow> False);
          s2 = (case s1 of c # cs \<Rightarrow> if c = CHR ''-'' \<or> c = CHR ''+'' then cs else s1 | [] \<Rightarrow> []);
          ds = takeWhile is_digit s2
      in if ds = [] then Inl (InvalidArgument ''stoull'')
         else if 2 ^ 64 \<le> dec_value ds then Inl (OutOfRange ''stoull'')
         else Inr (if neg then (2 ^ 64 - dec_value ds) mod 2 ^ 64 else dec_value ds))"

text \<open>The position of the last occurrence of a character.\<close>

definition rfind_char :: "char \<Rightarrow> string \<Rightarrow> nat option" where
  "rfind_char c s =
     (case find_char c (rev s) of None \<Rightarrow> None | Some n \<Rightarrow> Some (length s - 1 - n))"

section \<open>The line reader\<close>

text \<open>
  \<open>lr_buf\<close> is the unread part of the buffer, \<open>lr_recv\<close> what the next calls of \<open>recv\<close> return; the end
  of the list and an empty string are the end of the stream.
\<close>

record LineReader =
  lr_buf :: string
  lr_recv :: "string list"

definition lr_fill :: "LineReader \<Rightarrow> LineReader option" where
  "lr_fill r =
     (case lr_recv r of
        [] \<Rightarrow> None
      | c # cs \<Rightarrow> if c = [] then None else Some \<lparr>lr_buf = c, lr_recv = cs\<rparr>)"

function read_line_loop :: "nat \<Rightarrow> string \<Rightarrow> LineReader \<Rightarrow> string option \<times> LineReader" where
  "read_line_loop max_bytes line r =
     (if length line < max_bytes then
        case lr_buf r of
          [] \<Rightarrow> (case lr_fill r of None \<Rightarrow> (None, r) | Some r' \<Rightarrow> read_line_loop max_bytes line r')
        | c # cs \<Rightarrow>
            if c = nl
            then (Some (if line \<noteq> [] \<and> last line = cr then butlast line else line), r\<lparr>lr_buf := cs\<rparr>)
            else read_line_loop max_bytes (line @ [c]) (r\<lparr>lr_buf := cs\<rparr>)
      else (None, r))"
  by pat_completeness auto

termination
  by (relation "measures [\<lambda>(m, line, r). length (lr_recv r), \<lambda>(m, line, r). length (lr_buf r)]")
    (auto simp: lr_fill_def split: list.splits if_splits)

declare read_line_loop.simps [simp del]

definition read_line :: "nat \<Rightarrow> LineReader \<Rightarrow> string option \<times> LineReader" where
  "read_line max_bytes r = read_line_loop max_bytes [] r"

function read_exact_loop :: "nat \<Rightarrow> string \<Rightarrow> LineReader \<Rightarrow> string option \<times> LineReader" where
  "read_exact_loop n out r =
     (if length out < n then
        case lr_buf r of
          [] \<Rightarrow> (case lr_fill r of None \<Rightarrow> (None, r) | Some r' \<Rightarrow> read_exact_loop n out r')
        | c # cs \<Rightarrow>
            let k = min (n - length out) (length (lr_buf r))
            in read_exact_loop n (out @ take k (lr_buf r)) (r\<lparr>lr_buf := drop k (lr_buf r)\<rparr>)
      else (Some out, r))"
  by pat_completeness auto

termination
  by (relation "measures [\<lambda>(n, out, r). length (lr_recv r), \<lambda>(n, out, r). length (lr_buf r)]")
    (auto simp: lr_fill_def split: list.splits if_splits)

declare read_exact_loop.simps [simp del]

definition lr_read_exact :: "nat \<Rightarrow> LineReader \<Rightarrow> string option \<times> LineReader" where
  "lr_read_exact n r = read_exact_loop n [] r"

section \<open>The sending side\<close>

text \<open>\<open>pe_limit\<close>: the number of bytes the peer takes before \<open>send\<close> fails.\<close>

record Peer =
  pe_sent :: string
  pe_limit :: "nat option"

definition write_all_fd :: "string \<Rightarrow> Peer \<Rightarrow> bool \<times> Peer" where
  "write_all_fd data p =
     (case pe_limit p of
        None \<Rightarrow> (True, p\<lparr>pe_sent := pe_sent p @ data\<rparr>)
      | Some n \<Rightarrow>
          if data = [] \<or> length (pe_sent p) + length data \<le> n
          then (True, p\<lparr>pe_sent := pe_sent p @ data\<rparr>)
          else (False, p\<lparr>pe_sent := pe_sent p @ take (n - length (pe_sent p)) data\<rparr>))"

section \<open>Requests and responses\<close>

record HttpRequest =
  rq_method :: string
  rq_target :: string
  rq_path :: string
  rq_headers :: "string \<Rightarrow> string option"
  rq_body :: string

type_synonym StreamSink = "string \<Rightarrow> Peer \<Rightarrow> bool \<times> Peer"

text \<open>
  \<open>rs_stream\<close> is the streaming callback, which may throw, and \<open>rs_drop\<close> the effect of destroying a
  callback that was not called.
\<close>

record 's HttpResponse =
  rs_status :: nat
  rs_content_type :: string
  rs_headers :: "(string \<times> string) list"
  rs_body :: string
  rs_stream :: "(StreamSink \<Rightarrow> Peer \<times> 's \<Rightarrow> unit res \<times> Peer \<times> 's) option"
  rs_drop :: "'s \<Rightarrow> 's"

type_synonym 's HttpHandler = "HttpRequest \<Rightarrow> 's \<Rightarrow> 's HttpResponse res \<times> 's"
type_synonym 's Routes = "(string \<times> 's HttpHandler) list"

definition plain_response :: "nat \<Rightarrow> string \<Rightarrow> string \<Rightarrow> 's HttpResponse" where
  "plain_response status content_type body =
     \<lparr>rs_status = status, rs_content_type = content_type, rs_headers = [], rs_body = body,
      rs_stream = None, rs_drop = id\<rparr>"

definition dq :: char where "dq = CHR 0x22"
definition crlf :: string where "crlf = [cr, nl]"

definition error_body :: "string \<Rightarrow> string" where
  "error_body msg = ''{'' @ [dq] @ ''error'' @ [dq] @ '':'' @ [dq] @ msg @ [dq] @ ''}''"

definition handle_route :: "string \<Rightarrow> string \<Rightarrow> 's HttpHandler \<Rightarrow> 's Routes \<Rightarrow> 's Routes" where
  "handle_route method path h routes =
     (let key = method @ '' '' @ path in (key, h) # filter (\<lambda>(k, _). k \<noteq> key) routes)"

definition chunk_frame :: "string \<Rightarrow> string" where
  "chunk_frame chunk = hex_nat (length chunk) @ crlf @ chunk @ crlf"

definition chunk_sink :: StreamSink where
  "chunk_sink chunk p = (if chunk = [] then (True, p) else write_all_fd (chunk_frame chunk) p)"

definition last_chunk :: string where "last_chunk = ''0'' @ crlf @ crlf"

definition response_head :: "'s HttpResponse \<Rightarrow> bool \<Rightarrow> string" where
  "response_head response keep_alive =
     ''HTTP/1.1 '' @ dec_nat (rs_status response) @ '' '' @ status_text (rs_status response) @ crlf
     @ ''Content-Type: '' @ rs_content_type response @ crlf
     @ concat (map (\<lambda>(name, v). name @ '': '' @ v @ crlf) (rs_headers response))
     @ (if keep_alive then ''Connection: keep-alive'' else ''Connection: close'') @ crlf"

definition write_response ::
  "'s HttpResponse \<Rightarrow> bool \<Rightarrow> Peer \<Rightarrow> 's \<Rightarrow> unit res \<times> Peer \<times> 's" where
  "write_response response keep_alive p s =
     (case rs_stream response of
        Some stream \<Rightarrow>
          (case write_all_fd (response_head response keep_alive @ ''Transfer-Encoding: chunked'' @ crlf @ crlf) p of
             (False, p') \<Rightarrow> (Inr (), p', rs_drop response s)
           | (True, p') \<Rightarrow>
               (case stream chunk_sink (p', s) of
                  (Inl e, p'', s') \<Rightarrow> (Inl e, p'', s')
                | (Inr _, p'', s') \<Rightarrow> (Inr (), snd (write_all_fd last_chunk p''), s')))
      | None \<Rightarrow>
          (Inr (),
           snd (write_all_fd (response_head response keep_alive @ ''Content-Length: ''
                  @ dec_nat (length (rs_body response)) @ crlf @ crlf @ rs_body response) p), s))"

section \<open>Serving\<close>

function header_loop ::
  "nat \<Rightarrow> (string \<Rightarrow> string option) \<Rightarrow> LineReader \<Rightarrow> (string \<Rightarrow> string option) option \<times> LineReader" where
  "header_loop header_bytes headers r =
     (case read_line kMaxHeaderBytes r of
        (None, r') \<Rightarrow> (None, r')
      | (Some line, r') \<Rightarrow>
          if line = [] then (Some headers, r')
          else if kMaxHeaderBytes < header_bytes + length line then (None, r')
          else case find_char (CHR '':'') line of
            None \<Rightarrow> header_loop (header_bytes + length line) headers r'
          | Some colon \<Rightarrow>
              header_loop (header_bytes + length line)
                (headers(lowercase (take colon line) \<mapsto> trim_sv (drop (colon + 1) line))) r')"
  by pat_completeness auto

termination
  by (relation "measure (\<lambda>(n, h, r). Suc kMaxHeaderBytes - n)") (auto simp: kMaxHeaderBytes_def simp flip: length_greater_0_conv intro: diff_less_mono2)

declare header_loop.simps [simp del]

definition keep_alive_of :: "(string \<Rightarrow> string option) \<Rightarrow> bool" where
  "keep_alive_of headers =
     (case headers ''connection'' of Some v \<Rightarrow> lowercase v \<noteq> ''close'' | None \<Rightarrow> True)"

text \<open>The outcome of reading the body: give up, refuse, or the body.\<close>

datatype BodyRead = BodyClosed | BodyTooLarge | BodyIs string

definition read_body :: "(string \<Rightarrow> string option) \<Rightarrow> LineReader \<Rightarrow> BodyRead \<times> LineReader" where
  "read_body headers r =
     (case headers ''content-length'' of
        None \<Rightarrow> (BodyIs [], r)
      | Some v \<Rightarrow>
          (case stoull v of
             Inl _ \<Rightarrow> (BodyClosed, r)
           | Inr n \<Rightarrow>
               if kMaxBodyBytes < n then (BodyTooLarge, r)
               else (case lr_read_exact n r of
                       (None, r') \<Rightarrow> (BodyClosed, r')
                     | (Some body, r') \<Rightarrow> (BodyIs body, r'))))"

definition refuse :: "nat \<Rightarrow> string \<Rightarrow> bool \<Rightarrow> Peer \<Rightarrow> 's \<Rightarrow> bool res \<times> Peer \<times> 's" where
  "refuse status msg keep_alive p s =
     (case write_response (plain_response status ''application/json'' (error_body msg)) keep_alive p s of
        (_, p', s') \<Rightarrow> (Inr keep_alive, p', s'))"

definition route_path :: "string \<Rightarrow> string" where
  "route_path key = drop (case find_char (CHR '' '') key of Some n \<Rightarrow> n + 1 | None \<Rightarrow> 0) key"

definition route_request ::
  "'s Routes \<Rightarrow> HttpRequest \<Rightarrow> bool \<Rightarrow> Peer \<Rightarrow> 's \<Rightarrow> bool res \<times> Peer \<times> 's" where
  "route_request routes request keep_alive p s =
     (case map_of routes (rq_method request @ '' '' @ rq_path request) of
        None \<Rightarrow>
          let status = (if list_ex (\<lambda>(k, _). route_path k = rq_path request) routes then 405 else 404)
          in refuse status (status_text status) keep_alive p s
      | Some handler \<Rightarrow>
          let (result, s1) = handler request s;
              response = (case result of
                  Inr response \<Rightarrow> response
                | Inl _ \<Rightarrow> plain_response 500 ''application/json'' (error_body ''internal server error''))
          in case write_response response keep_alive p s1 of
               (Inl e, p', s') \<Rightarrow> (Inl e, p', s')
             | (Inr _, p', s') \<Rightarrow> (Inr keep_alive, p', s'))"

definition handle_one ::
  "'s Routes \<Rightarrow> LineReader \<Rightarrow> Peer \<Rightarrow> 's \<Rightarrow> (bool res \<times> Peer \<times> 's) \<times> LineReader" where
  "handle_one routes r p s =
     (case read_line kMaxHeaderBytes r of
        (None, r1) \<Rightarrow> ((Inr False, p, s), r1)
      | (Some request_line, r1) \<Rightarrow>
          if request_line = [] then ((Inr False, p, s), r1)
          else case (find_char (CHR '' '') request_line, rfind_char (CHR '' '') request_line) of
            (Some sp1, Some sp2) \<Rightarrow>
              if sp2 = sp1 then (refuse 400 ''bad request'' False p s, r1)
              else
                let target = take (sp2 - sp1 - 1) (drop (sp1 + 1) request_line);
                    path = (case find_char (CHR ''?'') target of Some q \<Rightarrow> take q target | None \<Rightarrow> target)
                in (case header_loop 0 Map.empty r1 of
                      (None, r2) \<Rightarrow> ((Inr False, p, s), r2)
                    | (Some headers, r2) \<Rightarrow>
                        let keep_alive = keep_alive_of headers
                        in (case read_body headers r2 of
                              (BodyClosed, r3) \<Rightarrow> ((Inr False, p, s), r3)
                            | (BodyTooLarge, r3) \<Rightarrow> (refuse 400 ''body too large'' False p s, r3)
                            | (BodyIs body, r3) \<Rightarrow>
                                (route_request routes
                                   \<lparr>rq_method = take sp1 request_line, rq_target = target, rq_path = path,
                                    rq_headers = headers, rq_body = body\<rparr> keep_alive p s, r3)))
          | _ \<Rightarrow> (refuse 400 ''bad request'' False p s, r1))"

text \<open>
  The loop of a connection thread. \<open>stopping k\<close> is the flag as read before the \<open>k\<close>-th request. An
  exception leaves the thread function. The fuel bounds the number of requests.
\<close>

primrec serve_connection ::
  "nat \<Rightarrow> (nat \<Rightarrow> bool) \<Rightarrow> nat \<Rightarrow> 's Routes \<Rightarrow> LineReader \<Rightarrow> Peer \<Rightarrow> 's \<Rightarrow> (unit res \<times> Peer \<times> 's) option" where
  "serve_connection 0 stopping k routes r p s = None"
| "serve_connection (Suc fuel) stopping k routes r p s =
     (if stopping k then Some (Inr (), p, s)
      else case handle_one routes r p s of
        ((Inl e, p', s'), r') \<Rightarrow> Some (Inl e, p', s')
      | ((Inr False, p', s'), r') \<Rightarrow> Some (Inr (), p', s')
      | ((Inr True, p', s'), r') \<Rightarrow> serve_connection fuel stopping (Suc k) routes r' p' s')"

section \<open>The reader on the byte stream\<close>

text \<open>The bytes a reader will deliver, and reading on them.\<close>

definition lr_bytes :: "LineReader \<Rightarrow> string" where
  "lr_bytes r = lr_buf r @ concat (takeWhile (\<lambda>c. c \<noteq> []) (lr_recv r))"

primrec line_bytes :: "nat \<Rightarrow> string \<Rightarrow> string \<Rightarrow> string option \<times> string" where
  "line_bytes max_bytes line [] = (None, [])"
| "line_bytes max_bytes line (c # cs) =
     (if length line < max_bytes
      then if c = nl then (Some (if line \<noteq> [] \<and> last line = cr then butlast line else line), cs)
           else line_bytes max_bytes (line @ [c]) cs
      else (None, c # cs))"

definition exact_bytes :: "nat \<Rightarrow> string \<Rightarrow> string option \<times> string" where
  "exact_bytes n bs = (if n \<le> length bs then (Some (take n bs), drop n bs) else (None, []))"

lemma lr_fill_bytes:
  "lr_fill r = Some r' \<Longrightarrow> lr_buf r = [] \<Longrightarrow> lr_bytes r' = lr_bytes r \<and> lr_buf r' \<noteq> []"
  "lr_fill r = None \<Longrightarrow> lr_buf r = [] \<Longrightarrow> lr_bytes r = []"
  by (auto simp: lr_fill_def lr_bytes_def split: list.splits if_splits)

lemma lr_bytes_buf: "lr_buf r = c # cs \<Longrightarrow> lr_bytes r = c # lr_bytes (r\<lparr>lr_buf := cs\<rparr>)"
  by (simp add: lr_bytes_def)

lemma line_bytes_full: "\<not> length line < max_bytes \<Longrightarrow> line_bytes max_bytes line bs = (None, bs)"
  by (cases bs) simp_all

lemma read_line_loop_bytes:
  "line_bytes max_bytes line (lr_bytes r) = map_prod id lr_bytes (read_line_loop max_bytes line r)"
proof (induction max_bytes line r rule: read_line_loop.induct)
  case (1 max_bytes line r)
  show ?case
  proof (cases "length line < max_bytes")
    case lt: True
    show ?thesis
    proof (cases "lr_buf r")
      case Nil
      show ?thesis
      proof (cases "lr_fill r")
        case None
        with Nil lt lr_fill_bytes(2) [OF None Nil] show ?thesis
          by (simp add: read_line_loop.simps [of max_bytes line r])
      next
        case (Some r')
        with Nil lt lr_fill_bytes(1) [OF Some Nil] 1(1) [OF lt Nil Some] show ?thesis
          by (simp add: read_line_loop.simps [of max_bytes line r])
      qed
    next
      case (Cons c cs)
      with lt 1(2) [OF lt Cons] lr_bytes_buf [OF Cons] show ?thesis
        by (cases "c = nl") (simp_all add: read_line_loop.simps [of max_bytes line r])
    qed
  qed (simp add: read_line_loop.simps [of max_bytes line r] line_bytes_full)
qed

lemma exact_bytes_append:
  "length t \<le> m \<Longrightarrow> exact_bytes m (t @ bs) =
     (case exact_bytes (m - length t) bs of (Some x, rest) \<Rightarrow> (Some (t @ x), rest) | (None, rest) \<Rightarrow> (None, rest))"
  by (auto simp: exact_bytes_def)

lemma read_exact_loop_bytes:
  "length out \<le> n \<Longrightarrow>
   map_prod id lr_bytes (read_exact_loop n out r) =
     (case exact_bytes (n - length out) (lr_bytes r) of
        (Some bs, rest) \<Rightarrow> (Some (out @ bs), rest) | (None, rest) \<Rightarrow> (None, rest))"
proof (induction n out r rule: read_exact_loop.induct)
  case (1 n out r)
  show ?case
  proof (cases "length out < n")
    case lt: True
    show ?thesis
    proof (cases "lr_buf r")
      case Nil
      show ?thesis
      proof (cases "lr_fill r")
        case None
        with Nil lt lr_fill_bytes(2) [OF None Nil] show ?thesis
          by (simp add: read_exact_loop.simps [of n out r] exact_bytes_def)
      next
        case (Some r')
        with Nil lt lr_fill_bytes(1) [OF Some Nil] 1(1) [OF lt Nil Some] show ?thesis
          by (simp add: read_exact_loop.simps [of n out r])
      qed
    next
      case (Cons c cs)
      define k where "k = min (n - length out) (length (lr_buf r))"
      define t where "t = take k (lr_buf r)"
      define r' where "r' = r\<lparr>lr_buf := drop k (lr_buf r)\<rparr>"
      have bytes: "lr_bytes r = t @ lr_bytes r'" by (simp add: lr_bytes_def r'_def t_def)
      have len: "length t = k" by (simp add: k_def t_def)
      have k: "k \<le> n - length out" by (simp add: k_def)
      have "map_prod id lr_bytes (read_exact_loop n (out @ t) r') =
        (case exact_bytes (n - length (out @ t)) (lr_bytes r') of
          (Some bs, rest) \<Rightarrow> (Some ((out @ t) @ bs), rest) | (None, rest) \<Rightarrow> (None, rest))"
        unfolding r'_def t_def by (rule 1(2) [OF lt Cons k_def]) (use lt in \<open>auto simp: k_def min_def\<close>)
      moreover have "read_exact_loop n out r = read_exact_loop n (out @ t) r'"
        using lt Cons by (simp add: read_exact_loop.simps [of n out r] k_def r'_def t_def Let_def)
      moreover have "exact_bytes (n - length out) (t @ lr_bytes r') =
        (case exact_bytes (n - length out - length t) (lr_bytes r') of
           (Some x, rest) \<Rightarrow> (Some (t @ x), rest) | (None, rest) \<Rightarrow> (None, rest))"
        by (rule exact_bytes_append) (use len k in simp)
      ultimately show ?thesis
        unfolding bytes by (simp add: id_def split: prod.splits option.splits)
    qed
  qed (use 1(3) in \<open>simp add: read_exact_loop.simps [of n out r] exact_bytes_def\<close>)
qed

lemma read_line_bytes: "map_prod id lr_bytes (read_line n r) = line_bytes n [] (lr_bytes r)"
  by (simp add: read_line_def read_line_loop_bytes)

lemma read_exact_bytes: "map_prod id lr_bytes (lr_read_exact n r) = exact_bytes n (lr_bytes r)"
  using read_exact_loop_bytes [of "[]" n r] by (auto simp: lr_read_exact_def split: prod.splits option.splits)

section \<open>Segmentation\<close>

definition same_bytes :: "'a \<times> LineReader \<Rightarrow> 'a \<times> LineReader \<Rightarrow> bool" where
  "same_bytes x y \<longleftrightarrow> fst x = fst y \<and> lr_bytes (snd x) = lr_bytes (snd y)"

lemma same_bytesE:
  assumes "same_bytes x y" "x = (a, r)"
  obtains r' where "y = (a, r')" "lr_bytes r' = lr_bytes r"
  using assms by (cases y) (auto simp: same_bytes_def)

lemma read_line_same: "lr_bytes r = lr_bytes r' \<Longrightarrow> same_bytes (read_line n r) (read_line n r')"
  using read_line_bytes [of n r] read_line_bytes [of n r']
  by (metis same_bytes_def fst_map_prod snd_map_prod id_apply)

lemma read_exact_same: "lr_bytes r = lr_bytes r' \<Longrightarrow> same_bytes (lr_read_exact n r) (lr_read_exact n r')"
  using read_exact_bytes [of n r] read_exact_bytes [of n r']
  by (metis same_bytes_def fst_map_prod snd_map_prod id_apply)

lemma header_loop_same:
  "lr_bytes r = lr_bytes r' \<Longrightarrow> same_bytes (header_loop n h r) (header_loop n h r')"
proof (induction n h r arbitrary: r' rule: header_loop.induct)
  case (1 n h r)
  obtain v r1 where r1: "read_line kMaxHeaderBytes r = (v, r1)" by (metis prod.exhaust)
  from read_line_same [OF "1.prems"] r1 obtain r1' where
    r1': "read_line kMaxHeaderBytes r' = (v, r1')" "lr_bytes r1' = lr_bytes r1" by (rule same_bytesE)
  show ?case
  proof (cases v)
    case None
    with r1 r1' show ?thesis by (simp add: header_loop.simps [of n h] same_bytes_def)
  next
    case (Some line)
    have IH: "same_bytes (header_loop (n + length line) h r1) (header_loop (n + length line) h r1')"
      if "line \<noteq> []" "\<not> kMaxHeaderBytes < n + length line" "find_char (CHR '':'') line = None"
      by (rule "1.IH"(1)) (use r1 r1' Some that in simp_all)
    have IH': "same_bytes
        (header_loop (n + length line) (h(lowercase (take colon line) \<mapsto> trim_sv (drop (colon + 1) line))) r1)
        (header_loop (n + length line) (h(lowercase (take colon line) \<mapsto> trim_sv (drop (colon + 1) line))) r1')"
      if "line \<noteq> []" "\<not> kMaxHeaderBytes < n + length line" "find_char (CHR '':'') line = Some colon" for colon
      by (rule "1.IH"(2)) (use r1 r1' Some that in simp_all)
    show ?thesis
      using r1 r1' Some IH IH'
      by (cases "find_char (CHR '':'') line") (auto simp: header_loop.simps [of n h] same_bytes_def)
  qed
qed

lemma read_body_same:
  assumes eq: "lr_bytes r = lr_bytes r'"
  shows "same_bytes (read_body h r) (read_body h r')"
proof -
  have "same_bytes (case lr_read_exact n r of (None, q) \<Rightarrow> (BodyClosed, q) | (Some b, q) \<Rightarrow> (BodyIs b, q))
     (case lr_read_exact n r' of (None, q) \<Rightarrow> (BodyClosed, q) | (Some b, q) \<Rightarrow> (BodyIs b, q))" for n
  proof -
    obtain v q where q: "lr_read_exact n r = (v, q)" by (metis prod.exhaust)
    from read_exact_same [OF eq] q obtain q' where "lr_read_exact n r' = (v, q')" "lr_bytes q' = lr_bytes q"
      by (rule same_bytesE)
    with q show ?thesis by (cases v) (simp_all add: same_bytes_def)
  qed
  with eq show ?thesis by (auto simp: read_body_def same_bytes_def split: option.split sum.split)
qed

lemma handle_one_same:
  assumes "lr_bytes r = lr_bytes r'"
  shows "same_bytes (handle_one routes r p s) (handle_one routes r' p s)"
proof -
  obtain v r1 where r1: "read_line kMaxHeaderBytes r = (v, r1)" by (metis prod.exhaust)
  from read_line_same [OF assms] r1 obtain r1' where
    r1': "read_line kMaxHeaderBytes r' = (v, r1')" "lr_bytes r1' = lr_bytes r1" by (rule same_bytesE)
  obtain h r2 where r2: "header_loop 0 Map.empty r1 = (h, r2)" by (metis prod.exhaust)
  from header_loop_same [OF r1'(2) [symmetric]] r2 obtain r2' where
    r2': "header_loop 0 Map.empty r1' = (h, r2')" "lr_bytes r2' = lr_bytes r2" by (rule same_bytesE)
  obtain b r3 where r3: "read_body (the h) r2 = (b, r3)" by (metis prod.exhaust)
  from read_body_same [OF r2'(2) [symmetric]] r3 obtain r3' where
    r3': "read_body (the h) r2' = (b, r3')" "lr_bytes r3' = lr_bytes r3" by (rule same_bytesE)
  show ?thesis
    using r1 r1' r2 r2' r3 r3'
    by (auto simp: handle_one_def same_bytes_def Let_def split: option.splits BodyRead.splits)
qed

lemma serve_connection_same:
  "lr_bytes r = lr_bytes r' \<Longrightarrow>
   serve_connection fuel stopping k routes r p s = serve_connection fuel stopping k routes r' p s"
proof (induction fuel arbitrary: k r r' p s)
  case (Suc fuel)
  obtain res p1 s1 r1 where one: "handle_one routes r p s = ((res, p1, s1), r1)" by (metis prod.exhaust)
  from handle_one_same [OF Suc.prems] one obtain r1' where
    one': "handle_one routes r' p s = ((res, p1, s1), r1')" "lr_bytes r1' = lr_bytes r1" by (rule same_bytesE)
  with one Suc.IH [OF one'(2)] show ?case by (auto split: sum.splits bool.splits)
qed simp

section \<open>Progress\<close>

lemma line_bytes_less: "line_bytes n line bs = (Some l, rest) \<Longrightarrow> length rest < length bs"
  by (induction bs arbitrary: line) (force split: if_splits)+

lemma read_line_less: "read_line n r = (Some l, r') \<Longrightarrow> length (lr_bytes r') < length (lr_bytes r)"
  using read_line_bytes [of n r] by (metis line_bytes_less map_prod_simp id_apply)

lemma header_loop_le: "header_loop n h r = (Some h', r') \<Longrightarrow> length (lr_bytes r') \<le> length (lr_bytes r)"
proof (induction n h r rule: header_loop.induct)
  case (1 n h r)
  from "1.prems" obtain line r1 where l: "read_line kMaxHeaderBytes r = (Some line, r1)"
    by (auto simp: header_loop.simps [of n h] split: prod.splits option.splits)
  note less = read_line_less [OF l]
  consider "line = []" | "line \<noteq> []" "find_char (CHR '':'') line = None"
    | colon where "line \<noteq> []" "find_char (CHR '':'') line = Some colon"
    by (cases "find_char (CHR '':'') line") auto
  then show ?case
  proof cases
    case 1
    with l "1.prems" less show ?thesis by (simp add: header_loop.simps [of n h])
  next
    case 2
    with l "1.prems" have c: "\<not> kMaxHeaderBytes < n + length line"
      "header_loop (n + length line) h r1 = (Some h', r')"
      by (auto simp: header_loop.simps [of n h] split: if_splits)
    from "1.IH"(1) [OF l [symmetric] refl 2(1) c(1) 2(2) c(2)] less show ?thesis by simp
  next
    case (3 colon)
    with l "1.prems" have c: "\<not> kMaxHeaderBytes < n + length line"
      "header_loop (n + length line) (h(lowercase (take colon line) \<mapsto> trim_sv (drop (colon + 1) line))) r1 = (Some h', r')"
      by (auto simp: header_loop.simps [of n h] split: if_splits)
    from "1.IH"(2) [OF l [symmetric] refl 3(1) c(1) 3(2) c(2)] less show ?thesis by simp
  qed
qed

lemma read_body_le: "read_body h r = (BodyIs b, r') \<Longrightarrow> length (lr_bytes r') \<le> length (lr_bytes r)"
proof -
  have "length (lr_bytes r') \<le> length (lr_bytes r)" if "lr_read_exact n r = (Some b, r')" for n b r'
    using read_exact_bytes [of n r] that by (auto simp: exact_bytes_def split: if_splits)
  then show "read_body h r = (BodyIs b, r') \<Longrightarrow> length (lr_bytes r') \<le> length (lr_bytes r)"
    by (auto simp: read_body_def split: option.splits sum.splits if_splits prod.splits)
qed

lemma refuse_False: "fst (refuse n m False p s) = Inr False"
  by (simp add: refuse_def split: prod.splits)

lemma handle_one_less:
  assumes "handle_one routes r p s = ((Inr True, p', s'), r')"
  shows "length (lr_bytes r') < length (lr_bytes r)"
proof -
  have no: "refuse n m False p s \<noteq> (Inr True, p', s')" for n m
    using refuse_False [of n m p s] by (metis fst_conv sum.inject(2))
  from assms no obtain line r1 h r2 b where
    "read_line kMaxHeaderBytes r = (Some line, r1)" "header_loop 0 Map.empty r1 = (Some h, r2)"
    "read_body h r2 = (BodyIs b, r')"
    by (auto simp: handle_one_def Let_def split: prod.splits option.splits if_splits BodyRead.splits)
  with read_line_less header_loop_le read_body_le show ?thesis
    by (meson le_less_trans less_le_trans order_trans)
qed

lemma serve_connection_ends:
  "length (lr_bytes r) < fuel \<Longrightarrow> \<exists>x. serve_connection fuel stopping k routes r p s = Some x"
proof (induction fuel arbitrary: k r p s)
  case (Suc fuel)
  obtain res p1 s1 r1 where one: "handle_one routes r p s = ((res, p1, s1), r1)" by (metis prod.exhaust)
  show ?case
  proof (cases "res = Inr True")
    case True
    with handle_one_less one Suc.prems have "length (lr_bytes r1) < fuel" by fastforce
    from Suc.IH [OF this] one True show ?thesis by simp
  qed (use one in \<open>auto split: sum.splits bool.splits\<close>)
qed simp

section \<open>Printed requests\<close>

text \<open>A request as a client prints it.\<close>

definition header_line :: "string \<times> string \<Rightarrow> string" where
  "header_line h = fst h @ '': '' @ snd h"

definition print_request :: "string \<Rightarrow> string \<Rightarrow> (string \<times> string) list \<Rightarrow> string \<Rightarrow> string" where
  "print_request method target headers body =
     method @ '' '' @ target @ '' HTTP/1.1'' @ crlf
     @ concat (map (\<lambda>h. header_line h @ crlf) (headers @ [(''Content-Length'', dec_nat (length body))]))
     @ crlf @ body"

text \<open>The headers as the server keeps them.\<close>

definition add_header :: "(string \<Rightarrow> string option) \<Rightarrow> string \<times> string \<Rightarrow> string \<Rightarrow> string option" where
  "add_header m h = m(lowercase (fst h) \<mapsto> snd h)"

definition header_map :: "(string \<times> string) list \<Rightarrow> string \<Rightarrow> string option" where
  "header_map headers = foldl add_header Map.empty headers"

definition trimmed :: "string \<Rightarrow> bool" where
  "trimmed v \<longleftrightarrow> v = [] \<or> hd v \<notin> {CHR '' '', tab} \<and> last v \<notin> {CHR '' '', tab, cr}"

definition header_ok :: "string \<times> string \<Rightarrow> bool" where
  "header_ok h \<longleftrightarrow> CHR '':'' \<notin> set (fst h) \<and> nl \<notin> set (fst h) \<and> nl \<notin> set (snd h) \<and> trimmed (snd h)
     \<and> lowercase (fst h) \<noteq> ''content-length''"

definition request_ok :: "string \<Rightarrow> string \<Rightarrow> (string \<times> string) list \<Rightarrow> string \<Rightarrow> bool" where
  "request_ok method target headers body \<longleftrightarrow>
     CHR '' '' \<notin> set method \<and> nl \<notin> set method \<and> nl \<notin> set target
     \<and> length method + length target + 12 \<le> kMaxHeaderBytes
     \<and> list_all header_ok headers
     \<and> (\<Sum>h\<leftarrow>headers. length (header_line h) + 1) + 64 \<le> kMaxHeaderBytes
     \<and> length body \<le> kMaxBodyBytes"

lemma line_bytes_line:
  "nl \<notin> set l \<Longrightarrow> length (line @ l) < max_bytes \<Longrightarrow>
   line_bytes max_bytes line (l @ nl # rest) =
     (Some (if line @ l \<noteq> [] \<and> last (line @ l) = cr then butlast (line @ l) else line @ l), rest)"
  by (induction l arbitrary: line) auto

lemma read_line_at:
  assumes "lr_bytes r = l @ crlf @ rest" "nl \<notin> set l" "length l + 1 < max_bytes"
  shows "\<exists>r'. read_line max_bytes r = (Some l, r') \<and> lr_bytes r' = rest"
proof -
  have "line_bytes max_bytes [] (lr_bytes r) = (Some l, rest)"
    using line_bytes_line [of "l @ [cr]" "[]" max_bytes rest] assms by (simp add: crlf_def)
  with read_line_bytes [of max_bytes r] show ?thesis by (cases "read_line max_bytes r") auto
qed

lemma read_exact_at:
  assumes "lr_bytes r = b @ rest"
  shows "\<exists>r'. lr_read_exact (length b) r = (Some b, r') \<and> lr_bytes r' = rest"
  using read_exact_bytes [of "length b" r] assms
  by (cases "lr_read_exact (length b) r") (auto simp: exact_bytes_def)

lemma trim_sv_trimmed: "trimmed v \<Longrightarrow> trim_sv (CHR '' '' # v) = v"
  by (cases v) (auto simp: trimmed_def trim_sv_def intro!: strip_back_keep)

lemma header_loop_line:
  assumes "lr_bytes r = header_line h @ crlf @ rest" "CHR '':'' \<notin> set (fst h)" "nl \<notin> set (header_line h)"
    "trimmed (snd h)" "n + length (header_line h) + 1 < kMaxHeaderBytes"
  shows "\<exists>r'. lr_bytes r' = rest
    \<and> header_loop n m r = header_loop (n + length (header_line h)) (add_header m h) r'"
proof -
  from assms have "length (header_line h) + 1 < kMaxHeaderBytes" by simp
  from read_line_at [OF assms(1,3) this] obtain r' where
    r': "read_line kMaxHeaderBytes r = (Some (header_line h), r')" "lr_bytes r' = rest" by blast
  have "find_char (CHR '':'') (header_line h) = Some (length (fst h))"
    using find_char_append [OF assms(2), of "CHR '' '' # snd h"] by (simp add: header_line_def)
  moreover have "trim_sv (drop (Suc (length (fst h))) (header_line h)) = snd h"
    using trim_sv_trimmed [OF assms(4)] by (simp add: header_line_def)
  moreover have "take (length (fst h)) (header_line h) = fst h" "header_line h \<noteq> []"
    by (simp_all add: header_line_def)
  ultimately show ?thesis using r' assms(5) by (auto simp: header_loop.simps [of n m r] add_header_def)
qed

lemma header_loop_lines:
  assumes "lr_bytes r = concat (map (\<lambda>h. header_line h @ crlf) hs) @ crlf @ rest"
    "\<forall>h\<in>set hs. CHR '':'' \<notin> set (fst h) \<and> nl \<notin> set (header_line h) \<and> trimmed (snd h)"
    "n + (\<Sum>h\<leftarrow>hs. length (header_line h) + 1) < kMaxHeaderBytes"
  shows "\<exists>r'. header_loop n m r = (Some (foldl add_header m hs), r') \<and> lr_bytes r' = rest"
  using assms
proof (induction hs arbitrary: n m r)
  case Nil
  then have "lr_bytes r = [] @ crlf @ rest" "length ([] :: string) + 1 < kMaxHeaderBytes"
    by (simp_all add: kMaxHeaderBytes_def)
  from read_line_at [OF this(1) _ this(2)] obtain r' where
    "read_line kMaxHeaderBytes r = (Some [], r')" "lr_bytes r' = rest" by auto
  then show ?case by (simp add: header_loop.simps [of n m r])
next
  case (Cons h hs)
  from Cons.prems(1) have "lr_bytes r = header_line h @ crlf @ concat (map (\<lambda>h. header_line h @ crlf) hs) @ crlf @ rest"
    by simp
  from header_loop_line [OF this, of n m] Cons.prems(2,3) obtain r' where
    r': "lr_bytes r' = concat (map (\<lambda>h. header_line h @ crlf) hs) @ crlf @ rest"
    "header_loop n m r = header_loop (n + length (header_line h)) (add_header m h) r'" by auto
  from Cons.IH [OF r'(1)] Cons.prems(2,3) r'(2) show ?case by simp
qed

lemma dec_digit_char:
  "d < 10 \<Longrightarrow> is_digit (dec_digit d) \<and> of_char (dec_digit d) - 48 = d"
proof -
  have "\<forall>d<10. is_digit (dec_digit d) \<and> of_char (dec_digit d) - 48 = d" by code_simp
  then show "d < 10 \<Longrightarrow> is_digit (dec_digit d) \<and> of_char (dec_digit d) - 48 = d" by blast
qed

lemma dec_value_dec_nat: "dec_value (dec_nat n) = n"
proof (induction n rule: dec_nat.induct)
  case (1 n)
  show ?case
  proof (cases "n < 10")
    case True
    then show ?thesis using dec_digit_char [of n] by (simp add: dec_nat.simps [of n] dec_value_def)
  next
    case False
    then show ?thesis using 1 dec_digit_char [of "n mod 10"]
      by (simp add: dec_nat.simps [of n] dec_value_def)
  qed
qed

lemma stoull_dec_nat: "n < 2 ^ 64 \<Longrightarrow> stoull (dec_nat n) = Inr n"
proof -
  assume n: "n < 2 ^ 64"
  have digits: "is_digit c \<and> \<not> is_space c \<and> c \<noteq> CHR ''-'' \<and> c \<noteq> CHR ''+''" if "c \<in> set (dec_nat n)" for c
  proof -
    have "\<forall>c\<in>set ''0123456789''. is_digit c \<and> \<not> is_space c \<and> c \<noteq> CHR ''-'' \<and> c \<noteq> CHR ''+''" by code_simp
    with that dec_nat_chars [of n] show ?thesis by blast
  qed
  obtain c cs where c: "dec_nat n = c # cs" by (cases "dec_nat n") auto
  with digits have "\<not> is_space c" "c \<noteq> CHR ''-''" "c \<noteq> CHR ''+''" by simp_all
  then have "dropWhile is_space (dec_nat n) = c # cs" using c by simp
  moreover have "takeWhile is_digit (c # cs) = dec_nat n"
    unfolding c [symmetric] using digits by (intro takeWhile_eq_all_conv [THEN iffD2]) blast
  ultimately show ?thesis
    using n \<open>c \<noteq> CHR ''-''\<close> \<open>c \<noteq> CHR ''+''\<close> by (simp add: stoull_def dec_value_dec_nat Let_def)
qed

lemma dec_nat_length: "n < 10 ^ Suc k \<Longrightarrow> length (dec_nat n) \<le> Suc k"
proof (induction k arbitrary: n)
  case 0
  then show ?case by (simp add: dec_nat.simps [of n])
next
  case (Suc k)
  then have "n div 10 < 10 ^ Suc k" by (simp add: div_less_iff_less_mult)
  from Suc.IH [OF this] show ?case by (simp add: dec_nat.simps [of n])
qed

lemma content_length_header:
  "CHR '':'' \<notin> set ''Content-Length'' \<and> nl \<notin> set (header_line (''Content-Length'', dec_nat n)) \<and> trimmed (dec_nat n)"
proof -
  have "\<forall>c\<in>set ''0123456789''. c \<noteq> nl \<and> c \<noteq> CHR '' '' \<and> c \<noteq> tab \<and> c \<noteq> cr" by code_simp
  then have "\<forall>c\<in>set (dec_nat n). c \<noteq> nl \<and> c \<noteq> CHR '' '' \<and> c \<noteq> tab \<and> c \<noteq> cr"
    using dec_nat_chars [of n] by blast
  moreover have "nl \<notin> set ''Content-Length: ''" "CHR '':'' \<notin> set ''Content-Length''" by code_simp+
  ultimately show ?thesis
    using hd_in_set [of "dec_nat n"] last_in_set [of "dec_nat n"]
    by (auto simp: header_line_def trimmed_def)
qed

lemma rfind_char_append: "c \<notin> set b \<Longrightarrow> rfind_char c (a @ c # b) = Some (length a)"
  using find_char_append [of c "rev b" "rev a"] by (simp add: rfind_char_def)

definition parsed_request :: "string \<Rightarrow> string \<Rightarrow> (string \<times> string) list \<Rightarrow> string \<Rightarrow> HttpRequest" where
  "parsed_request method target headers body =
     \<lparr>rq_method = method, rq_target = target, rq_path = takeWhile (\<lambda>c. c \<noteq> CHR ''?'') target,
      rq_headers = header_map (headers @ [(''Content-Length'', dec_nat (length body))]), rq_body = body\<rparr>"

lemma header_map_content_length:
  "header_map (headers @ [(''Content-Length'', v)]) ''content-length'' = Some v"
proof -
  have "lowercase ''Content-Length'' = ''content-length''" by code_simp
  then show ?thesis by (simp add: header_map_def add_header_def)
qed

lemma request_line_split:
  fixes verb uri :: string
  assumes "CHR '' '' \<notin> set verb"
  defines "line \<equiv> verb @ '' '' @ uri @ '' HTTP/1.1''"
  shows "find_char (CHR '' '') line = Some (length verb)"
    and "rfind_char (CHR '' '') line = Some (length verb + 1 + length uri)"
    and "take (length verb) line = verb"
    and "take (length uri) (drop (length verb + 1) line) = uri"
proof -
  have line: "line = verb @ CHR '' '' # (uri @ '' HTTP/1.1'')" "line = (verb @ '' '' @ uri) @ CHR '' '' # ''HTTP/1.1''"
    by (simp_all add: line_def)
  show "find_char (CHR '' '') line = Some (length verb)"
    unfolding line(1) by (rule find_char_append [OF assms(1)])
  have "CHR '' '' \<notin> set ''HTTP/1.1''" by code_simp
  from rfind_char_append [OF this, of "verb @ '' '' @ uri"]
  show "rfind_char (CHR '' '') line = Some (length verb + 1 + length uri)"
    unfolding line(2) by simp
  show "take (length verb) line = verb"
    and "take (length uri) (drop (length verb + 1) line) = uri" by (simp_all add: line_def)
qed

lemma before_query:
  "(case find_char (CHR ''?'') t of Some q \<Rightarrow> take q t | None \<Rightarrow> t) = takeWhile (\<lambda>c. c \<noteq> CHR ''?'') t"
proof (cases "find_char (CHR ''?'') t")
  case None
  then have "CHR ''?'' \<notin> set t" by simp
  then have eq: "takeWhile (\<lambda>c. c \<noteq> CHR ''?'') t = t" by (intro takeWhile_eq_all_conv [THEN iffD2]) blast
  show ?thesis unfolding None eq by simp
next
  case (Some n)
  then have "CHR ''?'' \<in> set t" by (auto simp: find_char_def split: if_splits)
  then obtain a b where t: "t = a @ CHR ''?'' # b" "CHR ''?'' \<notin> set a" by (meson split_list_first)
  then have "find_char (CHR ''?'') t = Some (length a)" by (simp add: find_char_append)
  moreover have "takeWhile (\<lambda>c. c \<noteq> CHR ''?'') t = a" unfolding t(1) using t(2) by (subst takeWhile_append2) auto
  ultimately show ?thesis using t(1) by simp
qed

lemma handle_one_printed:
  assumes ok: "request_ok method target headers body"
    and bytes: "lr_bytes r = print_request method target headers body @ rest"
  shows "\<exists>r'. lr_bytes r' = rest \<and> handle_one routes r p s =
    (route_request routes (parsed_request method target headers body)
       (keep_alive_of (rq_headers (parsed_request method target headers body))) p s, r')"
proof -
  define hs where "hs = headers @ [(''Content-Length'', dec_nat (length body))]"
  define line where "line = method @ '' '' @ target @ '' HTTP/1.1''"
  have "nl \<notin> set '' HTTP/1.1''" by code_simp
  moreover have "nl \<noteq> CHR '' ''" by code_simp
  ultimately have line: "nl \<notin> set line" "length line + 1 < kMaxHeaderBytes"
    using ok by (simp_all add: line_def request_ok_def)
  from bytes have "lr_bytes r = line @ crlf @ (concat (map (\<lambda>h. header_line h @ crlf) hs) @ crlf @ body @ rest)"
    by (simp add: print_request_def line_def hs_def)
  from read_line_at [OF this line] obtain r1 where
    r1: "read_line kMaxHeaderBytes r = (Some line, r1)"
    "lr_bytes r1 = concat (map (\<lambda>h. header_line h @ crlf) hs) @ crlf @ body @ rest" by blast
  have "nl \<notin> set '': ''" by code_simp
  then have hok: "\<forall>h\<in>set hs. CHR '':'' \<notin> set (fst h) \<and> nl \<notin> set (header_line h) \<and> trimmed (snd h)"
    using ok content_length_header [of "length body"]
    by (auto simp: hs_def request_ok_def list_all_iff header_ok_def header_line_def)
  have body: "length body \<le> kMaxBodyBytes" using ok by (simp add: request_ok_def)
  then have "length (dec_nat (length body)) \<le> 8"
    using dec_nat_length [of "length body" 7] by (simp add: kMaxBodyBytes_def)
  then have sum: "0 + (\<Sum>h\<leftarrow>hs. length (header_line h) + 1) < kMaxHeaderBytes"
    using ok by (simp add: hs_def request_ok_def header_line_def)
  from header_loop_lines [OF r1(2) hok sum, of Map.empty] obtain r2 where
    r2: "header_loop 0 Map.empty r1 = (Some (header_map hs), r2)" "lr_bytes r2 = body @ rest"
    by (auto simp: header_map_def)
  from read_exact_at [OF r2(2)] obtain r3 where
    r3: "lr_read_exact (length body) r2 = (Some body, r3)" "lr_bytes r3 = rest" by blast
  have "read_body (header_map hs) r2 = (BodyIs body, r3)"
    using r3 body stoull_dec_nat [of "length body"]
    by (simp add: read_body_def hs_def header_map_content_length kMaxBodyBytes_def)
  moreover have "line \<noteq> []" by (simp add: line_def)
  moreover have "CHR '' '' \<notin> set method" using ok by (simp add: request_ok_def)
  note split = request_line_split [OF this, of target, folded line_def]
  have "(case find_char (CHR ''?'') target of Some q \<Rightarrow> take q target | None \<Rightarrow> target) =
      takeWhile (\<lambda>c. c \<noteq> CHR ''?'') target"
    by (rule before_query)
  ultimately show ?thesis
    using r1(1) r2(1) r3(2) split
    by (intro exI [of _ r3]) (simp add: handle_one_def parsed_request_def hs_def [symmetric] Let_def)
qed

section \<open>Chunked bodies\<close>

text \<open>
  A decoder of the chunked transfer encoding, as a client has it: a size in hexadecimal, the end of
  the line, that many bytes and another end of line, until the size is zero.
\<close>

definition hex_digit_value :: "char \<Rightarrow> nat option" where
  "hex_digit_value c =
     (if CHR ''0'' \<le> c \<and> c \<le> CHR ''9'' then Some (of_char c - 48)
      else if CHR ''a'' \<le> c \<and> c \<le> CHR ''f'' then Some (of_char c - 87) else None)"

fun hex_prefix :: "nat \<Rightarrow> string \<Rightarrow> nat \<times> string" where
  "hex_prefix n [] = (n, [])"
| "hex_prefix n (c # cs) = (case hex_digit_value c of Some d \<Rightarrow> hex_prefix (16 * n + d) cs | None \<Rightarrow> (n, c # cs))"

fun unchunk :: "nat \<Rightarrow> string \<Rightarrow> (string \<times> string) option" where
  "unchunk 0 bs = None"
| "unchunk (Suc fuel) bs =
     (case hex_prefix 0 bs of (n, rest) \<Rightarrow>
        if take 2 rest \<noteq> crlf then None
        else
          let tail = drop 2 rest in
          if length tail < n + 2 \<or> take 2 (drop n tail) \<noteq> crlf then None
          else if n = 0 then Some ([], drop 2 tail)
          else map_option (\<lambda>(b, r). (take n tail @ b, r)) (unchunk fuel (drop (n + 2) tail)))"

lemma hex_digit_value_digit: "d < 16 \<Longrightarrow> hex_digit_value (hex_digit d) = Some d"
proof -
  have "\<forall>d<16. hex_digit_value (hex_digit d) = Some d" by code_simp
  then show "d < 16 \<Longrightarrow> hex_digit_value (hex_digit d) = Some d" by blast
qed

lemma hex_prefix_append:
  "hex_prefix a (xs @ ys) = (case hex_prefix a xs of (v, []) \<Rightarrow> hex_prefix v ys | (v, z) \<Rightarrow> (v, z @ ys))"
  by (induction xs arbitrary: a) (simp_all split: option.splits)

lemma hex_prefix_hex_nat: "\<exists>k. hex_prefix m (hex_nat n) = (m * 16 ^ k + n, [])"
proof (induction n rule: hex_nat.induct)
  case (1 n)
  show ?case
  proof (cases "n < 16")
    case True
    then show ?thesis by (intro exI [of _ 1]) (simp add: hex_nat.simps [of n] hex_digit_value_digit)
  next
    case False
    with 1 obtain k where "hex_prefix m (hex_nat (n div 16)) = (m * 16 ^ k + n div 16, [])" by blast
    then have "hex_prefix m (hex_nat n) = (16 * (m * 16 ^ k + n div 16) + n mod 16, [])"
      using False by (simp add: hex_nat.simps [of n] hex_prefix_append hex_digit_value_digit)
    moreover have "16 * (m * 16 ^ k + n div 16) + n mod 16 = m * 16 ^ Suc k + n"
      using mult_div_mod_eq [of 16 n] by (simp add: algebra_simps)
    ultimately show ?thesis by metis
  qed
qed

lemma hex_prefix_frame: "hex_prefix 0 (hex_nat n @ crlf @ rest) = (n, crlf @ rest)"
proof -
  have "hex_digit_value cr = None" by code_simp
  then show ?thesis using hex_prefix_hex_nat [of 0 n] by (auto simp: hex_prefix_append crlf_def)
qed

lemma unchunk_frames:
  "[] \<notin> set cs \<Longrightarrow> length cs < fuel \<Longrightarrow>
   unchunk fuel (concat (map chunk_frame cs) @ last_chunk @ rest) = Some (concat cs, rest)"
proof (induction cs arbitrary: fuel)
  case Nil
  then obtain f where "fuel = Suc f" by (cases fuel) auto
  moreover have "hex_nat 0 = ''0''" by code_simp
  ultimately show ?case
    using hex_prefix_frame [of 0 "crlf @ rest"] by (simp add: last_chunk_def crlf_def)
next
  case (Cons c cs)
  then obtain f where f: "fuel = Suc f" by (cases fuel) auto
  let ?rest = "concat (map chunk_frame cs) @ last_chunk @ rest"
  have "hex_prefix 0 (chunk_frame c @ ?rest) = (length c, crlf @ c @ crlf @ ?rest)"
    using hex_prefix_frame [of "length c" "c @ crlf @ ?rest"] by (simp add: chunk_frame_def)
  moreover have "unchunk f ?rest = Some (concat cs, rest)" using Cons f by simp
  moreover have "c \<noteq> []" using Cons.prems(1) by auto
  ultimately show ?case using f by (simp add: crlf_def Let_def)
qed

section \<open>Properties\<close>

text \<open>C34.  A printed request is parsed back. Let the bytes of a connection, cut into segments in any
  way, begin with a request as a client prints it, within the limits on the header and the body.
  Then one step of the server hands the router exactly its method, target, path without the query,
  headers with lower-case names, and body, keeps the connection unless the client asked to close
  it, and leaves the reader exactly behind the request, so that a pipelined request is next.
\<close>

theorem request_parsed_back:
  assumes "request_ok method target headers body"
    and "lr_bytes r = print_request method target headers body @ rest"
  shows "\<exists>r'. lr_bytes r' = rest \<and> handle_one routes r p s =
    (route_request routes
       \<lparr>rq_method = method, rq_target = target, rq_path = takeWhile (\<lambda>c. c \<noteq> CHR ''?'') target,
        rq_headers = header_map (headers @ [(''Content-Length'', dec_nat (length body))]), rq_body = body\<rparr>
       (keep_alive_of (header_map (headers @ [(''Content-Length'', dec_nat (length body))]))) p s, r')"
  using handle_one_printed [OF assms, of routes p s] by (simp add: parsed_request_def)

definition demo_routes :: "nat Routes" where
  "demo_routes = handle_route ''POST'' ''/echo''
     (\<lambda>rq n. (Inr (plain_response 200 ''text/plain'' (rq_body rq)), n + 1)) []"

theorem request_parsed_back_witness:
  "\<exists>r'. lr_bytes r' = ''GET'' \<and> handle_one demo_routes
      \<lparr>lr_buf = ''PO'', lr_recv = [drop 2 (print_request ''POST'' ''/echo?x=1'' [(''Host'', ''h'')] ''hi''), ''GET'']\<rparr>
      \<lparr>pe_sent = [], pe_limit = None\<rparr> 0 =
    ((Inr True,
      \<lparr>pe_sent = ''HTTP/1.1 200 OK'' @ crlf @ ''Content-Type: text/plain'' @ crlf @ ''Connection: keep-alive''
         @ crlf @ ''Content-Length: 2'' @ crlf @ crlf @ ''hi'', pe_limit = None\<rparr>, 1), r')"
proof -
  let ?r = "\<lparr>lr_buf = ''PO'', lr_recv = [drop 2 (print_request ''POST'' ''/echo?x=1'' [(''Host'', ''h'')] ''hi''), ''GET'']\<rparr>"
  have "header_ok (''Host'', ''h'')" "CHR '' '' \<notin> set ''POST''" "nl \<notin> set ''POST''" "nl \<notin> set ''/echo?x=1''"
    by code_simp+
  then have ok: "request_ok ''POST'' ''/echo?x=1'' [(''Host'', ''h'')] ''hi''"
    by (simp add: request_ok_def header_line_def kMaxHeaderBytes_def kMaxBodyBytes_def)
  have bytes: "lr_bytes ?r = print_request ''POST'' ''/echo?x=1'' [(''Host'', ''h'')] ''hi'' @ ''GET''"
    by code_simp
  have "route_request demo_routes
       \<lparr>rq_method = ''POST'', rq_target = ''/echo?x=1'', rq_path = takeWhile (\<lambda>c. c \<noteq> CHR ''?'') ''/echo?x=1'',
        rq_headers = header_map ([(''Host'', ''h'')] @ [(''Content-Length'', dec_nat (length ''hi''))]), rq_body = ''hi''\<rparr>
       (keep_alive_of (header_map ([(''Host'', ''h'')] @ [(''Content-Length'', dec_nat (length ''hi''))])))
       \<lparr>pe_sent = [], pe_limit = None\<rparr> 0 =
     (Inr True,
      \<lparr>pe_sent = ''HTTP/1.1 200 OK'' @ crlf @ ''Content-Type: text/plain'' @ crlf @ ''Connection: keep-alive''
         @ crlf @ ''Content-Length: 2'' @ crlf @ crlf @ ''hi'', pe_limit = None\<rparr>, 1)"
    by code_simp
  with request_parsed_back [OF ok bytes, of demo_routes "\<lparr>pe_sent = [], pe_limit = None\<rparr>" 0]
  show ?thesis by (simp only:)
qed

text \<open>C35.  Serving a connection ends and does not see how the network cut the bytes. With fuel above
  the number of bytes the client sends, the loop returns: every request the loop goes on after
  consumed at least one byte. And two connections that carry the same bytes, in whatever
  segments, produce the same responses and the same state.
\<close>

theorem connection_served:
  assumes "length (lr_bytes r) < fuel" and "lr_bytes r' = lr_bytes r"
  shows "\<exists>x. serve_connection fuel stopping k routes r p s = Some x
    \<and> serve_connection fuel stopping k routes r' p s = Some x"
  using serve_connection_ends [OF assms(1)] serve_connection_same [OF assms(2)] by metis

theorem connection_served_witness:
  "\<exists>x. serve_connection 20 (\<lambda>_. False) 0 demo_routes \<lparr>lr_buf = [], lr_recv = [''GET /'', '' H'' @ crlf, crlf]\<rparr>
      \<lparr>pe_sent = [], pe_limit = None\<rparr> 0 = Some x
    \<and> serve_connection 20 (\<lambda>_. False) 0 demo_routes \<lparr>lr_buf = ''GET / H'' @ crlf @ crlf, lr_recv = []\<rparr>
      \<lparr>pe_sent = [], pe_limit = None\<rparr> 0 = Some x"
  by (rule connection_served) (simp_all add: lr_bytes_def crlf_def)

end
