(* ===== verification/Service.thy ===== *)
theory Service
  imports Preprocessor Http Kvmap "HOL-Library.Product_Lexorder"
begin

text \<open>
  The HTTP service (\<^verbatim>\<open>llm/http/service.h\<close>, \<^verbatim>\<open>llm/http/service.cpp\<close>): the registry of models, the request
  metrics, and the routes that parse a request, run the model's engine and answer with one JSON
  document or a stream of server-sent events.  Reading and printing JSON, which may throw, the
  request identifier and the elapsed time are parameters.  An engine's stream is the list of its items and the
  exception that ends it, if any.  The lemmas show that the metrics account for every request,
  which status each outcome has, that a streamed response decodes to the items of the engine, and
  what happens when a stream fails.
\<close>

section \<open>Models\<close>

record ('c, 'e) ModelManager =
  chat_engines :: "(string \<times> 'c) list"
  completion_engines :: "(string \<times> 'e) list"

definition ModelManager_new :: "('c, 'e) ModelManager" where
  "ModelManager_new = \<lparr>chat_engines = [], completion_engines = []\<rparr>"

definition add_chat_model :: "string \<Rightarrow> 'c \<Rightarrow> ('c, 'e) ModelManager \<Rightarrow> ('c, 'e) ModelManager" where
  "add_chat_model name engine m = m\<lparr>chat_engines := om_put name engine (chat_engines m)\<rparr>"

definition add_completion_model :: "string \<Rightarrow> 'e \<Rightarrow> ('c, 'e) ModelManager \<Rightarrow> ('c, 'e) ModelManager" where
  "add_completion_model name engine m = m\<lparr>completion_engines := om_put name engine (completion_engines m)\<rparr>"

definition remove_chat_model :: "string \<Rightarrow> ('c, 'e) ModelManager \<Rightarrow> ('c, 'e) ModelManager" where
  "remove_chat_model name m = m\<lparr>chat_engines := om_del name (chat_engines m)\<rparr>"

definition remove_completion_model :: "string \<Rightarrow> ('c, 'e) ModelManager \<Rightarrow> ('c, 'e) ModelManager" where
  "remove_completion_model name m = m\<lparr>completion_engines := om_del name (completion_engines m)\<rparr>"

definition get_chat_engine :: "string \<Rightarrow> ('c, 'e) ModelManager \<Rightarrow> 'c option" where
  "get_chat_engine name m = map_of (chat_engines m) name"

definition get_completion_engine :: "string \<Rightarrow> ('c, 'e) ModelManager \<Rightarrow> 'e option" where
  "get_completion_engine name m = map_of (completion_engines m) name"

definition chat_models :: "('c, 'e) ModelManager \<Rightarrow> string list" where
  "chat_models m = map fst (chat_engines m)"

definition completion_models :: "('c, 'e) ModelManager \<Rightarrow> string list" where
  "completion_models m = map fst (completion_engines m)"

section \<open>Metrics\<close>

record Histogram =
  bucket_counts :: "nat list"
  hist_sum :: real
  hist_count :: nat

type_synonym CounterKey = "string \<times> string \<times> string \<times> string"

record Metrics =
  mt_prefix :: string
  request_counter :: "(CounterKey \<times> nat) list"
  inflight_gauge :: "(string \<times> int) list"
  duration :: "(string \<times> Histogram) list"

definition Metrics_new :: "string \<Rightarrow> Metrics" where
  "Metrics_new pre = \<lparr>mt_prefix = pre, request_counter = [], inflight_gauge = [], duration = []\<rparr>"

definition buckets :: "real list" where
  "buckets = [0, 1, 2, 4, 8, 16, 32, 64, 128, 256]"

text \<open>\<open>operator[]\<close> of a map: the value, or the default that it inserts.\<close>

definition at_or :: "'v \<Rightarrow> 'k \<Rightarrow> ('k \<times> 'v) list \<Rightarrow> 'v" where
  "at_or d k m = (case map_of m k of Some v \<Rightarrow> v | None \<Rightarrow> d)"

record Guard =
  gd_model :: string
  gd_endpoint :: string
  gd_streaming :: bool

definition guard_begin :: "Guard \<Rightarrow> Metrics \<Rightarrow> Metrics" where
  "guard_begin g m =
     m\<lparr>inflight_gauge := om_put (gd_model g) (at_or 0 (gd_model g) (inflight_gauge m) + 1) (inflight_gauge m)\<rparr>"

fun bump_bucket :: "real \<Rightarrow> real list \<Rightarrow> nat list \<Rightarrow> nat list" where
  "bump_bucket seconds (b # bs) (c # cs) =
     (if seconds \<le> b then Suc c # cs else c # bump_bucket seconds bs cs)"
| "bump_bucket seconds _ cs = cs"

definition observe :: "real \<Rightarrow> Histogram \<Rightarrow> Histogram" where
  "observe seconds h =
     (let counts = (if length (bucket_counts h) \<noteq> length buckets then replicate (length buckets) 0
                    else bucket_counts h)
      in \<lparr>bucket_counts = bump_bucket seconds buckets counts, hist_sum = hist_sum h + seconds,
          hist_count = hist_count h + 1\<rparr>)"

definition Histogram_new :: Histogram where
  "Histogram_new = \<lparr>bucket_counts = [], hist_sum = 0, hist_count = 0\<rparr>"

definition guard_key :: "Guard \<Rightarrow> bool \<Rightarrow> CounterKey" where
  "guard_key g ok =
     (gd_model g, gd_endpoint g, if gd_streaming g then ''stream'' else ''unary'',
      if ok then ''success'' else ''error'')"

definition guard_end :: "Guard \<Rightarrow> bool \<Rightarrow> real \<Rightarrow> Metrics \<Rightarrow> Metrics" where
  "guard_end g ok seconds m =
     m\<lparr>inflight_gauge := om_put (gd_model g) (at_or 0 (gd_model g) (inflight_gauge m) - 1) (inflight_gauge m),
       request_counter := om_put (guard_key g ok) (at_or 0 (guard_key g ok) (request_counter m) + 1) (request_counter m),
       duration := om_put (gd_model g) (observe seconds (at_or Histogram_new (gd_model g) (duration m))) (duration m)\<rparr>"

definition request_count :: "string \<Rightarrow> string \<Rightarrow> string \<Rightarrow> string \<Rightarrow> Metrics \<Rightarrow> nat" where
  "request_count model endpoint request_type status m = at_or 0 (model, endpoint, request_type, status) (request_counter m)"

definition inflight :: "string \<Rightarrow> Metrics \<Rightarrow> int" where
  "inflight model m = at_or 0 model (inflight_gauge m)"

text \<open>The text exposition; \<open>show_real\<close> prints a \<open>double\<close>.\<close>

definition dec_int :: "int \<Rightarrow> string" where
  "dec_int i = (if i < 0 then ''-'' @ dec_nat (nat (- i)) else dec_nat (nat i))"

definition quoted :: "string \<Rightarrow> string \<Rightarrow> string" where
  "quoted label v = label @ ''='' @ [dq] @ v @ [dq]"

definition render_help :: "string \<Rightarrow> string \<Rightarrow> string \<Rightarrow> string" where
  "render_help name help type =
     ''# HELP '' @ name @ '' '' @ help @ [nl] @ ''# TYPE '' @ name @ '' '' @ type @ [nl]"

fun render_buckets :: "(real \<Rightarrow> string) \<Rightarrow> string \<Rightarrow> string \<Rightarrow> real list \<Rightarrow> nat list \<Rightarrow> nat \<Rightarrow> string" where
  "render_buckets show_real name model (b # bs) (c # cs) cumulative =
     name @ ''_bucket{'' @ quoted ''model'' model @ '','' @ quoted ''le'' (show_real b) @ ''} ''
     @ dec_nat (cumulative + c) @ [nl] @ render_buckets show_real name model bs cs (cumulative + c)"
| "render_buckets show_real name model _ _ cumulative = []"

definition render_histogram :: "(real \<Rightarrow> string) \<Rightarrow> string \<Rightarrow> string \<times> Histogram \<Rightarrow> string" where
  "render_histogram show_real name e =
     (case e of (model, h) \<Rightarrow>
        render_buckets show_real name model buckets (bucket_counts h) 0
        @ name @ ''_bucket{'' @ quoted ''model'' model @ '','' @ quoted ''le'' ''+Inf'' @ ''} '' @ dec_nat (hist_count h) @ [nl]
        @ name @ ''_sum{'' @ quoted ''model'' model @ ''} '' @ show_real (hist_sum h) @ [nl]
        @ name @ ''_count{'' @ quoted ''model'' model @ ''} '' @ dec_nat (hist_count h) @ [nl])"

definition render :: "(real \<Rightarrow> string) \<Rightarrow> Metrics \<Rightarrow> string" where
  "render show_real m =
     (let counter_name = mt_prefix m @ ''_http_service_requests_total'';
          gauge_name = mt_prefix m @ ''_http_service_inflight_requests'';
          histogram_name = mt_prefix m @ ''_http_service_request_duration_seconds''
      in render_help counter_name ''Total number of LLM requests processed'' ''counter''
         @ concat (map (\<lambda>((model, endpoint, type, status), v).
             counter_name @ ''{'' @ quoted ''model'' model @ '','' @ quoted ''endpoint'' endpoint @ '',''
             @ quoted ''request_type'' type @ '','' @ quoted ''status'' status @ ''} '' @ dec_nat v @ [nl]) (request_counter m))
         @ render_help gauge_name ''Number of inflight requests'' ''gauge''
         @ concat (map (\<lambda>(model, v). gauge_name @ ''{'' @ quoted ''model'' model @ ''} '' @ dec_int v @ [nl]) (inflight_gauge m))
         @ render_help histogram_name ''Duration of LLM requests'' ''histogram''
         @ concat (map (render_histogram show_real histogram_name) (duration m)))"

section \<open>Streams of events\<close>

text \<open>The service's state: its metrics, and the requests whose context was told to stop.\<close>

record ServiceState =
  sv_metrics :: Metrics
  sv_stopped :: "string list"

type_synonym 'r EngineStream = "'r Annotated list \<times> exn option"

text \<open>Printing a chunk throws when a string in it is not valid UTF-8.\<close>

definition sse_of :: "('r \<Rightarrow> string res) \<Rightarrow> 'r Annotated \<Rightarrow> SseMessage res" where
  "sse_of dump item =
     rbind (case an_data item of None \<Rightarrow> Inr None | Some d \<Rightarrow> rbind (dump d) (\<lambda>t. Inr (Some t)))
       (\<lambda>data. Inr \<lparr>m_id = an_id item, m_event = an_event item, m_data = data, m_comments = an_comment item\<rparr>)"

primrec stream_loop ::
  "('r \<Rightarrow> string res) \<Rightarrow> string \<Rightarrow> StreamSink \<Rightarrow> exn option \<Rightarrow> 'r Annotated list \<Rightarrow> Peer \<Rightarrow> ServiceState
     \<Rightarrow> bool res \<times> Peer \<times> ServiceState" where
  "stream_loop dump rid sink thr [] p st = (case thr of Some e \<Rightarrow> Inl e | None \<Rightarrow> Inr True, p, st)"
| "stream_loop dump rid sink thr (item # items) p st =
     (case sse_of dump item of
        Inl e \<Rightarrow> (Inl e, p, st)
      | Inr message \<Rightarrow>
          (case sink (encode_sse message) p of
             (False, p') \<Rightarrow> (Inr False, p', st\<lparr>sv_stopped := sv_stopped st @ [rid]\<rparr>)
           | (True, p') \<Rightarrow> stream_loop dump rid sink thr items p' st))"

definition end_request :: "Guard \<Rightarrow> bool \<Rightarrow> real \<Rightarrow> ServiceState \<Rightarrow> ServiceState" where
  "end_request g ok seconds st = st\<lparr>sv_metrics := guard_end g ok seconds (sv_metrics st)\<rparr>"

text \<open>The guard dies with the call: marked when the stream was drained, unmarked otherwise.\<close>

definition stream_sse ::
  "('r \<Rightarrow> string res) \<Rightarrow> string \<Rightarrow> Guard \<Rightarrow> real \<Rightarrow> 'r EngineStream \<Rightarrow> StreamSink \<Rightarrow> Peer \<times> ServiceState
     \<Rightarrow> unit res \<times> Peer \<times> ServiceState" where
  "stream_sse dump rid g seconds out sink x =
     (case stream_loop dump rid sink (snd out) (fst out) (fst x) (snd x) of
        (Inl e, p, st) \<Rightarrow> (Inl e, p, end_request g False seconds st)
      | (Inr True, p, st) \<Rightarrow> (Inr (), snd (sink encode_sse_done p), end_request g True seconds st)
      | (Inr False, p, st) \<Rightarrow> (Inr (), p, end_request g False seconds st))"

section \<open>Routes\<close>

text \<open>\<open>dump_error\<close> prints \<open>{"error": message}\<close>.\<close>

definition json_error :: "(string \<Rightarrow> string res) \<Rightarrow> nat \<Rightarrow> string \<Rightarrow> 's HttpResponse res" where
  "json_error dump_error status message =
     rbind (dump_error message) (\<lambda>body. Inr (plain_response status ''application/json'' body))"

text \<open>
  The template over both request types: \<open>generated\<close> is what the engine's \<open>generate\<close> returns or
  throws, \<open>unary\<close> folds the items and \<open>print\<close> prints the response. The request is marked as a
  success before its response is printed.
\<close>

definition run_openai_route ::
  "(string \<Rightarrow> string res) \<Rightarrow> ('r \<Rightarrow> string res) \<Rightarrow> string \<Rightarrow> real \<Rightarrow> Guard \<Rightarrow> 'r EngineStream res
     \<Rightarrow> ('r Annotated list \<Rightarrow> 'u res) \<Rightarrow> ('u \<Rightarrow> string res) \<Rightarrow> ServiceState
     \<Rightarrow> ServiceState HttpResponse res \<times> ServiceState" where
  "run_openai_route dump_error dump rid seconds g generated unary print st0 =
     (let st = st0\<lparr>sv_metrics := guard_begin g (sv_metrics st0)\<rparr>;
          fold_error = (\<lambda>e. json_error dump_error 500 (''Failed to fold response stream: '' @ what e))
      in case generated of
        Inl e \<Rightarrow> (json_error dump_error 500 ''Failed to generate completions'', end_request g False seconds st)
      | Inr out \<Rightarrow>
          if gd_streaming g then
            (Inr \<lparr>rs_status = 200, rs_content_type = ''text/event-stream'',
                  rs_headers = [(''Cache-Control'', ''no-cache'')], rs_body = [],
                  rs_stream = Some (stream_sse dump rid g seconds out),
                  rs_drop = end_request g False seconds\<rparr>, st)
          else
            (case (case snd out of Some e \<Rightarrow> Inl e | None \<Rightarrow> unary (fst out)) of
               Inl e \<Rightarrow> (fold_error e, end_request g False seconds st)
             | Inr response \<Rightarrow>
                 (case print response of
                    Inr body \<Rightarrow> (Inr (plain_response 200 ''application/json'' body), end_request g True seconds st)
                  | Inl e \<Rightarrow> (fold_error e, end_request g True seconds st))))"

type_synonym 'j ChatEngine = "'j ChatRequest \<Rightarrow> 'j ChatChunk EngineStream res"
type_synonym 'j CompletionEngine = "'j CompletionRequest \<Rightarrow> 'j CompletionResponse EngineStream res"

text \<open>
  What a service is configured with: the readers and printers of JSON, the order a hash table is
  walked in, the models, and what the clock and the random generator give for a request.
\<close>

record 'j ServiceConfig =
  sf_parse_chat :: "string \<Rightarrow> 'j ChatRequest res"
  sf_parse_completion :: "string \<Rightarrow> 'j CompletionRequest res"
  sf_dump_error :: "string \<Rightarrow> string res"
  sf_dump_chunk :: "'j ChatChunk \<Rightarrow> string res"
  sf_dump_chat :: "'j ChatResponse \<Rightarrow> string res"
  sf_dump_completion :: "'j CompletionResponse \<Rightarrow> string res"
  sf_dump_models :: "string list \<Rightarrow> u64 \<Rightarrow> string res"
  sf_show_real :: "real \<Rightarrow> string"
  sf_chat_iter :: "(u32 \<times> 'j ChatDeltaChoice) list \<Rightarrow> (u32 \<times> 'j ChatDeltaChoice) list"
  sf_completion_iter :: "(u64 \<times> 'j CompletionDeltaChoice) list \<Rightarrow> (u64 \<times> 'j CompletionDeltaChoice) list"
  sf_models :: "('j ChatEngine, 'j CompletionEngine) ModelManager"
  sf_request_id :: string
  sf_seconds :: real
  sf_now :: u64

definition chat_unary_body :: "'j ServiceConfig \<Rightarrow> 'j ChatChunk Annotated list \<Rightarrow> 'j ChatResponse res" where
  "chat_unary_body cfg items = chat_finalize (sf_chat_iter cfg) (fold chat_push items ChatDeltaAggregator_new)"

definition completion_unary_body ::
  "'j ServiceConfig \<Rightarrow> 'j CompletionResponse Annotated list \<Rightarrow> 'j CompletionResponse res" where
  "completion_unary_body cfg items =
     completion_finalize (sf_completion_iter cfg) (fold completion_push items CompletionDeltaAggregator_new)"

definition handle_chat :: "'j ServiceConfig \<Rightarrow> ServiceState HttpHandler" where
  "handle_chat cfg http_request st =
     (case sf_parse_chat cfg (rq_body http_request) of
        Inl e \<Rightarrow> (json_error (sf_dump_error cfg) 400 (''invalid request: '' @ what e), st)
      | Inr request \<Rightarrow>
          (case get_chat_engine (cr_model request) (sf_models cfg) of
             None \<Rightarrow> (json_error (sf_dump_error cfg) 404 ''Model not found'', st)
           | Some engine \<Rightarrow>
               run_openai_route (sf_dump_error cfg) (sf_dump_chunk cfg) (sf_request_id cfg) (sf_seconds cfg)
                 \<lparr>gd_model = cr_model request, gd_endpoint = ''chat_completions'',
                  gd_streaming = (cr_stream request = Some True)\<rparr>
                 (engine (request\<lparr>cr_stream := Some True\<rparr>)) (chat_unary_body cfg) (sf_dump_chat cfg) st))"

definition handle_completions :: "'j ServiceConfig \<Rightarrow> ServiceState HttpHandler" where
  "handle_completions cfg http_request st =
     (case sf_parse_completion cfg (rq_body http_request) of
        Inl e \<Rightarrow> (json_error (sf_dump_error cfg) 400 (''invalid request: '' @ what e), st)
      | Inr request \<Rightarrow>
          (case get_completion_engine (pr_model request) (sf_models cfg) of
             None \<Rightarrow> (json_error (sf_dump_error cfg) 404 ''Model not found'', st)
           | Some engine \<Rightarrow>
               run_openai_route (sf_dump_error cfg) (sf_dump_completion cfg) (sf_request_id cfg) (sf_seconds cfg)
                 \<lparr>gd_model = pr_model request, gd_endpoint = ''completions'',
                  gd_streaming = (pr_stream request = Some True)\<rparr>
                 (engine (request\<lparr>pr_stream := Some True\<rparr>)) (completion_unary_body cfg)
                 (sf_dump_completion cfg) st))"

definition handle_list_models :: "'j ServiceConfig \<Rightarrow> ServiceState HttpHandler" where
  "handle_list_models cfg http_request st =
     (let names = remdups_adj (sort (chat_models (sf_models cfg) @ completion_models (sf_models cfg)))
      in (rbind (sf_dump_models cfg names (sf_now cfg)) (\<lambda>body. Inr (plain_response 200 ''application/json'' body)), st))"

definition handle_metrics :: "'j ServiceConfig \<Rightarrow> ServiceState HttpHandler" where
  "handle_metrics cfg http_request st =
     (Inr (plain_response 200 ''text/plain; version=0.0.4'' (render (sf_show_real cfg) (sv_metrics st))), st)"

definition handle_health :: "ServiceState HttpHandler" where
  "handle_health http_request st =
     (Inr (plain_response 200 ''application/json'' (''{'' @ [dq] @ ''status'' @ [dq] @ '':'' @ [dq] @ ''ok'' @ [dq] @ ''}'')), st)"

record HttpServiceOptions =
  enable_chat_endpoints :: bool
  enable_completion_endpoints :: bool

definition service_routes :: "HttpServiceOptions \<Rightarrow> 'j ServiceConfig \<Rightarrow> ServiceState Routes" where
  "service_routes opts cfg =
     (let r1 = (if enable_chat_endpoints opts
                then handle_route ''POST'' ''/v1/chat/completions'' (handle_chat cfg) [] else []);
          r2 = (if enable_completion_endpoints opts
                then handle_route ''POST'' ''/v1/completions'' (handle_completions cfg) r1 else r1)
      in handle_route ''GET'' ''/health'' handle_health
           (handle_route ''GET'' ''/metrics'' (handle_metrics cfg)
             (handle_route ''GET'' ''/v1/models'' (handle_list_models cfg) r2)))"

section \<open>The registry of models\<close>

definition models_ok :: "('c, 'e) ModelManager \<Rightarrow> bool" where
  "models_ok m \<longleftrightarrow> om_ok (chat_engines m) \<and> om_ok (completion_engines m)"

lemma models_ok_preserved [inv_intros]:
  "models_ok ModelManager_new"
  "models_ok m \<Longrightarrow> models_ok (add_chat_model n c m)"
  "models_ok m \<Longrightarrow> models_ok (add_completion_model n e m)"
  "models_ok m \<Longrightarrow> models_ok (remove_chat_model n m)"
  "models_ok m \<Longrightarrow> models_ok (remove_completion_model n m)"
  by (simp_all add: models_ok_def ModelManager_new_def add_chat_model_def add_completion_model_def
      remove_chat_model_def remove_completion_model_def)

lemma get_chat_engine_ops:
  assumes "models_ok m"
  shows "get_chat_engine k (add_chat_model n c m) = (if k = n then Some c else get_chat_engine k m)"
    and "get_chat_engine k (remove_chat_model n m) = (if k = n then None else get_chat_engine k m)"
    and "get_chat_engine k (add_completion_model n e m) = get_chat_engine k m"
    and "get_chat_engine k (remove_completion_model n m) = get_chat_engine k m"
  using assms by (simp_all add: get_chat_engine_def add_chat_model_def remove_chat_model_def
      add_completion_model_def remove_completion_model_def models_ok_def map_of_put map_of_del)

lemma get_completion_engine_ops:
  assumes "models_ok m"
  shows "get_completion_engine k (add_completion_model n e m) = (if k = n then Some e else get_completion_engine k m)"
    and "get_completion_engine k (remove_completion_model n m) = (if k = n then None else get_completion_engine k m)"
    and "get_completion_engine k (add_chat_model n c m) = get_completion_engine k m"
    and "get_completion_engine k (remove_chat_model n m) = get_completion_engine k m"
  using assms by (simp_all add: get_completion_engine_def add_chat_model_def remove_chat_model_def
      add_completion_model_def remove_completion_model_def models_ok_def map_of_put map_of_del)

section \<open>Accounting\<close>

lemma at_or_put: "om_ok m \<Longrightarrow> at_or d k (om_put k' v m) = (if k = k' then v else at_or d k m)"
  by (simp add: at_or_def map_of_put)

lemma bump_bucket_length [simp]: "length (bump_bucket x bs cs) = length cs"
  by (induction x bs cs rule: bump_bucket.induct) simp_all

lemma bump_bucket_cumulative:
  "sorted bs \<Longrightarrow> length cs = length bs \<Longrightarrow> i < length bs \<Longrightarrow>
   sum_list (take (Suc i) (bump_bucket x bs cs)) = sum_list (take (Suc i) cs) + (if x \<le> bs ! i then 1 else 0)"
proof (induction x bs cs arbitrary: i rule: bump_bucket.induct)
  case (1 x b bs c cs)
  show ?case
  proof (cases i)
    case 0
    then show ?thesis by simp
  next
    case (Suc j)
    with 1 have j: "j < length bs" "b \<le> bs ! j" by simp_all
    show ?thesis
    proof (cases "x \<le> b")
      case True
      with j(2) have "x \<le> bs ! j" by simp
      with True Suc show ?thesis by simp
    qed (use 1 Suc j in simp)
  qed
qed simp_all

text \<open>The histogram of observations, the latest first.\<close>

definition hist_of :: "real list \<Rightarrow> Histogram" where
  "hist_of xs = foldr observe xs Histogram_new"

lemma hist_of_counts:
  "hist_count (hist_of xs) = length xs \<and> hist_sum (hist_of xs) = sum_list xs
   \<and> (xs \<noteq> [] \<longrightarrow> length (bucket_counts (hist_of xs)) = length buckets
        \<and> (\<forall>i<length buckets. sum_list (take (Suc i) (bucket_counts (hist_of xs))) =
             length (filter (\<lambda>x. x \<le> buckets ! i) xs)))"
proof (induction xs)
  case Nil
  then show ?case by (simp add: hist_of_def Histogram_new_def)
next
  case (Cons x xs)
  have sorted: "sorted buckets" by (simp add: buckets_def)
  define cs where "cs = (if length (bucket_counts (hist_of xs)) \<noteq> length buckets
     then replicate (length buckets) 0 else bucket_counts (hist_of xs))"
  have len: "length cs = length buckets" by (simp add: cs_def)
  have step: "hist_of (x # xs) = \<lparr>bucket_counts = bump_bucket x buckets cs,
      hist_sum = hist_sum (hist_of xs) + x, hist_count = hist_count (hist_of xs) + 1\<rparr>"
    by (simp add: hist_of_def observe_def cs_def Let_def)
  have old: "sum_list (take (Suc i) cs) = length (filter (\<lambda>x. x \<le> buckets ! i) xs)" if "i < length buckets" for i
  proof (cases "xs = []")
    case True
    have "0 < length buckets" by (simp add: buckets_def)
    then have "cs = replicate (length buckets) 0"
      using True by (simp add: cs_def hist_of_def Histogram_new_def)
    with True show ?thesis by (simp add: sum_list_replicate)
  next
    case False
    with Cons that show ?thesis by (simp add: cs_def)
  qed
  show ?case
    using Cons old bump_bucket_cumulative [OF sorted len] by (simp add: step len)
qed

inductive mreach :: "Guard list \<Rightarrow> (Guard \<times> bool \<times> real) list \<Rightarrow> Metrics \<Rightarrow> bool" where
  mreach_new: "mreach [] [] (Metrics_new pre)"
| mreach_begin: "mreach live fin m \<Longrightarrow> mreach (g # live) fin (guard_begin g m)"
| mreach_end: "mreach live fin m \<Longrightarrow> g \<in> set live \<Longrightarrow>
    mreach (remove1 g live) ((g, ok, secs) # fin) (guard_end g ok secs m)"

definition durations :: "string \<Rightarrow> (Guard \<times> bool \<times> real) list \<Rightarrow> real list" where
  "durations model fin = map (snd \<circ> snd) (filter (\<lambda>e. gd_model (fst e) = model) fin)"

definition metrics_ok :: "Guard list \<Rightarrow> (Guard \<times> bool \<times> real) list \<Rightarrow> Metrics \<Rightarrow> bool" where
  "metrics_ok live fin m \<longleftrightarrow>
     om_ok (inflight_gauge m) \<and> om_ok (request_counter m) \<and> om_ok (duration m)
     \<and> (\<forall>model. inflight model m = int (length (filter (\<lambda>g. gd_model g = model) live)))
     \<and> (\<forall>key. at_or 0 key (request_counter m) = length (filter (\<lambda>e. guard_key (fst e) (fst (snd e)) = key) fin))
     \<and> (\<forall>model. at_or Histogram_new model (duration m) = hist_of (durations model fin))
     \<and> (\<forall>model. map_of (duration m) model \<noteq> None \<longrightarrow> durations model fin \<noteq> [])"

lemma filter_remove1_length:
  "g \<in> set live \<Longrightarrow> int (length (filter P (remove1 g live))) =
     int (length (filter P live)) - (if P g then 1 else 0)"
  by (induction live) auto

lemma metrics_ok_begin: "metrics_ok live fin m \<Longrightarrow> metrics_ok (g # live) fin (guard_begin g m)"
  by (auto simp: metrics_ok_def guard_begin_def inflight_def at_or_put)

lemma metrics_ok_end:
  assumes "metrics_ok live fin m" "g \<in> set live"
  shows "metrics_ok (remove1 g live) ((g, ok, secs) # fin) (guard_end g ok secs m)"
proof -
  have dur: "durations model ((g, ok, secs) # fin) =
      (if gd_model g = model then secs # durations model fin else durations model fin)" for model
    by (simp add: durations_def)
  have cons: "hist_of (x # xs) = observe x (hist_of xs)" for x xs by (simp add: hist_of_def)
  show ?thesis
    using assms(1) filter_remove1_length [OF assms(2)]
    by (auto simp: metrics_ok_def guard_end_def inflight_def at_or_put dur cons map_of_put
        simp del: split_paired_All)
qed

lemma mreach_ok: "mreach live fin m \<Longrightarrow> metrics_ok live fin m"
proof (induction rule: mreach.induct)
  case (mreach_new pre)
  then show ?case
    by (simp add: metrics_ok_def Metrics_new_def inflight_def at_or_def durations_def hist_of_def)
qed (simp_all add: metrics_ok_begin metrics_ok_end)

section \<open>Streaming to a client that stays\<close>

lemma write_unlimited: "pe_limit p = None \<Longrightarrow> write_all_fd d p = (True, p\<lparr>pe_sent := pe_sent p @ d\<rparr>)"
  by (simp add: write_all_fd_def)

definition frames :: "string list \<Rightarrow> string" where
  "frames cs = concat (map chunk_frame (filter (\<lambda>c. c \<noteq> []) cs))"

lemma chunk_sink_unlimited:
  "pe_limit p = None \<Longrightarrow> chunk_sink c p = (True, p\<lparr>pe_sent := pe_sent p @ frames [c]\<rparr>)"
  by (simp add: chunk_sink_def frames_def write_unlimited)

lemma concat_nonempty: "concat (filter (\<lambda>c. c \<noteq> []) cs) = concat cs"
  by (induction cs) simp_all

lemma unchunk_frames_all:
  "length cs < fuel \<Longrightarrow> unchunk fuel (frames cs @ last_chunk @ rest) = Some (concat cs, rest)"
proof -
  assume "length cs < fuel"
  then have "length (filter (\<lambda>c. c \<noteq> []) cs) < fuel" using length_filter_le [of "\<lambda>c. c \<noteq> []" cs] by linarith
  from unchunk_frames [OF _ this, of rest] show ?thesis
    by (simp add: frames_def concat_nonempty)
qed

text \<open>The messages of the items before the first that cannot be printed, and the exception of that.\<close>

primrec printed :: "('r \<Rightarrow> string res) \<Rightarrow> 'r Annotated list \<Rightarrow> SseMessage list \<times> exn option" where
  "printed dump [] = ([], None)"
| "printed dump (i # is) =
     (case sse_of dump i of Inl e \<Rightarrow> ([], Some e) | Inr m \<Rightarrow> map_prod ((#) m) id (printed dump is))"

text \<open>The exception that ends a response: that of printing an item, or that of the engine.\<close>

definition stream_exn :: "('r \<Rightarrow> string res) \<Rightarrow> 'r EngineStream \<Rightarrow> exn option" where
  "stream_exn dump out = (case snd (printed dump (fst out)) of Some e \<Rightarrow> Some e | None \<Rightarrow> snd out)"

lemma printed_all: "map (sse_of dump) items = map Inr ms \<Longrightarrow> printed dump items = (ms, None)"
  by (induction items arbitrary: ms) (auto simp: Cons_eq_map_conv map_eq_Cons_conv)

lemma stream_exn_Cons:
  "stream_exn dump (i # is, thr) =
     (case sse_of dump i of Inl e \<Rightarrow> Some e | Inr _ \<Rightarrow> stream_exn dump (is, thr))"
  by (simp add: stream_exn_def split: sum.split option.split)

lemma stream_loop_unlimited:
  "pe_limit p = None \<Longrightarrow>
   stream_loop dump rid chunk_sink thr items p st =
     (case stream_exn dump (items, thr) of Some e \<Rightarrow> Inl e | None \<Rightarrow> Inr True,
      p\<lparr>pe_sent := pe_sent p @ frames (map encode_sse (fst (printed dump items)))\<rparr>, st)"
proof (induction items arbitrary: p)
  case (Cons item items)
  show ?case
  proof (cases "sse_of dump item")
    case (Inl e)
    then show ?thesis by (simp add: frames_def stream_exn_Cons)
  next
    case (Inr m)
    with Cons show ?thesis by (simp add: chunk_sink_unlimited frames_def stream_exn_Cons)
  qed
qed (simp add: frames_def stream_exn_def)

definition event_head :: "bool \<Rightarrow> string" where
  "event_head keep_alive =
     response_head (\<lparr>rs_status = 200, rs_content_type = ''text/event-stream'',
        rs_headers = [(''Cache-Control'', ''no-cache'')], rs_body = [], rs_stream = None, rs_drop = id\<rparr>
        :: unit HttpResponse) keep_alive @ ''Transfer-Encoding: chunked'' @ crlf @ crlf"

definition begun :: "Guard \<Rightarrow> ServiceState \<Rightarrow> ServiceState" where
  "begun g st = st\<lparr>sv_metrics := guard_begin g (sv_metrics st)\<rparr>"

lemma write_stream_unlimited:
  assumes "run_openai_route de dump rid secs g (Inr (items, thr)) unary print st = (Inr resp, st1)"
    and "gd_streaming g" "pe_limit p = None"
  shows "write_response resp keep_alive p st1 =
    (case stream_exn dump (items, thr) of
       None \<Rightarrow> (Inr (), p\<lparr>pe_sent := pe_sent p @ event_head keep_alive
            @ frames (map encode_sse (fst (printed dump items)) @ [encode_sse_done]) @ last_chunk\<rparr>,
          end_request g True secs (begun g st))
     | Some e \<Rightarrow> (Inl e, p\<lparr>pe_sent := pe_sent p @ event_head keep_alive
            @ frames (map encode_sse (fst (printed dump items)))\<rparr>, end_request g False secs (begun g st)))"
proof -
  have resp: "resp = \<lparr>rs_status = 200, rs_content_type = ''text/event-stream'',
      rs_headers = [(''Cache-Control'', ''no-cache'')], rs_body = [],
      rs_stream = Some (stream_sse dump rid g secs (items, thr)), rs_drop = end_request g False secs\<rparr>"
    and st1: "st1 = begun g st"
    using assms(1,2) by (auto simp: run_openai_route_def Let_def begun_def)
  have app: "frames (cs @ [d]) = frames cs @ frames [d]" for cs d by (simp add: frames_def)
  define head where "head = event_head keep_alive"
  define p1 where "p1 = p\<lparr>pe_sent := pe_sent p @ head\<rparr>"
  have p1: "pe_limit p1 = None" "pe_sent p1 = pe_sent p @ head" "p1\<lparr>pe_sent := x\<rparr> = p\<lparr>pe_sent := x\<rparr>" for x
    using assms(3) by (simp_all add: p1_def)
  have "response_head resp keep_alive @ ''Transfer-Encoding: chunked'' @ crlf @ crlf = head"
    unfolding head_def event_head_def response_head_def resp by (simp only: HttpResponse.select_convs)
  then have w: "write_all_fd (response_head resp keep_alive @ ''Transfer-Encoding: chunked'' @ crlf @ crlf) p = (True, p1)"
    using assms(3) by (simp only: write_unlimited p1_def)
  have st: "rs_stream resp = Some (stream_sse dump rid g secs (items, thr))" unfolding resp by simp
  note run = stream_loop_unlimited [OF p1(1), of dump rid thr items st1]
  let ?p2 = "p1\<lparr>pe_sent := pe_sent p1 @ frames (map encode_sse (fst (printed dump items)))\<rparr>"
  have lim: "pe_limit ?p2 = None" using p1(1) by simp
  show ?thesis
  proof (cases "stream_exn dump (items, thr)")
    case None
    have "stream_sse dump rid g secs (items, thr) chunk_sink (p1, st1) =
        (Inr (), ?p2\<lparr>pe_sent := pe_sent ?p2 @ frames [encode_sse_done]\<rparr>, end_request g True secs st1)"
      using run None by (simp only: stream_sse_def fst_conv snd_conv option.case prod.case sum.case bool.case
        chunk_sink_unlimited [OF lim])
    then have "write_response resp keep_alive p st1 =
        (Inr (), snd (write_all_fd last_chunk (?p2\<lparr>pe_sent := pe_sent ?p2 @ frames [encode_sse_done]\<rparr>)), end_request g True secs st1)"
      unfolding write_response_def st w option.case prod.case bool.case by (simp only: prod.case sum.case)
    then show ?thesis unfolding None option.case using p1 assms(3)
      by (simp add: write_unlimited app st1 head_def)
  next
    case (Some e)
    have "stream_sse dump rid g secs (items, thr) chunk_sink (p1, st1) =
        (Inl e, ?p2, end_request g False secs st1)"
      using run Some by (simp only: stream_sse_def fst_conv snd_conv option.case prod.case sum.case)
    then have "write_response resp keep_alive p st1 = (Inl e, ?p2, end_request g False secs st1)"
      unfolding write_response_def st w option.case prod.case bool.case by (simp only: prod.case sum.case)
    then show ?thesis unfolding Some option.case using p1
      by (simp add: st1 head_def)
  qed
qed

section \<open>One count per request\<close>

definition counted_once :: "Guard \<Rightarrow> ServiceState \<Rightarrow> ServiceState \<Rightarrow> bool \<Rightarrow> bool" where
  "counted_once g st st' ok \<longleftrightarrow>
     (\<forall>model. inflight model (sv_metrics st') = inflight model (sv_metrics st))
     \<and> (\<forall>m e t s. request_count m e t s (sv_metrics st') =
          request_count m e t s (sv_metrics st) + (if (m, e, t, s) = guard_key g ok then 1 else 0))"

definition service_ok :: "ServiceState \<Rightarrow> bool" where
  "service_ok st \<longleftrightarrow> om_ok (inflight_gauge (sv_metrics st)) \<and> om_ok (request_counter (sv_metrics st))"

lemma counted_end:
  assumes "service_ok st"
  shows "counted_once g st (end_request g ok secs (begun g st)) ok"
  using assms
  by (auto simp: counted_once_def end_request_def begun_def guard_end_def guard_begin_def inflight_def
      request_count_def at_or_put service_ok_def)

lemma counted_stopped: "counted_once g st (x\<lparr>sv_stopped := y\<rparr>) ok \<longleftrightarrow> counted_once g st x ok"
  by (simp add: counted_once_def)

lemma end_request_stopped:
  "end_request g ok secs (st\<lparr>sv_stopped := y\<rparr>) = (end_request g ok secs st)\<lparr>sv_stopped := y\<rparr>"
  by (simp add: end_request_def)

lemma stream_loop_state:
  "stream_loop dump rid sink thr items p st = (res, p', st') \<Longrightarrow>
   st' = st \<or> (st' = st\<lparr>sv_stopped := sv_stopped st @ [rid]\<rparr> \<and> res = Inr False)"
  by (induction items arbitrary: p) (auto split: prod.splits bool.splits sum.splits)

lemma stream_sse_counted:
  assumes "service_ok st" "stream_sse dump rid g secs out sink (p, begun g st) = (res, p', st')"
  shows "\<exists>ok. counted_once g st st' ok"
proof -
  obtain v p1 st1 where run: "stream_loop dump rid sink (snd out) (fst out) p (begun g st) = (v, p1, st1)"
    by (metis prod.exhaust)
  from stream_loop_state [OF run] have "\<exists>ok. st' = end_request g ok secs st1"
    using assms(2) run by (auto simp: stream_sse_def split: sum.splits bool.splits)
  then obtain ok where ok: "st' = end_request g ok secs st1" by blast
  from stream_loop_state [OF run] counted_end [OF assms(1), of g ok secs] show ?thesis
    unfolding ok by (auto simp: end_request_stopped counted_stopped)
qed

text \<open>The response of the server: that of the handler, or the one for an exception of the handler.\<close>

definition answer_of :: "'s HttpResponse res \<Rightarrow> 's HttpResponse" where
  "answer_of result = (case result of Inr response \<Rightarrow> response
     | Inl _ \<Rightarrow> plain_response 500 ''application/json'' (error_body ''internal server error''))"

lemma answer_of_json_error: "rs_stream (answer_of (json_error de n msg)) = None"
  by (cases "de msg") (simp_all add: answer_of_def json_error_def plain_response_def)

lemma route_counted:
  assumes "service_ok st" "run_openai_route de dump rid secs g generated unary print st = (res, st1)"
    and "write_response (answer_of res) keep_alive p st1 = (w, p', st')"
  shows "\<exists>ok. counted_once g st st' ok"
proof (cases "\<exists>out. generated = Inr out \<and> gd_streaming g")
  case False
  have plain: "rs_stream (answer_of (Inr (plain_response n t b))) = None" for n t b
    by (simp add: answer_of_def plain_response_def)
  have "(\<exists>ok. st1 = end_request g ok secs (begun g st)) \<and> rs_stream (answer_of res) = None"
    using assms(2) False unfolding run_openai_route_def Let_def begun_def [symmetric]
    by (auto simp: answer_of_json_error plain split: sum.splits option.splits if_splits)
  then obtain ok where ok: "st1 = end_request g ok secs (begun g st)" and "rs_stream (answer_of res) = None" by blast
  moreover have "st' = st1" using assms(3) \<open>rs_stream (answer_of res) = None\<close> by (simp add: write_response_def)
  ultimately show ?thesis using counted_end [OF assms(1), of g ok secs] by auto
next
  case True
  then obtain out where out: "generated = Inr out" "gd_streaming g" by blast
  define resp where "resp = answer_of res"
  have resp: "rs_stream resp = Some (stream_sse dump rid g secs out)" "rs_drop resp = end_request g False secs"
    "st1 = begun g st"
    using assms(2) out by (auto simp: resp_def answer_of_def run_openai_route_def Let_def begun_def)
  note w = assms(3) [folded resp_def]
  obtain b p1 where head: "write_all_fd (response_head resp keep_alive @ ''Transfer-Encoding: chunked'' @ crlf @ crlf) p = (b, p1)"
    by (metis prod.exhaust)
  obtain v p2 st2 where str: "stream_sse dump rid g secs out chunk_sink (p1, st1) = (v, p2, st2)" by (metis prod.exhaust)
  show ?thesis
  proof (cases b)
    case True
    with w resp head str have "st' = st2"
      by (auto simp: write_response_def split: sum.splits)
    with stream_sse_counted [OF assms(1), of dump rid g secs out chunk_sink p1 v p2 st2] str resp(3)
    show ?thesis by simp
  next
    case False
    with w resp head have "st' = end_request g False secs (begun g st)"
      by (simp add: write_response_def)
    with counted_end [OF assms(1)] show ?thesis by blast
  qed
qed

section \<open>The chat route\<close>

lemma chat_route:
  assumes "enable_chat_endpoints opts"
  shows "map_of (service_routes opts cfg) ''POST /v1/chat/completions'' = Some (handle_chat cfg)"
  using assms by (simp add: service_routes_def handle_route_def Let_def)

definition chat_guard :: "'j ChatRequest \<Rightarrow> Guard" where
  "chat_guard r =
     \<lparr>gd_model = cr_model r, gd_endpoint = ''chat_completions'', gd_streaming = (cr_stream r = Some True)\<rparr>"

definition is_chat_post :: "HttpRequest \<Rightarrow> bool" where
  "is_chat_post rq \<longleftrightarrow> rq_method rq = ''POST'' \<and> rq_path rq = ''/v1/chat/completions''"

lemma dispatch_chat:
  assumes "enable_chat_endpoints opts" "is_chat_post rq" "handle_chat cfg rq st = (res, st1)"
    "write_response (answer_of res) keep_alive p st1 = (w, p', st')"
  shows "route_request (service_routes opts cfg) rq keep_alive p st =
    ((case w of Inl e \<Rightarrow> Inl e | Inr _ \<Rightarrow> Inr keep_alive), p', st')"
  using assms chat_route [OF assms(1), of cfg]
  by (cases w) (simp_all add: route_request_def is_chat_post_def answer_of_def [symmetric])

lemma handle_chat_run:
  assumes "sf_parse_chat cfg (rq_body rq) = Inr request"
    and "get_chat_engine (cr_model request) (sf_models cfg) = Some engine"
  shows "handle_chat cfg rq st =
    run_openai_route (sf_dump_error cfg) (sf_dump_chunk cfg) (sf_request_id cfg) (sf_seconds cfg) (chat_guard request)
      (engine (request\<lparr>cr_stream := Some True\<rparr>)) (chat_unary_body cfg) (sf_dump_chat cfg) st"
  using assms by (simp add: handle_chat_def chat_guard_def)

lemma streaming_route_Inr:
  "gd_streaming g \<Longrightarrow> \<exists>resp st1. run_openai_route de dump rid secs g (Inr out) unary print st = (Inr resp, st1)"
  by (simp add: run_openai_route_def Let_def)

text \<open>A response that cannot be printed is answered with an error and counted as a success.\<close>

lemma unprintable_response_counted_ok:
  assumes "\<not> gd_streaming g" "unary items = Inr response" "print response = Inl e"
  shows "run_openai_route de dump rid secs g (Inr (items, None)) unary print st =
    (json_error de 500 (''Failed to fold response stream: '' @ what e), end_request g True secs (begun g st))"
  using assms by (simp add: run_openai_route_def Let_def begun_def)

section \<open>Properties\<close>

text \<open>C38.  The metrics account for every request. After any sequence of requests that begin and end,
  in any interleaving, the in-flight gauge of a model is the number of its live requests, a
  request counter is the number of ended requests with its four labels, and the histogram of a
  model counts its ended requests, sums their durations, and the cumulative count of a bucket is
  the number of durations up to its bound.
\<close>

theorem metrics_account:
  assumes "mreach live fin m"
  shows "inflight model m = int (length (filter (\<lambda>g. gd_model g = model) live))
    \<and> request_count model endpoint type status m =
        length (filter (\<lambda>(g, ok, _). guard_key g ok = (model, endpoint, type, status)) fin)
    \<and> (case map_of (duration m) model of
         None \<Rightarrow> durations model fin = []
       | Some h \<Rightarrow> hist_count h = length (durations model fin) \<and> hist_sum h = sum_list (durations model fin)
           \<and> (\<forall>i\<in>{..<length buckets}. sum_list (take (Suc i) (bucket_counts h)) =
                length (filter (\<lambda>x. x \<le> buckets ! i) (durations model fin))))"
proof -
  from mreach_ok [OF assms] have ok: "inflight model m = int (length (filter (\<lambda>g. gd_model g = model) live))"
    "at_or 0 (model, endpoint, type, status) (request_counter m) =
      length (filter (\<lambda>e. guard_key (fst e) (fst (snd e)) = (model, endpoint, type, status)) fin)"
    "at_or Histogram_new model (duration m) = hist_of (durations model fin)"
    "map_of (duration m) model \<noteq> None \<Longrightarrow> durations model fin \<noteq> []"
    by (auto simp: metrics_ok_def)
  note counts = hist_of_counts [of "durations model fin"]
  have "case map_of (duration m) model of None \<Rightarrow> durations model fin = []
      | Some h \<Rightarrow> hist_count h = length (durations model fin) \<and> hist_sum h = sum_list (durations model fin)
           \<and> (\<forall>i\<in>{..<length buckets}. sum_list (take (Suc i) (bucket_counts h)) =
                length (filter (\<lambda>x. x \<le> buckets ! i) (durations model fin)))"
  proof (cases "map_of (duration m) model")
    case None
    with ok(3) have "hist_count (hist_of (durations model fin)) = 0" by (simp add: at_or_def Histogram_new_def flip: ok(3))
    with counts None show ?thesis by simp
  next
    case (Some h)
    with ok(3,4) have "hist_of (durations model fin) = h" "durations model fin \<noteq> []" by (simp_all add: at_or_def)
    with counts Some show ?thesis by simp
  qed
  with ok(1,2) show ?thesis by (simp add: request_count_def split_def)
qed

theorem metrics_account_witness:
  "inflight ''m'' (guard_end \<lparr>gd_model = ''m'', gd_endpoint = ''e'', gd_streaming = False\<rparr> True 3
     (guard_begin \<lparr>gd_model = ''m'', gd_endpoint = ''e'', gd_streaming = False\<rparr> (Metrics_new []))) = 0
   \<and> request_count ''m'' ''e'' ''unary'' ''success''
      (guard_end \<lparr>gd_model = ''m'', gd_endpoint = ''e'', gd_streaming = False\<rparr> True 3
        (guard_begin \<lparr>gd_model = ''m'', gd_endpoint = ''e'', gd_streaming = False\<rparr> (Metrics_new []))) = 1"
proof -
  define g where "g = \<lparr>gd_model = ''m'', gd_endpoint = ''e'', gd_streaming = False\<rparr>"
  have "mreach (remove1 g [g]) [(g, True, 3)] (guard_end g True 3 (guard_begin g (Metrics_new [])))"
    by (intro mreach.intros) simp
  from metrics_account [OF this, of "''m''" "''e''" "''unary''" "''success''"]
  show ?thesis unfolding g_def [symmetric] by (simp add: g_def guard_key_def)
qed

text \<open>C36.  Every chat request is counted exactly once. Whatever the engine does (refuse, throw in the
  middle of its stream, report an error), whether or not what it yields can be printed, whether the client asked for a stream or not, and at
  whatever byte the client goes away, when the server is done with a parsed request for a
  registered model the in-flight gauges are what they were before, and exactly one request
  counter grew, by one, with the model, endpoint and type of the request.
\<close>

theorem request_counted_once:
  assumes "service_ok st" "enable_chat_endpoints opts" "is_chat_post rq"
    and "sf_parse_chat cfg (rq_body rq) = Inr request"
    and "get_chat_engine (cr_model request) (sf_models cfg) = Some engine"
    and "route_request (service_routes opts cfg) rq keep_alive p st = (res, p', st')"
  shows "\<exists>status\<in>{''success'', ''error''}.
    (\<forall>model. inflight model (sv_metrics st') = inflight model (sv_metrics st))
    \<and> (\<forall>m e t s. request_count m e t s (sv_metrics st') = request_count m e t s (sv_metrics st)
         + (if (m, e, t, s) = (cr_model request, ''chat_completions'',
              if cr_stream request = Some True then ''stream'' else ''unary'', status) then 1 else 0))"
proof -
  obtain answer st1 where run: "handle_chat cfg rq st = (answer, st1)" by (metis prod.exhaust)
  obtain w p1 st2 where w: "write_response (answer_of answer) keep_alive p st1 = (w, p1, st2)" by (metis prod.exhaust)
  from dispatch_chat [OF assms(2,3) run w] assms(6) have "st' = st2" by simp
  with route_counted [OF assms(1) run [unfolded handle_chat_run [OF assms(4,5)]] w]
  obtain ok where "counted_once (chat_guard request) st st' ok" by blast
  then show ?thesis
    by (intro bexI [of _ "if ok then ''success'' else ''error''"])
      (auto simp: counted_once_def guard_key_def chat_guard_def)
qed

text \<open>A service with one model, whose engine yields the given stream.\<close>

definition demo_service :: "bool \<Rightarrow> nat ChatChunk EngineStream \<Rightarrow> nat ServiceConfig" where
  "demo_service streaming out =
     \<lparr>sf_parse_chat = \<lambda>_. Inr ((demo_chat ''hi'')\<lparr>cr_stream := Some streaming\<rparr>),
      sf_parse_completion = \<lambda>_. Inl (RuntimeError []), sf_dump_error = Inr, sf_dump_chunk = Inr \<circ> ck_id,
      sf_dump_chat = Inr \<circ> re_id, sf_dump_completion = Inr \<circ> pk_id, sf_dump_models = \<lambda>_ _. Inr [], sf_show_real = \<lambda>_. [],
      sf_chat_iter = id, sf_completion_iter = id,
      sf_models = add_chat_model ''m'' (\<lambda>_. Inr out) ModelManager_new,
      sf_request_id = ''r'', sf_seconds = 1, sf_now = 0\<rparr>"

definition demo_state :: ServiceState where
  "demo_state = \<lparr>sv_metrics = Metrics_new ''nv_llm'', sv_stopped = []\<rparr>"

definition demo_post :: HttpRequest where
  "demo_post = \<lparr>rq_method = ''POST'', rq_target = ''/v1/chat/completions'', rq_path = ''/v1/chat/completions'',
     rq_headers = Map.empty, rq_body = ''{}''\<rparr>"

lemma demo_service_facts:
  "is_chat_post demo_post" "service_ok demo_state"
  "sf_parse_chat (demo_service b out) (rq_body demo_post) = Inr ((demo_chat ''hi'')\<lparr>cr_stream := Some b\<rparr>)"
  "get_chat_engine ''m'' (sf_models (demo_service b out)) = Some (\<lambda>_. Inr out)"
  "cr_model ((demo_chat ''hi'')\<lparr>cr_stream := Some b\<rparr>) = ''m''"
  by (simp_all add: demo_post_def is_chat_post_def demo_state_def service_ok_def Metrics_new_def demo_service_def
      get_chat_engine_def add_chat_model_def ModelManager_new_def demo_chat_def)

theorem request_counted_once_witness:
  "\<exists>status\<in>{''success'', ''error''}.
    request_count ''m'' ''chat_completions'' ''stream'' status
      (sv_metrics (snd (snd (route_request
        (service_routes \<lparr>enable_chat_endpoints = True, enable_completion_endpoints = True\<rparr>
          (demo_service True ([], Some (RuntimeError ''boom'')))) demo_post True
        \<lparr>pe_sent = [], pe_limit = Some 3\<rparr> demo_state)))) = 1"
proof -
  obtain res p' st' where d: "route_request
        (service_routes \<lparr>enable_chat_endpoints = True, enable_completion_endpoints = True\<rparr>
          (demo_service True ([], Some (RuntimeError ''boom'')))) demo_post True
        \<lparr>pe_sent = [], pe_limit = Some 3\<rparr> demo_state = (res, p', st')" by (metis prod.exhaust)
  note f = demo_service_facts
  have "get_chat_engine (cr_model ((demo_chat ''hi'')\<lparr>cr_stream := Some True\<rparr>))
      (sf_models (demo_service True ([], Some (RuntimeError ''boom'')))) = Some (\<lambda>_. Inr ([], Some (RuntimeError ''boom'')))"
    unfolding f(5) by (rule f(4))
  from request_counted_once [OF f(2) _ f(1) f(3) this d] obtain status where
    status: "status \<in> {''success'', ''error''}"
    and all: "\<forall>m e t s. request_count m e t s (sv_metrics st') = request_count m e t s (sv_metrics demo_state)
      + (if (m, e, t, s) = (cr_model ((demo_chat ''hi'')\<lparr>cr_stream := Some True\<rparr>), ''chat_completions'',
           if cr_stream ((demo_chat ''hi'')\<lparr>cr_stream := Some True\<rparr>) = Some True then ''stream'' else ''unary'', status)
         then 1 else 0)" by auto
  from all [rule_format, of "''m''" "''chat_completions''" "''stream''" status]
  have "request_count ''m'' ''chat_completions'' ''stream'' status (sv_metrics st') = 1"
    unfolding f(5) by (simp add: demo_state_def Metrics_new_def request_count_def at_or_def)
  with status show ?thesis unfolding d by auto
qed

text \<open>C37.  A streamed response carries the engine's items. For a chat request with \<open>stream\<close> set, an
  engine whose stream ends normally with items that can be printed and whose comments, events and
  identifiers are single lines, and a client that keeps reading: after the response head, decoding
  the chunked body and feeding it to the event decoder, in whatever segments, gives what the event
  format carries of the items, in order, and exactly the items when they survive the format
  (no empty fields or outer blanks, no sentinel as a line of the JSON text); nothing else is on the
  wire before the next response; the request counts as a success and the engine is not told to stop.
\<close>

theorem event_stream_delivered:
  assumes "service_ok st" "enable_chat_endpoints opts" "is_chat_post rq" "pe_limit p = None"
    and "sf_parse_chat cfg (rq_body rq) = Inr request" "cr_stream request = Some True"
    and "get_chat_engine (cr_model request) (sf_models cfg) = Some engine"
    and "engine (request\<lparr>cr_stream := Some True\<rparr>) = Inr (items, None)"
    and "map (sse_of (sf_dump_chunk cfg)) items = map Inr ms" "list_all field_lines ms"
    and "route_request (service_routes opts cfg) rq keep_alive p st = (res, p', st')"
  shows "res = Inr keep_alive \<and> sv_stopped st' = sv_stopped st
    \<and> (\<exists>body payload. pe_sent p' = pe_sent p @ event_head keep_alive @ body
        \<and> (\<forall>next_response. unchunk (length items + 2) (body @ next_response) = Some (payload, next_response))
        \<and> (\<forall>segments. concat segments = payload \<longrightarrow>
             feed_all new_decoder segments = (delivered_messages ms, new_decoder)
             \<and> (list_all encodable ms \<longrightarrow> feed_all new_decoder segments = (ms, new_decoder))))
    \<and> request_count (cr_model request) ''chat_completions'' ''stream'' ''success'' (sv_metrics st') =
        request_count (cr_model request) ''chat_completions'' ''stream'' ''success'' (sv_metrics st) + 1"
proof -
  define cs where "cs = map encode_sse ms @ [encode_sse_done]"
  let ?g = "chat_guard request"
  have g: "gd_streaming ?g" using assms(6) by (simp add: chat_guard_def)
  note printed = printed_all [OF assms(9)]
  obtain resp st1 where run: "handle_chat cfg rq st = (Inr resp, st1)"
    unfolding handle_chat_run [OF assms(5,7)] assms(8) using streaming_route_Inr [OF g] by blast
  have w: "write_response (answer_of (Inr resp)) keep_alive p st1 =
      (Inr (), p\<lparr>pe_sent := pe_sent p @ event_head keep_alive @ frames cs @ last_chunk\<rparr>,
       end_request ?g True (sf_seconds cfg) (begun ?g st))"
    using write_stream_unlimited [OF run [unfolded handle_chat_run [OF assms(5,7)] assms(8)] g assms(4), of keep_alive]
    by (simp add: cs_def printed stream_exn_def answer_of_def)
  from dispatch_chat [OF assms(2,3) run w] assms(11)
  have out: "res = Inr keep_alive" "p' = p\<lparr>pe_sent := pe_sent p @ event_head keep_alive @ frames cs @ last_chunk\<rparr>"
    "st' = end_request ?g True (sf_seconds cfg) (begun ?g st)" by simp_all
  have "length ms = length items" using arg_cong [OF assms(9), of length] by simp
  then have dec: "unchunk (length items + 2) ((frames cs @ last_chunk) @ r) = Some (concat cs, r)" for r
    using unchunk_frames_all [of cs "length items + 2" r] by (simp add: cs_def)
  have sse: "feed_all new_decoder segs = (delivered_messages ms, new_decoder)
      \<and> (list_all encodable ms \<longrightarrow> feed_all new_decoder segs = (ms, new_decoder))" if "concat segs = concat cs" for segs
    using feed_stream [OF assms(10), of segs] delivered_encodable [of ms] that by (simp add: cs_def)
  have "sv_stopped st' = sv_stopped st" by (simp add: out(3) end_request_def begun_def)
  moreover have "request_count (cr_model request) ''chat_completions'' ''stream'' ''success'' (sv_metrics st') =
        request_count (cr_model request) ''chat_completions'' ''stream'' ''success'' (sv_metrics st) + 1"
    using counted_end [OF assms(1), of ?g True "sf_seconds cfg"] assms(6)
    by (simp add: out(3) counted_once_def guard_key_def chat_guard_def)
  moreover have "\<exists>body payload. pe_sent p' = pe_sent p @ event_head keep_alive @ body
      \<and> (\<forall>next_response. unchunk (length items + 2) (body @ next_response) = Some (payload, next_response))
      \<and> (\<forall>segments. concat segments = payload \<longrightarrow>
           feed_all new_decoder segments = (delivered_messages ms, new_decoder)
           \<and> (list_all encodable ms \<longrightarrow> feed_all new_decoder segments = (ms, new_decoder)))"
    by (rule exI [of _ "frames cs @ last_chunk"], rule exI [of _ "concat cs"]) (intro conjI allI impI, use out(2) in simp, rule dec,
        use sse in blast, use sse in blast)
  ultimately show ?thesis using out(1) by blast
qed

definition demo_chunk :: "nat ChatChunk" where
  "demo_chunk = \<lparr>ck_id = ''x'', ck_choices = [], ck_created = 0, ck_model = ''m'', ck_object = [],
     ck_usage = None, ck_system_fingerprint = None, ck_service_tier = None\<rparr>"

theorem event_stream_delivered_witness:
  "fst (route_request (service_routes \<lparr>enable_chat_endpoints = True, enable_completion_endpoints = True\<rparr>
      (demo_service True ([an_from_data demo_chunk], None)))
      demo_post True \<lparr>pe_sent = [], pe_limit = None\<rparr> demo_state) = Inr True"
proof -
  define cfg where "cfg = demo_service True ([an_from_data demo_chunk], None)"
  obtain res p' st' where d: "route_request (service_routes
        \<lparr>enable_chat_endpoints = True, enable_completion_endpoints = True\<rparr> cfg) demo_post True
      \<lparr>pe_sent = [], pe_limit = None\<rparr> demo_state = (res, p', st')" by (metis prod.exhaust)
  note f = demo_service_facts
  have eng: "get_chat_engine (cr_model ((demo_chat ''hi'')\<lparr>cr_stream := Some True\<rparr>)) (sf_models cfg) =
      Some (\<lambda>_. Inr ([an_from_data demo_chunk], None))"
    unfolding f(5) cfg_def by (rule f(4))
  let ?m = "\<lparr>m_id = None, m_event = None, m_data = Some ''x'', m_comments = None\<rparr>"
  have enc: "map (sse_of (sf_dump_chunk cfg)) [an_from_data demo_chunk] = map Inr [?m]"
    by (simp add: cfg_def demo_service_def sse_of_def an_from_data_def demo_chunk_def)
  have lines: "list_all field_lines [?m]" by code_simp
  have "res = Inr True"
    using event_stream_delivered [OF f(2) _ f(1) _ f(3) [of True "([an_from_data demo_chunk], None)", folded cfg_def] _ eng refl enc lines d]
    by simp
  with d show ?thesis by (simp add: cfg_def)
qed

text \<open>C39.  An exception in a stream is not contained. Let the engine's stream throw after some items,
  or yield an item that cannot be printed, for a chat request with \<open>stream\<close> set that arrives on a connection in any segments, with a
  client that keeps reading. The exception leaves the loop that serves the connection, the
  function of its thread; the items before it are on the wire but the body has no last chunk, so
  the client cannot take the response for complete.
\<close>

theorem stream_failure_escapes:
  assumes "enable_chat_endpoints opts" "pe_limit p = None" "\<not> stopping k"
    and "request_ok ''POST'' ''/v1/chat/completions'' headers body"
    and "lr_bytes r = print_request ''POST'' ''/v1/chat/completions'' headers body @ rest"
    and "sf_parse_chat cfg body = Inr request" "cr_stream request = Some True"
    and "get_chat_engine (cr_model request) (sf_models cfg) = Some engine"
    and "engine (request\<lparr>cr_stream := Some True\<rparr>) = Inr (items, thr)"
    and "stream_exn (sf_dump_chunk cfg) (items, thr) = Some e"
  shows "\<exists>p' st'. serve_connection (Suc fuel) stopping k (service_routes opts cfg) r p st = Some (Inl e, p', st')
    \<and> pe_sent p' = pe_sent p
        @ event_head (keep_alive_of (header_map (headers @ [(''Content-Length'', dec_nat (length body))])))
        @ frames (map encode_sse (fst (printed (sf_dump_chunk cfg) items)))"
proof -
  define rq where "rq = parsed_request ''POST'' ''/v1/chat/completions'' headers body"
  have path: "takeWhile (\<lambda>c. c \<noteq> CHR ''?'') ''/v1/chat/completions'' = ''/v1/chat/completions''" by code_simp
  have rq: "is_chat_post rq" "rq_body rq = body"
    "rq_headers rq = header_map (headers @ [(''Content-Length'', dec_nat (length body))])"
    by (simp_all add: rq_def parsed_request_def is_chat_post_def path)
  let ?ka = "keep_alive_of (rq_headers rq)" and ?g = "chat_guard request"
  from handle_one_printed [OF assms(4,5), of "service_routes opts cfg" p st] obtain r' where
    one: "handle_one (service_routes opts cfg) r p st = (route_request (service_routes opts cfg) rq ?ka p st, r')"
    unfolding rq_def by blast
  have g: "gd_streaming ?g" using assms(7) by (simp add: chat_guard_def)
  have parse: "sf_parse_chat cfg (rq_body rq) = Inr request" using assms(6) rq(2) by simp
  obtain resp st1 where run: "handle_chat cfg rq st = (Inr resp, st1)"
    unfolding handle_chat_run [OF parse assms(8)] assms(9) using streaming_route_Inr [OF g] by blast
  have w: "write_response (answer_of (Inr resp)) ?ka p st1 =
      (Inl e, p\<lparr>pe_sent := pe_sent p @ event_head ?ka
        @ frames (map encode_sse (fst (printed (sf_dump_chunk cfg) items)))\<rparr>,
       end_request ?g False (sf_seconds cfg) (begun ?g st))"
    using write_stream_unlimited [OF run [unfolded handle_chat_run [OF parse assms(8)] assms(9)] g assms(2), of ?ka] assms(10)
    by (simp add: answer_of_def)
  from dispatch_chat [OF assms(1) rq(1) run w] one assms(3) show ?thesis by (simp add: rq(3))
qed

theorem stream_failure_escapes_witness:
  "\<exists>p' st'. serve_connection 1 (\<lambda>_. False) 0
      (service_routes \<lparr>enable_chat_endpoints = True, enable_completion_endpoints = True\<rparr>
        (demo_service True ([], Some (RuntimeError ''unknown token id''))))
      \<lparr>lr_buf = [], lr_recv = [print_request ''POST'' ''/v1/chat/completions'' [] ''{}'']\<rparr>
      \<lparr>pe_sent = [], pe_limit = None\<rparr> demo_state = Some (Inl (RuntimeError ''unknown token id''), p', st')"
proof -
  note f = demo_service_facts
  have "CHR '' '' \<notin> set ''POST''" "nl \<notin> set ''POST''" "nl \<notin> set ''/v1/chat/completions''" by code_simp+
  then have ok: "request_ok ''POST'' ''/v1/chat/completions'' [] ''{}''"
    by (simp add: request_ok_def kMaxHeaderBytes_def kMaxBodyBytes_def)
  have bytes: "lr_bytes \<lparr>lr_buf = [], lr_recv = [print_request ''POST'' ''/v1/chat/completions'' [] ''{}'']\<rparr> =
      print_request ''POST'' ''/v1/chat/completions'' [] ''{}'' @ []"
    by (simp add: lr_bytes_def print_request_def)
  have parse: "sf_parse_chat (demo_service True ([], Some (RuntimeError ''unknown token id''))) ''{}'' =
      Inr ((demo_chat ''hi'')\<lparr>cr_stream := Some True\<rparr>)" by (simp add: demo_service_def)
  have eng: "get_chat_engine (cr_model ((demo_chat ''hi'')\<lparr>cr_stream := Some True\<rparr>))
      (sf_models (demo_service True ([], Some (RuntimeError ''unknown token id'')))) =
      Some (\<lambda>_. Inr ([], Some (RuntimeError ''unknown token id'')))"
    unfolding f(5) by (rule f(4))
  have exn: "stream_exn (sf_dump_chunk (demo_service True ([], Some (RuntimeError ''unknown token id''))))
      ([], Some (RuntimeError ''unknown token id'')) = Some (RuntimeError ''unknown token id'')"
    by (simp add: stream_exn_def)
  show ?thesis
    using stream_failure_escapes [OF _ _ _ ok bytes parse _ eng refl exn,
        of "\<lparr>enable_chat_endpoints = True, enable_completion_endpoints = True\<rparr>"
          "\<lparr>pe_sent = [], pe_limit = None\<rparr>" "\<lambda>_. False" 0 0 demo_state]
    by auto
qed

end
