(* ===== verification/Spec2Isabelle.thy ===== *)
theory Spec2Isabelle
  imports Codec Scheduler Manager InProcess Tcp Layer Signals Executor Ingress ControlPlane Service
begin

text \<open>
  Verification of dynamo-cpp, a C++ runtime for distributed inference: components register
  endpoints in a discovery store, clients find instances and call them over a control plane, and
  responses stream back over a data plane; on top of it a router for KV caches, block pools,
  tensors and the text side of a language model service.  All source paths below are relative to
  \<^verbatim>\<open>src/src/\<close>.

  \<^bold>\<open>Conventions.\<close>  A \<open>std::string\<close> is a \<open>string\<close> of bytes.  Integers are words where
  wrap-around matters and \<open>nat\<close> or \<open>int\<close> elsewhere; \<open>float\<close> and \<open>double\<close> are \<open>real\<close>, without
  rounding.  Exceptions are values of \<open>exn\<close> in
  \<open>'a res\<close>; an operation with state returns its result and the new state.  An operation under
  a mutex is one step; interleavings are sequences of steps or inductive relations; an operation
  that would block has no step.  Clocks, random numbers, sockets, the JSON library, the hash
  function, engines and tokenizer models are arguments, and what is needed of them is a hypothesis
  with a witness.  Printing JSON throws on text that is not valid UTF-8: the printers of what an engine
  or a client supplied return a result, and their exceptions go where the code lets them go.  \<open>Prelude\<close> holds this vocabulary.

  \<^bold>\<open>Transport.\<close>
  \<^item> \<open>Codec\<close> (\<^verbatim>\<open>transports/codec\<close>, framing in \<^verbatim>\<open>transports/socket.cpp\<close>): frames of a header and a
    body with 64-bit length fields.  Decoding inverts encoding, accepted frames are canonical when
    the lengths do not wrap, and a sequence of written frames is read back.
  \<^item> \<open>ControlPlane\<close> (\<^verbatim>\<open>transports/control_plane.cpp\<close>, \<^verbatim>\<open>transports/auth.cpp\<close>, \<open>serve_impl\<close> of
    \<^verbatim>\<open>component/serve.h\<close>): handler tables, the request loop, the connection pool with its retry,
    authentication, and the registration of an endpoint.
  \<^item> \<open>DataPlane\<close> (\<^verbatim>\<open>transports/data_plane.cpp\<close>, \<^verbatim>\<open>transports/wire.h\<close>): pending streams, the handshake of
    a worker and the relay loop.  Sends of arrivals never block; the client receives a prefix of the
    data, all of it when the stream finished.
  \<^item> \<open>Ingress\<close> (\<open>StreamSender\<close>, \<open>EngineIngress\<close> of \<^verbatim>\<open>component/serve.h\<close>, calls of
    \<^verbatim>\<open>component/client.h\<close>): both ends of a remote call, composed with the data plane, with what becomes of
    items and error messages that cannot be printed.

  \<^bold>\<open>Discovery and components.\<close>
  \<^item> \<open>Kvmap\<close>: ordered maps, watch events and the interface \<open>watchable\<close> of a store that reports its
    changes.
  \<^item> \<open>InProcess\<close> (\<^verbatim>\<open>discovery/in_process.cpp\<close>): leases, keys, watches, events and work queues.
  \<^item> \<open>Server\<close> and \<open>Tcp\<close> (\<^verbatim>\<open>discovery/server.cpp\<close>, \<^verbatim>\<open>discovery/tcp.cpp\<close>): the same service over a
    connection, with its event log, resynchronisation after a lost connection, and keep-alive.
    \<open>watch_life\<close> is the history of a watch over any number of connections.
    Both stores interpret \<open>watchable\<close>.
  \<^item> \<open>Endpoint\<close> (\<^verbatim>\<open>component/info.h\<close>, \<^verbatim>\<open>component/distributed_runtime.cpp\<close>, routing in
    \<^verbatim>\<open>component/client.h\<close>): names, keys and subjects, the live set of instances and its waiters.

  \<^bold>\<open>Runtime.\<close>
  \<^item> \<open>Channel\<close> (\<^verbatim>\<open>runtime/coro/channel.h\<close>): bounded channels with parked receivers; the interface
    \<open>fifo_channel\<close> is interpreted on the channel and on the queue of the thread pool.
  \<^item> \<open>Signals\<close> (\<^verbatim>\<open>runtime/coro/event.h\<close>, \<^verbatim>\<open>runtime/cancellation.cpp\<close>, \<open>Controller\<close> of
    \<^verbatim>\<open>pipeline/engine.h\<close>): one-shot events, trees of cancellation tokens, stop and kill.
  \<^item> \<open>Executor\<close> (\<^verbatim>\<open>runtime/timer.cpp\<close>, \<^verbatim>\<open>runtime/executor.cpp\<close>, \<^verbatim>\<open>runtime/coro/utils.h\<close>, contexts of
    \<^verbatim>\<open>pipeline/engine.h\<close>): timers, the work queue, task tracking, object pools, request contexts.

  \<^bold>\<open>KV cache.\<close>
  \<^item> \<open>Tokens\<close> (\<^verbatim>\<open>llm/tokens\<close>): token sequences as hashed, chained blocks.
  \<^item> \<open>Radix\<close>, \<open>Scheduler\<close> (\<^verbatim>\<open>llm/kv_router\<close>): the prefix index of the router, with its 32-bit scores, and
    the choice of a worker.
  \<^item> \<open>Reuse\<close>, \<open>Manager\<close> (\<^verbatim>\<open>llm/kv\<close>): the pool of reusable blocks and the storage manager.
  \<^item> \<open>Tensor\<close>, \<open>Layer\<close> (\<^verbatim>\<open>llm/kv\<close>): tensor views over slabs, layers and block copies.

  \<^bold>\<open>Text.\<close>
  \<^item> \<open>Sse\<close> (\<^verbatim>\<open>llm/protocols/sse.cpp\<close>): Server-Sent Events, encoder and incremental decoder;
    \<open>received\<close> is what the line format carries of a message.
  \<^item> \<open>Tokenizers\<close> (\<^verbatim>\<open>llm/tokenizers.cpp\<close>): incremental detokenization and stop sequences.
  \<^item> \<open>Backend\<close> (\<^verbatim>\<open>llm/backend.cpp\<close>): the decoder that holds back possible stop text; it releases what
    the reference \<open>cut_at_stop\<close> gives on the whole decoded text.
  \<^item> \<open>Openai\<close> (\<^verbatim>\<open>llm/protocols/openai\<close>, sampling options of \<^verbatim>\<open>llm/protocols/common.h\<close>): requests and
    responses, validation of the sampling and stop fields, the generators of stream deltas and the
    aggregators that fold a stream into one response.  The aggregated choices are the content of
    the stream per index, whatever order the chunks interleave in.  Token counts are 32-bit.
  \<^item> \<open>Preprocessor\<close> (\<^verbatim>\<open>llm/preprocessor\<close>, \<^verbatim>\<open>llm/engines.cpp\<close>): prompts, the backend input, annotations
    and the conversion of the backend's stream into a stream of the protocol, for chat and
    completions as two interpretations of \<open>delta_protocol\<close>; the echo engine.  The unary response is
    the aggregate of the stream, and an engine error is reported in both.
  \<^item> \<open>Http\<close> (\<^verbatim>\<open>llm/http/http_server\<close>): the line reader over the segments of a socket, request parsing,
    routing, plain and chunked responses, and the loop that serves a connection.  A printed request
    is parsed back however it is segmented, and a connection is served to its end.
  \<^item> \<open>Service\<close> (\<^verbatim>\<open>llm/http/service\<close>): the table of models, the metrics with their in-flight guards, and
    the routes of the service.  The metrics account for every guard, a request is counted once, a
    streamed answer is the encoded events, and an exception of a stream, or of printing one of its
    items, leaves the connection loop.

  The last section below composes the four: the bytes of a chat request to the bytes of its answer.

  \<^bold>\<open>Bounds and fuel.\<close>  Two loops that end only when the peer stops sending take fuel: the loop that
  reads frames, \<open>Codec.read_all\<close>, and the one that serves a connection, \<open>Http.serve_connection\<close>.
  Fuel above the number of bytes still to be received is enough, since every round but the last
  consumes at least one: then the result of the first does not depend on the fuel and the second
  returns.  The other loops are structural or
  carry a termination proof, and the one loop whose end depends on the data in another way is a
  partial function into \<open>option\<close> that is proved to return on every input.  The reference decoder
  \<open>unchunk\<close> of statements about chunked bodies takes fuel as well; it is not part of the code.
  Bounds in statements are the ones of the code (capacities, 64-bit counters, size limits): a score of
  the index is exact below \<open>2\<close> to the \<open>32\<close> blocks, and the total of prompt and completion tokens of an
  echoed prompt below \<open>2\<close> to the \<open>30\<close> bytes.

  \<^bold>\<open>Not modelled.\<close>  The coroutine types (\<open>Task\<close>, \<open>AsyncGenerator\<close>, \<open>sync_wait\<close>) are language
  machinery without data of their own.  Threads, accept loops, process signals, configuration from
  the environment and logging have no state the theorems could be about.  TLS, etcd, CUDA kernels
  and the template engine of prompts are calls of external libraries; rendering is a function of
  the preprocessor's record.  The conversion of structures to and from JSON is field-by-field use of
  a library; the service takes the conversions as fields of its configuration.  Model cards and the
  model watcher read files and JSON.  The examples only print.
\<close>

section \<open>From the bytes of a request to the bytes of its answer\<close>

text \<open>The engine of a model that echoes: the pipeline of the preprocessor, the backend and the echo
  engine, whose stream ends in the items and the exception, if any, that the service iterates.\<close>

definition echo_chat_engine ::
  "(real \<Rightarrow> string) \<Rightarrow> (u32 list \<Rightarrow> string) \<Rightarrow> (string \<Rightarrow> string) \<Rightarrow> 'j OpenAIPreprocessor \<Rightarrow> (u32 \<Rightarrow> string)
     \<Rightarrow> u64 \<Rightarrow> u64 \<Rightarrow> u64 \<Rightarrow> 'j ChatEngine" where
  "echo_chat_engine show dump_ids dump_str pp ts r1 r2 now req =
     rbind (chat_generate show dump_ids dump_str pp r1 r2 now req
              (backend_engine (ByteLevelTokenizer ts) (pp_mdcsum pp) False (echo_generate (\<lambda>_. False))
                 :: BackendInput \<Rightarrow> unit StreamOut res))
       (\<lambda>ps. Inr (ps_items ps, ps_thrown ps))"

text \<open>A service with one model, whose engine echoes, and a request that does not ask for a stream.\<close>

definition echo_service :: "nat ServiceConfig" where
  "echo_service = (demo_service False ([], None))\<lparr>sf_models :=
     add_chat_model ''m'' (echo_chat_engine (\<lambda>_. []) (\<lambda>_. []) id demo_preprocessor (\<lambda>_. []) 1 2 3) ModelManager_new\<rparr>"

lemma streaming_flag_ignored:
  "chat_template_input (r\<lparr>cr_stream := x\<rparr>) = chat_template_input r"
  "chat_sampling_options show (r\<lparr>cr_stream := x\<rparr>) = chat_sampling_options show r"
  "echoable (r\<lparr>cr_stream := x\<rparr>) n = echoable r n"
  by (simp_all add: chat_template_input_def chat_sampling_options_def echoable_def)

text \<open>C40.  A chat request over HTTP is answered with the prompt. The bytes of a connection, in any
  segments, begin with a chat request that does not ask for a stream, for a model whose engine is
  the preprocessor, the backend and the echo engine with the byte-level tokenizer. Its prompt
  renders to complete UTF-8 characters other than U+FFFD, fewer than \<open>2\<close> to the \<open>30\<close> bytes; its
  sampling options are valid; it has no stop sequences, does not set \<open>ignore_eos\<close>, and its limit
  on tokens, if any, is at least the number of bytes; the end-of-sequence identifiers are not bytes; and
  a response with this content can be printed. The client keeps reading. One step of the server
  writes a response of status 200 with the printed chat completion, whose only choice is the assistant
  repeating the rendered prompt and whose usage counts every byte of it as a prompt and as a
  completion token, leaves the reader behind the request, and counts one success with no request
  in flight more than before.
\<close>

theorem http_chat_echo:
  assumes "list_all (\<lambda>w. utf8_char w \<and> w \<noteq> kReplacementChar) ws" "length (concat ws) < 2 ^ 30"
    and "pp_render pp (chat_template_input req) = Inr (concat ws)" "pp_tokenizer pp = ByteLevelTokenizer ts"
    and "\<forall>i\<in>set (pp_eos_token_ids pp). 256 \<le> i" "chat_sampling_options show req = Inr options"
    and "echoable req (length (concat ws))" "\<And>l. mset (sf_chat_iter cfg l) = mset l"
    and "sf_parse_chat cfg body = Inr req" "cr_stream req \<noteq> Some True"
    and "get_chat_engine (cr_model req) (sf_models cfg) =
           Some (echo_chat_engine show dump_ids dump_str pp ts r1 r2 now)"
    and "enable_chat_endpoints opts" "service_ok st" "pe_limit p = None"
    and "request_ok ''POST'' ''/v1/chat/completions'' headers body"
    and "lr_bytes r = print_request ''POST'' ''/v1/chat/completions'' headers body @ rest"
    and "\<And>resp. re_model resp = cr_model req \<Longrightarrow> map (rm_content \<circ> ch_message) (re_choices resp) = [Some (concat ws)]
           \<Longrightarrow> \<not> isl (sf_dump_chat cfg resp)"
  shows "\<exists>resp answer r' st'. let ka = keep_alive_of (header_map (headers @ [(''Content-Length'', dec_nat (length body))]))
      in sf_dump_chat cfg resp = Inr answer
        \<and> handle_one (service_routes opts cfg) r p st =
          ((Inr ka, p\<lparr>pe_sent := pe_sent p @ response_head (plain_response 200 ''application/json'' answer
                :: ServiceState HttpResponse) ka @ ''Content-Length: '' @ dec_nat (length answer) @ crlf @ crlf @ answer\<rparr>,
            st'), r')
        \<and> lr_bytes r' = rest
        \<and> re_choices resp = [\<lparr>ch_index = 0,
             ch_message = \<lparr>rm_role = ''assistant'', rm_content = Some (concat ws)\<rparr>,
             ch_finish_reason = Some ''stop'', ch_logprobs = None\<rparr>]
        \<and> re_usage resp = Some \<lparr>prompt_tokens = int (length (concat ws)),
             completion_tokens = int (length (concat ws)), total_tokens = 2 * int (length (concat ws))\<rparr>
        \<and> (\<forall>model. inflight model (sv_metrics st') = inflight model (sv_metrics st))
        \<and> request_count (cr_model req) ''chat_completions'' ''unary'' ''success'' (sv_metrics st') =
            request_count (cr_model req) ''chat_completions'' ''unary'' ''success'' (sv_metrics st) + 1"
proof -
  define rq where "rq = parsed_request ''POST'' ''/v1/chat/completions'' headers body"
  have path: "takeWhile (\<lambda>c. c \<noteq> CHR ''?'') ''/v1/chat/completions'' = ''/v1/chat/completions''" by code_simp
  have rq: "is_chat_post rq" "rq_body rq = body"
    "rq_headers rq = header_map (headers @ [(''Content-Length'', dec_nat (length body))])"
    by (simp_all add: rq_def parsed_request_def is_chat_post_def path)
  let ?ka = "keep_alive_of (rq_headers rq)" and ?g = "chat_guard req" and ?sreq = "req\<lparr>cr_stream := Some True\<rparr>"
  from handle_one_printed [OF assms(15,16), of "service_routes opts cfg" p st] obtain r' where
    one: "handle_one (service_routes opts cfg) r p st = (route_request (service_routes opts cfg) rq ?ka p st, r')"
    and rest: "lr_bytes r' = rest" unfolding rq_def by blast
  have g: "\<not> gd_streaming ?g" using assms(10) by (simp add: chat_guard_def)
  have parse: "sf_parse_chat cfg (rq_body rq) = Inr req" using assms(9) rq(2) by simp
  note flag = streaming_flag_ignored [where r = req and x = "Some True"]
  from echo_chat_response [OF assms(1,2) assms(3) [folded flag(1)] assms(4,5) assms(6) [folded flag(2)]
      assms(7) [folded flag(3)] assms(8) refl, where validate = False and dump_ids = dump_ids and dump_str = dump_str and ?r1.0 = r1 and ?r2.0 = r2 and now = now and ?'f = unit]
  obtain items resp where items: "echo_chat_engine show dump_ids dump_str pp ts r1 r2 now ?sreq = Inr (items, None)"
    and resp: "chat_finalize (sf_chat_iter cfg) (fold chat_push items ChatDeltaAggregator_new) = Inr resp"
    "re_choices resp = [\<lparr>ch_index = 0, ch_message = \<lparr>rm_role = ''assistant'', rm_content = Some (concat ws)\<rparr>,
        ch_finish_reason = Some ''stop'', ch_logprobs = None\<rparr>]"
    "re_usage resp = Some \<lparr>prompt_tokens = int (length (concat ws)),
        completion_tokens = int (length (concat ws)), total_tokens = 2 * int (length (concat ws))\<rparr>"
    "re_model resp = cr_model req"
    by (fastforce simp: echo_chat_engine_def)
  from assms(17) [of resp] resp(2,4) obtain answer where answer: "sf_dump_chat cfg resp = Inr answer"
    by (cases "sf_dump_chat cfg resp") auto
  have run: "handle_chat cfg rq st =
      (Inr (plain_response 200 ''application/json'' answer), end_request ?g True (sf_seconds cfg) (begun ?g st))"
    unfolding handle_chat_run [OF parse assms(11)] items
    using g by (simp add: run_openai_route_def chat_unary_body_def resp(1) answer begun_def)
  let ?out = "response_head (plain_response 200 ''application/json'' answer :: ServiceState HttpResponse) ?ka
    @ ''Content-Length: '' @ dec_nat (length answer) @ crlf @ crlf @ answer"
  have w: "write_response (answer_of (Inr (plain_response 200 ''application/json'' answer))) ?ka p s =
      (Inr (), p\<lparr>pe_sent := pe_sent p @ ?out\<rparr>, s)" for s :: ServiceState
    using assms(14) by (simp add: write_response_def plain_response_def write_unlimited answer_of_def)
  from dispatch_chat [OF assms(12) rq(1) run w] one
  have "handle_one (service_routes opts cfg) r p st =
      ((Inr ?ka, p\<lparr>pe_sent := pe_sent p @ ?out\<rparr>, end_request ?g True (sf_seconds cfg) (begun ?g st)), r')" by simp
  moreover have "counted_once ?g st (end_request ?g True (sf_seconds cfg) (begun ?g st)) True"
    by (rule counted_end [OF assms(13)])
  ultimately show ?thesis
    using rest resp(2,3) g answer
    by (intro exI [of _ resp] exI [of _ answer] exI [of _ r'] exI [of _ "end_request ?g True (sf_seconds cfg) (begun ?g st)"])
      (simp add: Let_def rq(3) counted_once_def guard_key_def chat_guard_def)
qed

theorem http_chat_echo_witness:
  "\<exists>(resp :: nat ChatResponse) r' st'. handle_one
      (service_routes \<lparr>enable_chat_endpoints = True, enable_completion_endpoints = True\<rparr> echo_service)
      \<lparr>lr_buf = [], lr_recv = [print_request ''POST'' ''/v1/chat/completions'' [] ''{}'']\<rparr>
      \<lparr>pe_sent = [], pe_limit = None\<rparr> demo_state =
      ((Inr (keep_alive_of (header_map [(''Content-Length'', ''2'')])),
        \<lparr>pe_sent = response_head (plain_response 200 ''application/json'' (re_id resp) :: ServiceState HttpResponse)
             (keep_alive_of (header_map [(''Content-Length'', ''2'')]))
           @ ''Content-Length: '' @ dec_nat (length (re_id resp)) @ crlf @ crlf @ re_id resp,
         pe_limit = None\<rparr>, st'), r')
    \<and> lr_bytes r' = [] \<and> map (rm_content \<circ> ch_message) (re_choices resp) = [Some ''hi'']
    \<and> request_count ''m'' ''chat_completions'' ''unary'' ''success'' (sv_metrics st') =
        request_count ''m'' ''chat_completions'' ''unary'' ''success'' (sv_metrics demo_state) + 1"
proof -
  let ?r = "(demo_chat ''hi'')\<lparr>cr_stream := Some False\<rparr>"
  have ws: "list_all (\<lambda>w. utf8_char w \<and> w \<noteq> kReplacementChar) [''h'', ''i'']" by code_simp
  have render: "pp_render demo_preprocessor (chat_template_input ?r) = Inr (concat [''h'', ''i''])"
    by (simp add: demo_preprocessor_def demo_chat_def chat_template_input_def message_json_def)
  have sampling: "chat_sampling_options (\<lambda>_. []) ?r = Inr (SamplingOptions_new\<lparr>so_temperature := Some 1\<rparr>)"
    by (simp add: chat_sampling_options_def extract_sampling_ok in_range_def demo_chat_def kTemperatureRange_def
        SamplingOptions_new_def)
  have tk: "pp_tokenizer demo_preprocessor = ByteLevelTokenizer (\<lambda>_. [])"
    "\<forall>i\<in>set (pp_eos_token_ids demo_preprocessor). 256 \<le> i"
    by (simp_all add: demo_preprocessor_def kEosId_def)
  have ok: "echoable ?r (length (concat [''h'', ''i'']))" by (simp add: echoable_def demo_chat_def)
  have cfg: "sf_parse_chat echo_service ''{}'' = Inr ?r" "\<And>l. mset (sf_chat_iter echo_service l) = mset l"
    "get_chat_engine (cr_model ?r) (sf_models echo_service) =
       Some (echo_chat_engine (\<lambda>_. []) (\<lambda>_. []) id demo_preprocessor (\<lambda>_. []) 1 2 3)"
    "sf_dump_chat echo_service = Inr \<circ> re_id" "cr_model ?r = ''m''"
    by (simp_all add: echo_service_def demo_service_def get_chat_engine_def add_chat_model_def ModelManager_new_def
        demo_chat_def)
  have "CHR '' '' \<notin> set ''POST''" "nl \<notin> set ''POST''" "nl \<notin> set ''/v1/chat/completions''" by code_simp+
  then have rok: "request_ok ''POST'' ''/v1/chat/completions'' [] ''{}''"
    by (simp add: request_ok_def kMaxHeaderBytes_def kMaxBodyBytes_def)
  have bytes: "lr_bytes \<lparr>lr_buf = [], lr_recv = [print_request ''POST'' ''/v1/chat/completions'' [] ''{}'']\<rparr> =
      print_request ''POST'' ''/v1/chat/completions'' [] ''{}'' @ []"
    by (simp add: lr_bytes_def print_request_def)
  have len: "dec_nat (length ''{}'') = ''2''" by code_simp
  let ?opts = "\<lparr>enable_chat_endpoints = True, enable_completion_endpoints = True\<rparr>"
    and ?p = "\<lparr>pe_sent = [], pe_limit = None\<rparr>"
  have side: "length (concat [''h'', ''i'']) < 2 ^ 30" "cr_stream ?r \<noteq> Some True" "enable_chat_endpoints ?opts"
    "pe_limit ?p = None" by simp_all
  have prints: "\<not> isl (sf_dump_chat echo_service resp)" for resp by (simp add: cfg(4))
  show ?thesis
    using http_chat_echo [OF ws side(1) render tk sampling ok cfg(2,1) side(2) cfg(3) side(3) demo_service_facts(2)
        side(4) rok bytes prints, unfolded Let_def len cfg(4,5)]
    by - (erule ex_forward, erule exE, (erule ex_forward)+, simp add: len)
qed

end
